(* ===== verification/Prelude.thy ===== *)
theory Prelude
  imports Complex_Main "HOL-Library.Word" "HOL-Library.Monad_Syntax" "HOL-Library.Multiset"
begin

text \<open>
  Shared vocabulary of the development: the Go types the program uses, the parts of the
  Go language and of its standard library that several components rely on, and the
  generic lemmas about them.

  \<^item> Fixed-width integers are words. An \<open>int64\<close> is a \<open>64 word\<close> read with \<open>sint\<close>;
    \<open>uint64(x)\<close> on an \<open>int64\<close> keeps the bits, hence is the identity on the model.
    \<open>int\<close> values that are lengths, counts or indices are \<open>nat\<close>.
  \<^item> A run-time panic (index or slice bounds out of range, assignment to an entry of a
    nil map) is the value \<open>None\<close> of an \<open>option\<close>; a Go \<open>error\<close> is a value of an error
    datatype of the component, in a sum. The option monad threads panics.
  \<^item> \<open>encoding/binary\<close>: little-endian and big-endian reads and writes.
  \<^item> A Go map is \<open>None\<close> when nil and an association list with distinct keys otherwise;
    \<open>range\<close> over it visits the entries in an order the run time chooses.
\<close>

unbundle bit_operations_syntax

type_synonym u8 = "8 word"
type_synonym u16 = "16 word"
type_synonym u32 = "32 word"
type_synonym u64 = "64 word"
type_synonym i64 = "64 word"
type_synonym bytes = "u8 list"

named_theorems slice_ops \<open>reads and writes of byte slices\<close>
named_theorems go_map \<open>operations on Go maps\<close>
named_theorems byte_order \<open>little- and big-endian conversions\<close>

section \<open>Byte slices\<close>

definition subslice :: "'a list \<Rightarrow> nat \<Rightarrow> nat \<Rightarrow> 'a list option" where
  "subslice b i j = (if i \<le> j \<and> j \<le> length b then Some (take (j - i) (drop i b)) else None)"

definition put_at :: "'a list \<Rightarrow> nat \<Rightarrow> 'a list \<Rightarrow> 'a list option" where
  "put_at dst off src =
     (if off + length src \<le> length dst
      then Some (take off dst @ src @ drop (off + length src) dst) else None)"

definition copy_at :: "'a list \<Rightarrow> nat \<Rightarrow> 'a list \<Rightarrow> 'a list option" where
  \<comment> \<open>\<open>copy(dst[off:], src)\<close>: copies the shorter of the two lengths.\<close>
  "copy_at dst off src =
     (if off \<le> length dst
      then put_at dst off (take (length dst - off) src) else None)"

lemma subslice_eq_Some [slice_ops]:
  "i \<le> j \<Longrightarrow> j \<le> length b \<Longrightarrow> subslice b i j = Some (take (j - i) (drop i b))"
  by (simp add: subslice_def)

lemma subslice_len: "subslice b i j = Some s \<Longrightarrow> length s = j - i"
  by (auto simp: subslice_def split: if_splits)

lemma put_at_eq_Some [slice_ops]:
  "off + length src \<le> length dst \<Longrightarrow>
   put_at dst off src = Some (take off dst @ src @ drop (off + length src) dst)"
  by (simp add: put_at_def)

lemma put_at_len: "put_at dst off src = Some d \<Longrightarrow> length d = length dst"
  by (auto simp: put_at_def split: if_splits)

lemma put_at_append:
  "length pre = off \<Longrightarrow> length old = length new \<Longrightarrow>
   put_at (pre @ old @ rest) off new = Some (pre @ new @ rest)"
  by (simp add: put_at_def)

lemma copy_at_exact [slice_ops]:
  "off + length src = length dst \<Longrightarrow> copy_at dst off src = Some (take off dst @ src)"
  by (simp add: copy_at_def put_at_def)

lemma take_drop_chunk: "j = i + n \<Longrightarrow> take n (drop i b) @ drop j b = drop i b"
  by (metis append_take_drop_id drop_drop add.commute)

section \<open>Byte order\<close>

definition le_bytes :: "nat \<Rightarrow> 'a::len word \<Rightarrow> bytes" where
  "le_bytes n w = map (\<lambda>i. ucast (drop_bit (8 * i) w)) [0..<n]"

primrec le_word :: "bytes \<Rightarrow> 'a::len word" where
  "le_word [] = 0"
| "le_word (b # bs) = ucast b OR push_bit 8 (le_word bs)"

definition be_bytes :: "nat \<Rightarrow> 'a::len word \<Rightarrow> bytes" where
  "be_bytes n w = rev (le_bytes n w)"

definition be_word :: "bytes \<Rightarrow> 'a::len word" where
  "be_word bs = le_word (rev bs)"

lemma length_le_bytes [simp]: "length (le_bytes n w) = n"
  by (simp add: le_bytes_def)

lemma length_be_bytes [simp]: "length (be_bytes n w) = n"
  by (simp add: be_bytes_def)

lemma bit_le_word:
  "bit (le_word bs :: 'a::len word) i \<longleftrightarrow>
     i < LENGTH('a) \<and> i div 8 < length bs \<and> bit (bs ! (i div 8)) (i mod 8)"
proof (induction bs arbitrary: i)
  case Nil
  then show ?case by simp
next
  case (Cons b bs)
  show ?case
  proof (cases "i < 8")
    case True
    then show ?thesis by (auto simp: bit_or_iff bit_push_bit_iff bit_ucast_iff)
  next
    case False
    then obtain k where k: "i = 8 + k" by (metis le_add_diff_inverse not_less)
    have d: "(8 + k) div 8 = Suc (k div 8)" by simp
    have "\<not> bit b i"
      using False by (auto dest: bit_imp_le_length)
    then show ?thesis
      using Cons.IH [of k] by (auto simp: k d bit_or_iff bit_push_bit_iff bit_ucast_iff)
  qed
qed

lemma nth_le_bytes [simp]: "i < n \<Longrightarrow> le_bytes n w ! i = ucast (drop_bit (8 * i) w)"
  by (simp add: le_bytes_def)

lemma le_word_le_bytes [simp, byte_order]:
  assumes "LENGTH('a::len) \<le> 8 * n"
  shows "le_word (le_bytes n (w :: 'a word)) = w"
proof (rule bit_word_eqI)
  fix i assume i: "i < LENGTH('a)"
  have "i div 8 < n" using i assms by linarith
  moreover have "8 * (i div 8) + i mod 8 = i" by simp
  ultimately show "bit (le_word (le_bytes n w) :: 'a word) i = bit w i"
    using i by (simp add: bit_le_word bit_ucast_iff bit_drop_bit_eq)
qed

lemma le_bytes_le_word [simp, byte_order]:
  assumes "length bs = n" and "8 * n \<le> LENGTH('a::len)"
  shows "le_bytes n (le_word bs :: 'a word) = bs"
proof (rule nth_equalityI)
  fix i assume "i < length (le_bytes n (le_word bs :: 'a word))"
  then have i: "i < n" by simp
  show "le_bytes n (le_word bs :: 'a word) ! i = bs ! i"
  proof (rule bit_word_eqI)
    fix k assume k: "k < LENGTH(8)"
    with i assms have "8 * i + k < LENGTH('a)" by simp
    with i k assms show "bit (le_bytes n (le_word bs :: 'a word) ! i) k = bit (bs ! i) k"
      by (simp add: bit_ucast_iff bit_drop_bit_eq bit_le_word)
  qed
qed (use assms in simp)

lemma be_word_be_bytes [simp, byte_order]:
  "LENGTH('a::len) \<le> 8 * n \<Longrightarrow> be_word (be_bytes n (w :: 'a word)) = w"
  by (simp add: be_word_def be_bytes_def)

lemma be_bytes_be_word [simp, byte_order]:
  "length bs = n \<Longrightarrow> 8 * n \<le> LENGTH('a::len) \<Longrightarrow> be_bytes n (be_word bs :: 'a word) = bs"
  by (simp add: be_word_def be_bytes_def)

text \<open>\<open>binary.LittleEndian.UintN\<close> and \<open>binary.BigEndian.UintN\<close> index byte \<open>N/8 - 1\<close> first,
  which panics on a shorter slice.\<close>

definition LE_Uint16 :: "bytes \<Rightarrow> u16 option" where
  "LE_Uint16 b = (if length b < 2 then None else Some (le_word (take 2 b)))"

definition LE_Uint32 :: "bytes \<Rightarrow> u32 option" where
  "LE_Uint32 b = (if length b < 4 then None else Some (le_word (take 4 b)))"

definition LE_Uint64 :: "bytes \<Rightarrow> u64 option" where
  "LE_Uint64 b = (if length b < 8 then None else Some (le_word (take 8 b)))"

definition BE_Uint32 :: "bytes \<Rightarrow> u32 option" where
  "BE_Uint32 b = (if length b < 4 then None else Some (be_word (take 4 b)))"

lemma xor_right_cancel: "(a :: 'a::len word) XOR v = b XOR v \<Longrightarrow> a = b"
  by (metis xor.assoc xor.right_neutral xor_self_eq)

lemma xor_left_cancel: "v XOR (a :: 'a::len word) = v XOR b \<Longrightarrow> a = b"
  by (metis xor.commute xor_right_cancel)

lemma le_word_inject:
  "length a = n \<Longrightarrow> length b = n \<Longrightarrow> 8 * n \<le> LENGTH('a::len) \<Longrightarrow>
   (le_word a :: 'a word) = le_word b \<Longrightarrow> a = b"
  by (metis le_bytes_le_word)

lemmas uint_reads = LE_Uint16_def LE_Uint32_def LE_Uint64_def BE_Uint32_def

section \<open>Counting on words\<close>

lemma unat_add_one: "s \<noteq> -1 \<Longrightarrow> unat (s + 1) = Suc (unat s)" for s :: "'a::len word"
  by (metis add.commute add_eq_0_iff2 unatSuc)

lemma unat_add_one_less: "s < t \<Longrightarrow> unat (s + 1) = Suc (unat s)" for s :: "'a::len word"
  by (rule unat_add_one) (use word_order.extremum_strict in blast)

lemma ex_interval_first:
  "a < b \<Longrightarrow> (\<exists>m::nat. a \<le> m \<and> m < b \<and> P m) \<longleftrightarrow> P a \<or> (\<exists>m. Suc a \<le> m \<and> m < b \<and> P m)"
  by (metis Suc_leD le_neq_implies_less Suc_leI order_refl)

lemma mod_eq_close:
  fixes m n r :: nat
  assumes "n mod r = m mod r" and "n < m + r" and "m < n + r"
  shows "n = m"
proof (rule ccontr)
  assume "n \<noteq> m"
  then have "r dvd max n m - min n m" "0 < max n m - min n m" "max n m - min n m < r"
    using assms by (auto simp: max_def min_def mod_eq_dvd_iff_nat [symmetric])
  then show False by (metis nat_dvd_not_less)
qed

section \<open>Lists\<close>

lemma distinct_concat_map:
  "distinct xs \<Longrightarrow> (\<And>x. x \<in> set xs \<Longrightarrow> distinct (f x)) \<Longrightarrow>
   (\<And>x y. x \<in> set xs \<Longrightarrow> y \<in> set xs \<Longrightarrow> x \<noteq> y \<Longrightarrow> set (f x) \<inter> set (f y) = {}) \<Longrightarrow>
   distinct (concat (map f xs))"
  by (induction xs) fastforce+

lemma fold_add_nat: "fold (\<lambda>s n. n + f s) xs k = k + sum_list (map f xs)" for k :: nat
  by (induction xs arbitrary: k) auto

lemma nth_update_if: "xs[i := v] ! j = (if i = j \<and> j < length xs then v else xs ! j)"
  by (cases "i < length xs") (auto simp: nth_list_update list_update_beyond)

lemma length_filter_all: "length (filter P xs) = length xs \<longleftrightarrow> (\<forall>x \<in> set xs. P x)"
  by (metis filter_id_conv length_filter_less nat_neq_iff)

lemma map_via_nth: "map f xs = map (\<lambda>i. f (xs ! i)) [0..<length xs]"
  by (rule nth_equalityI) auto

section \<open>Running operations that may panic, and refinement\<close>

primrec run_opt :: "('s \<Rightarrow> 'e \<Rightarrow> 's option) \<Rightarrow> 's \<Rightarrow> 'e list \<Rightarrow> 's option" where
  "run_opt f s [] = Some s"
| "run_opt f s (e # es) = f s e \<bind> (\<lambda>s'. run_opt f s' es)"

lemma run_opt_append: "run_opt f s (xs @ ys) = run_opt f s xs \<bind> (\<lambda>s'. run_opt f s' ys)"
  by (induction xs arbitrary: s) (auto split: bind_splits)

text \<open>A component refines an abstract one when each of its operations, on related states and
  an admissible argument, does not panic and ends in related states. The lemmas lift this
  to sequences of operations.\<close>

locale refinement =
  fixes rel :: "'c \<Rightarrow> 'a \<Rightarrow> bool"
    and ok :: "'e \<Rightarrow> bool"
    and cstep :: "'c \<Rightarrow> 'e \<Rightarrow> 'c option"
    and astep :: "'a \<Rightarrow> 'e \<Rightarrow> 'a"
  assumes step_refines: "rel c a \<Longrightarrow> ok e \<Longrightarrow> \<exists>c'. cstep c e = Some c' \<and> rel c' (astep a e)"
begin

lemma run_refines:
  "rel c a \<Longrightarrow> list_all ok es \<Longrightarrow>
   \<exists>c'. run_opt cstep c es = Some c' \<and> rel c' (fold (\<lambda>e a. astep a e) es a)"
proof (induction es arbitrary: c a)
  case Nil
  then show ?case by simp
next
  case (Cons e es)
  then obtain c' where "cstep c e = Some c'" "rel c' (astep a e)"
    using step_refines by fastforce
  then show ?case using Cons by simp
qed

lemma run_related:
  "rel c a \<Longrightarrow> list_all ok es \<Longrightarrow> run_opt cstep c es = Some c' \<Longrightarrow>
   rel c' (fold (\<lambda>e a. astep a e) es a)"
  using run_refines by fastforce

end

section \<open>Decimal numbers\<close>

text \<open>What \<open>%d\<close> prints.\<close>

definition digit_char :: "nat \<Rightarrow> char" where "digit_char n = ''0123456789'' ! n"

fun dec :: "nat \<Rightarrow> string" where
  "dec n = (if n < 10 then [digit_char n] else dec (n div 10) @ [digit_char (n mod 10)])"

declare dec.simps [simp del]

definition dec_int :: "int \<Rightarrow> string" where
  "dec_int i = (if i < 0 then CHR ''-'' # dec (nat (- i)) else dec (nat i))"

lemma digit_char_inj: "m < 10 \<Longrightarrow> n < 10 \<Longrightarrow> digit_char m = digit_char n \<longleftrightarrow> m = n"
  unfolding digit_char_def by (subst nth_eq_iff_index_eq) simp_all

lemma dec_not_Nil [simp]: "dec n \<noteq> []" "[] \<noteq> dec n"
  by (subst dec.simps, simp)+

lemma dec_inj: "dec m = dec n \<longleftrightarrow> m = n"
proof
  show "dec m = dec n \<Longrightarrow> m = n"
  proof (induction m arbitrary: n rule: dec.induct)
    case (1 m)
    show ?case
    proof (cases "m < 10")
      case True
      then show ?thesis using 1(2) by (subst (asm) (1 2) dec.simps) (auto simp: digit_char_inj split: if_splits)
    next
      case False
      with 1(2) have n: "\<not> n < 10" by (subst (asm) (1 2) dec.simps) (auto split: if_splits)
      have e: "dec (m div 10) @ [digit_char (m mod 10)] = dec (n div 10) @ [digit_char (n mod 10)]"
        using 1(2) False n by (subst (asm) (1 2) dec.simps) simp
      then have "m div 10 = n div 10" "m mod 10 = n mod 10" using 1(1) [OF False] by (simp_all add: digit_char_inj)
      then show ?thesis by (metis div_mult_mod_eq)
    qed
  qed
qed simp

end
