(* ===== verification/Wire.thy ===== *)
theory Wire
  imports Prelude
begin

text \<open>
  The wire frame of \<^verbatim>\<open>pkg/wire/frame.go\<close>: the 24-byte header, \<open>Encode\<close>, \<open>EncodeInto\<close>,
  \<open>EncodeAppend\<close>, \<open>Decode\<close>, \<open>DecodeHeader\<close> and the Castagnoli \<open>Checksum\<close>.
  \<open>frame_bytes\<close> is the specification of the layout; the lemmas show that every encoder
  writes exactly it, that the decoders invert it, which inputs each error answers, that
  no decoder panics, and that the checksum detects every burst of up to four bytes.
\<close>

section \<open>Constants, errors and the decoded frame\<close>

definition Magic :: u32 where "Magic = 0xBEEFCAFE"
definition HeaderLen :: nat where "HeaderLen = 24"
definition MaxPayload :: nat where "MaxPayload = 64 * 1024 * 1024"

datatype wire_error =
    ErrBufferTooShort nat nat   \<comment> \<open>needed, got\<close>
  | ErrInvalidMagic u32         \<comment> \<open>got\<close>
  | ErrPayloadOverflow nat nat  \<comment> \<open>needed, got\<close>
  | ErrPayloadTooLarge u32      \<comment> \<open>declared length\<close>

record Frame =
  SeqNum :: u64
  SendNs :: i64
  PayloadLen :: u32
  Payload :: bytes

section \<open>Encoding\<close>

definition EncodeInto :: "bytes \<Rightarrow> u64 \<Rightarrow> i64 \<Rightarrow> bytes \<Rightarrow> bytes option" where
  "EncodeInto dst seq sendNs payload =
     (if HeaderLen + length payload - 1 < length dst then do {
        d1 \<leftarrow> put_at dst 0 (le_bytes 4 Magic);
        d2 \<leftarrow> put_at d1 4 (le_bytes 8 seq);
        d3 \<leftarrow> put_at d2 12 (le_bytes 8 sendNs);
        d4 \<leftarrow> put_at d3 20 (le_bytes 4 (of_nat (length payload) :: u32));
        copy_at d4 24 payload
      } else None)"

definition Encode :: "u64 \<Rightarrow> i64 \<Rightarrow> bytes \<Rightarrow> bytes option" where
  "Encode seq sendNs payload =
     EncodeInto (replicate (HeaderLen + length payload) 0) seq sendNs payload"

definition EncodedLen :: "nat \<Rightarrow> nat" where
  "EncodedLen payloadLen = HeaderLen + payloadLen"

text \<open>A slice with spare capacity: its backing array and its length.\<close>

record byte_slice =
  backing :: bytes
  slen :: nat

definition contents :: "byte_slice \<Rightarrow> bytes" where
  "contents s = take (slen s) (backing s)"

definition wf_slice :: "byte_slice \<Rightarrow> bool" where
  "wf_slice s \<longleftrightarrow> slen s \<le> length (backing s)"

definition EncodeAppend :: "byte_slice \<Rightarrow> u64 \<Rightarrow> i64 \<Rightarrow> bytes \<Rightarrow> byte_slice option" where
  "EncodeAppend dst seq sendNs payload =
     (let need = HeaderLen + length payload;
          dst' = (if length (backing dst) - slen dst < need
                  then \<lparr>backing = contents dst @ replicate (need + 1024) 0, slen = slen dst\<rparr>
                  else dst);
          start = slen dst'
      in if start + need \<le> length (backing dst')
         then do {
           out \<leftarrow> EncodeInto (take need (drop start (backing dst'))) seq sendNs payload;
           arr \<leftarrow> put_at (backing dst') start out;
           Some \<lparr>backing = arr, slen = start + need\<rparr>
         }
         else None)"

section \<open>Decoding\<close>

definition Decode :: "bytes \<Rightarrow> (wire_error + Frame \<times> nat) option" where
  "Decode b =
     (if length b < HeaderLen then Some (Inl (ErrBufferTooShort HeaderLen (length b)))
      else do {
        m \<leftarrow> subslice b 0 4 \<bind> LE_Uint32;
        if m \<noteq> Magic then Some (Inl (ErrInvalidMagic m))
        else do {
          seq \<leftarrow> subslice b 4 12 \<bind> LE_Uint64;
          sendNs \<leftarrow> subslice b 12 20 \<bind> LE_Uint64;
          plen \<leftarrow> subslice b 20 24 \<bind> LE_Uint32;
          if unat plen > MaxPayload then Some (Inl (ErrPayloadTooLarge plen))
          else (let total = HeaderLen + unat plen in
            if total > length b then Some (Inl (ErrPayloadOverflow total (length b)))
            else do {
              p \<leftarrow> subslice b HeaderLen total;
              Some (Inr (\<lparr>SeqNum = seq, SendNs = sendNs, PayloadLen = plen, Payload = p\<rparr>, total))
            })
        }
      })"

definition DecodeHeader :: "bytes \<Rightarrow> (wire_error + u64 \<times> i64 \<times> u32) option" where
  "DecodeHeader b =
     (if length b < HeaderLen then Some (Inl (ErrBufferTooShort HeaderLen (length b)))
      else do {
        m \<leftarrow> subslice b 0 4 \<bind> LE_Uint32;
        if m \<noteq> Magic then Some (Inl (ErrInvalidMagic m))
        else do {
          seq \<leftarrow> subslice b 4 12 \<bind> LE_Uint64;
          sendNs \<leftarrow> subslice b 12 20 \<bind> LE_Uint64;
          plen \<leftarrow> subslice b 20 24 \<bind> LE_Uint32;
          Some (Inr (seq, sendNs, plen))
        }
      })"

section \<open>Checksum\<close>

text \<open>\<open>hash/crc32\<close> for the Castagnoli polynomial, bit-reflected: the 256-entry table of
  \<open>MakeTable\<close> and the byte-wise \<open>Update\<close>.\<close>

definition Castagnoli :: u32 where "Castagnoli = 0x82F63B78"

definition crc_step :: "u32 \<Rightarrow> u32" where
  "crc_step c = (if c AND 1 = 1 then drop_bit 1 c XOR Castagnoli else drop_bit 1 c)"

fun crc_bits :: "nat \<Rightarrow> u32 \<Rightarrow> u32" where
  "crc_bits 0 c = c"
| "crc_bits (Suc k) c = crc_bits k (crc_step c)"

definition crcTable :: "u32 list" where
  "crcTable = map (\<lambda>i. crc_bits 8 (of_nat i)) [0..<256]"

definition crc32_byte :: "u8 \<Rightarrow> u32 \<Rightarrow> u32" where
  "crc32_byte v c = crcTable ! unat (ucast c XOR v) XOR drop_bit 8 c"

definition crc32_Update :: "u32 \<Rightarrow> bytes \<Rightarrow> u32" where
  "crc32_Update crc p = NOT (fold crc32_byte p (NOT crc))"

definition Checksum :: "u64 \<Rightarrow> i64 \<Rightarrow> u32 \<Rightarrow> bytes \<Rightarrow> u32" where
  "Checksum seq sendNs payloadLen payload =
     (let hdr = le_bytes 8 seq @ le_bytes 8 sendNs @ le_bytes 4 payloadLen;
          h = crc32_Update 0 hdr
      in crc32_Update h payload)"

section \<open>The buffer pool\<close>

text \<open>\<open>encPool\<close> as the list of the buffers put back. \<open>sync.Pool\<close> may hand out any of them or
  call \<open>New\<close>; \<open>pick\<close> is that choice.\<close>

definition GetEncBuf :: "byte_slice list \<Rightarrow> nat \<Rightarrow> byte_slice \<times> byte_slice list" where
  "GetEncBuf pool pick =
     (if pick < length pool then (pool ! pick, take pick pool @ drop (Suc pick) pool)
      else (\<lparr>backing = replicate (HeaderLen + 1024) 0, slen = HeaderLen + 1024\<rparr>, pool))"

definition PutEncBuf :: "byte_slice list \<Rightarrow> byte_slice \<Rightarrow> byte_slice list" where
  "PutEncBuf pool b = b\<lparr>slen := 0\<rparr> # pool"

section \<open>The layout\<close>

definition header_bytes :: "u64 \<Rightarrow> i64 \<Rightarrow> u32 \<Rightarrow> bytes" where
  "header_bytes seq sendNs plen =
     le_bytes 4 Magic @ le_bytes 8 seq @ le_bytes 8 sendNs @ le_bytes 4 plen"

definition frame_bytes :: "u64 \<Rightarrow> i64 \<Rightarrow> bytes \<Rightarrow> bytes" where
  "frame_bytes seq sendNs payload = header_bytes seq sendNs (of_nat (length payload)) @ payload"

lemma length_header_bytes [simp]: "length (header_bytes seq ns n) = 24"
  by (simp add: header_bytes_def)

lemma length_frame_bytes [simp]: "length (frame_bytes seq ns p) = 24 + length p"
  by (simp add: frame_bytes_def)

text \<open>The header fields of any long enough buffer.\<close>

definition hdr_magic :: "bytes \<Rightarrow> u32" where "hdr_magic b = le_word (take 4 b)"
definition hdr_seq :: "bytes \<Rightarrow> u64" where "hdr_seq b = le_word (take 8 (drop 4 b))"
definition hdr_ns :: "bytes \<Rightarrow> i64" where "hdr_ns b = le_word (take 8 (drop 12 b))"
definition hdr_plen :: "bytes \<Rightarrow> u32" where "hdr_plen b = le_word (take 4 (drop 20 b))"

lemmas hdr_defs = hdr_magic_def hdr_seq_def hdr_ns_def hdr_plen_def

lemma EncodeInto_eq:
  assumes "24 + length payload \<le> length dst"
  shows "EncodeInto dst seq ns payload =
           Some (frame_bytes seq ns payload @ drop (24 + length payload) dst)"
  using assms
  by (simp add: EncodeInto_def HeaderLen_def frame_bytes_def header_bytes_def slice_ops copy_at_def
      add.commute)

lemma EncodeInto_exact:
  "length dst = 24 + length payload \<Longrightarrow>
   EncodeInto dst seq ns payload = Some (frame_bytes seq ns payload)"
  by (simp add: EncodeInto_eq)

lemma EncodeInto_short:
  assumes "length dst < 24 + length payload"
  shows "EncodeInto dst seq ns payload = None"
  using assms by (simp add: EncodeInto_def HeaderLen_def)

lemma Encode_eq [simp]: "Encode seq ns p = Some (frame_bytes seq ns p)"
  by (simp add: Encode_def EncodeInto_exact HeaderLen_def)

lemma Decode_cases:
  "Decode b =
     Some (if length b < 24 then Inl (ErrBufferTooShort 24 (length b))
           else if hdr_magic b \<noteq> Magic then Inl (ErrInvalidMagic (hdr_magic b))
           else if unat (hdr_plen b) > MaxPayload then Inl (ErrPayloadTooLarge (hdr_plen b))
           else if 24 + unat (hdr_plen b) > length b
                then Inl (ErrPayloadOverflow (24 + unat (hdr_plen b)) (length b))
           else Inr (\<lparr>SeqNum = hdr_seq b, SendNs = hdr_ns b, PayloadLen = hdr_plen b,
                      Payload = take (unat (hdr_plen b)) (drop 24 b)\<rparr>, 24 + unat (hdr_plen b)))"
  by (simp add: Decode_def HeaderLen_def slice_ops uint_reads hdr_defs Let_def)

lemma DecodeHeader_cases:
  "DecodeHeader b =
     Some (if length b < 24 then Inl (ErrBufferTooShort 24 (length b))
           else if hdr_magic b \<noteq> Magic then Inl (ErrInvalidMagic (hdr_magic b))
           else Inr (hdr_seq b, hdr_ns b, hdr_plen b))"
  by (simp add: DecodeHeader_def HeaderLen_def slice_ops uint_reads hdr_defs)

lemma hdr_frame_bytes [simp]:
  "hdr_magic (frame_bytes seq ns p @ rest) = Magic"
  "hdr_seq (frame_bytes seq ns p @ rest) = seq"
  "hdr_ns (frame_bytes seq ns p @ rest) = ns"
  "hdr_plen (frame_bytes seq ns p @ rest) = of_nat (length p)"
  by (simp_all add: hdr_defs frame_bytes_def header_bytes_def)

section \<open>The checksum as a bit-serial register\<close>

lemma bit_crc_step:
  "bit (crc_step c) i \<longleftrightarrow> bit c (Suc i) \<noteq> (bit c 0 \<and> bit Castagnoli i)"
proof -
  have "c AND 1 = 1 \<longleftrightarrow> bit c 0"
    by (simp add: and_one_eq bit_0 odd_iff_mod_2_eq_one)
  then show ?thesis
    by (auto simp: crc_step_def bit_drop_bit_eq bit_xor_iff)
qed

lemma Castagnoli_top: "bit Castagnoli 31"
  by (simp add: Castagnoli_def)

lemma crc_step_inj: "crc_step c = crc_step d \<Longrightarrow> c = d"
proof (rule bit_word_eqI)
  fix i assume eq: "crc_step c = crc_step d" and i: "i < LENGTH(32)"
  have top: "\<not> bit x 32" for x :: u32
    using bit_imp_le_length by fastforce
  have b: "bit (crc_step c) k = bit (crc_step d) k" for k using eq by simp
  from b [of 31] have z: "bit c 0 = bit d 0"
    by (simp add: bit_crc_step top Castagnoli_top)
  show "bit c i = bit d i"
    using b [of "i - 1"] z by (cases i) (auto simp: bit_crc_step)
qed

lemma crc_bits_inj: "crc_bits k c = crc_bits k d \<Longrightarrow> c = d"
  by (induction k arbitrary: c d) (auto dest: crc_step_inj)

lemma crc_step_shift:
  assumes "\<And>i. bit z (Suc i) = bit y i" and "\<not> bit z 0"
  shows "crc_step (x XOR z) = crc_step x XOR y"
  by (rule bit_word_eqI) (auto simp: bit_crc_step bit_xor_iff assms)

lemma crc_bits_shift:
  "(\<And>i. bit y i \<Longrightarrow> i + k < 32) \<Longrightarrow> crc_bits k (x XOR push_bit k y) = crc_bits k x XOR y"
proof (induction k arbitrary: x)
  case 0
  then show ?case by simp
next
  case (Suc k)
  have "bit (push_bit (Suc k) y) (Suc i) = bit (push_bit k y) i" for i
    using Suc.prems [of "i - k"] by (auto simp: bit_push_bit_iff simp del: push_bit_Suc)
  moreover have "\<not> bit (push_bit (Suc k) y) 0"
    by (simp add: bit_push_bit_iff del: push_bit_Suc)
  ultimately have "crc_step (x XOR push_bit (Suc k) y) = crc_step x XOR push_bit k y"
    by (rule crc_step_shift)
  then show ?case using Suc.prems Suc.IH [of "crc_step x"] by fastforce
qed

lemma nth_crcTable: "crcTable ! unat (v :: u8) = crc_bits 8 (ucast v)"
proof -
  have "unat v < 256" using unsigned_less [of v] by simp
  then show ?thesis by (simp add: crcTable_def)
qed

lemma crc32_byte_bits: "crc32_byte v c = crc_bits 8 (c XOR ucast v)"
proof -
  have "c XOR ucast v = ucast (ucast c XOR v) XOR push_bit 8 (drop_bit 8 c)"
    by (rule bit_word_eqI)
      (auto simp: bit_xor_iff bit_push_bit_iff bit_drop_bit_eq bit_ucast_iff dest: bit_imp_le_length)
  moreover have "bit (drop_bit 8 c) i \<Longrightarrow> i + 8 < 32" for i
    using bit_imp_le_length [of c "8 + i"] by (simp add: bit_drop_bit_eq)
  ultimately show ?thesis
    by (simp add: crc32_byte_def nth_crcTable crc_bits_shift)
qed

lemma crc32_byte_inj: "crc32_byte v c = crc32_byte v d \<Longrightarrow> c = d"
  by (auto simp: crc32_byte_bits dest!: crc_bits_inj xor_right_cancel)

lemma fold_crc32_inj: "fold crc32_byte p c = fold crc32_byte p d \<Longrightarrow> c = d"
  by (induction p arbitrary: c d) (auto dest: crc32_byte_inj)

lemma crc_bits_add: "crc_bits (m + n) c = crc_bits n (crc_bits m c)"
  by (induction m arbitrary: c) auto

text \<open>Up to four bytes are one step of 8 n bits on the register.\<close>
lemma fold_crc32_le_word:
  "length p \<le> 4 \<Longrightarrow> fold crc32_byte p c = crc_bits (8 * length p) (c XOR le_word p)"
proof (induction p arbitrary: c)
  case Nil
  then show ?case by simp
next
  case (Cons v p)
  have "(c XOR ucast v) XOR push_bit 8 (le_word p) = c XOR le_word (v # p)"
    by (rule bit_word_eqI)
      (auto simp: bit_xor_iff bit_or_iff bit_push_bit_iff bit_ucast_iff dest: bit_imp_le_length)
  moreover have "bit (le_word p :: u32) i \<Longrightarrow> i + 8 < 32" for i
    using Cons.prems by (auto simp: bit_le_word)
  ultimately have "crc32_byte v c XOR le_word p = crc_bits 8 (c XOR le_word (v # p))"
    by (simp add: crc32_byte_bits flip: crc_bits_shift)
  then show ?case using Cons by (simp add: crc_bits_add)
qed

lemma crc32_Update_append: "crc32_Update (crc32_Update c p) q = crc32_Update c (p @ q)"
  by (simp add: crc32_Update_def)

lemma Checksum_eq:
  "Checksum seq ns n p =
     crc32_Update 0 (le_bytes 8 seq @ le_bytes 8 ns @ le_bytes 4 n @ p)"
  by (simp add: Checksum_def crc32_Update_append Let_def)

lemma crc32_burst:
  assumes "length a \<le> 4" and "length a = length b"
    and "crc32_Update c (xs @ a @ ys) = crc32_Update c (xs @ b @ ys)"
  shows "a = b"
proof -
  let ?c = "fold crc32_byte xs (NOT c)"
  have "fold crc32_byte a ?c = fold crc32_byte b ?c"
    using assms(3) by (auto simp: crc32_Update_def dest: fold_crc32_inj)
  then have "(le_word a :: u32) = le_word b"
    using assms(1,2) by (auto simp: fold_crc32_le_word dest!: crc_bits_inj xor_left_cancel)
  then show ?thesis
    using assms(1,2) by (intro le_word_inject [of a "length a" b, where 'a = 32]) simp_all
qed

section \<open>Encoder and decoder are inverse\<close>

lemma of_nat_len_payload:
  "length p \<le> MaxPayload \<Longrightarrow> unat (of_nat (length p) :: u32) = length p"
  by (simp add: MaxPayload_def unsigned_of_nat take_bit_nat_eq_self_iff)

lemma Decode_frame_bytes:
  "length p \<le> MaxPayload \<Longrightarrow>
   Decode (frame_bytes seq ns p @ rest) =
     Some (Inr (\<lparr>SeqNum = seq, SendNs = ns, PayloadLen = of_nat (length p), Payload = p\<rparr>,
                24 + length p))"
  by (simp add: Decode_cases of_nat_len_payload) (simp add: frame_bytes_def)

lemma split_header:
  assumes "24 \<le> length b" and "hdr_magic b = Magic"
  shows "b = header_bytes (hdr_seq b) (hdr_ns b) (hdr_plen b) @ drop 24 b"
proof -
  have "b = take 4 b @ take 8 (drop 4 b) @ take 8 (drop 12 b) @ take 4 (drop 20 b) @ drop 24 b"
    by (simp add: take_drop_chunk)
  also have "\<dots> = le_bytes 4 (hdr_magic b) @ le_bytes 8 (hdr_seq b) @ le_bytes 8 (hdr_ns b)
                  @ le_bytes 4 (hdr_plen b) @ drop 24 b"
    using assms(1) by (simp add: hdr_defs)
  finally show ?thesis using assms(2) by (simp add: header_bytes_def)
qed

lemma Decode_Inr_iff:
  "Decode b = Some (Inr (f, n)) \<longleftrightarrow>
     (\<exists>rest. b = frame_bytes (SeqNum f) (SendNs f) (Payload f) @ rest) \<and>
     PayloadLen f = of_nat (length (Payload f)) \<and>
     length (Payload f) \<le> MaxPayload \<and> n = 24 + length (Payload f)"
    (is "?L \<longleftrightarrow> ?R")
proof
  assume ?L
  then have len: "24 \<le> length b" and magic: "hdr_magic b = Magic"
    and fits: "24 + unat (hdr_plen b) \<le> length b" "unat (hdr_plen b) \<le> MaxPayload"
    and f: "f = \<lparr>SeqNum = hdr_seq b, SendNs = hdr_ns b, PayloadLen = hdr_plen b,
                Payload = take (unat (hdr_plen b)) (drop 24 b)\<rparr>"
    and n: "n = 24 + unat (hdr_plen b)"
    by (auto simp: Decode_cases split: if_splits)
  have lp: "length (Payload f) = unat (hdr_plen b)" using fits by (simp add: f)
  have "b = frame_bytes (SeqNum f) (SendNs f) (Payload f) @ drop n b"
    using split_header [OF len magic] lp
    by (simp add: frame_bytes_def f n take_drop_chunk)
  then show ?R using lp fits by (auto simp: f n)
next
  assume ?R
  then show ?L by (cases f) (auto simp: Decode_frame_bytes)
qed

lemma EncodeAppend_eq:
  assumes "wf_slice s"
  obtains s' where "EncodeAppend s seq ns p = Some s'"
    and "contents s' = contents s @ frame_bytes seq ns p" and "wf_slice s'"
proof -
  let ?need = "24 + length p"
  define d where "d = (if length (backing s) - slen s < ?need
    then \<lparr>backing = contents s @ replicate (?need + 1024) 0, slen = slen s\<rparr> else s)"
  have room: "slen d + ?need \<le> length (backing d)" and same: "contents d = contents s"
    and sl: "slen d = slen s"
    using assms by (auto simp: d_def contents_def wf_slice_def)
  let ?arr = "take (slen d) (backing d) @ frame_bytes seq ns p @ drop (slen d + ?need) (backing d)"
  have "EncodeAppend s seq ns p = Some \<lparr>backing = ?arr, slen = slen d + ?need\<rparr>"
    using room
    by (simp add: EncodeAppend_def HeaderLen_def Let_def EncodeInto_exact slice_ops flip: d_def)
  moreover have "contents \<lparr>backing = ?arr, slen = slen d + ?need\<rparr> = contents d @ frame_bytes seq ns p"
    using room by (simp add: contents_def)
  moreover have "wf_slice \<lparr>backing = ?arr, slen = slen d + ?need\<rparr>"
    using room by (simp add: wf_slice_def)
  ultimately show thesis by (intro that) (simp_all only: same)
qed

section \<open>Properties\<close>

text \<open>Property C4. Round trip: a payload of at most \<open>MaxPayload\<close> bytes encoded by
  \<open>Encode\<close> and followed by any further bytes is decoded to the same sequence number, timestamp and
  payload, and \<open>Decode\<close> reports exactly the encoded length as consumed.\<close>

theorem decode_encode:
  assumes "length p \<le> MaxPayload"
  shows "Encode seq ns p \<bind> (\<lambda>b. Decode (b @ rest)) =
           Some (Inr (\<lparr>SeqNum = seq, SendNs = ns, PayloadLen = of_nat (length p), Payload = p\<rparr>,
                      EncodedLen (length p)))"
  using assms by (simp add: Decode_frame_bytes EncodedLen_def HeaderLen_def)

theorem decode_encode_witness:
  "Encode 7 (-1) [1, 2, 3] \<bind> (\<lambda>b. Decode (b @ [9])) =
     Some (Inr (\<lparr>SeqNum = 7, SendNs = -1, PayloadLen = 3, Payload = [1, 2, 3]\<rparr>, 27))"
  using decode_encode [of "[1, 2, 3]" 7 "-1" "[9]"]
  by (simp add: MaxPayload_def EncodedLen_def HeaderLen_def)

text \<open>Property C10. \<open>Decode\<close> accepts exactly the buffers that begin with an encoded frame: it
  returns a frame and a count iff re-encoding that frame gives the first bytes of the
  buffer, the declared length is the payload's and at most \<open>MaxPayload\<close>, and the count
  is the encoded length. It never panics, on any input.\<close>

theorem decode_accepts_exactly_frames:
  "(Decode b = Some (Inr (f, n)) \<longleftrightarrow>
      (\<exists>rest enc. Encode (SeqNum f) (SendNs f) (Payload f) = Some enc \<and> b = enc @ rest) \<and>
      PayloadLen f = of_nat (length (Payload f)) \<and>
      length (Payload f) \<le> MaxPayload \<and> n = EncodedLen (length (Payload f)))
   \<and> Decode b \<noteq> None"
  unfolding Decode_Inr_iff EncodedLen_def HeaderLen_def by (simp add: Decode_cases)

text \<open>Every rejection by \<open>Decode\<close> names its cause: a buffer shorter than the
  header, a wrong magic number (with the value found), a declared length above
  \<open>MaxPayload\<close>, or a declared payload that does not fit, tested in this order.\<close>

lemma decode_errors:
  "Decode b = Some (Inl e) \<longleftrightarrow>
     (length b < HeaderLen \<and> e = ErrBufferTooShort HeaderLen (length b)) \<or>
     (HeaderLen \<le> length b \<and> le_word (take 4 b) \<noteq> Magic \<and>
        e = ErrInvalidMagic (le_word (take 4 b))) \<or>
     (HeaderLen \<le> length b \<and> le_word (take 4 b) = Magic \<and>
        (let plen = le_word (take 4 (drop 20 b)) in
          (MaxPayload < unat plen \<and> e = ErrPayloadTooLarge plen) \<or>
          (unat plen \<le> MaxPayload \<and> length b < HeaderLen + unat plen \<and>
             e = ErrPayloadOverflow (HeaderLen + unat plen) (length b))))"
  by (auto simp: Decode_cases HeaderLen_def hdr_defs Let_def)

text \<open>\<open>Encode\<close> accepts payloads that no receiver decodes: above \<open>MaxPayload\<close>
  and below 4 GiB, every encoded frame is rejected as too large.\<close>

lemma oversize_payload_rejected:
  assumes "MaxPayload < length p" and "length p < 2 ^ 32"
  shows "Encode seq ns p \<bind> Decode = Some (Inl (ErrPayloadTooLarge (of_nat (length p))))"
proof -
  have "unat (of_nat (length p) :: u32) = length p"
    using assms(2) by (simp add: unsigned_of_nat take_bit_nat_eq_self_iff)
  with assms(1) show ?thesis
    using hdr_frame_bytes [of seq ns p "[]"] by (simp add: Decode_cases)
qed

text \<open>\<open>EncodeAppend\<close> never panics on a well-formed slice, whether or not it
  has to grow: it keeps what the slice held, appends exactly one encoded frame and leaves
  a well-formed slice, so batches of frames can be decoded one after the other.\<close>

lemma encode_append_appends_frame:
  assumes "wf_slice s"
  shows "\<exists>s' enc. EncodeAppend s seq ns p = Some s' \<and> Encode seq ns p = Some enc \<and>
           contents s' = contents s @ enc \<and> wf_slice s'"
  by (rule EncodeAppend_eq [OF assms, of seq ns p]) simp

text \<open>Property C17. \<open>Checksum\<close> detects every burst of up to four bytes: two frames with the
  same header whose payloads differ only inside a window of at most four bytes have
  different checksums.\<close>

theorem checksum_detects_bursts:
  assumes "length a \<le> 4" and "length a = length b" and "a \<noteq> b"
  shows "Checksum seq ns n (xs @ a @ ys) \<noteq> Checksum seq ns n (xs @ b @ ys)"
  using assms crc32_burst [of a b 0 "le_bytes 8 seq @ le_bytes 8 ns @ le_bytes 4 n @ xs" ys]
  by (auto simp: Checksum_eq)

theorem checksum_detects_bursts_witness:
  "Checksum 1 2 3 ([10] @ [20] @ [30]) \<noteq> Checksum 1 2 3 ([10] @ [21] @ [30])"
  using checksum_detects_bursts [of "[20]" "[21]" 1 2 3 "[10]" "[30]"] by simp

text \<open>A buffer that \<open>GetEncBuf\<close> takes from \<open>New\<close> has length 1048, not 0 as its
  comment says (a recycled one has length 0): a frame appended to it does not start at
  offset 0, and decoding the result reports a wrong magic number.\<close>

lemma fresh_pool_buffer_not_empty:
  "slen (fst (GetEncBuf [] k)) = 1048 \<and>
   slen (fst (GetEncBuf (PutEncBuf pool b) 0)) = 0 \<and>
   map_option (Decode \<circ> contents) (EncodeAppend (fst (GetEncBuf [] k)) seq ns p) =
     Some (Some (Inl (ErrInvalidMagic 0)))"
proof -
  have wf: "wf_slice (fst (GetEncBuf [] k))" and z: "contents (fst (GetEncBuf [] k)) = replicate 1048 0"
    by (simp_all add: GetEncBuf_def wf_slice_def contents_def HeaderLen_def)
  obtain s' where s': "EncodeAppend (fst (GetEncBuf [] k)) seq ns p = Some s'"
    "contents s' = replicate 1048 0 @ frame_bytes seq ns p"
    by (rule EncodeAppend_eq [OF wf, of seq ns p]) (simp add: z)
  have "hdr_magic (replicate 1048 0 @ rest) = 0" for rest
    by (simp add: hdr_magic_def numeral_nat)
  with s' show ?thesis
    by (simp add: Decode_cases Magic_def GetEncBuf_def PutEncBuf_def HeaderLen_def)
qed

end
