(* ===== verification/Sequence.thy ===== *)
theory Sequence
  imports Prelude
begin

text \<open>
  The sliding-window sequence tracker of \<^verbatim>\<open>pkg/metrics/sequence.go\<close>. The concrete state is
  the ring of 64-bit words of the code; \<open>spec_tracker\<close> is what it promises: a frontier and
  the set of sequence numbers received. \<open>Observe\<close> refines \<open>spec_observe\<close>, so what a run of
  observations counts as delivered, duplicated and reordered is a property of the set.
  \<open>Flush\<close> is a loop over \<open>uint64\<close> whose exit test may never fail; it is a partial
  function with the outer \<open>None\<close> for a run that does not end.
\<close>

section \<open>State and operations\<close>

record SeqStats =
  Delivered :: u64
  Lost :: u64
  Duplicated :: u64
  Reordered :: u64

record SequenceTracker =
  nextExpected :: u64
  windowSize :: u64
  windowMask :: u64
  window :: "u64 list"
  words :: u64
  Stats :: SeqStats

definition NewSequenceTracker :: "u64 \<Rightarrow> SequenceTracker option" where
  "NewSequenceTracker ws =
     (if ws = 0 \<or> ws AND (ws - 1) \<noteq> 0 then None
      else let n = ws div 64; n' = (if n = 0 then 1 else n) in
        Some \<lparr>nextExpected = 0, windowSize = ws, windowMask = ws - 1,
              window = replicate (unat n') 0, words = n',
              Stats = \<lparr>Delivered = 0, Lost = 0, Duplicated = 0, Reordered = 0\<rparr>\<rparr>)"

definition wordIndex :: "SequenceTracker \<Rightarrow> u64 \<Rightarrow> u64 option" where
  "wordIndex t seq = (if words t = 0 then None else Some ((seq div 64) mod words t))"

definition bitMask :: "u64 \<Rightarrow> u64" where
  "bitMask seq = push_bit (unat (seq AND 63)) 1"

definition isSet :: "SequenceTracker \<Rightarrow> u64 \<Rightarrow> bool option" where
  "isSet t seq = do {
     i \<leftarrow> wordIndex t seq;
     if unat i < length (window t) then Some (window t ! unat i AND bitMask seq \<noteq> 0) else None
   }"

definition update_word :: "SequenceTracker \<Rightarrow> u64 \<Rightarrow> (u64 \<Rightarrow> u64) \<Rightarrow> SequenceTracker option" where
  \<comment> \<open>\<open>t.window[t.wordIndex(seq)] op= ...\<close>\<close>
  "update_word t seq f = do {
     i \<leftarrow> wordIndex t seq;
     if unat i < length (window t)
     then Some (t\<lparr>window := (window t)[unat i := f (window t ! unat i)]\<rparr>) else None
   }"

definition set_seq :: "SequenceTracker \<Rightarrow> u64 \<Rightarrow> SequenceTracker option" where
  "set_seq t seq = update_word t seq (\<lambda>w. w OR bitMask seq)"

function clearRange :: "SequenceTracker \<Rightarrow> u64 \<Rightarrow> u64 \<Rightarrow> SequenceTracker option" where
  "clearRange t s to =
     (if s < to
      then update_word t s (\<lambda>w. w AND NOT (bitMask s)) \<bind> (\<lambda>t'. clearRange t' (s + 1) to)
      else Some t)"
  by pat_completeness auto
termination
proof (relation "measure (\<lambda>(t, s, to). unat to - unat s)")
  fix t :: SequenceTracker and s to :: u64 and t' :: SequenceTracker
  assume "s < to"
  then have "unat (s + 1) = Suc (unat s)" "unat s < unat to"
    by (auto simp: word_less_nat_alt intro!: unat_add_one_less)
  then show "((t', s + 1, to), (t, s, to)) \<in> measure (\<lambda>(t, s, to). unat to - unat s)"
    by simp
qed simp

declare clearRange.simps [simp del]

definition add_delivered :: "SequenceTracker \<Rightarrow> SequenceTracker" where
  "add_delivered t = t\<lparr>Stats := (Stats t)\<lparr>Delivered := Delivered (Stats t) + 1\<rparr>\<rparr>"

definition add_lost :: "SequenceTracker \<Rightarrow> SequenceTracker" where
  "add_lost t = t\<lparr>Stats := (Stats t)\<lparr>Lost := Lost (Stats t) + 1\<rparr>\<rparr>"

definition add_duplicated :: "SequenceTracker \<Rightarrow> SequenceTracker" where
  "add_duplicated t = t\<lparr>Stats := (Stats t)\<lparr>Duplicated := Duplicated (Stats t) + 1\<rparr>\<rparr>"

definition add_reordered :: "SequenceTracker \<Rightarrow> SequenceTracker" where
  "add_reordered t = t\<lparr>Stats := (Stats t)\<lparr>Reordered := Reordered (Stats t) + 1\<rparr>\<rparr>"

definition Observe :: "SequenceTracker \<Rightarrow> u64 \<Rightarrow> SequenceTracker option" where
  "Observe t seq =
     (if nextExpected t \<le> seq then do {
        t1 \<leftarrow> (if windowSize t \<le> seq - nextExpected t
               then Some (t\<lparr>window := map (\<lambda>_. 0) (window t)\<rparr>)
               else clearRange t (nextExpected t) (seq + 1));
        t2 \<leftarrow> set_seq t1 seq;
        Some ((add_delivered t2)\<lparr>nextExpected := seq + 1\<rparr>)
      }
      else if windowSize t < nextExpected t - seq then Some (add_duplicated t)
      else do {
        b \<leftarrow> isSet t seq;
        if b then Some (add_duplicated t)
        else do {
          t1 \<leftarrow> set_seq t seq;
          Some (add_reordered (add_delivered t1))
        }
      })"

partial_function (option) flush_loop ::
  "SequenceTracker \<Rightarrow> u64 \<Rightarrow> u64 \<Rightarrow> SequenceTracker option option" where
  "flush_loop t lastSentSeq s =
     (if s \<le> lastSentSeq
      then (case isSet t s of None \<Rightarrow> Some None
            | Some b \<Rightarrow> flush_loop (if b then t else add_lost t) lastSentSeq (s + 1))
      else Some (Some t))"

definition Flush :: "SequenceTracker \<Rightarrow> u64 \<Rightarrow> SequenceTracker option option" where
  "Flush t lastSentSeq = flush_loop t lastSentSeq (nextExpected t)"

definition Reset :: "SequenceTracker \<Rightarrow> SequenceTracker" where
  "Reset t = t\<lparr>window := map (\<lambda>_. 0) (window t), nextExpected := 0,
               Stats := \<lparr>Delivered = 0, Lost = 0, Duplicated = 0, Reordered = 0\<rparr>\<rparr>"

definition Snapshot :: "SequenceTracker \<Rightarrow> SeqStats" where
  "Snapshot t = \<lparr>Delivered = Delivered (Stats t), Lost = Lost (Stats t),
                 Duplicated = Duplicated (Stats t), Reordered = Reordered (Stats t)\<rparr>"

definition LossRate :: "SequenceTracker \<Rightarrow> rat" where
  "LossRate t =
     (let delivered = Delivered (Stats t); lost = Lost (Stats t); total = delivered + lost
      in if total = 0 then 0 else of_nat (unat lost) / of_nat (unat total))"

section \<open>Slots of the ring\<close>

definition slot_set :: "u64 list \<Rightarrow> nat \<Rightarrow> bool" where
  "slot_set w n \<longleftrightarrow> bit (w ! (n div 64 mod length w)) (n mod 64)"

definition wf_tracker :: "SequenceTracker \<Rightarrow> bool" where
  "wf_tracker t \<longleftrightarrow> 0 < unat (words t) \<and> length (window t) = unat (words t) \<and>
     0 < unat (windowSize t) \<and> unat (windowSize t) \<le> 64 * unat (words t)"

lemma same_slot:
  fixes m n L :: nat
  shows "n div 64 mod L = m div 64 mod L \<and> n mod 64 = m mod 64 \<longleftrightarrow>
         n mod (64 * L) = m mod (64 * L)"
proof -
  have "k mod (64 * L) = 64 * (k div 64 mod L) + k mod 64" for k :: nat
    by (rule mod_mult2_eq)
  moreover have "(64 * a + x) mod 64 = x \<and> (64 * a + x) div 64 = a" if "x < 64" for a x :: nat
    using that by simp
  ultimately show ?thesis by (metis mod_less_divisor zero_less_numeral)
qed

lemma bit_bitMask: "bit (bitMask s) i \<longleftrightarrow> i = unat s mod 64"
proof -
  have "s AND 63 = take_bit 6 s" by (simp add: take_bit_eq_mask mask_eq_exp_minus_1)
  then have "unat (s AND 63) = unat s mod 64" by (simp add: take_bit_eq_mod unat_mod)
  then show ?thesis by (auto simp: bitMask_def bit_exp_iff)
qed

lemma wordIndex_eq:
  "wf_tracker t \<Longrightarrow> wordIndex t s = Some (s div 64 mod words t) \<and>
     unat (s div 64 mod words t) = unat s div 64 mod length (window t) \<and>
     unat s div 64 mod length (window t) < length (window t)"
  by (auto simp: wf_tracker_def wordIndex_def unat_div unat_mod)

abbreviation ring :: "SequenceTracker \<Rightarrow> nat" where
  "ring t \<equiv> 64 * length (window t)"

lemma slot_set_periodic: "slot_set w (n + 64 * length w * k) = slot_set w n"
proof -
  have "(n + 64 * length w * k) mod (64 * length w) = n mod (64 * length w)" by simp
  then show ?thesis using same_slot [of "n + 64 * length w * k" "length w" n]
    by (simp add: slot_set_def)
qed

lemma isSet_eq: "wf_tracker t \<Longrightarrow> isSet t s = Some (slot_set (window t) (unat s))"
proof -
  assume wf: "wf_tracker t"
  have "x AND bitMask s \<noteq> 0 \<longleftrightarrow> bit x (unat s mod 64)" for x :: u64
    using bit_eq_iff [of "x AND bitMask s" 0] by (auto simp: bit_and_iff bit_bitMask)
  then show ?thesis using wordIndex_eq [OF wf] by (simp add: isSet_def slot_set_def)
qed

text \<open>A write through \<open>update_word\<close> changes one slot only, the one of its sequence number.\<close>

lemma update_word_eq:
  assumes wf: "wf_tracker t"
    and f: "\<And>x i. bit (f x) i \<longleftrightarrow> (if i = unat s mod 64 then v else bit x i)"
  obtains w where "update_word t s f = Some (t\<lparr>window := w\<rparr>)" and "length w = length (window t)"
    and "\<And>n. slot_set w n \<longleftrightarrow>
           (if n mod ring t = unat s mod ring t then v else slot_set (window t) n)"
proof -
  let ?L = "length (window t)" and ?i = "unat s div 64 mod length (window t)"
  let ?w = "(window t)[?i := f (window t ! ?i)]"
  have "update_word t s f = Some (t\<lparr>window := ?w\<rparr>)"
    using wordIndex_eq [OF wf, of s] by (simp add: update_word_def)
  moreover have "slot_set ?w n \<longleftrightarrow> (if n mod ring t = unat s mod ring t then v else slot_set (window t) n)" for n
    using wordIndex_eq [OF wf, of s] same_slot [of n ?L "unat s"]
    by (auto simp: slot_set_def nth_list_update f)
  ultimately show thesis by (rule that [OF _ length_list_update])
qed

lemma set_seq_eq:
  assumes "wf_tracker t"
  obtains w where "set_seq t s = Some (t\<lparr>window := w\<rparr>)" and "length w = length (window t)"
    and "\<And>n. slot_set w n \<longleftrightarrow> n mod ring t = unat s mod ring t \<or> slot_set (window t) n"
  by (rule update_word_eq [OF assms, of "\<lambda>w. w OR bitMask s" s True])
     (auto simp: set_seq_def bit_or_iff bit_bitMask that)

lemma wf_tracker_window [simp]:
  "wf_tracker t \<Longrightarrow> length w = length (window t) \<Longrightarrow> wf_tracker (t\<lparr>window := w\<rparr>)"
  by (simp add: wf_tracker_def)

lemma clearRange_eq:
  "wf_tracker t \<Longrightarrow> \<exists>w. clearRange t s to = Some (t\<lparr>window := w\<rparr>) \<and> length w = length (window t) \<and>
     (\<forall>n. slot_set w n \<longleftrightarrow> slot_set (window t) n \<and>
        \<not> (\<exists>m. unat s \<le> m \<and> m < unat to \<and> n mod ring t = m mod ring t))"
proof (induction t s to rule: clearRange.induct)
  case (1 t s to)
  show ?case
  proof (cases "s < to")
    case False
    then show ?thesis
      by (intro exI [of _ "window t"]) (auto simp: clearRange.simps [of t s] word_less_nat_alt)
  next
    case True
    obtain w where w: "update_word t s (\<lambda>w. w AND NOT (bitMask s)) = Some (t\<lparr>window := w\<rparr>)"
      "length w = length (window t)"
      "\<And>n. slot_set w n \<longleftrightarrow> n mod ring t \<noteq> unat s mod ring t \<and> slot_set (window t) n"
      by (rule update_word_eq [OF "1.prems", of "\<lambda>w. w AND NOT (bitMask s)" s False])
         (auto simp: bit_and_iff bit_not_iff bit_bitMask  dest: bit_imp_le_length)
    have sucs: "unat s < unat to" "unat (s + 1) = Suc (unat s)"
      using True by (auto simp: word_less_nat_alt intro!: unat_add_one_less)
    from "1.IH" [OF True w(1)] "1.prems" w(2) obtain w' where
      w': "clearRange (t\<lparr>window := w\<rparr>) (s + 1) to = Some (t\<lparr>window := w'\<rparr>)"
      "length w' = length (window t)"
      "\<And>n. slot_set w' n \<longleftrightarrow> slot_set w n \<and>
        \<not> (\<exists>m. Suc (unat s) \<le> m \<and> m < unat to \<and> n mod ring t = m mod ring t)"
      by (auto simp: sucs)
    have "slot_set w' n \<longleftrightarrow> slot_set (window t) n \<and>
        \<not> (\<exists>m. unat s \<le> m \<and> m < unat to \<and> n mod ring t = m mod ring t)" for n
      unfolding w'(3) w(3) ex_interval_first [OF sucs(1)] by blast
    then show ?thesis using True w(1) w'(1,2)
      by (intro exI [of _ w']) (simp add: clearRange.simps [of t s])
  qed
qed

section \<open>What the tracker promises\<close>

record spec_tracker =
  frontier :: nat
  received :: "nat set"
  n_delivered :: nat
  n_duplicated :: nat
  n_reordered :: nat

definition spec_init :: spec_tracker where
  "spec_init = \<lparr>frontier = 0, received = {}, n_delivered = 0, n_duplicated = 0, n_reordered = 0\<rparr>"

definition spec_observe :: "nat \<Rightarrow> spec_tracker \<Rightarrow> nat \<Rightarrow> spec_tracker" where
  "spec_observe W st s =
     (if frontier st \<le> s
      then st\<lparr>frontier := Suc s, received := insert s (received st),
              n_delivered := Suc (n_delivered st)\<rparr>
      else if W < frontier st - s \<or> s \<in> received st
      then st\<lparr>n_duplicated := Suc (n_duplicated st)\<rparr>
      else st\<lparr>received := insert s (received st), n_delivered := Suc (n_delivered st),
              n_reordered := Suc (n_reordered st)\<rparr>)"

definition window_ok :: "nat \<Rightarrow> SequenceTracker \<Rightarrow> spec_tracker \<Rightarrow> bool" where
  "window_ok W t st \<longleftrightarrow>
     (\<forall>s. frontier st \<le> s + W \<longrightarrow> s < frontier st \<longrightarrow>
        slot_set (window t) s = (s \<in> received st))"

definition tracks :: "nat \<Rightarrow> SequenceTracker \<Rightarrow> spec_tracker \<Rightarrow> bool" where
  "tracks W t st \<longleftrightarrow>
     wf_tracker t \<and> unat (windowSize t) = W \<and> unat (nextExpected t) = frontier st \<and>
     (\<forall>s\<in>received st. s < frontier st) \<and> window_ok W t st \<and>
     Delivered (Stats t) = of_nat (n_delivered st) \<and>
     Duplicated (Stats t) = of_nat (n_duplicated st) \<and>
     Reordered (Stats t) = of_nat (n_reordered st)"

lemmas counter_defs = add_delivered_def add_duplicated_def add_reordered_def add_lost_def

lemma ring_covers_window: "wf_tracker t \<Longrightarrow> unat (windowSize t) \<le> ring t"
  by (simp add: wf_tracker_def)

lemma window_ok_advance:
  assumes wf: "wf_tracker t" and W: "unat (windowSize t) = W" and ok: "window_ok W t st"
    and old: "\<forall>s\<in>received st. s < frontier st" and N: "frontier st \<le> q"
    and w: "\<And>n. slot_set w n \<longleftrightarrow> n mod ring t = q mod ring t \<or>
              (q < frontier st + W \<and> slot_set (window t) n \<and>
               \<not> (\<exists>m. frontier st \<le> m \<and> m < Suc q \<and> n mod ring t = m mod ring t))"
  shows "window_ok W (t'\<lparr>window := w\<rparr>)
           (st'\<lparr>frontier := Suc q, received := insert q (received st)\<rparr>)"
  unfolding window_ok_def
proof (intro allI impI)
  fix n
  assume n: "frontier (st'\<lparr>frontier := Suc q, received := insert q (received st)\<rparr>) \<le> n + W"
    "n < frontier (st'\<lparr>frontier := Suc q, received := insert q (received st)\<rparr>)"
  have r: "W \<le> ring t" using ring_covers_window [OF wf] W by simp
  have close: "n mod ring t = m mod ring t \<longleftrightarrow> n = m" if "n < m + W" "m < n + W" for m
    using that r by (auto intro: mod_eq_close [of n "ring t" m])
  have "slot_set w n \<longleftrightarrow> n = q \<or> n \<in> received st"
  proof (cases "frontier st \<le> n")
    case True
    then have "\<not> n \<in> received st" using old by auto
    moreover have "\<exists>m. frontier st \<le> m \<and> m < Suc q \<and> n mod ring t = m mod ring t"
      using True n by auto
    ultimately show ?thesis using n close [of q] by (simp add: w)
  next
    case False
    have "\<not> (\<exists>m. frontier st \<le> m \<and> m < Suc q \<and> n mod ring t = m mod ring t)"
    proof
      assume "\<exists>m. frontier st \<le> m \<and> m < Suc q \<and> n mod ring t = m mod ring t"
      then obtain m where m: "frontier st \<le> m" "m < Suc q" "n mod ring t = m mod ring t" by blast
      then have "n = m" using close [of m] False n by simp
      then show False using m(1) False by simp
    qed
    moreover have "slot_set (window t) n = (n \<in> received st)"
      using ok False n N by (simp add: window_ok_def)
    ultimately show ?thesis using n N False close [of q] by (auto simp: w)
  qed
  then show "slot_set (window (t'\<lparr>window := w\<rparr>)) n =
      (n \<in> received (st'\<lparr>frontier := Suc q, received := insert q (received st)\<rparr>))"
    by simp
qed

lemma Observe_advance:
  assumes t: "tracks W t st" and q: "q \<noteq> -1" and N: "nextExpected t \<le> q"
  shows "\<exists>t'. Observe t q = Some t' \<and> tracks W t' (spec_observe W st (unat q))"
proof -
  have wf: "wf_tracker t" and W: "unat (windowSize t) = W"
    and fr: "unat (nextExpected t) = frontier st" and ok: "window_ok W t st"
    and old: "\<forall>s\<in>received st. s < frontier st"
    using t by (auto simp: tracks_def)
  have Nq: "frontier st \<le> unat q" using N fr by (simp add: word_le_nat_alt)
  have succ: "unat (q + 1) = Suc (unat q)" using q by (rule unat_add_one)
  have jump: "windowSize t \<le> q - nextExpected t \<longleftrightarrow> frontier st + W \<le> unat q"
    using N W fr by (auto simp: word_le_nat_alt unat_sub)
  obtain w1 where w1: "(if windowSize t \<le> q - nextExpected t
          then Some (t\<lparr>window := map (\<lambda>_. 0) (window t)\<rparr>)
          else clearRange t (nextExpected t) (q + 1)) = Some (t\<lparr>window := w1\<rparr>)"
    "length w1 = length (window t)"
    "\<And>n. slot_set w1 n \<longleftrightarrow> unat q < frontier st + W \<and> slot_set (window t) n \<and>
        \<not> (\<exists>m. frontier st \<le> m \<and> m < Suc (unat q) \<and> n mod ring t = m mod ring t)"
  proof (cases "windowSize t \<le> q - nextExpected t")
    case True
    have "\<not> slot_set (map (\<lambda>_. 0) (window t)) n" for n
      using wf by (simp add: slot_set_def wf_tracker_def)
    then show thesis using True jump that [of "map (\<lambda>_. 0) (window t)"] by simp
  next
    case False
    then show thesis
      using clearRange_eq [OF wf, of "nextExpected t" "q + 1"] that jump
      by (auto simp: succ fr)
  qed
  let ?t1 = "t\<lparr>window := w1\<rparr>"
  have wf1: "wf_tracker ?t1" using wf w1(2) by simp
  obtain w2 where w2: "set_seq ?t1 q = Some (t\<lparr>window := w2\<rparr>)" "length w2 = length (window t)"
    "\<And>n. slot_set w2 n \<longleftrightarrow> n mod ring t = unat q mod ring t \<or> slot_set w1 n"
    by (rule set_seq_eq [OF wf1, of q]) (use w1(2) in simp)
  let ?t' = "(add_delivered (t\<lparr>window := w2\<rparr>))\<lparr>nextExpected := q + 1\<rparr>"
  have "Observe t q = Some ?t'"
    using N w1(1) w2(1) by (simp add: Observe_def)
  moreover have "window_ok W ?t' (spec_observe W st (unat q))"
    using window_ok_advance [OF wf W ok old Nq, of w2 ?t' "st\<lparr>n_delivered := Suc (n_delivered st)\<rparr>"]
      Nq w1(3) w2(3)
    by (simp add: spec_observe_def window_ok_def counter_defs)
  ultimately show ?thesis
    using t wf w2(2) Nq succ by (auto simp: tracks_def spec_observe_def counter_defs wf_tracker_def)
qed

lemma Observe_late:
  assumes t: "tracks W t st" and N: "\<not> nextExpected t \<le> q"
  shows "\<exists>t'. Observe t q = Some t' \<and> tracks W t' (spec_observe W st (unat q))"
proof -
  have wf: "wf_tracker t" and W: "unat (windowSize t) = W"
    and fr: "unat (nextExpected t) = frontier st" and ok: "window_ok W t st"
    using t by (auto simp: tracks_def)
  have Nq: "unat q < frontier st" using N fr by (simp add: word_le_nat_alt)
  have old: "windowSize t < nextExpected t - q \<longleftrightarrow> W < frontier st - unat q"
    using N W fr by (auto simp: word_le_nat_alt word_less_nat_alt unat_sub)
  have inW: "slot_set (window t) (unat q) = (unat q \<in> received st)" if "\<not> W < frontier st - unat q"
    using ok Nq that by (simp add: window_ok_def)
  show ?thesis
  proof (cases "W < frontier st - unat q \<or> unat q \<in> received st")
    case True
    then have "Observe t q = Some (add_duplicated t)"
      using N inW by (auto simp: Observe_def old isSet_eq [OF wf])
    then show ?thesis
      using t True Nq by (auto simp: tracks_def spec_observe_def counter_defs window_ok_def wf_tracker_def)
  next
    case False
    obtain w where w: "set_seq t q = Some (t\<lparr>window := w\<rparr>)" "length w = length (window t)"
      "\<And>n. slot_set w n \<longleftrightarrow> n mod ring t = unat q mod ring t \<or> slot_set (window t) n"
      by (rule set_seq_eq [OF wf, of q]) blast
    have "Observe t q = Some (add_reordered (add_delivered (t\<lparr>window := w\<rparr>)))"
      using N False inW w(1) by (simp add: Observe_def old isSet_eq [OF wf])
    moreover have "slot_set w n = (n = unat q \<or> n \<in> received st)"
      if "frontier st \<le> n + W" "n < frontier st" for n
      using that False Nq ok ring_covers_window [OF wf] W mod_eq_close [of n "ring t" "unat q"]
      by (auto simp: w(3) window_ok_def)
    ultimately show ?thesis
      using t False Nq w(2)
      by (auto simp: tracks_def spec_observe_def counter_defs window_ok_def wf_tracker_def)
  qed
qed

lemma Observe_refines:
  "tracks W t st \<Longrightarrow> q \<noteq> -1 \<Longrightarrow>
   \<exists>t'. Observe t q = Some t' \<and> tracks W t' (spec_observe W st (unat q))"
  using Observe_advance Observe_late by blast

interpretation tracker: refinement "tracks W" "\<lambda>q. q \<noteq> -1" Observe "\<lambda>st q. spec_observe W st (unat q)"
  for W
  by unfold_locales (rule Observe_refines)

section \<open>Runs of observations\<close>

definition spec_run :: "nat \<Rightarrow> nat list \<Rightarrow> spec_tracker" where
  "spec_run W qs = fold (\<lambda>q st. spec_observe W st q) qs spec_init"

lemma spec_run_Nil [simp]: "spec_run W [] = spec_init"
  by (simp add: spec_run_def)

lemma spec_run_snoc [simp]: "spec_run W (qs @ [q]) = spec_observe W (spec_run W qs) q"
  by (simp add: spec_run_def)

lemma spec_run_basic:
  "finite (received (spec_run W qs)) \<and> received (spec_run W qs) \<subseteq> set qs \<and>
   (\<forall>s\<in>received (spec_run W qs). s < frontier (spec_run W qs)) \<and>
   n_delivered (spec_run W qs) = card (received (spec_run W qs)) \<and>
   n_delivered (spec_run W qs) + n_duplicated (spec_run W qs) = length qs \<and>
   n_reordered (spec_run W qs) \<le> n_delivered (spec_run W qs)"
proof (induction qs rule: rev_induct)
  case Nil
  then show ?case by (simp add: spec_init_def)
next
  case (snoc q qs)
  have "q \<notin> received (spec_run W qs)" if "frontier (spec_run W qs) \<le> q"
    using snoc.IH that by auto
  then show ?case using snoc.IH by (auto simp: spec_observe_def less_Suc_eq)
qed

text \<open>The positions where a number arrives for the first time after a larger one.\<close>

definition late_firsts :: "'a::linorder list \<Rightarrow> nat set" where
  "late_firsts qs =
     {i. i < length qs \<and> qs ! i \<notin> set (take i qs) \<and> (\<exists>x\<in>set (take i qs). qs ! i < x)}"

lemma late_firsts_snoc:
  "late_firsts (qs @ [q]) =
     (if q \<notin> set qs \<and> (\<exists>x\<in>set qs. q < x) then insert (length qs) (late_firsts qs)
      else late_firsts qs)"
  by (auto simp: late_firsts_def nth_append less_Suc_eq)

lemma finite_late_firsts [simp]: "finite (late_firsts qs)"
  by (rule finite_subset [of _ "{..<length qs}"]) (auto simp: late_firsts_def)

lemma length_notin_late_firsts [simp]: "length qs \<notin> late_firsts qs"
  by (simp add: late_firsts_def)

lemma spec_run_exact:
  "sorted_wrt (\<lambda>a b. a < b + W) qs \<Longrightarrow>
     received (spec_run W qs) = set qs \<and> (\<forall>s. s < frontier (spec_run W qs) \<longleftrightarrow> (\<exists>x\<in>set qs. s \<le> x)) \<and>
     n_reordered (spec_run W qs) = card (late_firsts qs)"
proof (induction qs rule: rev_induct)
  case Nil
  then show ?case by (simp add: spec_init_def late_firsts_def)
next
  case (snoc q qs)
  let ?st = "spec_run W qs"
  have IH: "received ?st = set qs" "\<And>s. s < frontier ?st \<longleftrightarrow> (\<exists>x\<in>set qs. s \<le> x)"
    "n_reordered ?st = card (late_firsts qs)"
    using snoc by (auto simp: sorted_wrt_append)
  have near: "x < q + W" if "x \<in> set qs" for x
    using snoc.prems that by (simp add: sorted_wrt_append)
  show ?case
  proof (cases "frontier ?st \<le> q")
    case True
    then have "\<not> x \<ge> q" if "x \<in> set qs" for x using IH(2) [of q] that by auto
    then show ?thesis
      using True IH by (fastforce simp: spec_observe_def late_firsts_snoc less_Suc_eq_le)
  next
    case False
    then obtain x where x: "x \<in> set qs" "q \<le> x" using IH(2) [of q] by auto
    have "\<exists>y\<in>set qs. frontier ?st - 1 \<le> y" using IH(2) [of "frontier ?st - 1"] False by auto
    then have "\<not> W < frontier ?st - q" using near by fastforce
    then have st: "spec_observe W ?st q = (if q \<in> set qs then ?st\<lparr>n_duplicated := Suc (n_duplicated ?st)\<rparr>
        else ?st\<lparr>received := insert q (received ?st), n_delivered := Suc (n_delivered ?st),
                 n_reordered := Suc (n_reordered ?st)\<rparr>)"
      using False IH(1) by (simp add: spec_observe_def)
    have lf: "late_firsts (qs @ [q]) =
        (if q \<notin> set qs then insert (length qs) (late_firsts qs) else late_firsts qs)"
      using x by (auto simp: late_firsts_snoc order_le_less)
    have fr: "s \<le> q \<or> (\<exists>y\<in>set qs. s \<le> y) \<longleftrightarrow> (\<exists>y\<in>set qs. s \<le> y)" for s
      using x by (auto intro: bexI [OF order_trans x(1)])
    show ?thesis by (simp add: st lf fr IH insert_absorb)
  qed
qed

lemma spec_run_increasing:
  "sorted_wrt (<) qs \<Longrightarrow>
     n_delivered (spec_run W qs) = length qs \<and> n_duplicated (spec_run W qs) = 0 \<and>
     n_reordered (spec_run W qs) = 0 \<and> (\<forall>s. s < frontier (spec_run W qs) \<longrightarrow> (\<exists>x\<in>set qs. s \<le> x))"
proof (induction qs rule: rev_induct)
  case Nil
  then show ?case by (simp add: spec_init_def)
next
  case (snoc q qs)
  then have "\<not> q < frontier (spec_run W qs)" by (fastforce simp: sorted_wrt_append)
  then show ?case using snoc by (auto simp: spec_observe_def sorted_wrt_append less_Suc_eq_le)
qed

section \<open>Construction and reset\<close>

lemma power_of_two_multiple:
  fixes ws :: u64
  assumes "ws AND (ws - 1) = 0" and "64 \<le> unat ws"
  shows "64 dvd unat ws"
proof (rule ccontr)
  assume n: "\<not> 64 dvd unat ws"
  then have "unat (ws - 1) = unat ws - 1"
    using assms(2) by (intro unat_minus_one) auto
  moreover have "(k - 1) div 64 = k div 64" if "\<not> 64 dvd k" for k :: nat
    using that by (cases k) (auto simp: div_Suc dvd_eq_mod_eq_0)
  ultimately have "unat (ws - 1) div 64 = unat ws div 64"
    using n by simp
  then have "drop_bit 6 (ws - 1) = drop_bit 6 ws"
    by (simp add: drop_bit_eq_div word_unat_eq_iff unat_div)
  then have "drop_bit 6 (ws AND (ws - 1)) = drop_bit 6 ws" by simp
  then have "unat ws div 64 = 0"
    using assms(1) by (simp add: drop_bit_eq_div word_unat_eq_iff unat_div)
  then show False using assms(2) by simp
qed

lemma NewSequenceTracker_tracks:
  "NewSequenceTracker ws = Some t \<Longrightarrow> tracks (unat ws) t spec_init"
proof -
  assume "NewSequenceTracker ws = Some t"
  then have ws: "ws \<noteq> 0" "ws AND (ws - 1) = 0"
    and t: "t = \<lparr>nextExpected = 0, windowSize = ws, windowMask = ws - 1,
              window = replicate (unat (if ws div 64 = 0 then 1 else ws div 64)) 0,
              words = (if ws div 64 = 0 then 1 else ws div 64),
              Stats = \<lparr>Delivered = 0, Lost = 0, Duplicated = 0, Reordered = 0\<rparr>\<rparr>"
    by (auto simp: NewSequenceTracker_def Let_def split: if_splits)
  have d: "unat (ws div 64) = unat ws div 64" by (simp add: unat_div)
  have "0 < unat ws" using ws(1) by (simp add: unat_gt_0)
  moreover have "unat ws \<le> 64 * (unat ws div 64)" if "64 \<le> unat ws"
    using power_of_two_multiple [OF ws(2) that] by simp
  ultimately show ?thesis
    using d by (auto simp: t tracks_def wf_tracker_def window_ok_def spec_init_def word_unat_eq_iff
        not_le)
qed

lemma Reset_tracks: "wf_tracker t \<Longrightarrow> tracks (unat (windowSize t)) (Reset t) spec_init"
  by (simp add: Reset_def tracks_def wf_tracker_def window_ok_def spec_init_def)

lemma fold_spec_run:
  "fold (\<lambda>q st. spec_observe W st (unat q)) qs spec_init = spec_run W (map unat qs)"
  by (simp add: spec_run_def fold_map comp_def)

lemma Observe_run:
  assumes "tracks W t spec_init" and "-1 \<notin> set qs"
  obtains t' where "run_opt Observe t qs = Some t'" and "tracks W t' (spec_run W (map unat qs))"
proof -
  have "list_all (\<lambda>q. q \<noteq> -1) qs" using assms(2) by (auto simp: list_all_iff)
  then show thesis
    using tracker.run_refines [OF assms(1)] that by (auto simp: fold_spec_run)
qed

text \<open>No operation resizes the ring.\<close>

lemma update_word_keeps: "update_word t s f = Some t' \<Longrightarrow> words t' = words t \<and> Stats t' = Stats t"
  by (auto simp: update_word_def split: bind_splits if_splits)

text \<open>On a well-formed tracker \<open>Observe\<close> never panics, whatever the number.\<close>

lemma Observe_wf: "wf_tracker t \<Longrightarrow> \<exists>t'. Observe t q = Some t' \<and> wf_tracker t'"
proof -
  assume wf: "wf_tracker t"
  have set: "\<exists>w. set_seq t1 q = Some (t1\<lparr>window := w\<rparr>) \<and> length w = length (window t1)" if "wf_tracker t1" for t1
    using set_seq_eq [OF that, of q] by blast
  obtain w where w: "clearRange t (nextExpected t) (q + 1) = Some (t\<lparr>window := w\<rparr>)" "length w = length (window t)"
    using clearRange_eq [OF wf] by blast
  have z: "wf_tracker (t\<lparr>window := map (\<lambda>_. 0) (window t)\<rparr>)" "wf_tracker (t\<lparr>window := w\<rparr>)"
    using wf w(2) by simp_all
  show ?thesis
    using wf w set [OF z(1)] set [OF z(2)] set [OF wf] isSet_eq [OF wf, of q]
    by (auto simp: Observe_def counter_defs wf_tracker_def)
qed

lemma wf_NewSequenceTracker: "NewSequenceTracker ws = Some t \<Longrightarrow> wf_tracker t"
  using NewSequenceTracker_tracks by (auto simp: tracks_def)

lemma clearRange_keeps: "clearRange t s to = Some t' \<Longrightarrow> words t' = words t \<and> Stats t' = Stats t"
proof (induction t s to arbitrary: t' rule: clearRange.induct)
  case (1 t s to)
  show ?case
  proof (cases "s < to")
    case True
    with "1.prems" obtain t1 where "update_word t s (\<lambda>w. w AND NOT (bitMask s)) = Some t1"
      and "clearRange t1 (s + 1) to = Some t'"
      by (auto simp: clearRange.simps [of t s to] bind_eq_Some_conv)
    with "1.IH" [OF True] update_word_keeps show ?thesis by metis
  qed (use "1.prems" in \<open>simp add: clearRange.simps [of t s to]\<close>)
qed

lemma Observe_words: "Observe t q = Some t' \<Longrightarrow> words t' = words t"
  by (auto simp: Observe_def set_seq_def counter_defs dest!: update_word_keeps clearRange_keeps
      split: bind_splits if_splits)

lemma Observe_run_words: "run_opt Observe t qs = Some t' \<Longrightarrow> words t' = words t"
  by (induction qs arbitrary: t) (auto dest: Observe_words split: bind_splits)

text \<open>Arrivals of any number, and resets. The largest \<open>uint64\<close> always advances the frontier, which wraps to 0;
  no number is then below it.\<close>

datatype tracker_op = Arrival u64 | Resetting

definition tracker_step :: "SequenceTracker \<Rightarrow> tracker_op \<Rightarrow> SequenceTracker option" where
  "tracker_step t act = (case act of Arrival q \<Rightarrow> Observe t q | Resetting \<Rightarrow> Some (Reset t))"

definition spec_step :: "nat \<Rightarrow> spec_tracker \<Rightarrow> tracker_op \<Rightarrow> spec_tracker" where
  "spec_step W st act = (case act of
     Arrival q \<Rightarrow> (let st' = spec_observe W st (unat q) in
       if unat q = 2 ^ 64 - 1 then st'\<lparr>frontier := 0, received := {}\<rparr> else st')
   | Resetting \<Rightarrow> spec_init)"

definition spec_ops :: "nat \<Rightarrow> tracker_op list \<Rightarrow> spec_tracker" where
  "spec_ops W ops = fold (\<lambda>act st. spec_step W st act) ops spec_init"

lemma unat_max: "unat (-1 :: u64) = 2 ^ 64 - 1"
  by (simp add: unsigned_minus_1_eq_mask mask_eq_exp_minus_1)

lemma unat_is_max: "unat (q :: u64) = 18446744073709551615 \<longleftrightarrow> q = -1"
  using unat_max by (simp add: word_unat_eq_iff)

lemma Observe_max:
  assumes "tracks W t st"
  shows "\<exists>t'. Observe t (-1) = Some t' \<and> tracks W t' ((spec_observe W st (unat (-1 :: u64)))\<lparr>frontier := 0, received := {}\<rparr>)"
proof -
  have wf: "wf_tracker t" and fr: "unat (nextExpected t) = frontier st" using assms by (auto simp: tracks_def)
  obtain t' where t': "Observe t (-1) = Some t'" "wf_tracker t'" using Observe_wf [OF wf] by blast
  have "nextExpected t' = 0 \<and> windowSize t' = windowSize t \<and> Stats t' = Stats (add_delivered t)"
    using t'(1) by (auto simp: Observe_def set_seq_def update_word_def counter_defs word_order.extremum
        clearRange.simps [of t "nextExpected t" 0] bind_eq_Some_conv split: if_splits)
  moreover have "frontier st \<le> unat (-1 :: u64)"
    using word_order.extremum [of "nextExpected t"] fr by (simp add: word_le_nat_alt)
  ultimately show ?thesis using t' assms
    by (auto simp: tracks_def spec_observe_def window_ok_def counter_defs)
qed

lemma tracker_step_refines:
  assumes "tracks W t st"
  shows "\<exists>t'. tracker_step t act = Some t' \<and> tracks W t' (spec_step W st act)"
proof (cases act)
  case (Arrival q)
  then show ?thesis using Observe_refines [OF assms, of q] Observe_max [OF assms]
    by (cases "q = -1") (simp_all add: tracker_step_def spec_step_def unat_is_max Let_def)
next
  case Resetting
  then show ?thesis using Reset_tracks [of t] assms by (auto simp: tracker_step_def spec_step_def tracks_def)
qed

interpretation tracker_ops: refinement "tracks W" "\<lambda>_. True" tracker_step "spec_step W"
  for W
  by unfold_locales (rule tracker_step_refines)

text \<open>Only \<open>Flush\<close> counts losses.\<close>

lemma Observe_lost: "Observe t q = Some t' \<Longrightarrow> Lost (Stats t') = Lost (Stats t)"
  by (auto simp: Observe_def set_seq_def counter_defs dest!: update_word_keeps clearRange_keeps
      split: bind_splits if_splits)

lemma Observe_run_lost: "run_opt Observe t qs = Some t' \<Longrightarrow> Lost (Stats t') = Lost (Stats t)"
  by (induction qs arbitrary: t) (auto simp: bind_eq_Some_conv dest: Observe_lost)

lemma NewSequenceTracker_words:
  assumes "NewSequenceTracker ws = Some t" and "64 \<le> unat ws"
  shows "64 * unat (words t) = unat ws"
proof -
  have "ws AND (ws - 1) = 0" and w: "words t = (if ws div 64 = 0 then 1 else ws div 64)"
    using assms(1) by (auto simp: NewSequenceTracker_def Let_def split: if_splits)
  then have "64 dvd unat ws" using assms(2) by (intro power_of_two_multiple)
  moreover have "unat (ws div 64) = unat ws div 64" by (simp add: unat_div)
  ultimately show ?thesis using assms(2) by (auto simp: w word_unat_eq_iff)
qed

section \<open>Flush\<close>

text \<open>The unset slots that a flush up to \<open>hi\<close> visits from \<open>s\<close> on.\<close>

definition unset_slots :: "u64 list \<Rightarrow> nat \<Rightarrow> nat \<Rightarrow> nat set" where
  "unset_slots w s hi = {n. s \<le> n \<and> n \<le> hi \<and> \<not> slot_set w n}"

lemma unset_slots_first:
  "s \<le> hi \<Longrightarrow> unset_slots w s hi =
     (if slot_set w s then unset_slots w (Suc s) hi else insert s (unset_slots w (Suc s) hi))"
  by (auto simp: unset_slots_def le_Suc_eq Suc_le_eq order_le_less)

lemma card_unset_slots:
  "s \<le> hi \<Longrightarrow> card (unset_slots w s hi) =
     (if slot_set w s then 0 else 1) + card (unset_slots w (Suc s) hi)"
  by (simp add: unset_slots_first) (simp add: unset_slots_def)

definition add_lost_n :: "nat \<Rightarrow> SequenceTracker \<Rightarrow> SequenceTracker" where
  "add_lost_n n t = t\<lparr>Stats := (Stats t)\<lparr>Lost := Lost (Stats t) + of_nat n\<rparr>\<rparr>"

lemma flush_loop_eq:
  assumes "wf_tracker t" and "hi \<noteq> -1"
  shows "flush_loop t hi s = Some (Some (add_lost_n (card (unset_slots (window t) (unat s) (unat hi))) t))"
  using assms
proof (induction "unat hi + 1 - unat s" arbitrary: t s)
  case 0
  then have "\<not> s \<le> hi" by (simp add: word_le_nat_alt)
  moreover have "unset_slots (window t) (unat s) (unat hi) = {}"
    using 0 by (auto simp: unset_slots_def)
  ultimately show ?case by (simp add: flush_loop.simps add_lost_n_def)
next
  case (Suc k)
  then have le: "unat s \<le> unat hi" by simp
  then have "s \<noteq> -1" using Suc.prems(2) by (metis word_le_nat_alt word_order.extremum_uniqueI)
  then have succ: "unat (s + 1) = Suc (unat s)" by (rule unat_add_one)
  let ?t = "if slot_set (window t) (unat s) then t else add_lost t"
  have "flush_loop t hi s = flush_loop ?t hi (s + 1)"
    using le Suc.prems(1)
    by (simp add: flush_loop.simps [of t hi s] isSet_eq word_le_nat_alt)
  also have "\<dots> = Some (Some (add_lost_n (card (unset_slots (window ?t) (Suc (unat s)) (unat hi))) ?t))"
    using Suc.hyps(1) [of "s + 1" ?t] Suc.hyps(2) Suc.prems
    by (simp add: succ counter_defs wf_tracker_def)
  finally show ?case
    by (simp add: card_unset_slots [OF le] add_lost_n_def counter_defs ac_simps)
qed

lemma flush_loop_diverges: "wf_tracker t \<Longrightarrow> flush_loop t (-1) s = None"
proof (rule ccontr)
  assume wf: "wf_tracker t" and "flush_loop t (-1) s \<noteq> None"
  then obtain r where ret: "flush_loop t (-1) s = Some r" by auto
  have "\<not> wf_tracker t \<or> (-1 :: u64) \<noteq> -1"
  proof (rule flush_loop.raw_induct [where P = "\<lambda>t hi s r. \<not> wf_tracker t \<or> hi \<noteq> -1", OF _ ret])
    fix f :: "SequenceTracker \<Rightarrow> u64 \<Rightarrow> u64 \<Rightarrow> SequenceTracker option option" and t hi s r
    assume IH: "\<And>t hi s r. f t hi s = Some r \<Longrightarrow> \<not> wf_tracker t \<or> hi \<noteq> -1"
      and eq: "(if s \<le> hi
        then (case isSet t s of None \<Rightarrow> Some None
              | Some b \<Rightarrow> f (if b then t else add_lost t) hi (s + 1))
        else Some (Some t)) = Some r"
    show "\<not> wf_tracker t \<or> hi \<noteq> -1"
    proof (cases "wf_tracker t \<and> hi = -1")
      case True
      then have "f (if slot_set (window t) (unat s) then t else add_lost t) hi (s + 1) = Some r"
        using eq by (simp add: isSet_eq)
      from IH [OF this] True show ?thesis by (auto simp: counter_defs wf_tracker_def split: if_splits)
    qed auto
  qed
  with wf show False by simp
qed

text \<open>A full window received in order sets every slot of the ring.\<close>

lemma full_window_run:
  assumes new: "NewSequenceTracker ws = Some t0" and big: "64 \<le> unat ws"
  obtains t where "run_opt Observe t0 (map of_nat [0..<unat ws]) = Some t" and "wf_tracker t"
    and "\<And>s. slot_set (window t) s"
proof -
  have lt: "unat ws < 2 ^ 64" using unsigned_less [of ws] by simp
  have unats: "map unat (map (of_nat :: nat \<Rightarrow> u64) [0..<unat ws]) = [0..<unat ws]"
    using lt by (auto intro!: map_idI simp: unsigned_of_nat take_bit_nat_eq_self_iff)
  have "-1 \<notin> set (map (of_nat :: nat \<Rightarrow> u64) [0..<unat ws])"
  proof
    assume "-1 \<in> set (map (of_nat :: nat \<Rightarrow> u64) [0..<unat ws])"
    then have "unat (-1 :: u64) \<in> set (map unat (map (of_nat :: nat \<Rightarrow> u64) [0..<unat ws]))"
      by (metis image_eqI list.set_map)
    then have "unat (-1 :: u64) < unat ws" unfolding unats by simp
    with lt show False by (simp add: unsigned_minus_1_eq_mask mask_eq_exp_minus_1)
  qed
  then obtain t where t: "run_opt Observe t0 (map of_nat [0..<unat ws]) = Some t"
    "tracks (unat ws) t (spec_run (unat ws) (map unat (map (of_nat :: nat \<Rightarrow> u64) [0..<unat ws])))"
    by (rule Observe_run [OF NewSequenceTracker_tracks [OF new]])
  have "sorted_wrt (\<lambda>a b. a < b + unat ws) [0..<unat ws]"
    by (rule sorted_wrt_mono_rel [OF _ sorted_wrt_upt]) simp
  note ex = spec_run_exact [OF this]
  have len: "ring t = unat ws"
    using Observe_run_words [OF t(1)] NewSequenceTracker_words [OF new big] t(2)
    by (simp add: tracks_def wf_tracker_def)
  let ?st = "spec_run (unat ws) [0..<unat ws]"
  have less: "s < frontier ?st \<longleftrightarrow> s < unat ws" for s using ex by auto
  have fr: "frontier ?st = unat ws" using less [of "frontier ?st"] less [of "unat ws"] by simp
  have "slot_set (window t) s" if "s < unat ws" for s
  proof -
    have "window_ok (unat ws) t ?st" using t(2) unfolding unats by (simp add: tracks_def)
    then have "slot_set (window t) s = (s \<in> received ?st)"
      using that unfolding window_ok_def fr by simp
    then show ?thesis using ex that by simp
  qed
  moreover have "s mod ring t < unat ws" for s
    using len big by simp
  ultimately have "slot_set (window t) (s mod ring t + ring t * (s div ring t))" for s
    unfolding slot_set_periodic by blast
  then have "slot_set (window t) s" for s by (simp only: mod_mult_div_eq)
  with t show thesis by (intro that) (auto simp: tracks_def)
qed

lemma Observe_run_exact:
  assumes "NewSequenceTracker ws = Some t0" and "-1 \<notin> set qs"
    and "sorted_wrt (\<lambda>a b. unat a < unat b + unat ws) qs"
  shows "\<exists>t. run_opt Observe t0 qs = Some t \<and>
           Delivered (Snapshot t) = of_nat (card (set qs)) \<and>
           Duplicated (Snapshot t) = of_nat (length qs - card (set qs)) \<and>
           Reordered (Snapshot t) = of_nat (card (late_firsts qs))"
proof -
  obtain t where t: "run_opt Observe t0 qs = Some t"
    "tracks (unat ws) t (spec_run (unat ws) (map unat qs))"
    by (rule Observe_run [OF NewSequenceTracker_tracks [OF assms(1)] assms(2)])
  let ?st = "spec_run (unat ws) (map unat qs)"
  have e: "received ?st = unat ` set qs" "n_reordered ?st = card (late_firsts (map unat qs))"
    using spec_run_exact [of "unat ws" "map unat qs"] assms(3) by (simp_all add: sorted_wrt_map)
  have "late_firsts (map unat qs) = late_firsts qs"
    by (auto simp: late_firsts_def take_map word_less_nat_alt dest!: unsigned_word_eqI)
  moreover have "card (unat ` set qs) = card (set qs)"
    by (rule card_image) (auto simp: inj_on_def dest: unsigned_word_eqI)
  moreover have "n_delivered ?st = card (received ?st)"
    "n_duplicated ?st = length qs - n_delivered ?st"
    using spec_run_basic [of "unat ws" "map unat qs"] by auto
  ultimately show ?thesis using t e by (auto simp: tracks_def Snapshot_def)
qed

section \<open>Properties\<close>

text \<open>A tracker never panics and never loses or invents an observation: after any
  sequence of observations (none the largest \<open>uint64\<close>), delivered and duplicated add up to
  the number of observations, at most one delivery is counted per distinct sequence number,
  and at most every delivery is counted as reordered.\<close>

lemma observe_conserves:
  assumes "NewSequenceTracker ws = Some t0" and "-1 \<notin> set qs"
  shows "\<exists>t d r. run_opt Observe t0 qs = Some t \<and>
           Delivered (Snapshot t) = of_nat d \<and> Reordered (Snapshot t) = of_nat r \<and>
           Duplicated (Snapshot t) = of_nat (length qs - d) \<and>
           d \<le> card (set qs) \<and> r \<le> d"
proof -
  obtain t where t: "run_opt Observe t0 qs = Some t"
    "tracks (unat ws) t (spec_run (unat ws) (map unat qs))"
    by (rule Observe_run [OF NewSequenceTracker_tracks [OF assms(1)] assms(2)])
  let ?st = "spec_run (unat ws) (map unat qs)"
  have b: "finite (received ?st)" "received ?st \<subseteq> unat ` set qs" "n_delivered ?st = card (received ?st)"
    "n_delivered ?st + n_duplicated ?st = length qs" "n_reordered ?st \<le> n_delivered ?st"
    using spec_run_basic [of "unat ws" "map unat qs"] by auto
  then have "n_delivered ?st \<le> card (set qs)"
    by (metis (no_types, lifting) List.finite_set card_image_le card_mono finite_imageI order_trans)
  moreover have "n_duplicated ?st = length qs - n_delivered ?st" using b(4) by simp
  ultimately show ?thesis
    using t b(5) by (intro exI [of _ t] exI [of _ "n_delivered ?st"] exI [of _ "n_reordered ?st"])
      (simp add: tracks_def Snapshot_def)
qed

text \<open>Property C14. As long as no message arrives a window or more behind the newest one, and the largest
  \<open>uint64\<close>, \<open>2 ^ 64 - 1\<close>, at which the frontier wraps around, does not arrive, the three counters are exact: delivered is the number of distinct sequence numbers,
  duplicated the number of repeated arrivals, and reordered the number of first arrivals
  that come after a larger sequence number.\<close>

theorem observe_exact_within_window:
  assumes "NewSequenceTracker ws = Some t0" and "-1 \<notin> set qs"
    and "sorted_wrt (\<lambda>a b. unat a < unat b + unat ws) qs"
  shows "\<exists>t. run_opt Observe t0 qs = Some t \<and>
           Delivered (Snapshot t) = of_nat (card (set qs)) \<and>
           Duplicated (Snapshot t) = of_nat (length qs - card (set qs)) \<and>
           Reordered (Snapshot t) = of_nat (card (late_firsts qs))"
  by (rule Observe_run_exact [OF assms])

theorem observe_exact_within_window_witness:
  "\<exists>t. run_opt Observe (the (NewSequenceTracker 64)) [1, 2, 4, 3, 2] = Some t \<and>
     Delivered (Snapshot t) = 4 \<and> Duplicated (Snapshot t) = 1 \<and>
     Reordered (Snapshot t) = of_nat (card (late_firsts [1, 2, 4, 3, 2 :: u64]))"
proof -
  have "card (set [1, 2, 4, 3, 2 :: u64]) = 4" "-1 \<notin> set [1, 2, 4, 3, 2 :: u64]"
    by (simp_all add: card_insert_if)
  moreover have "NewSequenceTracker 64 = Some (the (NewSequenceTracker 64))"
    by (simp add: NewSequenceTracker_def)
  ultimately show ?thesis
    using observe_exact_within_window [of 64 "the (NewSequenceTracker 64)" "[1, 2, 4, 3, 2]"]
    by (simp del: list.set run_opt.simps)
qed

text \<open>A stream of strictly increasing sequence numbers, however long and however
  wide its gaps, is counted as delivered in full: no duplicates and no reordering appear
  when the ring wraps.\<close>

lemma observe_increasing_stream:
  assumes "NewSequenceTracker ws = Some t0" and "-1 \<notin> set qs" and "sorted_wrt (<) qs"
  shows "\<exists>t. run_opt Observe t0 qs = Some t \<and>
           Delivered (Snapshot t) = of_nat (length qs) \<and>
           Duplicated (Snapshot t) = 0 \<and> Reordered (Snapshot t) = 0"
proof -
  obtain t where t: "run_opt Observe t0 qs = Some t"
    "tracks (unat ws) t (spec_run (unat ws) (map unat qs))"
    by (rule Observe_run [OF NewSequenceTracker_tracks [OF assms(1)] assms(2)])
  have "sorted_wrt (<) (map unat qs)"
    using assms(3) by (simp add: sorted_wrt_map flip: word_less_nat_alt)
  from spec_run_increasing [OF this, of "unat ws"] t show ?thesis
    by (auto simp: tracks_def Snapshot_def)
qed

text \<open>Property C3. Refinement over whole runs: from \<open>NewSequenceTracker\<close> on, any sequence of arrivals and
  resets, the largest \<open>uint64\<close> included, runs without panic and leaves the tracker representing the state the
  set-based specification reaches on the same sequence: the frontier is the next expected number, the bits in
  the window say which numbers of the window were received, and the delivered, duplicate and reorder counters
  are those of the specification (as \<open>uint64\<close>). The arrival of \<open>2 ^ 64 - 1\<close> wraps the frontier to 0, after which
  the specification remembers no number.\<close>

theorem observe_refines_spec:
  assumes "NewSequenceTracker ws = Some t0"
  shows "\<exists>t. run_opt tracker_step t0 ops = Some t \<and> tracks (unat ws) t (spec_ops (unat ws) ops) \<and>
     unat (nextExpected t) = frontier (spec_ops (unat ws) ops) \<and>
     Delivered (Snapshot t) = of_nat (n_delivered (spec_ops (unat ws) ops)) \<and>
     Duplicated (Snapshot t) = of_nat (n_duplicated (spec_ops (unat ws) ops)) \<and>
     Reordered (Snapshot t) = of_nat (n_reordered (spec_ops (unat ws) ops))"
proof -
  have "list_all (\<lambda>_. True) ops" by (simp add: list_all_iff)
  from tracker_ops.run_refines [OF NewSequenceTracker_tracks [OF assms] this] obtain t where
    "run_opt tracker_step t0 ops = Some t" "tracks (unat ws) t (spec_ops (unat ws) ops)"
    by (auto simp: spec_ops_def)
  then show ?thesis by (intro exI [of _ t]) (simp add: tracks_def Snapshot_def)
qed

theorem observe_refines_spec_witness:
  "\<exists>t. run_opt tracker_step (the (NewSequenceTracker 64))
       [Arrival 7, Arrival 5, Arrival 7, Arrival (-1), Arrival 0, Resetting, Arrival 3, Arrival 2, Arrival 2] = Some t \<and>
     nextExpected t = 4 \<and> Delivered (Snapshot t) = 2 \<and> Duplicated (Snapshot t) = 1 \<and> Reordered (Snapshot t) = 1"
proof -
  have "NewSequenceTracker 64 = Some (the (NewSequenceTracker 64))" by (simp add: NewSequenceTracker_def)
  from observe_refines_spec [OF this, of "[Arrival 7, Arrival 5, Arrival 7, Arrival (-1), Arrival 0, Resetting,
      Arrival 3, Arrival 2, Arrival 2]"] show ?thesis
    by (elim exE conjE, intro exI conjI)
       (assumption, simp_all add: spec_ops_def spec_step_def spec_observe_def spec_init_def word_unat_eq_iff)
qed

text \<open>Property C18. \<open>Flush\<close> ends for every last sequence number but the largest \<open>uint64\<close>, for
  which its loop runs forever; when it ends it adds to \<open>Lost\<close> the number of unset slots
  from the frontier to the last number and changes nothing else.\<close>

theorem flush_behaviour:
  assumes "wf_tracker t"
  shows "Flush t hi =
     (if hi = -1 then None
      else Some (Some (t\<lparr>Stats := (Stats t)\<lparr>Lost := Lost (Stats t) +
             of_nat (card {n. unat (nextExpected t) \<le> n \<and> n \<le> unat hi \<and>
                              \<not> slot_set (window t) n})\<rparr>\<rparr>)))"
  using assms by (auto simp: Flush_def flush_loop_diverges flush_loop_eq add_lost_n_def unset_slots_def)

theorem flush_behaviour_witness:
  "Flush (the (NewSequenceTracker 64)) (-1) = None"
  using flush_behaviour [of "the (NewSequenceTracker 64)" "-1"] NewSequenceTracker_tracks [of 64]
  by (simp add: NewSequenceTracker_def tracks_def)

text \<open>\<open>Flush\<close> counts no gap below the frontier: when the last sent number has
  been passed, nothing is declared lost, whatever was missed.\<close>

lemma flush_ignores_gaps:
  assumes "wf_tracker t" and "hi < nextExpected t"
  shows "Flush t hi = Some (Some t)"
proof -
  have "hi \<noteq> -1" using assms(2) word_order.extremum_strict by blast
  moreover have "unset_slots (window t) (unat (nextExpected t)) (unat hi) = {}"
    using assms(2) by (auto simp: unset_slots_def word_less_nat_alt)
  ultimately show ?thesis
    using flush_loop_eq [OF assms(1), of hi] by (simp add: Flush_def add_lost_n_def)
qed

text \<open>\<open>Flush\<close> reads the stale bits of the previous window: after one full window
  \<open>0, \<dots>, ws - 1\<close> received in order, no message is ever declared lost, however many
  further messages were sent and never received.\<close>

lemma flush_blind_after_full_window:
  assumes "NewSequenceTracker ws = Some t0" and "64 \<le> unat ws" and "hi \<noteq> -1"
  shows "\<exists>t. run_opt Observe t0 (map of_nat [0..<unat ws]) = Some t \<and> Flush t hi = Some (Some t)"
proof -
  obtain t where t: "run_opt Observe t0 (map of_nat [0..<unat ws]) = Some t" "wf_tracker t"
    "\<And>s. slot_set (window t) s"
    by (rule full_window_run [OF assms(1,2)]) blast
  then have "unset_slots (window t) a b = {}" for a b by (simp add: unset_slots_def)
  then have "Flush t hi = Some (Some t)"
    using t(2) assms(3) by (simp add: Flush_def flush_loop_eq add_lost_n_def)
  with t(1) show ?thesis by blast
qed

end
