(* ===== verification/Containers.thy ===== *)
theory Containers
  imports Prelude "HOL-Library.AList"
begin

text \<open>
  Containers the components share: Go maps (nil or an association list with distinct keys,
  visited by \<open>range\<close> in an order of the run time's choice), the FNV-1a hash, and the
  interface \<open>keyed_pool\<close> of everything in the program that registers connections or
  writers under an identifier: the sharded registry and the broadcasters interpret it,
  and what their users need is proved once, inside the locale.
\<close>

type_synonym ConnID = string

section \<open>Go maps\<close>

type_synonym ('k, 'v) gomap = "('k \<times> 'v) list option"

definition entries :: "('k, 'v) gomap \<Rightarrow> ('k \<times> 'v) list" where
  "entries m = (case m of None \<Rightarrow> [] | Some xs \<Rightarrow> xs)"

definition gomap_get :: "('k, 'v) gomap \<Rightarrow> 'k \<Rightarrow> 'v option" where
  "gomap_get m k = map_of (entries m) k"

definition gomap_put :: "('k, 'v) gomap \<Rightarrow> 'k \<Rightarrow> 'v \<Rightarrow> ('k, 'v) gomap option" where
  \<comment> \<open>\<open>m[k] = v\<close> panics on a nil map.\<close>
  "gomap_put m k v = (case m of None \<Rightarrow> None | Some xs \<Rightarrow> Some (Some (AList.update k v xs)))"

definition gomap_delete :: "('k, 'v) gomap \<Rightarrow> 'k \<Rightarrow> ('k, 'v) gomap" where
  "gomap_delete m k = map_option (AList.delete k) m"

definition gomap_len :: "('k, 'v) gomap \<Rightarrow> nat" where
  "gomap_len m = length (entries m)"

definition wf_gomap :: "('k, 'v) gomap \<Rightarrow> bool" where
  "wf_gomap m \<longleftrightarrow> distinct (map fst (entries m))"

text \<open>The order in which \<open>range\<close> visits a map: any permutation of its entries.\<close>

definition range_order :: "('a list \<Rightarrow> 'a list) \<Rightarrow> bool" where
  "range_order ord \<longleftrightarrow> (\<forall>xs. mset (ord xs) = mset xs)"

lemma range_order_id [simp]: "range_order (\<lambda>xs. xs)" and range_order_rev [simp]: "range_order rev"
  by (simp_all add: range_order_def)

lemma set_range_order [simp]: "range_order ord \<Longrightarrow> set (ord xs) = set xs"
  by (metis range_order_def mset_eq_setD)

lemma length_range_order [simp]: "range_order ord \<Longrightarrow> length (ord xs) = length xs"
  by (metis range_order_def size_mset)

lemma distinct_range_order [simp]: "range_order ord \<Longrightarrow> distinct (ord xs) = distinct xs"
  by (metis range_order_def mset_eq_imp_distinct_iff)

lemma distinct_map_range_order [simp]:
  "range_order ord \<Longrightarrow> distinct (map f (ord xs)) = distinct (map f xs)"
  by (metis range_order_def mset_eq_imp_distinct_iff mset_map)

text \<open>Any function, made an order; interpretations are stated for all of them.\<close>

definition some_order :: "('a list \<Rightarrow> 'a list) \<Rightarrow> 'a list \<Rightarrow> 'a list" where
  "some_order ord = (if range_order ord then ord else (\<lambda>xs. xs))"

lemma range_some_order [simp]: "range_order (some_order ord)"
  by (simp add: some_order_def)

lemma some_order: "range_order ord \<Longrightarrow> some_order ord = ord"
  by (simp add: some_order_def)

lemma gomap_get_put [go_map]:
  "gomap_put m k v = Some m' \<Longrightarrow> gomap_get m' = (gomap_get m)(k \<mapsto> v)"
  by (auto simp: gomap_put_def gomap_get_def entries_def update_conv' split: option.splits)

lemma gomap_get_delete [go_map]:
  "gomap_get (gomap_delete m k) = (gomap_get m)(k := None)"
  by (cases m) (auto simp: gomap_delete_def gomap_get_def entries_def delete_conv')

lemma wf_gomap_put [go_map]: "wf_gomap m \<Longrightarrow> gomap_put m k v = Some m' \<Longrightarrow> wf_gomap m'"
  by (auto simp: wf_gomap_def gomap_put_def entries_def intro: distinct_update split: option.splits)

lemma wf_gomap_delete [go_map]: "wf_gomap m \<Longrightarrow> wf_gomap (gomap_delete m k)"
  by (cases m) (auto simp: wf_gomap_def gomap_delete_def entries_def intro: distinct_delete)

lemma wf_gomap_nil [go_map, simp]: "wf_gomap None" and wf_gomap_make [go_map, simp]: "wf_gomap (Some [])"
  by (simp_all add: wf_gomap_def entries_def)

lemma entries_nil [simp]: "entries None = []" and entries_Some [simp]: "entries (Some xs) = xs"
  by (simp_all add: entries_def)

text \<open>\<open>if m == nil { m = make(...) }\<close>\<close>

lemma make_if_nil: "(case m of None \<Rightarrow> Some [] | Some xs \<Rightarrow> Some xs) = Some (entries m)"
  by (cases m) simp_all

lemma gomap_get_nil [simp]: "gomap_get None = Map.empty"
  and gomap_get_entries [simp]: "gomap_get (Some (entries m)) = gomap_get m"
  and wf_gomap_entries [simp]: "wf_gomap (Some (entries m)) = wf_gomap m"
  by (auto simp: gomap_get_def wf_gomap_def)

lemma gomap_put_Some [simp]: "\<exists>m'. gomap_put (Some xs) k v = Some m'"
  by (simp add: gomap_put_def)

lemma in_entries_iff: "wf_gomap m \<Longrightarrow> (k, v) \<in> set (entries m) \<longleftrightarrow> gomap_get m k = Some v"
  by (simp add: wf_gomap_def gomap_get_def)

lemma fst_entries_dom: "fst ` set (entries m) = dom (gomap_get m)"
proof -
  have "gomap_get m = map_of (entries m)" by (simp add: gomap_get_def fun_eq_iff)
  then show ?thesis by (simp add: dom_map_of_conv_image_fst)
qed

lemma gomap_len_card: "wf_gomap m \<Longrightarrow> gomap_len m = card (dom (gomap_get m))"
  by (metis gomap_len_def wf_gomap_def distinct_card length_map list.set_map fst_entries_dom)

section \<open>FNV-1a\<close>

definition fnv_byte :: "char \<Rightarrow> u32 \<Rightarrow> u32" where
  "fnv_byte c h = (h XOR of_char c) * 16777619"

definition fnv32a :: "string \<Rightarrow> u32" where
  \<comment> \<open>\<open>hash/fnv\<close>: \<open>New32a\<close>, \<open>Write\<close>, \<open>Sum32\<close>\<close>
  "fnv32a s = fold fnv_byte s 2166136261"

section \<open>Pools of identified elements\<close>

datatype ('k, 'e) pool_op = PAdd 'e | PRemove 'k

fun spec_pool_op :: "('e \<Rightarrow> 'k) \<Rightarrow> ('k \<rightharpoonup> 'e) \<Rightarrow> ('k, 'e) pool_op \<Rightarrow> ('k \<rightharpoonup> 'e)" where
  "spec_pool_op key m (PAdd e) = m(key e \<mapsto> e)"
| "spec_pool_op key m (PRemove k) = m(k := None)"

fun pool_step ::
  "('r \<Rightarrow> 'e \<Rightarrow> 'r option) \<Rightarrow> ('r \<Rightarrow> 'k \<Rightarrow> 'r) \<Rightarrow> 'r \<Rightarrow> ('k, 'e) pool_op \<Rightarrow> 'r option" where
  "pool_step add remove r (PAdd e) = add r e"
| "pool_step add remove r (PRemove k) = Some (remove r k)"

locale keyed_pool =
  fixes key :: "'e \<Rightarrow> 'k"
    and inv :: "'r \<Rightarrow> bool"
    and get :: "'r \<Rightarrow> 'k \<rightharpoonup> 'e"
    and add :: "'r \<Rightarrow> 'e \<Rightarrow> 'r option"
    and remove :: "'r \<Rightarrow> 'k \<Rightarrow> 'r"
    and len :: "'r \<Rightarrow> nat"
    and elems :: "'r \<Rightarrow> 'e list"
  assumes add_spec: "inv r \<Longrightarrow> \<exists>r'. add r e = Some r' \<and> inv r' \<and> get r' = (get r)(key e \<mapsto> e)"
    and remove_spec: "inv r \<Longrightarrow> inv (remove r k) \<and> get (remove r k) = (get r)(k := None)"
    and elems_distinct: "inv r \<Longrightarrow> distinct (map key (elems r))"
    and elems_get: "inv r \<Longrightarrow> get r k = Some e \<longleftrightarrow> e \<in> set (elems r) \<and> key e = k"
    and len_elems: "inv r \<Longrightarrow> len r = length (elems r)"
begin

lemma dom_get: "inv r \<Longrightarrow> dom (get r) = key ` set (elems r)"
  by (auto simp: elems_get)

lemma finite_dom: "inv r \<Longrightarrow> finite (dom (get r))"
  by (simp add: dom_get)

lemma len_card: "inv r \<Longrightarrow> len r = card (dom (get r))"
  by (metis dom_get distinct_card elems_distinct len_elems length_map list.set_map)

lemma len_add:
  "inv r \<Longrightarrow> add r e = Some r' \<Longrightarrow>
   len r' = (if get r (key e) = None then Suc (len r) else len r)"
  using add_spec [of r e] by (auto simp: len_card finite_dom card_insert_if)

lemma len_remove:
  "inv r \<Longrightarrow> len (remove r k) = (if get r k = None then len r else len r - 1)"
  using remove_spec [of r k] by (auto simp: len_card finite_dom card_Diff_singleton_if)

lemma elems_add:
  "inv r \<Longrightarrow> add r e = Some r' \<Longrightarrow> set (elems r') = insert e {x \<in> set (elems r). key x \<noteq> key e}"
proof -
  assume r: "inv r" "add r e = Some r'"
  then have r': "inv r'" "get r' = (get r)(key e \<mapsto> e)" using add_spec [of r e] by auto
  have "x \<in> set (elems r') \<longleftrightarrow> get r' (key x) = Some x" for x
    using elems_get [OF r'(1)] by auto
  moreover have "x \<in> set (elems r) \<longleftrightarrow> get r (key x) = Some x" for x
    using elems_get [OF r(1)] by auto
  ultimately show ?thesis by (auto simp: r'(2) split: if_splits)
qed

lemma elems_remove: "inv r \<Longrightarrow> set (elems (remove r k)) = {x \<in> set (elems r). key x \<noteq> k}"
proof -
  assume r: "inv r"
  then have r': "inv (remove r k)" "get (remove r k) = (get r)(k := None)"
    using remove_spec [of r k] by auto
  have "x \<in> set (elems (remove r k)) \<longleftrightarrow> get (remove r k) (key x) = Some x" for x
    using elems_get [OF r'(1)] by auto
  moreover have "x \<in> set (elems r) \<longleftrightarrow> get r (key x) = Some x" for x
    using elems_get [OF r] by auto
  ultimately show ?thesis by (auto simp: r'(2) split: if_splits)
qed

sublocale refinement "\<lambda>r m. inv r \<and> get r = m" "\<lambda>_. True" "pool_step add remove" "spec_pool_op key"
proof
  fix c a e assume "inv c \<and> get c = a"
  then show "\<exists>c'. pool_step add remove c e = Some c' \<and> inv c' \<and> get c' = spec_pool_op key a e"
    using add_spec remove_spec by (cases e) auto
qed

lemma pool_run:
  "inv r \<Longrightarrow> \<exists>r'. run_opt (pool_step add remove) r ops = Some r' \<and> inv r' \<and>
     get r' = fold (\<lambda>x m. spec_pool_op key m x) ops (get r)"
  using run_refines [of r "get r" ops] by (simp add: list_all_iff)

lemma elems_ran: "inv r \<Longrightarrow> set (elems r) = ran (get r)"
  using elems_get [of r] by (auto simp: ran_def)

lemma pool_run_elems:
  assumes "inv r" and "get r = Map.empty" and "run_opt (pool_step add remove) r ops = Some r'"
  shows "distinct (map key (elems r')) \<and>
    set (elems r') = ran (fold (\<lambda>x m. spec_pool_op key m x) ops Map.empty) \<and>
    len r' = card (dom (fold (\<lambda>x m. spec_pool_op key m x) ops Map.empty))"
proof -
  have r': "inv r'" "get r' = fold (\<lambda>x m. spec_pool_op key m x) ops Map.empty"
    using pool_run [OF assms(1), of ops] assms(2,3) by auto
  then show ?thesis using elems_distinct [OF r'(1)] elems_ran [OF r'(1)] len_card [OF r'(1)] by simp
qed

end

section \<open>Pools split into shards\<close>

text \<open>A pool whose elements are distributed over \<open>n\<close> smaller pools by a function of the key is
  again a pool.\<close>

definition shards_inv ::
  "('e \<Rightarrow> 'k) \<Rightarrow> ('r \<Rightarrow> bool) \<Rightarrow> ('r \<Rightarrow> 'e list) \<Rightarrow> ('k \<Rightarrow> nat) \<Rightarrow> nat \<Rightarrow> 'r list \<Rightarrow> bool" where
  "shards_inv key I elems idx n rs \<longleftrightarrow>
     length rs = n \<and> (\<forall>i < n. I (rs ! i) \<and> (\<forall>e \<in> set (elems (rs ! i)). idx (key e) = i))"

definition shards_get :: "('r \<Rightarrow> 'k \<rightharpoonup> 'e) \<Rightarrow> ('k \<Rightarrow> nat) \<Rightarrow> 'r list \<Rightarrow> 'k \<rightharpoonup> 'e" where
  "shards_get get idx rs k = get (rs ! idx k) k"

definition shards_add ::
  "('e \<Rightarrow> 'k) \<Rightarrow> ('r \<Rightarrow> 'e \<Rightarrow> 'r option) \<Rightarrow> ('k \<Rightarrow> nat) \<Rightarrow> 'r list \<Rightarrow> 'e \<Rightarrow> 'r list option" where
  "shards_add key add idx rs e = map_option (\<lambda>r. rs[idx (key e) := r]) (add (rs ! idx (key e)) e)"

definition shards_remove :: "('r \<Rightarrow> 'k \<Rightarrow> 'r) \<Rightarrow> ('k \<Rightarrow> nat) \<Rightarrow> 'r list \<Rightarrow> 'k \<Rightarrow> 'r list" where
  "shards_remove remove idx rs k = rs[idx k := remove (rs ! idx k) k]"

definition shards_len :: "('r \<Rightarrow> nat) \<Rightarrow> 'r list \<Rightarrow> nat" where
  "shards_len len rs = fold (\<lambda>r total. total + len r) rs 0"

definition shards_elems :: "('r \<Rightarrow> 'e list) \<Rightarrow> 'r list \<Rightarrow> 'e list" where
  "shards_elems elems rs = concat (map elems rs)"

lemmas shards_defs = shards_get_def shards_add_def shards_remove_def shards_len_def shards_elems_def

locale sharded_pool = keyed_pool key inv get add remove len elems
  for key :: "'e \<Rightarrow> 'k" and inv :: "'r \<Rightarrow> bool" and get :: "'r \<Rightarrow> 'k \<rightharpoonup> 'e"
    and add :: "'r \<Rightarrow> 'e \<Rightarrow> 'r option" and remove :: "'r \<Rightarrow> 'k \<Rightarrow> 'r"
    and len :: "'r \<Rightarrow> nat" and elems :: "'r \<Rightarrow> 'e list" +
  fixes idx :: "'k \<Rightarrow> nat" and n :: nat
  assumes idx_less: "idx k < n"
begin

lemma shards_invD:
  assumes "shards_inv key inv elems idx n rs"
  shows "length rs = n" and "i < n \<Longrightarrow> inv (rs ! i)"
    and "i < n \<Longrightarrow> e \<in> set (elems (rs ! i)) \<Longrightarrow> idx (key e) = i"
  using assms by (auto simp: shards_inv_def)

lemma shards_inv_update:
  "shards_inv key inv elems idx n rs \<Longrightarrow> inv r \<Longrightarrow> (\<And>e. e \<in> set (elems r) \<Longrightarrow> idx (key e) = i) \<Longrightarrow>
   shards_inv key inv elems idx n (rs[i := r])"
  by (cases "i < length rs") (auto simp: shards_inv_def nth_list_update)

lemma in_shards_elems:
  assumes "shards_inv key inv elems idx n rs"
  shows "e \<in> set (shards_elems elems rs) \<longleftrightarrow> e \<in> set (elems (rs ! idx (key e)))"
proof -
  have "e \<in> set (shards_elems elems rs) \<longleftrightarrow> (\<exists>i < n. e \<in> set (elems (rs ! i)))"
    using shards_invD(1) [OF assms] by (auto simp: shards_elems_def set_conv_nth [of rs])
  then show ?thesis using shards_invD(3) [OF assms] idx_less by blast
qed

lemma shards_elems_distinct:
  assumes "shards_inv key inv elems idx n rs"
  shows "distinct (map key (shards_elems elems rs))"
proof -
  note rs = shards_invD [OF assms]
  have "map key (shards_elems elems rs) = concat (map (\<lambda>i. map key (elems (rs ! i))) [0..<n])"
    using map_via_nth [of "\<lambda>r. map key (elems r)" rs] rs(1)
    by (simp add: shards_elems_def map_concat comp_def)
  moreover have "distinct (concat (map (\<lambda>i. map key (elems (rs ! i))) [0..<n]))"
    by (rule distinct_concat_map) (use rs elems_distinct in \<open>auto, metis\<close>)
  ultimately show ?thesis by simp
qed

lemma shards_add_spec:
  assumes rs: "shards_inv key inv elems idx n rs"
  shows "\<exists>rs'. shards_add key add idx rs e = Some rs' \<and> shards_inv key inv elems idx n rs' \<and>
    shards_get get idx rs' = (shards_get get idx rs)(key e \<mapsto> e)"
proof -
  let ?i = "idx (key e)"
  have r: "inv (rs ! ?i)" using shards_invD(2) [OF rs idx_less] .
  obtain r' where r': "add (rs ! ?i) e = Some r'" "inv r'" "get r' = (get (rs ! ?i))(key e \<mapsto> e)"
    using add_spec [OF r, of e] by blast
  have "shards_inv key inv elems idx n (rs[?i := r'])"
    using elems_add [OF r r'(1)] shards_invD(3) [OF rs idx_less] by (intro shards_inv_update rs r') auto
  moreover have "shards_get get idx (rs[?i := r']) k = ((shards_get get idx rs)(key e \<mapsto> e)) k" for k
    using shards_invD(1) [OF rs] idx_less [of "key e"] r'(3)
    by (cases "idx k = ?i") (auto simp: shards_get_def)
  ultimately show ?thesis using r'(1) by (auto simp: shards_add_def)
qed

lemma shards_remove_spec:
  assumes rs: "shards_inv key inv elems idx n rs"
  shows "shards_inv key inv elems idx n (shards_remove remove idx rs k) \<and>
    shards_get get idx (shards_remove remove idx rs k) = (shards_get get idx rs)(k := None)"
proof
  have r: "inv (rs ! idx k)" using shards_invD(2) [OF rs idx_less] .
  show "shards_inv key inv elems idx n (shards_remove remove idx rs k)"
    unfolding shards_remove_def using elems_remove [OF r, of k] remove_spec [OF r, of k] shards_invD(3) [OF rs idx_less]
    by (intro shards_inv_update rs) auto
  have "shards_get get idx (shards_remove remove idx rs k) j = ((shards_get get idx rs)(k := None)) j" for j
    using shards_invD(1) [OF rs] idx_less [of k] remove_spec [OF r, of k]
    by (cases "idx j = idx k") (auto simp: shards_get_def shards_remove_def)
  then show "shards_get get idx (shards_remove remove idx rs k) = (shards_get get idx rs)(k := None)" by blast
qed

lemma shards_get_elems:
  assumes "shards_inv key inv elems idx n rs"
  shows "shards_get get idx rs k = Some e \<longleftrightarrow> e \<in> set (shards_elems elems rs) \<and> key e = k"
  using in_shards_elems [OF assms, of e] elems_get [OF shards_invD(2) [OF assms idx_less], of k k e]
  by (auto simp: shards_get_def)

lemma shards_len_elems:
  assumes "shards_inv key inv elems idx n rs"
  shows "shards_len len rs = length (shards_elems elems rs)"
proof -
  have "sum_list (map len rs) = sum_list (map (\<lambda>r. length (elems r)) rs)"
    using assms
    by (intro arg_cong [where f = sum_list] map_cong) (auto simp: shards_inv_def in_set_conv_nth intro!: len_elems)
  then show ?thesis by (simp add: shards_len_def shards_elems_def fold_add_nat length_concat comp_def)
qed

sublocale sh: keyed_pool key "shards_inv key inv elems idx n" "shards_get get idx" "shards_add key add idx"
  "shards_remove remove idx" "shards_len len" "shards_elems elems"
  by unfold_locales
     (auto simp: shards_add_spec shards_remove_spec shards_elems_distinct shards_get_elems shards_len_elems)

end

end
