(* ===== verification/Registry.thy ===== *)
theory Registry
  imports Containers
begin

text \<open>
  The sharded connection registry of \<^verbatim>\<open>pkg/transport/registry.go\<close>: sixteen maps, each under
  its own lock, selected by the FNV-1a hash of the connection identifier. Sequentially it
  is one map from identifiers to connections (the interpretation \<open>registry\<close> of
  \<open>keyed_pool\<close>). Its iterations hold one shard's lock at a time; \<open>Snapshot_concurrent\<close>
  lets other goroutines change the registry between two shards.
\<close>

section \<open>Operations\<close>

type_synonym 'c registryShard = "(ConnID, 'c) gomap"
type_synonym 'c Registry = "'c registryShard list"

definition numShards :: nat where "numShards = 16"

definition zero_Registry :: "'c Registry" where
  "zero_Registry = replicate numShards None"

definition shardFor :: "ConnID \<Rightarrow> nat" where
  "shardFor cid = unat (fnv32a cid AND of_nat (numShards - 1))"

definition Registry_Add :: "'c Registry \<Rightarrow> ConnID \<Rightarrow> 'c \<Rightarrow> 'c Registry option" where
  "Registry_Add r cid conn =
     (let s = r ! shardFor cid;
          s' = (case s of None \<Rightarrow> Some [] | Some xs \<Rightarrow> Some xs)
      in do {
        m \<leftarrow> gomap_put s' cid conn;
        Some (r[shardFor cid := m])
      })"

definition Registry_Remove :: "'c Registry \<Rightarrow> ConnID \<Rightarrow> 'c Registry" where
  "Registry_Remove r cid = r[shardFor cid := gomap_delete (r ! shardFor cid) cid]"

definition Registry_Get :: "'c Registry \<Rightarrow> ConnID \<Rightarrow> 'c option" where
  "Registry_Get r cid = gomap_get (r ! shardFor cid) cid"

definition Registry_Len :: "'c Registry \<Rightarrow> nat" where
  "Registry_Len r = fold (\<lambda>s n. n + gomap_len s) r 0"

text \<open>\<open>Range\<close> threads the state \<open>st\<close> of the callback; the callback's second result is the
  boolean it returns.\<close>

fun range_shard :: "(ConnID \<Rightarrow> 'c \<Rightarrow> 's \<Rightarrow> 's \<times> bool) \<Rightarrow> (ConnID \<times> 'c) list \<Rightarrow> 's \<Rightarrow> 's \<times> bool" where
  "range_shard fn [] st = (st, True)"
| "range_shard fn ((cid, conn) # es) st =
     (case fn cid conn st of (st', cont) \<Rightarrow> if \<not> cont then (st', False) else range_shard fn es st')"

fun range_shards ::
  "((ConnID \<times> 'c) list \<Rightarrow> (ConnID \<times> 'c) list) \<Rightarrow> (ConnID \<Rightarrow> 'c \<Rightarrow> 's \<Rightarrow> 's \<times> bool) \<Rightarrow>
   'c registryShard list \<Rightarrow> 's \<Rightarrow> 's" where
  "range_shards ord fn [] st = st"
| "range_shards ord fn (s # ss) st =
     (case range_shard fn (ord (entries s)) st of
        (st', cont) \<Rightarrow> if \<not> cont then st' else range_shards ord fn ss st')"

definition Registry_Range ::
  "((ConnID \<times> 'c) list \<Rightarrow> (ConnID \<times> 'c) list) \<Rightarrow> 'c Registry \<Rightarrow>
   (ConnID \<Rightarrow> 'c \<Rightarrow> 's \<Rightarrow> 's \<times> bool) \<Rightarrow> 's \<Rightarrow> 's" where
  "Registry_Range ord r fn st = range_shards ord fn r st"

definition Registry_Snapshot ::
  "((ConnID \<times> 'c) list \<Rightarrow> (ConnID \<times> 'c) list) \<Rightarrow> 'c Registry \<Rightarrow> 'c list" where
  "Registry_Snapshot ord r = concat (map (\<lambda>s. map snd (ord (entries s))) r)"

definition Registry_SnapshotWithIDs ::
  "((ConnID \<times> 'c) list \<Rightarrow> (ConnID \<times> 'c) list) \<Rightarrow> 'c Registry \<Rightarrow> ConnID list \<times> 'c list" where
  "Registry_SnapshotWithIDs ord r =
     (concat (map (\<lambda>s. map fst (ord (entries s))) r), concat (map (\<lambda>s. map snd (ord (entries s))) r))"

text \<open>A snapshot during which other goroutines add and remove: \<open>sched\<close> holds, for each shard
  in turn, the operations that complete before the snapshot takes that shard's lock.\<close>

abbreviation registry_step ::
  "'c Registry \<Rightarrow> (ConnID, ConnID \<times> 'c) pool_op \<Rightarrow> 'c Registry option" where
  "registry_step \<equiv> pool_step (\<lambda>r (cid, c). Registry_Add r cid c) Registry_Remove"

fun snapshot_from ::
  "((ConnID \<times> 'c) list \<Rightarrow> (ConnID \<times> 'c) list) \<Rightarrow> nat list \<Rightarrow>
   (ConnID, ConnID \<times> 'c) pool_op list list \<Rightarrow> 'c Registry \<Rightarrow> 'c list option" where
  "snapshot_from ord [] sched r = Some []"
| "snapshot_from ord (i # is) sched r = do {
     r' \<leftarrow> run_opt registry_step r (case sched of [] \<Rightarrow> [] | ops # _ \<Rightarrow> ops);
     rest \<leftarrow> snapshot_from ord is (drop 1 sched) r';
     Some (map snd (ord (entries (r' ! i))) @ rest)
   }"

definition Snapshot_concurrent ::
  "((ConnID \<times> 'c) list \<Rightarrow> (ConnID \<times> 'c) list) \<Rightarrow> 'c Registry \<Rightarrow>
   (ConnID, ConnID \<times> 'c) pool_op list list \<Rightarrow> 'c list option" where
  "Snapshot_concurrent ord r sched = snapshot_from ord [0..<numShards] sched r"

section \<open>Invariant and interface\<close>

definition wf_registry :: "'c Registry \<Rightarrow> bool" where
  "wf_registry r \<longleftrightarrow> length r = numShards \<and>
     (\<forall>i < numShards. wf_gomap (r ! i) \<and> (\<forall>cid \<in> dom (gomap_get (r ! i)). shardFor cid = i))"

lemma shardFor_less [simp]: "shardFor cid < numShards"
proof -
  have "fnv32a cid AND 15 \<le> 15" by (rule word_and_le1)
  then show ?thesis by (simp add: shardFor_def numShards_def word_le_nat_alt)
qed

lemma wf_zero_Registry: "wf_registry zero_Registry"
  by (simp add: wf_registry_def zero_Registry_def)

lemma wf_registryD:
  assumes "wf_registry r"
  shows "length r = numShards" and "i < numShards \<Longrightarrow> wf_gomap (r ! i)"
    and "i < numShards \<Longrightarrow> gomap_get (r ! i) k = Some c \<Longrightarrow> shardFor k = i"
  using assms by (auto simp: wf_registry_def)

lemma Registry_Add_eq:
  assumes "wf_registry r"
  obtains r' where "Registry_Add r cid c = Some r'" and "wf_registry r'"
    and "Registry_Get r' = (Registry_Get r)(cid \<mapsto> c)"
proof -
  let ?i = "shardFor cid"
  let ?m = "Some (entries (r ! ?i))"
  obtain m' where m': "gomap_put ?m cid c = Some m'" using gomap_put_Some [of "entries (r ! ?i)" cid c] by blast
  have wf: "wf_gomap ?m" using assms by (simp add: wf_registry_def)
  have "Registry_Add r cid c = Some (r[?i := m'])"
    by (simp add: Registry_Add_def make_if_nil m')
  moreover have "wf_registry (r[?i := m'])"
    using assms gomap_get_put [OF m'] wf_gomap_put [OF wf m']
    by (auto simp: wf_registry_def nth_list_update)
  moreover have "Registry_Get (r[?i := m']) k = ((Registry_Get r)(cid \<mapsto> c)) k" for k
    using assms gomap_get_put [OF m']
    by (cases "shardFor k = ?i") (auto simp: Registry_Get_def wf_registry_def)
  ultimately show thesis using that by blast
qed

lemma Registry_Remove_eq:
  assumes "wf_registry r"
  shows "wf_registry (Registry_Remove r cid)"
    and "Registry_Get (Registry_Remove r cid) = (Registry_Get r)(cid := None)"
proof -
  show "wf_registry (Registry_Remove r cid)"
    using assms by (auto simp: wf_registry_def Registry_Remove_def nth_list_update go_map)
  show "Registry_Get (Registry_Remove r cid) = (Registry_Get r)(cid := None)"
  proof
    fix k
    show "Registry_Get (Registry_Remove r cid) k = ((Registry_Get r)(cid := None)) k"
      using assms
      by (cases "shardFor k = shardFor cid")
         (auto simp: Registry_Get_def Registry_Remove_def wf_registry_def gomap_get_delete)
  qed
qed

text \<open>All entries, shard by shard, in the order a snapshot meets them.\<close>

definition all_entries :: "((ConnID \<times> 'c) list \<Rightarrow> (ConnID \<times> 'c) list) \<Rightarrow> 'c Registry \<Rightarrow> (ConnID \<times> 'c) list" where
  "all_entries ord r = concat (map (\<lambda>s. ord (entries s)) r)"

lemma Snapshot_all_entries: "Registry_Snapshot ord r = map snd (all_entries ord r)"
  by (simp add: Registry_Snapshot_def all_entries_def map_concat comp_def)

lemma SnapshotWithIDs_all_entries:
  "Registry_SnapshotWithIDs ord r = (map fst (all_entries ord r), map snd (all_entries ord r))"
  by (simp add: Registry_SnapshotWithIDs_def all_entries_def map_concat comp_def)

lemma all_entries_get:
  assumes "wf_registry r" and "range_order ord"
  shows "(cid, c) \<in> set (all_entries ord r) \<longleftrightarrow> Registry_Get r cid = Some c"
proof -
  note r = wf_registryD [OF assms(1)]
  have "(cid, c) \<in> set (all_entries ord r) \<longleftrightarrow> (\<exists>i < numShards. (cid, c) \<in> set (entries (r ! i)))"
    using assms(2) r(1) by (auto simp: all_entries_def set_conv_nth [of r])
  also have "\<dots> \<longleftrightarrow> (\<exists>i < numShards. gomap_get (r ! i) cid = Some c)"
    using r(2) by (auto simp: in_entries_iff)
  also have "\<dots> \<longleftrightarrow> gomap_get (r ! shardFor cid) cid = Some c"
    using r(3) shardFor_less by metis
  finally show ?thesis by (simp add: Registry_Get_def)
qed

lemma distinct_all_entries:
  assumes "wf_registry r" and "range_order ord"
  shows "distinct (map fst (all_entries ord r))"
proof -
  have "map fst (all_entries ord r) = concat (map (\<lambda>i. map fst (ord (entries (r ! i)))) [0..<numShards])"
    using assms(1) map_via_nth [of "\<lambda>s. map fst (ord (entries s))" r]
    by (simp add: wf_registry_def all_entries_def map_concat comp_def)
  moreover have "distinct (concat (map (\<lambda>i. map fst (ord (entries (r ! i)))) [0..<numShards]))"
  proof (rule distinct_concat_map)
    fix i assume "i \<in> set [0..<numShards]"
    then show "distinct (map fst (ord (entries (r ! i))))"
      using assms by (simp add: wf_registry_def wf_gomap_def)
  next
    fix i j assume "i \<in> set [0..<numShards]" "j \<in> set [0..<numShards]" "i \<noteq> j"
    then show "set (map fst (ord (entries (r ! i)))) \<inter> set (map fst (ord (entries (r ! j)))) = {}"
      using assms(2) wf_registryD(3) [OF assms(1), of i] wf_registryD(3) [OF assms(1), of j]
      by (auto simp: fst_entries_dom) metis
  qed simp
  ultimately show ?thesis by simp
qed

lemma Registry_Len_all_entries: "range_order ord \<Longrightarrow> Registry_Len r = length (all_entries ord r)"
  by (simp add: Registry_Len_def all_entries_def fold_add_nat length_concat gomap_len_def comp_def)

interpretation registry: keyed_pool fst wf_registry
  "\<lambda>r cid. map_option (Pair cid) (Registry_Get r cid)" "\<lambda>r (cid, c). Registry_Add r cid c"
  Registry_Remove Registry_Len "\<lambda>r. all_entries (\<lambda>xs. xs) r"
proof
  fix r :: "'c Registry" and e :: "ConnID \<times> 'c"
  assume r: "wf_registry r"
  obtain cid c where e: "e = (cid, c)" by fastforce
  show "\<exists>r'. (case e of (cid, c) \<Rightarrow> Registry_Add r cid c) = Some r' \<and> wf_registry r' \<and>
      (\<lambda>cid. map_option (Pair cid) (Registry_Get r' cid)) =
      (\<lambda>cid. map_option (Pair cid) (Registry_Get r cid))(fst e \<mapsto> e)"
    by (rule Registry_Add_eq [OF r, of cid c]) (auto simp: e fun_eq_iff)
next
  fix r :: "'c Registry" and k
  assume "wf_registry r"
  then show "wf_registry (Registry_Remove r k) \<and>
      (\<lambda>cid. map_option (Pair cid) (Registry_Get (Registry_Remove r k) cid)) =
      (\<lambda>cid. map_option (Pair cid) (Registry_Get r cid))(k := None)"
    by (auto simp: Registry_Remove_eq)
qed (auto simp: distinct_all_entries all_entries_get Registry_Len_all_entries)

section \<open>Iteration\<close>

text \<open>\<open>Range\<close> is one iteration over the entries of all shards that stops at the first callback
  that returns false.\<close>

lemma range_shard_append:
  "range_shard fn (xs @ ys) st =
     (case range_shard fn xs st of (st', cont) \<Rightarrow> if cont then range_shard fn ys st' else (st', False))"
  by (induction fn xs st rule: range_shard.induct) (auto split: prod.splits)

lemma range_shards_eq:
  "range_shards ord fn ss st = fst (range_shard fn (concat (map (\<lambda>s. ord (entries s)) ss)) st)"
  by (induction ord fn ss st rule: range_shards.induct) (auto simp: range_shard_append split: prod.splits)

lemma Range_all_entries: "Registry_Range ord r fn st = fst (range_shard fn (all_entries ord r) st)"
  by (simp add: Registry_Range_def range_shards_eq all_entries_def)

section \<open>Snapshots under concurrent updates\<close>

definition touches :: "ConnID \<Rightarrow> (ConnID, ConnID \<times> 'c) pool_op \<Rightarrow> bool" where
  "touches cid x \<longleftrightarrow> (case x of PAdd e \<Rightarrow> fst e = cid | PRemove k \<Rightarrow> k = cid)"

lemma registry_run:
  assumes "wf_registry r"
  obtains r' where "run_opt registry_step r ops = Some r'" and "wf_registry r'"
    and "(\<lambda>cid. map_option (Pair cid) (Registry_Get r' cid)) =
         fold (\<lambda>x m. spec_pool_op fst m x) ops (\<lambda>cid. map_option (Pair cid) (Registry_Get r cid))"
  using registry.pool_run [OF assms, of ops] by blast

lemma fold_untouched:
  "\<not> list_ex (touches cid) ops \<Longrightarrow> fold (\<lambda>x m. spec_pool_op fst m x) ops m cid = m cid"
proof (induction ops arbitrary: m)
  case (Cons x ops)
  then show ?case by (cases x) (auto simp: touches_def)
qed simp

lemma fold_added:
  "fold (\<lambda>x m. spec_pool_op fst m x) ops m cid = Some e \<Longrightarrow> m cid = Some e \<or> PAdd e \<in> set ops"
proof (induction ops arbitrary: m)
  case (Cons x ops)
  then have "spec_pool_op fst m x cid = Some e \<or> PAdd e \<in> set ops" by simp
  then show ?case by (cases x) (auto split: if_splits)
qed simp

lemma registry_run_get:
  assumes "wf_registry r" and "run_opt registry_step r ops = Some r'"
  shows "wf_registry r'"
    and "\<not> list_ex (touches cid) ops \<Longrightarrow> Registry_Get r' cid = Registry_Get r cid"
    and "Registry_Get r' cid = Some c \<Longrightarrow> Registry_Get r cid = Some c \<or> PAdd (cid, c) \<in> set ops"
proof -
  obtain r'' where r'': "run_opt registry_step r ops = Some r''" "wf_registry r''"
    "(\<lambda>cid. map_option (Pair cid) (Registry_Get r'' cid)) =
         fold (\<lambda>x m. spec_pool_op fst m x) ops (\<lambda>cid. map_option (Pair cid) (Registry_Get r cid))"
    by (rule registry_run [OF assms(1)])
  then have [simp]: "r'' = r'" using assms(2) by simp
  have get: "map_option (Pair k) (Registry_Get r' k) =
      fold (\<lambda>x m. spec_pool_op fst m x) ops (\<lambda>cid. map_option (Pair cid) (Registry_Get r cid)) k" for k
    using fun_cong [OF r''(3), of k] by simp
  show "wf_registry r'" using r''(2) by simp
  show "Registry_Get r' cid = Registry_Get r cid" if "\<not> list_ex (touches cid) ops"
    using get [of cid] fold_untouched [OF that]
    by (cases "Registry_Get r' cid"; cases "Registry_Get r cid") auto
  show "Registry_Get r cid = Some c \<or> PAdd (cid, c) \<in> set ops" if "Registry_Get r' cid = Some c"
    using get [of cid] that fold_added [of ops _ cid "(cid, c)"] by fastforce
qed

lemma snapshot_from_total: "wf_registry r \<Longrightarrow> \<exists>cs. snapshot_from ord is sched r = Some cs"
proof (induction "is" arbitrary: sched r)
  case (Cons i "is")
  obtain r' where "run_opt registry_step r (case sched of [] \<Rightarrow> [] | ops # _ \<Rightarrow> ops) = Some r'"
    "wf_registry r'"
    by (rule registry_run [OF Cons.prems]) blast
  then show ?case using Cons.IH [of r' "drop 1 sched"] by auto
qed simp

lemma snapshot_from_complete:
  assumes ord: "range_order ord"
  shows "wf_registry r \<Longrightarrow> Registry_Get r cid = Some c \<Longrightarrow> \<not> list_ex (touches cid) (concat sched) \<Longrightarrow>
    shardFor cid \<in> set is \<Longrightarrow> snapshot_from ord is sched r = Some cs \<Longrightarrow> c \<in> set cs"
proof (induction "is" arbitrary: sched r cs)
  case (Cons i "is")
  let ?ops = "case sched of [] \<Rightarrow> [] | ops # _ \<Rightarrow> ops"
  obtain r' rest where r': "run_opt registry_step r ?ops = Some r'"
    and rest: "snapshot_from ord is (drop 1 sched) r' = Some rest"
    and cs: "cs = map snd (ord (entries (r' ! i))) @ rest"
    using Cons.prems(5) by (auto simp: bind_eq_Some_conv)
  have un: "\<not> list_ex (touches cid) ?ops" "\<not> list_ex (touches cid) (concat (drop 1 sched))"
    using Cons.prems(3) by (cases sched; auto)+
  have wf: "wf_registry r'" and get: "Registry_Get r' cid = Some c"
    using registry_run_get [OF Cons.prems(1) r'] Cons.prems(2) un(1) by auto
  show ?case
  proof (cases "i = shardFor cid")
    case True
    then have "(cid, c) \<in> set (entries (r' ! i))"
      using get wf_registryD(2) [OF wf] by (simp add: in_entries_iff Registry_Get_def)
    then show ?thesis using ord by (force simp: cs)
  next
    case False
    then show ?thesis
      using Cons.IH [OF wf get un(2) _ rest] Cons.prems(4) by (simp add: cs)
  qed
qed simp

lemma snapshot_from_sound:
  assumes ord: "range_order ord"
  shows "wf_registry r \<Longrightarrow> list_all (\<lambda>i. i < numShards) is \<Longrightarrow>
    snapshot_from ord is sched r = Some cs \<Longrightarrow> c \<in> set cs \<Longrightarrow>
    \<exists>cid. Registry_Get r cid = Some c \<or> PAdd (cid, c) \<in> set (concat sched)"
proof (induction "is" arbitrary: sched r cs)
  case (Cons i "is")
  let ?ops = "case sched of [] \<Rightarrow> [] | ops # _ \<Rightarrow> ops"
  obtain r' rest where r': "run_opt registry_step r ?ops = Some r'"
    and rest: "snapshot_from ord is (drop 1 sched) r' = Some rest"
    and cs: "cs = map snd (ord (entries (r' ! i))) @ rest"
    using Cons.prems(3) by (auto simp: bind_eq_Some_conv)
  have sub: "set ?ops \<subseteq> set (concat sched)" "set (concat (drop 1 sched)) \<subseteq> set (concat sched)"
    by (cases sched; auto)+
  note wf = registry_run_get(1) [OF Cons.prems(1) r']
  have "\<exists>cid. Registry_Get r' cid = Some c \<or> PAdd (cid, c) \<in> set (concat (drop 1 sched))"
  proof (cases "c \<in> set rest")
    case True
    then show ?thesis using Cons.IH [OF wf _ rest] Cons.prems(2) by simp
  next
    case False
    then obtain cid where "(cid, c) \<in> set (entries (r' ! i))"
      using Cons.prems(4) ord by (auto simp: cs)
    then have "(cid, c) \<in> set (all_entries ord r')"
      using Cons.prems(2) wf_registryD(1) [OF wf] ord by (auto simp: all_entries_def)
    then show ?thesis using all_entries_get [OF wf ord] by blast
  qed
  then show ?case using registry_run_get(3) [OF Cons.prems(1) r'] sub by blast
qed simp

section \<open>Properties\<close>

text \<open>Property C7. The registry is one map: from the zero value, any sequence of additions and
  removals runs without panicking, \<open>Get\<close> then answers what a single map would, \<open>Len\<close> is
  the number of its keys, and a snapshot lists every registered connection exactly once,
  whatever order the run time iterates in.\<close>

theorem registry_is_a_map:
  assumes "range_order ord"
  shows "\<exists>r. run_opt registry_step zero_Registry ops = Some r \<and>
     (let m = fold (\<lambda>x m. spec_pool_op fst m x) ops Map.empty in
        (\<forall>cid. map_option (Pair cid) (Registry_Get r cid) = m cid) \<and>
        Registry_Len r = card (dom m) \<and>
        distinct (fst (Registry_SnapshotWithIDs ord r)) \<and>
        set (zip (fst (Registry_SnapshotWithIDs ord r)) (snd (Registry_SnapshotWithIDs ord r))) = ran m \<and>
        Registry_Snapshot ord r = snd (Registry_SnapshotWithIDs ord r))"
proof -
  let ?m = "fold (\<lambda>x m. spec_pool_op fst m x) ops Map.empty"
  have z: "(\<lambda>cid. map_option (Pair cid) (Registry_Get zero_Registry cid)) = Map.empty"
    by (simp add: Registry_Get_def zero_Registry_def)
  obtain r where r: "run_opt registry_step zero_Registry ops = Some r" "wf_registry r"
    "(\<lambda>cid. map_option (Pair cid) (Registry_Get r cid)) = ?m"
    using registry_run [OF wf_zero_Registry, of ops] unfolding z by blast
  have get: "map_option (Pair cid) (Registry_Get r cid) = ?m cid" for cid
    using fun_cong [OF r(3)] by simp
  have "e \<in> set (all_entries ord r) \<longleftrightarrow> e \<in> ran ?m" for e
  proof (cases e)
    case (Pair k c)
    have "e \<in> ran ?m \<longleftrightarrow> (\<exists>k'. map_option (Pair k') (Registry_Get r k') = Some e)"
      by (simp add: ran_def get)
    also have "\<dots> \<longleftrightarrow> Registry_Get r k = Some c" using Pair by auto
    finally show ?thesis using Pair all_entries_get [OF r(2) assms] by simp
  qed
  then have "set (all_entries ord r) = ran ?m" by blast
  then show ?thesis
    using r(1) get registry.len_card [OF r(2)] distinct_all_entries [OF r(2) assms]
    by (simp add: Let_def r(3) Snapshot_all_entries SnapshotWithIDs_all_entries zip_map_fst_snd)
qed

theorem registry_is_a_map_witness:
  "\<exists>r. run_opt registry_step zero_Registry [PAdd (''a'', 1 :: nat), PAdd (''b'', 2), PRemove ''a''] = Some r \<and>
     Registry_Len r = 1 \<and> distinct (fst (Registry_SnapshotWithIDs rev r))"
  using registry_is_a_map [OF range_order_rev, of "[PAdd (''a'', 1 :: nat), PAdd (''b'', 2), PRemove ''a'']"]
  by (auto simp: Let_def fun_upd_twist)

text \<open>Property C15. A snapshot taken while other goroutines add and remove connections never
  panics, contains every connection that stays registered throughout, and contains no
  connection that was neither registered at the start nor added meanwhile.\<close>

theorem concurrent_snapshot:
  assumes "wf_registry r" and "range_order ord"
  shows "\<exists>cs. Snapshot_concurrent ord r sched = Some cs \<and>
     {c. \<exists>cid. Registry_Get r cid = Some c \<and> \<not> list_ex (touches cid) (concat sched)} \<subseteq> set cs \<and>
     set cs \<subseteq> {c. \<exists>cid. Registry_Get r cid = Some c \<or> PAdd (cid, c) \<in> set (concat sched)}"
proof -
  obtain cs where cs: "snapshot_from ord [0..<numShards] sched r = Some cs"
    using snapshot_from_total [OF assms(1)] by blast
  have all: "shardFor k \<in> set [0..<numShards]" for k by simp
  have "list_all (\<lambda>i. i < numShards) [0..<numShards]" by (simp add: list_all_iff)
  then show ?thesis
    using cs snapshot_from_complete [OF assms(2,1) _ _ all cs] snapshot_from_sound [OF assms(2,1) _ cs]
    unfolding Snapshot_concurrent_def by (intro exI [of _ cs]) blast
qed

theorem concurrent_snapshot_witness:
  "\<exists>cs. Snapshot_concurrent rev zero_Registry [[PAdd (''a'', 1 :: nat)], [PRemove ''a'']] = Some cs \<and>
     set cs \<subseteq> {c. \<exists>cid. Registry_Get zero_Registry cid = Some c \<or>
        PAdd (cid, c) \<in> set (concat [[PAdd (''a'', 1)], [PRemove ''a'']])}"
  using concurrent_snapshot [OF wf_zero_Registry range_order_rev, of "[[PAdd (''a'', 1)], [PRemove ''a'']]"]
  by blast

text \<open>\<open>Range\<close> visits the registered connections in the order of the snapshot and
  stops at once when the callback returns false: no later connection is visited, not even
  one of the same shard. A callback that always returns true sees all of them.\<close>

lemma range_stops_immediately:
  "Registry_Range ord r (\<lambda>cid c seen. (seen @ [(cid, c)], p cid c)) [] =
     takeWhile (\<lambda>(cid, c). p cid c) (all_entries ord r) @
     take 1 (dropWhile (\<lambda>(cid, c). p cid c) (all_entries ord r))"
proof -
  have "fst (range_shard (\<lambda>cid c seen. (seen @ [(cid, c)], p cid c)) xs seen) =
      seen @ takeWhile (\<lambda>(cid, c). p cid c) xs @ take 1 (dropWhile (\<lambda>(cid, c). p cid c) xs)" for xs seen
    by (induction xs arbitrary: seen) auto
  then show ?thesis by (simp add: Range_all_entries)
qed

end
