(* ===== verification/Market.thy ===== *)
theory Market
  imports Containers "HOL-Library.Signed_Division"
begin

text \<open>
  The market data domain of \<^verbatim>\<open>pkg/market/tick.go\<close> and \<^verbatim>\<open>pkg/market/instrument.go\<close>: the 64-byte
  tick, the instruments and the default universe. Prices are \<open>int64\<close> micros and stay at
  their width. The rates and volatilities of the universe are decimal literals; they are
  kept as the rationals they denote. All tick rates are whole numbers, whose sum is exact
  in the \<open>float64\<close> of the code too.
\<close>

section \<open>Ticks\<close>

type_synonym AssetClass = u8
type_synonym TickFlags = u8

definition AssetEquity :: AssetClass where "AssetEquity = 0"
definition AssetFuture :: AssetClass where "AssetFuture = 1"
definition AssetOption :: AssetClass where "AssetOption = 2"
definition AssetCrypto :: AssetClass where "AssetCrypto = 3"
definition AssetFX :: AssetClass where "AssetFX = 4"

lemmas asset_classes = AssetEquity_def AssetFuture_def AssetOption_def AssetCrypto_def AssetFX_def

definition AssetClass_String :: "AssetClass \<Rightarrow> string" where
  "AssetClass_String a =
     (if a = AssetEquity then ''equity'' else if a = AssetFuture then ''future''
      else if a = AssetOption then ''option'' else if a = AssetCrypto then ''crypto''
      else if a = AssetFX then ''fx'' else ''unknown'')"

definition FlagHalt :: TickFlags where "FlagHalt = 1"
definition FlagAuction :: TickFlags where "FlagAuction = 2"
definition FlagClose :: TickFlags where "FlagClose = 4"
definition FlagFast :: TickFlags where "FlagFast = 8"

definition TickSize :: nat where "TickSize = 64"

record MarketTick =
  TickSeqNum :: u64
  Timestamp :: i64
  RecvNs :: i64
  InstrHash :: u32
  BidPrice :: i64
  AskPrice :: i64
  LastPrice :: i64
  Volume :: u32
  BidSize :: u16
  AskSize :: u16
  Flags :: TickFlags
  TickClass :: AssetClass

definition Tick_Encode :: "MarketTick \<Rightarrow> bytes \<Rightarrow> bytes option" where
  \<comment> \<open>\<open>dst\<close> is a \<open>[64]byte\<close>.\<close>
  "Tick_Encode t dst = do {
     d \<leftarrow> put_at dst 0 (le_bytes 8 (TickSeqNum t));
     d \<leftarrow> put_at d 8 (le_bytes 8 (Timestamp t));
     d \<leftarrow> put_at d 16 (le_bytes 8 (RecvNs t));
     d \<leftarrow> put_at d 24 (le_bytes 4 (InstrHash t));
     d \<leftarrow> put_at d 28 (le_bytes 8 (BidPrice t));
     d \<leftarrow> put_at d 36 (le_bytes 8 (AskPrice t));
     d \<leftarrow> put_at d 44 (le_bytes 8 (LastPrice t));
     d \<leftarrow> put_at d 52 (le_bytes 4 (Volume t));
     d \<leftarrow> put_at d 56 (le_bytes 2 (BidSize t));
     d \<leftarrow> put_at d 58 (le_bytes 2 (AskSize t));
     d \<leftarrow> put_at d 60 [Flags t];
     d \<leftarrow> put_at d 61 [TickClass t];
     d \<leftarrow> put_at d 62 [0];
     put_at d 63 [0]
   }"

definition Tick_EncodeSlice :: "MarketTick \<Rightarrow> bytes \<Rightarrow> (bytes \<times> bytes) option" where
  \<comment> \<open>the new contents of \<open>dst\<close> and the returned \<open>dst[:TickSize]\<close>\<close>
  "Tick_EncodeSlice t dst =
     (if TickSize - 1 < length dst then do {
        arr \<leftarrow> Tick_Encode t (replicate TickSize 0);
        d \<leftarrow> put_at dst 0 arr;
        r \<leftarrow> subslice d 0 TickSize;
        Some (d, r)
      } else None)"

definition byte_at :: "bytes \<Rightarrow> nat \<Rightarrow> u8 option" where
  "byte_at b i = (if i < length b then Some (b ! i) else None)"

definition Tick_Decode :: "bytes \<Rightarrow> MarketTick option" where
  "Tick_Decode src = do {
     seq \<leftarrow> subslice src 0 8 \<bind> LE_Uint64;
     ts \<leftarrow> subslice src 8 16 \<bind> LE_Uint64;
     recv \<leftarrow> subslice src 16 24 \<bind> LE_Uint64;
     h \<leftarrow> subslice src 24 28 \<bind> LE_Uint32;
     bid \<leftarrow> subslice src 28 36 \<bind> LE_Uint64;
     ask \<leftarrow> subslice src 36 44 \<bind> LE_Uint64;
     lst \<leftarrow> subslice src 44 52 \<bind> LE_Uint64;
     vol \<leftarrow> subslice src 52 56 \<bind> LE_Uint32;
     bsz \<leftarrow> subslice src 56 58 \<bind> LE_Uint16;
     asz \<leftarrow> subslice src 58 60 \<bind> LE_Uint16;
     fl \<leftarrow> byte_at src 60;
     cl \<leftarrow> byte_at src 61;
     Some \<lparr>TickSeqNum = seq, Timestamp = ts, RecvNs = recv, InstrHash = h, BidPrice = bid,
           AskPrice = ask, LastPrice = lst, Volume = vol, BidSize = bsz, AskSize = asz,
           Flags = fl, TickClass = cl\<rparr>
   }"

definition Tick_DecodeSlice :: "bytes \<Rightarrow> MarketTick option" where
  "Tick_DecodeSlice src =
     (if TickSize - 1 < length src then do {
        s \<leftarrow> subslice src 0 TickSize;
        arr \<leftarrow> copy_at (replicate TickSize 0) 0 s;
        Tick_Decode arr
      } else None)"

text \<open>Go's \<open>/\<close> on \<open>int64\<close> truncates towards zero.\<close>

definition i64_div :: "i64 \<Rightarrow> i64 \<Rightarrow> i64" where
  "i64_div a b = word_of_int (sint a sdiv sint b)"

definition Spread :: "MarketTick \<Rightarrow> i64" where
  "Spread t = AskPrice t - BidPrice t"

definition MidPriceMicros :: "MarketTick \<Rightarrow> i64" where
  "MidPriceMicros t = i64_div (BidPrice t + AskPrice t) 2"

definition Tick_Latency :: "MarketTick \<Rightarrow> i64 \<Rightarrow> i64" where
  "Tick_Latency t recvNs = recvNs - Timestamp t"

definition IsHalted :: "MarketTick \<Rightarrow> bool" where
  "IsHalted t \<longleftrightarrow> Flags t AND FlagHalt \<noteq> 0"

section \<open>Instruments\<close>

record Instrument =
  Symbol :: string
  InstClass :: AssetClass
  TickRateHz :: rat
  Volatility :: rat
  MidPrice :: i64
  SpreadBps :: int

definition SymbolHash :: "Instrument \<Rightarrow> u32" where
  "SymbolHash inst = fold (\<lambda>c h. (h XOR of_char c) * 16777619) (Symbol inst) 2166136261"

definition equities :: "(string \<times> i64 \<times> rat \<times> rat) list" where
  "equities = [
    (''AAPL'', 18235050000, 22/100, 50),
    (''MSFT'', 41500000000, 2/10, 45),
    (''NVDA'', 88000000000, 45/100, 80),
    (''GOOGL'', 17500000000, 25/100, 40),
    (''AMZN'', 18800000000, 28/100, 45),
    (''META'', 51000000000, 3/10, 50),
    (''TSLA'', 21500000000, 6/10, 100),
    (''AVGO'', 165000000000, 3/10, 30),
    (''BRK.B'', 40000000000, 15/100, 20),
    (''JPM'', 21500000000, 22/100, 35),
    (''LLY'', 88000000000, 28/100, 30),
    (''V'', 27500000000, 18/100, 30),
    (''XOM'', 11500000000, 25/100, 25),
    (''UNH'', 52000000000, 2/10, 25),
    (''MA'', 46500000000, 2/10, 30),
    (''HD'', 35000000000, 2/10, 20),
    (''JNJ'', 15000000000, 15/100, 20),
    (''PG'', 16500000000, 14/100, 15),
    (''ORCL'', 13500000000, 28/100, 25),
    (''MRK'', 13000000000, 18/100, 20),
    (''COST'', 82000000000, 2/10, 20),
    (''AMD'', 17500000000, 5/10, 70),
    (''ABBV'', 17500000000, 2/10, 20),
    (''NFLX'', 62000000000, 38/100, 40),
    (''CRM'', 26500000000, 32/100, 30),
    (''TMO'', 55000000000, 2/10, 15),
    (''BAC'', 4200000000, 28/100, 35),
    (''ADBE'', 50000000000, 3/10, 25),
    (''CVX'', 15000000000, 25/100, 20),
    (''WMT'', 8200000000, 15/100, 20)]"

definition futures :: "(string \<times> i64 \<times> rat \<times> rat) list" where
  "futures = [
    (''ES'', 525000000000, 15/100, 500),
    (''NQ'', 183000000000, 2/10, 400),
    (''YM'', 397000000000, 14/100, 300),
    (''RTY'', 220000000000, 22/100, 200),
    (''CL'', 80000000000, 3/10, 300),
    (''GC'', 235000000000, 15/100, 200),
    (''SI'', 28000000000, 25/100, 150),
    (''NG'', 3000000000, 5/10, 200),
    (''ZB'', 124000000000, 8/100, 100),
    (''ZN'', 112000000000, 6/100, 150),
    (''ZF'', 107000000000, 5/100, 100),
    (''6E'', 108000000000, 8/100, 200),
    (''6J'', 65000000000, 8/100, 150),
    (''6B'', 126000000000, 9/100, 150),
    (''VX'', 15000000000, 6/10, 100),
    (''HG'', 420000, 2/10, 100),
    (''ZW'', 580000, 25/100, 80),
    (''ZC'', 440000, 2/10, 80),
    (''ZS'', 1050000, 2/10, 80),
    (''BTC'', 6500000000000, 6/10, 500)]"

definition optionSymbols :: "string list" where
  "optionSymbols = [
     ''SPY240P480'', ''SPY240C490'', ''QQQ240P400'', ''QQQ240C420'',
     ''AAPL240C200'', ''AAPL240P180'', ''TSLA240C250'', ''TSLA240P200'',
     ''NVDA240C900'', ''NVDA240P800'', ''META240C500'', ''AMZN240C200'',
     ''GOOGL240C175'', ''MSFT240C430'', ''JPM240C220'', ''BAC240C45'',
     ''GLD240C225'', ''GLD240P220'', ''USO240C80'', ''SLV240C26'',
     ''VIX240C20'', ''VIX240C25'', ''VIX240C30'', ''VIX240P15'',
     ''SPX240P5000'', ''SPX240C5200'', ''NDX240P18000'', ''NDX240C19000'',
     ''IWM240P190'', ''DIA240C390'']"

definition optionPrices :: "i64 list" where
  "optionPrices = [
     5000000, 4500000, 6000000, 5500000, 3000000,
     2500000, 8000000, 7000000, 15000000, 12000000,
     9000000, 4000000, 3500000, 5000000, 4000000,
     2000000, 7000000, 6500000, 3000000, 2500000,
     2000000, 4000000, 1500000, 8000000, 10000000,
     8000000, 12000000, 9000000, 3500000, 4500000]"

definition cryptos :: "(string \<times> i64 \<times> rat) list" where
  "cryptos = [
    (''BTC-USD'', 6500000000000, 50),
    (''ETH-USD'', 350000000000, 40),
    (''SOL-USD'', 18000000000, 30),
    (''BNB-USD'', 60000000000, 20),
    (''XRP-USD'', 600000, 20),
    (''DOGE-USD'', 170000, 20),
    (''ADA-USD'', 450000, 15),
    (''AVAX-USD'', 4000000000, 20),
    (''LINK-USD'', 1800000000, 15),
    (''UNI-USD'', 1100000000, 10)]"

definition fxPairs :: "(string \<times> i64 \<times> rat) list" where
  "fxPairs = [
    (''EUR/USD'', 1080000, 20),
    (''GBP/USD'', 1270000, 15),
    (''USD/JPY'', 155000000, 20),
    (''AUD/USD'', 650000, 15),
    (''USD/CAD'', 1370000, 15),
    (''USD/CHF'', 900000, 12),
    (''NZD/USD'', 600000, 10),
    (''EUR/GBP'', 850000, 10),
    (''EUR/JPY'', 167000000, 12),
    (''GBP/JPY'', 197000000, 10)]"

definition DefaultUniverse :: "Instrument list" where
  "DefaultUniverse =
     map (\<lambda>(sym, price, vol, hz). \<lparr>Symbol = sym, InstClass = AssetEquity, TickRateHz = hz,
            Volatility = vol, MidPrice = price, SpreadBps = 1\<rparr>) equities @
     map (\<lambda>(sym, price, vol, hz). \<lparr>Symbol = sym, InstClass = AssetFuture, TickRateHz = hz,
            Volatility = vol, MidPrice = price, SpreadBps = 0\<rparr>) futures @
     map (\<lambda>(sym, price). \<lparr>Symbol = sym, InstClass = AssetOption, TickRateHz = 2,
            Volatility = 4/10, MidPrice = price, SpreadBps = 50\<rparr>) (zip optionSymbols optionPrices) @
     map (\<lambda>(sym, price, hz). \<lparr>Symbol = sym, InstClass = AssetCrypto, TickRateHz = hz,
            Volatility = 7/10, MidPrice = price, SpreadBps = 2\<rparr>) cryptos @
     map (\<lambda>(sym, price, hz). \<lparr>Symbol = sym, InstClass = AssetFX, TickRateHz = hz,
            Volatility = 8/100, MidPrice = price, SpreadBps = 1\<rparr>) fxPairs"

definition AggregateTickRate :: "Instrument list \<Rightarrow> rat" where
  "AggregateTickRate universe = fold (\<lambda>i total. total + TickRateHz i) universe 0"

lemmas universe_defs = DefaultUniverse_def equities_def futures_def optionSymbols_def
  optionPrices_def cryptos_def fxPairs_def

section \<open>The tick layout\<close>

definition tick_bytes :: "MarketTick \<Rightarrow> bytes" where
  "tick_bytes t =
     le_bytes 8 (TickSeqNum t) @ le_bytes 8 (Timestamp t) @ le_bytes 8 (RecvNs t) @
     le_bytes 4 (InstrHash t) @ le_bytes 8 (BidPrice t) @ le_bytes 8 (AskPrice t) @
     le_bytes 8 (LastPrice t) @ le_bytes 4 (Volume t) @ le_bytes 2 (BidSize t) @
     le_bytes 2 (AskSize t) @ [Flags t, TickClass t, 0, 0]"

text \<open>A halted quote one micro wide.\<close>

definition sample_tick :: MarketTick where
  "sample_tick = \<lparr>TickSeqNum = 7, Timestamp = 1000, RecvNs = 0, InstrHash = 5, BidPrice = 182350500,
     AskPrice = 182350501, LastPrice = 182350500, Volume = 10, BidSize = 3, AskSize = 4,
     Flags = FlagHalt, TickClass = AssetEquity\<rparr>"

lemma SymbolHash_fnv32a: "SymbolHash inst = fnv32a (Symbol inst)"
  by (simp add: SymbolHash_def fnv32a_def fnv_byte_def [abs_def])

lemma length_tick_bytes [simp]: "length (tick_bytes t) = 64"
  by (simp add: tick_bytes_def)

lemma Tick_Encode_eq: "length dst = 64 \<Longrightarrow> Tick_Encode t dst = Some (tick_bytes t)"
  by (simp add: Tick_Encode_def slice_ops tick_bytes_def)

lemma Tick_Decode_tick_bytes: "Tick_Decode (tick_bytes t) = Some t"
  by (simp add: Tick_Decode_def tick_bytes_def slice_ops uint_reads byte_at_def nth_append)

lemma Tick_EncodeSlice_eq:
  "64 \<le> length dst \<Longrightarrow> Tick_EncodeSlice t dst = Some (tick_bytes t @ drop 64 dst, tick_bytes t)"
  by (simp add: Tick_EncodeSlice_def TickSize_def Tick_Encode_eq slice_ops)

lemma Tick_DecodeSlice_eq:
  "64 \<le> length src \<Longrightarrow> Tick_DecodeSlice src = Tick_Decode (take 64 src)"
  by (simp add: Tick_DecodeSlice_def TickSize_def slice_ops)

lemma Tick_slices_short:
  "length b < 64 \<Longrightarrow> Tick_EncodeSlice t b = None \<and> Tick_DecodeSlice b = None"
  by (simp add: Tick_EncodeSlice_def Tick_DecodeSlice_def TickSize_def)

lemma take_chunks:
  "j = i + m \<Longrightarrow> take m (drop i b) @ take n (drop j b) @ r = take (m + n) (drop i b) @ r"
  "take m b @ take n (drop m b) @ r = take (m + n) b @ r"
  "k < length b \<Longrightarrow> take k b @ b ! k # r = take (Suc k) b @ r"
  by (simp_all add: take_add take_Suc_conv_app_nth add.commute)

lemma tick_bytes_Tick_Decode:
  assumes "length b = 64"
  shows "\<exists>t. Tick_Decode b = Some t \<and> tick_bytes t = take 62 b @ [0, 0]"
  using assms
  by (simp add: Tick_Decode_def slice_ops uint_reads byte_at_def tick_bytes_def take_chunks)

lemma sint_i64_div2:
  assumes "- (2 ^ 63) \<le> s" "s < 2 ^ 63"
  shows "sint (i64_div (word_of_int s) 2) = s sdiv 2"
proof -
  have s: "sint (word_of_int s :: i64) = s"
    using assms by (simp add: sint_sbintrunc' signed_take_bit_int_eq_self)
  have "- (2 ^ 63) \<le> s sdiv 2 \<and> s sdiv 2 < 2 ^ 63"
    using assms by (auto simp: signed_divide_int_def sgn_if abs_if split: if_splits)
  then have "signed_take_bit 63 (s sdiv 2) = s sdiv 2"
    by (simp add: signed_take_bit_int_eq_self)
  then show ?thesis
    using s by (simp add: i64_div_def sint_sbintrunc')
qed

lemma sint_mid:
  assumes "- (2 ^ 63) \<le> sint (BidPrice t) + sint (AskPrice t)"
    and "sint (BidPrice t) + sint (AskPrice t) < 2 ^ 63"
  shows "sint (MidPriceMicros t) = (sint (BidPrice t) + sint (AskPrice t)) sdiv 2"
  using sint_i64_div2 [OF assms] by (simp add: MidPriceMicros_def)

section \<open>The default universe\<close>

lemma universe_size: "length DefaultUniverse = 100"
  by (simp add: universe_defs)

lemma universe_rate: "AggregateTickRate DefaultUniverse = 5509"
  by (simp add: universe_defs AggregateTickRate_def)

lemma universe_symbols: "distinct (map Symbol DefaultUniverse)"
  by (simp add: universe_defs)

lemma universe_hash_values: "map SymbolHash DefaultUniverse = [
    1489842955, 3383597683, 2591302102, 1128294695, 1095290559, 733478296,
    73411375, 2711636108, 3194563130, 1769898766, 3425971124, 3540782697,
    1514563759, 2444145622, 1138742043, 2095801801, 1150112601, 704642520,
    3581759147, 1899213935, 632186936, 1935933429, 2668869258, 2717058457,
    1881100887, 3763442079, 2892895453, 1152794865, 2200567196, 1412009423,
    634133545, 602299520, 1074882971, 3165266142, 2195334682, 1573974399,
    1610781041, 971407138, 790104733, 588773305, 722994257, 686358564,
    535359993, 669580945, 1828345635, 2045468944, 974658542, 773327114,
    1041769018, 2492351168, 650695685, 2628467095, 1363891736, 691778441,
    2023954586, 265257428, 4014427331, 4058658401, 1580098840, 2099346896,
    2573098474, 2870672398, 3921908267, 714256939, 3092951227, 3577969433,
    4249754644, 1973287380, 151042917, 2090157587, 609627329, 659960186,
    508814520, 1115126424, 2193189249, 162533838, 624255062, 1498705332,
    2742437112, 1684761110, 1995245873, 3790142981, 4054718556, 2734173012,
    2441290416, 418862237, 1184973986, 3501800302, 4126769364, 2176375060,
    3789443832, 3685275323, 181017201, 4116658238, 2228121868, 3638868887,
    3352170512, 1615521271, 191367025, 2928008062]"
  by (simp add: universe_defs SymbolHash_def)

lemma universe_hashes: "distinct (map SymbolHash DefaultUniverse)"
proof -
  have "distinct (map unat (map SymbolHash DefaultUniverse))"
    by (simp add: universe_hash_values)
  then show ?thesis by (rule distinct_map [THEN iffD1, THEN conjunct1])
qed

section \<open>Properties\<close>

text \<open>Property C19. On a buffer of at least 64 bytes \<open>EncodeSlice\<close> overwrites exactly the first 64
  bytes, returns them, and \<open>DecodeSlice\<close> reads the same tick back, every field included. In the other
  direction \<open>DecodeSlice\<close> reads a tick from any such buffer, and writing that tick back leaves every byte as it
  was except the two reserved ones, 62 and 63, which become 0. On a shorter buffer both panic.\<close>

theorem tick_roundtrip:
  "if 64 \<le> length dst
   then (\<exists>d r. Tick_EncodeSlice t dst = Some (d, r) \<and> length r = TickSize \<and>
           d = r @ drop 64 dst \<and> Tick_DecodeSlice d = Some t \<and> Tick_DecodeSlice (r @ junk) = Some t) \<and>
        (\<exists>t'. Tick_DecodeSlice dst = Some t' \<and>
           Tick_EncodeSlice t' dst = Some (dst[62 := 0, 63 := 0], take 62 dst @ [0, 0]))
   else Tick_EncodeSlice t dst = None \<and> Tick_DecodeSlice dst = None"
proof (cases "64 \<le> length dst")
  case True
  have upd: "dst[62 := 0, 63 := 0] = take 62 dst @ [0, 0] @ drop 64 dst"
    using True by (intro nth_equalityI) (auto simp: nth_append nth_Cons' nth_list_update)
  obtain t' where "Tick_Decode (take 64 dst) = Some t'" "tick_bytes t' = take 62 dst @ [0, 0]"
    using tick_bytes_Tick_Decode [of "take 64 dst"] True by auto
  with True show ?thesis
    by (simp add: Tick_EncodeSlice_eq Tick_DecodeSlice_eq Tick_Decode_tick_bytes TickSize_def upd)
qed (simp add: Tick_slices_short)

text \<open>Every 64-byte array decodes, and encoding the result gives the array back with the
  two reserved bytes cleared: no other bit of a tick on the wire is lost or ignored.\<close>

lemma tick_encode_decode:
  assumes "length b = TickSize" and "length dst = TickSize"
  shows "\<exists>t. Tick_Decode b = Some t \<and> Tick_Encode t dst = Some (take 62 b @ [0, 0])"
  using tick_bytes_Tick_Decode [of b] assms by (auto simp: TickSize_def Tick_Encode_eq)

text \<open>As long as bid + ask fits an \<open>int64\<close>, the mid price of an uncrossed quote lies
  between bid and ask and is within half a micro of the exact average.\<close>

lemma mid_price_between:
  assumes "sint (BidPrice t) \<le> sint (AskPrice t)"
    and "- (2 ^ 63) \<le> sint (BidPrice t) + sint (AskPrice t)"
    and "sint (BidPrice t) + sint (AskPrice t) < 2 ^ 63"
  shows "sint (BidPrice t) \<le> sint (MidPriceMicros t) \<and> sint (MidPriceMicros t) \<le> sint (AskPrice t)
     \<and> \<bar>2 * sint (MidPriceMicros t) - (sint (BidPrice t) + sint (AskPrice t))\<bar> \<le> 1"
  using assms(1) unfolding sint_mid [OF assms(2,3)]
  by (auto simp: signed_divide_int_def sgn_if abs_if)

text \<open>The default universe has 100 instruments with distinct symbols, and the FNV-1a
  hashes that key their subscriptions are distinct too, so that no two instruments share a
  routing entry. The aggregate rate is 5509 ticks per second.\<close>

lemma default_universe:
  "length DefaultUniverse = 100 \<and> distinct (map Symbol DefaultUniverse) \<and>
   distinct (map SymbolHash DefaultUniverse) \<and> AggregateTickRate DefaultUniverse = 5509"
  by (simp only: universe_size universe_symbols universe_hashes universe_rate simp_thms)

end
