(* ===== verification/Router.thy ===== *)
theory Router
  imports Containers
begin

text \<open>
  The topic router of \<^verbatim>\<open>pkg/market/router.go\<close>: 64 shards, each a map from instrument hashes to
  sets of connection identifiers. A set is a Go map with empty values. The inner maps are
  references: a deletion through \<open>subs\<close> is seen in the outer map, which is why the model
  writes the inner map back. Each critical section is one step; \<open>Subscribe\<close> and
  \<open>Unsubscribe\<close> take the lock once per instrument and \<open>UnsubscribeAll\<close> once per shard, so a
  concurrent execution is an interleaving of these steps. The router refines the function
  from instruments to their sets of subscribers.
\<close>

section \<open>Operations\<close>

type_synonym subscriber_set = "(ConnID, unit) gomap"
type_synonym routerShard = "(u32, subscriber_set) gomap"
type_synonym Router = "routerShard list"

definition numRouterShards :: nat where "numRouterShards = 64"

definition zero_Router :: Router where
  "zero_Router = replicate numRouterShards None"

definition router_shard :: "u32 \<Rightarrow> nat" where
  "router_shard instrHash = unat (instrHash AND of_nat (numRouterShards - 1))"

text \<open>\<open>s.subscribers[h]\<close>, whose zero value is the nil map\<close>

definition subs_of :: "routerShard \<Rightarrow> u32 \<Rightarrow> subscriber_set" where
  "subs_of s h = (case gomap_get s h of None \<Rightarrow> None | Some m \<Rightarrow> m)"

definition subscribe_at :: "ConnID \<Rightarrow> Router \<Rightarrow> u32 \<Rightarrow> Router option" where
  "subscribe_at connID r h =
     (let s = (case r ! router_shard h of None \<Rightarrow> Some [] | Some xs \<Rightarrow> Some xs)
      in do {
        s1 \<leftarrow> (if subs_of s h = None then gomap_put s h (Some []) else Some s);
        m \<leftarrow> gomap_put (subs_of s1 h) connID ();
        s2 \<leftarrow> gomap_put s1 h m;
        Some (r[router_shard h := s2])
      })"

definition Subscribe :: "Router \<Rightarrow> ConnID \<Rightarrow> u32 list \<Rightarrow> Router option" where
  "Subscribe r connID instrHashes = run_opt (subscribe_at connID) r instrHashes"

text \<open>\<open>delete(subs, connID)\<close>, and the entry of \<open>h\<close> when that leaves it empty\<close>

definition drop_sub :: "ConnID \<Rightarrow> u32 \<times> subscriber_set \<Rightarrow> routerShard \<Rightarrow> routerShard" where
  "drop_sub connID = (\<lambda>(h, subs) s.
     let subs' = gomap_delete subs connID;
         s' = map_option (AList.update h subs') s
     in if gomap_len subs' = 0 then gomap_delete s' h else s')"

definition unsubscribe_at :: "ConnID \<Rightarrow> Router \<Rightarrow> u32 \<Rightarrow> Router" where
  "unsubscribe_at connID r h =
     (let s = r ! router_shard h; subs = subs_of s h
      in if subs \<noteq> None then r[router_shard h := drop_sub connID (h, subs) s] else r)"

definition Unsubscribe :: "Router \<Rightarrow> ConnID \<Rightarrow> u32 list \<Rightarrow> Router" where
  "Unsubscribe r connID instrHashes = fold (\<lambda>h r. unsubscribe_at connID r h) instrHashes r"

type_synonym shard_order = "(u32 \<times> subscriber_set) list \<Rightarrow> (u32 \<times> subscriber_set) list"
type_synonym id_order = "(ConnID \<times> unit) list \<Rightarrow> (ConnID \<times> unit) list"

definition unsubscribe_shard :: "shard_order \<Rightarrow> ConnID \<Rightarrow> Router \<Rightarrow> nat \<Rightarrow> Router" where
  "unsubscribe_shard ord connID r i = r[i := fold (drop_sub connID) (ord (entries (r ! i))) (r ! i)]"

definition UnsubscribeAll :: "shard_order \<Rightarrow> Router \<Rightarrow> ConnID \<Rightarrow> Router" where
  "UnsubscribeAll ord r connID = fold (\<lambda>i r. unsubscribe_shard ord connID r i) [0..<length r] r"

definition SubscriberCount :: "Router \<Rightarrow> u32 \<Rightarrow> nat" where
  "SubscriberCount r instrHash = gomap_len (subs_of (r ! router_shard instrHash) instrHash)"

definition Subscribers :: "id_order \<Rightarrow> Router \<Rightarrow> u32 \<Rightarrow> ConnID list" where
  "Subscribers ord r instrHash = map fst (ord (entries (subs_of (r ! router_shard instrHash) instrHash)))"

text \<open>\<open>sendFn\<close> threads a state \<open>st\<close> and returns \<open>Some err\<close> on failure.\<close>

fun route_loop ::
  "(ConnID \<Rightarrow> bytes \<Rightarrow> 's \<Rightarrow> 's \<times> 'err option) \<Rightarrow> bytes \<Rightarrow> ConnID list \<Rightarrow> nat \<Rightarrow> 'err option \<Rightarrow> 's \<Rightarrow>
   's \<times> nat \<times> 'err option" where
  "route_loop sendFn data [] n firstErr st = (st, n, firstErr)"
| "route_loop sendFn data (cid # ids) n firstErr st =
     (case sendFn cid data st of (st', err) \<Rightarrow>
        route_loop sendFn data ids (n + 1)
          (if err \<noteq> None \<and> firstErr = None then err else firstErr) st')"

definition Route ::
  "id_order \<Rightarrow> Router \<Rightarrow> u32 \<Rightarrow> bytes \<Rightarrow> (ConnID \<Rightarrow> bytes \<Rightarrow> 's \<Rightarrow> 's \<times> 'err option) \<Rightarrow> 's \<Rightarrow>
   's \<times> nat \<times> 'err option" where
  "Route ord r instrHash data sendFn st =
     route_loop sendFn data (map fst (ord (entries (subs_of (r ! router_shard instrHash) instrHash)))) 0 None st"

fun async_loop ::
  "(ConnID \<Rightarrow> bytes \<Rightarrow> 's \<Rightarrow> 's \<times> 'err option) \<Rightarrow> bytes \<Rightarrow> ConnID list \<Rightarrow> 'err option \<Rightarrow> 's \<Rightarrow> 's \<times> 'err option"
where
  "async_loop sendFn data [] firstErr st = (st, firstErr)"
| "async_loop sendFn data (cid # ids) firstErr st =
     (case sendFn cid data st of (st', err) \<Rightarrow>
        async_loop sendFn data ids (if err \<noteq> None \<and> firstErr = None then err else firstErr) st')"

definition RouteAsync ::
  "id_order \<Rightarrow> Router \<Rightarrow> u32 \<Rightarrow> bytes \<Rightarrow> (ConnID \<Rightarrow> bytes \<Rightarrow> 's \<Rightarrow> 's \<times> 'err option) \<Rightarrow> 's \<Rightarrow>
   's \<times> nat \<times> 'err option" where
  "RouteAsync ord r instrHash data sendFn st =
     (let subscribers = Subscribers ord r instrHash
      in case async_loop sendFn data subscribers None st of
           (st', firstErr) \<Rightarrow> (st', length subscribers, firstErr))"

definition TotalSubscriptions :: "shard_order \<Rightarrow> Router \<Rightarrow> nat" where
  "TotalSubscriptions ord r =
     fold (\<lambda>s total. fold (\<lambda>(h, subs) total. total + gomap_len subs) (ord (entries s)) total) r 0"

section \<open>Critical sections and the abstract router\<close>

datatype router_event = SubAt ConnID u32 | UnsubAt ConnID u32 | UnsubShard ConnID nat

fun router_step :: "shard_order \<Rightarrow> Router \<Rightarrow> router_event \<Rightarrow> Router option" where
  "router_step ord r (SubAt cid h) = subscribe_at cid r h"
| "router_step ord r (UnsubAt cid h) = Some (unsubscribe_at cid r h)"
| "router_step ord r (UnsubShard cid i) = Some (unsubscribe_shard ord cid r i)"

fun spec_router :: "(u32 \<Rightarrow> ConnID set) \<Rightarrow> router_event \<Rightarrow> u32 \<Rightarrow> ConnID set" where
  "spec_router f (SubAt cid h) = f(h := insert cid (f h))"
| "spec_router f (UnsubAt cid h) = f(h := f h - {cid})"
| "spec_router f (UnsubShard cid i) = (\<lambda>h. if router_shard h = i then f h - {cid} else f h)"

datatype router_op = OSubscribe ConnID "u32 list" | OUnsubscribe ConnID "u32 list" | OUnsubscribeAll ConnID

fun router_op_step :: "shard_order \<Rightarrow> Router \<Rightarrow> router_op \<Rightarrow> Router option" where
  "router_op_step ord r (OSubscribe cid hs) = Subscribe r cid hs"
| "router_op_step ord r (OUnsubscribe cid hs) = Some (Unsubscribe r cid hs)"
| "router_op_step ord r (OUnsubscribeAll cid) = Some (UnsubscribeAll ord r cid)"

fun spec_router_op :: "(u32 \<Rightarrow> ConnID set) \<Rightarrow> router_op \<Rightarrow> u32 \<Rightarrow> ConnID set" where
  "spec_router_op f (OSubscribe cid hs) = (\<lambda>h. if h \<in> set hs then insert cid (f h) else f h)"
| "spec_router_op f (OUnsubscribe cid hs) = (\<lambda>h. if h \<in> set hs then f h - {cid} else f h)"
| "spec_router_op f (OUnsubscribeAll cid) = (\<lambda>h. f h - {cid})"

text \<open>What routing does to a list of recipients: every send in order, with all its errors.\<close>

fun send_log ::
  "(ConnID \<Rightarrow> bytes \<Rightarrow> 's \<Rightarrow> 's \<times> 'err option) \<Rightarrow> bytes \<Rightarrow> ConnID list \<Rightarrow> 's \<Rightarrow> 's \<times> 'err option list" where
  "send_log sendFn data [] st = (st, [])"
| "send_log sendFn data (cid # ids) st =
     (case sendFn cid data st of (st', err) \<Rightarrow>
        case send_log sendFn data ids st' of (st'', errs) \<Rightarrow> (st'', err # errs))"

definition first_error :: "'err option list \<Rightarrow> 'err option" where
  "first_error errs = (case dropWhile (\<lambda>e. e = None) errs of [] \<Rightarrow> None | e # _ \<Rightarrow> e)"

text \<open>Two subscribers of instrument 65, in shard 1.\<close>

definition sample_router :: Router where
  "sample_router = zero_Router[1 := Some [(65, Some [(''a'', ()), (''b'', ())])]]"

text \<open>All pairs of a shard.\<close>

definition shard_pairs :: "shard_order \<Rightarrow> routerShard \<Rightarrow> (u32 \<times> ConnID) list" where
  "shard_pairs ord s = concat (map (\<lambda>(h, m). map (\<lambda>(cid, _). (h, cid)) (entries m)) (ord (entries s)))"

definition subscribed :: "Router \<Rightarrow> u32 \<Rightarrow> ConnID set" where
  "subscribed r h = dom (gomap_get (subs_of (r ! router_shard h) h))"

definition wf_rshard :: "nat \<Rightarrow> routerShard \<Rightarrow> bool" where
  "wf_rshard i s \<longleftrightarrow> wf_gomap s \<and>
     (\<forall>h m. gomap_get s h = Some m \<longrightarrow> router_shard h = i \<and> wf_gomap m \<and> m \<noteq> None \<and> entries m \<noteq> [])"

definition wf_router :: "Router \<Rightarrow> bool" where
  "wf_router r \<longleftrightarrow> length r = numRouterShards \<and> (\<forall>i < numRouterShards. wf_rshard i (r ! i))"

lemma router_shard_less [simp]: "router_shard h < numRouterShards"
proof -
  have "h AND 63 \<le> 63" by (rule word_and_le1)
  then show ?thesis by (simp add: router_shard_def numRouterShards_def word_le_nat_alt)
qed

lemma wf_zero_Router: "wf_router zero_Router" and subscribed_zero: "subscribed zero_Router h = {}"
  by (simp_all add: wf_router_def zero_Router_def wf_rshard_def subscribed_def subs_of_def)

lemma wf_routerD: "wf_router r \<Longrightarrow> length r = numRouterShards" "wf_router r \<Longrightarrow> wf_rshard (router_shard h) (r ! router_shard h)"
  by (simp_all add: wf_router_def)

lemma wf_router_update: "wf_router r \<Longrightarrow> wf_rshard i s \<Longrightarrow> wf_router (r[i := s])"
  by (cases "i < length r") (auto simp: wf_router_def nth_list_update)

lemma subscribed_update:
  "wf_router r \<Longrightarrow> i < numRouterShards \<Longrightarrow> subscribed (r[i := s]) h =
     (if router_shard h = i then dom (gomap_get (subs_of s h)) else subscribed r h)"
  by (auto simp: wf_router_def subscribed_def nth_list_update)

lemma entries_empty_iff: "entries m = [] \<longleftrightarrow> dom (gomap_get m) = {}"
  by (metis fst_entries_dom image_is_empty set_empty)

section \<open>Refinement\<close>


lemma gomap_put_total: "m \<noteq> None \<Longrightarrow> \<exists>s'. gomap_put m k v = Some s' \<and> s' \<noteq> None"
  by (auto simp: gomap_put_def)

lemma entries_put: "gomap_put m k v = Some m' \<Longrightarrow> entries m' \<noteq> []"
  unfolding entries_empty_iff by (auto simp: gomap_get_put)

lemma wf_rshard_entries [simp]: "wf_rshard i (Some (entries s)) = wf_rshard i s"
  by (simp add: wf_rshard_def)

lemma subs_of_entries [simp]: "subs_of (Some (entries s)) = subs_of s"
  by (simp add: subs_of_def fun_eq_iff)

lemma wf_subs_of: "wf_rshard i s \<Longrightarrow> wf_gomap (subs_of s h)"
  by (simp add: wf_rshard_def subs_of_def split: option.splits)

lemma subscribe_at_spec:
  assumes r: "wf_router r"
  shows "\<exists>r'. subscribe_at cid r h = Some r' \<and> wf_router r' \<and>
           subscribed r' = spec_router (subscribed r) (SubAt cid h)"
proof -
  let ?i = "router_shard h"
  let ?s = "Some (entries (r ! ?i))"
  have s: "wf_rshard ?i ?s" using wf_routerD(2) [OF r, of h] by simp
  obtain s1 where s1: "(if subs_of ?s h = None then gomap_put ?s h (Some []) else Some ?s) = Some s1"
    and s1': "s1 \<noteq> None" "wf_gomap s1" "\<And>k. k \<noteq> h \<Longrightarrow> gomap_get s1 k = gomap_get ?s k"
    "subs_of s1 h \<noteq> None" "wf_gomap (subs_of s1 h)"
    "gomap_get (subs_of s1 h) = gomap_get (subs_of ?s h)"
  proof (cases "subs_of ?s h = None")
    case True
    obtain s1 where p: "gomap_put ?s h (Some []) = Some s1" "s1 \<noteq> None"
      using gomap_put_total [of ?s] by blast
    have "wf_gomap s1" using s wf_gomap_put [OF _ p(1)] by (simp add: wf_rshard_def)
    moreover have "gomap_get (Some []) = (\<lambda>_. None :: unit option)" by (simp add: gomap_get_def fun_eq_iff)
    ultimately show thesis using that [of s1] p True gomap_get_put [OF p(1)] by (simp add: subs_of_def)
  next
    case False
    moreover have "wf_gomap ?s" using s by (simp only: wf_rshard_def)
    ultimately show thesis using wf_subs_of [OF s, of h] by (intro that [of ?s]) auto
  qed
  obtain m where m: "gomap_put (subs_of s1 h) cid () = Some m" "m \<noteq> None"
    using gomap_put_total [OF s1'(4)] by blast
  obtain s2 where s2: "gomap_put s1 h m = Some s2"
    using gomap_put_total [OF s1'(1)] by blast
  have get: "gomap_get s2 k = (if k = h then Some m else gomap_get ?s k)" for k
    using s1'(3) by (simp add: gomap_get_put [OF s2])
  have wf: "wf_rshard ?i s2"
    using s m(2) wf_gomap_put [OF s1'(2) s2] wf_gomap_put [OF s1'(5) m(1)] entries_put [OF m(1)]
    by (auto simp: wf_rshard_def get)
  have "subscribe_at cid r h = Some (r[?i := s2])"
    using s1 by (simp add: subscribe_at_def make_if_nil m(1) s2)
  moreover have "subscribed (r[?i := s2]) k = spec_router (subscribed r) (SubAt cid h) k" for k
    using r by (auto simp: subscribed_update subs_of_def [of s2] get gomap_get_put [OF m(1)] s1'(6))
      (auto simp: subscribed_def subs_of_def)
  ultimately show ?thesis using wf_router_update [OF r wf] by (metis ext)
qed

lemma drop_sub_spec:
  assumes "wf_rshard i s" and "gomap_get s h = Some m"
  shows "wf_rshard i (drop_sub cid (h, m) s)"
    and "gomap_get (drop_sub cid (h, m) s) =
      (gomap_get s)(h := if dom (gomap_get m) \<subseteq> {cid} then None else Some (gomap_delete m cid))"
proof -
  obtain s' where s': "gomap_put s h (gomap_delete m cid) = Some s'"
    using assms(2) gomap_put_total [of s] by (cases s) auto
  then have e: "map_option (AList.update h (gomap_delete m cid)) s = s'"
    by (auto simp: gomap_put_def split: option.splits)
  have len: "gomap_len (gomap_delete m cid) = 0 \<longleftrightarrow> dom (gomap_get m) \<subseteq> {cid}"
    by (auto simp: gomap_len_def entries_empty_iff gomap_get_delete)
  show get: "gomap_get (drop_sub cid (h, m) s) =
      (gomap_get s)(h := if dom (gomap_get m) \<subseteq> {cid} then None else Some (gomap_delete m cid))"
    by (auto simp: drop_sub_def e len gomap_get_put [OF s'] gomap_get_delete Let_def)
  have "wf_gomap (drop_sub cid (h, m) s)"
    using assms(1) s' by (auto simp: drop_sub_def e Let_def wf_rshard_def go_map)
  moreover have "wf_gomap (gomap_delete m cid)" "gomap_delete m cid \<noteq> None"
    using assms by (auto simp: wf_rshard_def gomap_delete_def intro: wf_gomap_delete [unfolded gomap_delete_def])
  ultimately show "wf_rshard i (drop_sub cid (h, m) s)"
    using assms len unfolding wf_rshard_def get gomap_len_def by (auto split: if_splits)
qed

lemma subs_of_drop_sub:
  assumes "wf_rshard i s" and "gomap_get s h = Some m"
  shows "dom (gomap_get (subs_of (drop_sub cid (h, m) s) k)) =
    (if k = h then dom (gomap_get (subs_of s h)) - {cid} else dom (gomap_get (subs_of s k)))"
  using assms(2) by (auto simp: subs_of_def drop_sub_spec(2) [OF assms] gomap_get_delete)

lemma unsubscribe_at_spec:
  assumes r: "wf_router r"
  shows "wf_router (unsubscribe_at cid r h) \<and>
    subscribed (unsubscribe_at cid r h) = spec_router (subscribed r) (UnsubAt cid h)"
proof (cases "gomap_get (r ! router_shard h) h")
  case None
  then show ?thesis using r by (auto simp: unsubscribe_at_def subs_of_def subscribed_def fun_eq_iff)
next
  case (Some m)
  note s = wf_routerD(2) [OF r, of h]
  then have "m \<noteq> None" using Some unfolding wf_rshard_def by blast
  then have u: "unsubscribe_at cid r h = r[router_shard h := drop_sub cid (h, m) (r ! router_shard h)]"
    using Some by (simp add: unsubscribe_at_def subs_of_def)
  have "subscribed (unsubscribe_at cid r h) k = spec_router (subscribed r) (UnsubAt cid h) k" for k
    unfolding u subscribed_update [OF r router_shard_less] subs_of_drop_sub [OF s Some]
    by (simp add: subscribed_def)
  then show ?thesis
    using wf_router_update [OF r drop_sub_spec(1) [OF s Some]] by (simp add: u fun_eq_iff)
qed

lemma fold_drop_sub:
  assumes "wf_rshard i s" and "distinct (map fst es)" and "\<forall>(h, m) \<in> set es. gomap_get s h = Some m"
  shows "wf_rshard i (fold (drop_sub cid) es s) \<and>
    dom (gomap_get (subs_of (fold (drop_sub cid) es s) k)) =
      dom (gomap_get (subs_of s k)) - (if k \<in> fst ` set es then {cid} else {})"
  using assms
proof (induction es arbitrary: s)
  case (Cons e es)
  obtain h m where e: "e = (h, m)" by fastforce
  have s: "wf_rshard i s" and hm: "gomap_get s h = Some m" using Cons.prems by (auto simp: e)
  have "\<forall>(h', m') \<in> set es. gomap_get (drop_sub cid e s) h' = Some m'"
    using Cons.prems by (force simp: e drop_sub_spec(2) [OF s hm])
  then have "wf_rshard i (fold (drop_sub cid) es (drop_sub cid e s)) \<and>
    dom (gomap_get (subs_of (fold (drop_sub cid) es (drop_sub cid e s)) k)) =
      dom (gomap_get (subs_of (drop_sub cid e s) k)) - (if k \<in> fst ` set es then {cid} else {})"
    using Cons.prems(2) drop_sub_spec(1) [OF s hm] by (intro Cons.IH) (auto simp: e)
  then show ?case by (auto simp: e subs_of_drop_sub [OF s hm])
qed simp

lemma unsubscribe_shard_spec:
  assumes r: "wf_router r" and ord: "range_order ord"
  shows "wf_router (unsubscribe_shard ord cid r i) \<and>
    subscribed (unsubscribe_shard ord cid r i) = spec_router (subscribed r) (UnsubShard cid i)"
proof (cases "i < numRouterShards")
  case False
  then have "unsubscribe_shard ord cid r i = r"
    using r by (simp add: unsubscribe_shard_def wf_router_def list_update_beyond)
  moreover have "router_shard h \<noteq> i" for h using router_shard_less [of h] False by auto
  ultimately show ?thesis using r by simp
next
  case True
  let ?es = "ord (entries (r ! i))"
  have s: "wf_rshard i (r ! i)" using r True by (simp add: wf_router_def)
  have es: "distinct (map fst ?es)" "\<forall>(h, m) \<in> set ?es. gomap_get (r ! i) h = Some m"
    using s ord by (auto simp: wf_rshard_def in_entries_iff) (simp add: wf_gomap_def)
  have "dom (gomap_get (subs_of (r ! i) k)) = {}" if "k \<notin> fst ` set ?es" for k
    using that ord by (auto simp: subs_of_def fst_entries_dom dom_def split: option.splits)
  then have "dom (gomap_get (subs_of (fold (drop_sub cid) ?es (r ! i)) k)) =
      dom (gomap_get (subs_of (r ! i) k)) - {cid}" for k
    using fold_drop_sub [OF s es, of cid k] by (auto split: if_splits)
  then have "subscribed (unsubscribe_shard ord cid r i) k = spec_router (subscribed r) (UnsubShard cid i) k" for k
    unfolding unsubscribe_shard_def subscribed_update [OF r True] by (auto simp: subscribed_def)
  then show ?thesis
    using fold_drop_sub [OF s es] wf_router_update [OF r]
    by (simp add: fun_eq_iff) (simp add: unsubscribe_shard_def)
qed

lemma router_refinement:
  "range_order ord \<Longrightarrow>
   refinement (\<lambda>r f. wf_router r \<and> subscribed r = f) (\<lambda>_. True) (router_step ord) spec_router"
proof unfold_locales
  fix r f e assume ord: "range_order ord" and r: "wf_router r \<and> subscribed r = f"
  then show "\<exists>r'. router_step ord r e = Some r' \<and> wf_router r' \<and> subscribed r' = spec_router f e"
    using subscribe_at_spec unsubscribe_at_spec unsubscribe_shard_spec [OF _ ord] by (cases e) auto
qed

interpretation router: refinement "\<lambda>r f. wf_router r \<and> subscribed r = f" "\<lambda>_. True"
  "router_step (\<lambda>xs. xs)" spec_router
  by (rule router_refinement) simp

text \<open>The operations as sequences of critical sections.\<close>

fun router_events :: "router_op \<Rightarrow> router_event list" where
  "router_events (OSubscribe cid hs) = map (SubAt cid) hs"
| "router_events (OUnsubscribe cid hs) = map (UnsubAt cid) hs"
| "router_events (OUnsubscribeAll cid) = map (UnsubShard cid) [0..<numRouterShards]"

lemma run_SubAt: "run_opt (router_step ord) r (map (SubAt cid) hs) = run_opt (subscribe_at cid) r hs"
  by (induction hs arbitrary: r) (auto split: bind_splits)

lemma run_UnsubAt:
  "run_opt (router_step ord) r (map (UnsubAt cid) hs) = Some (fold (\<lambda>h r. unsubscribe_at cid r h) hs r)"
  by (induction hs arbitrary: r) auto

lemma run_UnsubShard:
  "run_opt (router_step ord) r (map (UnsubShard cid) is) =
     Some (fold (\<lambda>i r. unsubscribe_shard ord cid r i) is r)"
  by (induction "is" arbitrary: r) auto

lemma router_op_events:
  "wf_router r \<Longrightarrow> router_op_step ord r x = run_opt (router_step ord) r (router_events x)"
  by (cases x) (simp_all add: run_SubAt run_UnsubAt run_UnsubShard Subscribe_def Unsubscribe_def
      UnsubscribeAll_def wf_router_def)

lemma fold_SubAt:
  "fold (\<lambda>e f. spec_router f e) (map (SubAt cid) hs) f =
     (\<lambda>h. if h \<in> set hs then insert cid (f h) else f h)"
  by (induction hs arbitrary: f) (auto simp: fun_eq_iff)

lemma fold_UnsubAt:
  "fold (\<lambda>e f. spec_router f e) (map (UnsubAt cid) hs) f =
     (\<lambda>h. if h \<in> set hs then f h - {cid} else f h)"
  by (induction hs arbitrary: f) (auto simp: fun_eq_iff)

lemma fold_UnsubShard:
  "fold (\<lambda>e f. spec_router f e) (map (UnsubShard cid) is) f =
     (\<lambda>h. if router_shard h \<in> set is then f h - {cid} else f h)"
  by (induction "is" arbitrary: f) (auto simp: fun_eq_iff)

lemma spec_op_events:
  "fold (\<lambda>e f. spec_router f e) (router_events x) f = spec_router_op f x"
  by (cases x) (simp_all add: fold_SubAt fold_UnsubAt fold_UnsubShard fun_eq_iff)

lemma router_op_refinement:
  assumes "range_order ord"
  shows "refinement (\<lambda>r f. wf_router r \<and> subscribed r = f) (\<lambda>_. True) (router_op_step ord) spec_router_op"
proof unfold_locales
  fix r f x assume r: "wf_router r \<and> subscribed r = f"
  then show "\<exists>r'. router_op_step ord r x = Some r' \<and> wf_router r' \<and> subscribed r' = spec_router_op f x"
    using refinement.run_refines [OF router_refinement [OF assms], of r f "router_events x"]
    by (simp add: router_op_events spec_op_events list_all_iff)
qed

section \<open>Queries and routing\<close>

lemma Subscribers_distinct: "wf_router r \<Longrightarrow> range_order ord \<Longrightarrow> distinct (Subscribers ord r h)"
  using wf_subs_of [OF wf_routerD(2), of r h h] by (simp add: Subscribers_def wf_gomap_def)

lemma Subscribers_set: "range_order ord \<Longrightarrow> set (Subscribers ord r h) = subscribed r h"
  by (simp add: Subscribers_def subscribed_def fst_entries_dom)

lemma SubscriberCount_card: "wf_router r \<Longrightarrow> SubscriberCount r h = card (subscribed r h)"
  by (simp add: SubscriberCount_def subscribed_def gomap_len_card wf_subs_of [OF wf_routerD(2)])

lemma subscribed_nonempty:
  "wf_rshard (router_shard h) (r ! router_shard h) \<Longrightarrow>
   gomap_get (r ! router_shard h) h = None \<longleftrightarrow> subscribed r h = {}"
proof (cases "gomap_get (r ! router_shard h) h")
  case (Some m)
  moreover assume "wf_rshard (router_shard h) (r ! router_shard h)"
  ultimately have "entries m \<noteq> []" unfolding wf_rshard_def by blast
  then show ?thesis using Some by (simp add: subscribed_def subs_of_def entries_empty_iff)
qed (simp add: subscribed_def subs_of_def)

lemma route_loop_eq:
  "route_loop sendFn data ids n err st =
     (case async_loop sendFn data ids err st of (st', err') \<Rightarrow> (st', n + length ids, err'))"
  by (induction sendFn data ids n err st rule: route_loop.induct) (auto split: prod.splits)

lemma RouteAsync_Route: "RouteAsync ord r h data sendFn st = Route ord r h data sendFn st"
  by (simp add: RouteAsync_def Route_def route_loop_eq Subscribers_def Let_def)

lemma send_log_append: "send_log sendFn data (xs @ ys) st =
  (case send_log sendFn data xs st of (st', es) \<Rightarrow>
     case send_log sendFn data ys st' of (st'', es') \<Rightarrow> (st'', es @ es'))"
  by (induction sendFn data xs st rule: send_log.induct) (auto split: prod.splits)

lemma async_loop_eq:
  "async_loop sendFn data ids err st =
     (case send_log sendFn data ids st of (st', errs) \<Rightarrow>
        (st', if err = None then first_error errs else err))"
  by (induction sendFn data ids err st rule: async_loop.induct)
     (auto simp: first_error_def split: prod.splits option.splits)

lemma shard_pairs_set:
  "wf_rshard i s \<Longrightarrow> range_order ord \<Longrightarrow>
   set (shard_pairs ord s) = {(h, cid). cid \<in> dom (gomap_get (subs_of s h))}"
proof -
  assume s: "wf_rshard i s" and ord: "range_order ord"
  have "(h, cid) \<in> set (shard_pairs ord s) \<longleftrightarrow> (\<exists>m. (h, m) \<in> set (entries s) \<and> cid \<in> fst ` set (entries m))"
    for h cid using ord by (force simp: shard_pairs_def)
  moreover have "(h, m) \<in> set (entries s) \<longleftrightarrow> gomap_get s h = Some m" for h m
    using s by (simp add: wf_rshard_def in_entries_iff)
  ultimately show ?thesis
    by (auto simp: fst_entries_dom subs_of_def split: option.splits)
qed

lemma shard_pairs_distinct:
  assumes s: "wf_rshard i s" and ord: "range_order ord"
  shows "distinct (shard_pairs ord s)"
  unfolding shard_pairs_def
proof (rule distinct_concat_map)
  have d: "distinct (map fst (entries s))" using s by (simp add: wf_rshard_def wf_gomap_def)
  then show "distinct (ord (entries s))" using ord by (simp add: distinct_map)
  fix e assume e: "e \<in> set (ord (entries s))"
  obtain h m where hm: "e = (h, m)" by fastforce
  then have "gomap_get s h = Some m" using e s ord by (simp add: wf_rshard_def in_entries_iff)
  then have "distinct (map fst (entries m))" using s by (simp add: wf_rshard_def wf_gomap_def)
  then show "distinct ((\<lambda>(h, m). map (\<lambda>(cid, _). (h, cid)) (entries m)) e)"
    by (auto simp: hm distinct_map inj_on_def)
  fix e' assume "e' \<in> set (ord (entries s))" "e \<noteq> e'"
  then have "fst e \<noteq> fst e'" using e d ord by (metis eq_key_imp_eq_value prod.collapse set_range_order)
  then show "set ((\<lambda>(h, m). map (\<lambda>(cid, _). (h, cid)) (entries m)) e) \<inter>
      set ((\<lambda>(h, m). map (\<lambda>(cid, _). (h, cid)) (entries m)) e') = {}"
    by (auto split: prod.splits)
qed

lemma TotalSubscriptions_card:
  assumes r: "wf_router r" and ord: "range_order ord"
  shows "TotalSubscriptions ord r = card {(h, cid). cid \<in> subscribed r h}"
proof -
  let ?ps = "concat (map (\<lambda>i. shard_pairs ord (r ! i)) [0..<numRouterShards])"
  have len: "length r = numRouterShards" and sh: "\<And>i. i < numRouterShards \<Longrightarrow> wf_rshard i (r ! i)"
    using r by (auto simp: wf_router_def)
  have "TotalSubscriptions ord r = length (concat (map (shard_pairs ord) r))"
    by (simp add: TotalSubscriptions_def fold_add_nat [of "\<lambda>e. case e of (h, subs) \<Rightarrow> gomap_len subs"]
        fold_add_nat length_concat shard_pairs_def comp_def gomap_len_def case_prod_unfold)
  also have "map (shard_pairs ord) r = map (\<lambda>i. shard_pairs ord (r ! i)) [0..<numRouterShards]"
    using map_via_nth [of "shard_pairs ord" r] len by simp
  also have "length (concat \<dots>) = card (set ?ps)"
  proof (rule distinct_card [symmetric], rule distinct_concat_map)
    fix i j assume "i \<in> set [0..<numRouterShards]" "j \<in> set [0..<numRouterShards]" "i \<noteq> j"
    then have "wf_rshard i (r ! i)" "wf_rshard j (r ! j)" "i \<noteq> j" using sh by auto
    then have "gomap_get (r ! i) h = None \<or> gomap_get (r ! j) h = None" for h
      unfolding wf_rshard_def by (metis not_None_eq)
    then have "subs_of (r ! i) h = None \<or> subs_of (r ! j) h = None" for h
      by (metis subs_of_def option.case(1))
    then show "set (shard_pairs ord (r ! i)) \<inter> set (shard_pairs ord (r ! j)) = {}"
      using \<open>wf_rshard i (r ! i)\<close> \<open>wf_rshard j (r ! j)\<close> ord
      by (auto simp: shard_pairs_set) (metis gomap_get_nil option.distinct(1))
  qed (use sh ord shard_pairs_distinct in auto)
  also have "set ?ps = {(h, cid). cid \<in> subscribed r h}"
  proof -
    have "set (shard_pairs ord (r ! i)) = {(h, cid). router_shard h = i \<and> cid \<in> subscribed r h}"
      if i: "i < numRouterShards" for i
    proof -
      have "gomap_get (r ! i) h = None" if "router_shard h \<noteq> i" for h
        using sh [OF i] that unfolding wf_rshard_def by (metis not_None_eq)
      then have "cid \<in> dom (gomap_get (subs_of (r ! i) h)) \<longleftrightarrow> router_shard h = i \<and> cid \<in> subscribed r h"
        for h cid by (cases "router_shard h = i") (auto simp: subs_of_def subscribed_def)
      then show ?thesis by (simp add: shard_pairs_set [OF sh [OF i] ord])
    qed
    then show ?thesis using router_shard_less by auto
  qed
  finally show ?thesis .
qed

section \<open>Interleaved critical sections\<close>

lemma events_absent:
  "SubAt cid h \<notin> set es \<Longrightarrow> cid \<notin> f h \<Longrightarrow> cid \<notin> fold (\<lambda>e f. spec_router f e) es f h"
proof (induction es arbitrary: f)
  case (Cons e es)
  then have "cid \<notin> spec_router f e h" by (cases e) auto
  then show ?case using Cons by simp
qed simp

lemma events_remove:
  "UnsubShard cid (router_shard h) \<in> set es \<Longrightarrow> SubAt cid h \<notin> set es \<Longrightarrow>
   cid \<notin> fold (\<lambda>e f. spec_router f e) es f h"
proof (induction es arbitrary: f)
  case (Cons e es)
  show ?case
  proof (cases "e = UnsubShard cid (router_shard h)")
    case True
    then show ?thesis using Cons.prems events_absent [of cid h es "spec_router f e"] by simp
  qed (use Cons in auto)
qed simp

lemma events_keep:
  "cid \<in> f h \<Longrightarrow> UnsubShard cid (router_shard h) \<notin> set es \<Longrightarrow> UnsubAt cid h \<notin> set es \<Longrightarrow>
   cid \<in> fold (\<lambda>e f. spec_router f e) es f h"
proof (induction es arbitrary: f)
  case (Cons e es)
  then show ?case by (cases e) (auto intro!: Cons.IH)
qed simp

lemma events_add:
  "SubAt cid h \<in> set es \<Longrightarrow> UnsubShard cid (router_shard h) \<notin> set es \<Longrightarrow> UnsubAt cid h \<notin> set es \<Longrightarrow>
   cid \<in> fold (\<lambda>e f. spec_router f e) es f h"
proof (induction es arbitrary: f)
  case (Cons e es)
  then show ?case
    using events_keep [of cid "spec_router f e" h es] by (cases "e = SubAt cid h") auto
qed simp

lemma wf_sample_router: "wf_router sample_router"
  unfolding sample_router_def
  by (rule wf_router_update [OF wf_zero_Router])
     (auto simp: wf_rshard_def wf_gomap_def gomap_get_def router_shard_def numRouterShards_def)

lemma subscribed_sample_router: "subscribed sample_router 65 = {''a'', ''b''}"
  by (auto simp: subscribed_def sample_router_def router_shard_def numRouterShards_def zero_Router_def
      subs_of_def gomap_get_def split: if_splits)

section \<open>Properties\<close>

text \<open>Property C8. Starting from the zero value, after any sequence of \<open>Subscribe\<close>, \<open>Unsubscribe\<close> and
  \<open>UnsubscribeAll\<close>, with map iteration in any order, the router has not panicked and holds
  exactly the subscriptions of the abstract model; \<open>SubscriberCount\<close>, \<open>Subscribers\<close> and
  \<open>TotalSubscriptions\<close> report them, and no instrument without subscribers keeps an entry.\<close>

theorem router_refines_subscriptions:
  assumes "range_order ord" and "range_order ord2"
  shows "\<exists>r. run_opt (router_op_step ord) zero_Router ops = Some r \<and>
     (let f = fold (\<lambda>x f. spec_router_op f x) ops (\<lambda>_. {}) in
       (\<forall>h. set (Subscribers ord2 r h) = f h \<and> distinct (Subscribers ord2 r h) \<and>
            SubscriberCount r h = card (f h) \<and>
            (gomap_get (r ! router_shard h) h = None \<longleftrightarrow> f h = {})) \<and>
       TotalSubscriptions ord r = card {(h, cid). cid \<in> f h})"
proof -
  obtain r where r: "run_opt (router_op_step ord) zero_Router ops = Some r" "wf_router r"
    "subscribed r = fold (\<lambda>x f. spec_router_op f x) ops (\<lambda>_. {})"
    using refinement.run_refines [OF router_op_refinement [OF assms(1)], of zero_Router "\<lambda>_. {}" ops]
    by (auto simp: wf_zero_Router subscribed_zero fun_eq_iff list_all_iff)
  have "gomap_get (r ! router_shard h) h = None \<longleftrightarrow> subscribed r h = {}" for h
    using wf_routerD(2) [OF r(2), of h] by (simp add: subscribed_nonempty)
  then show ?thesis
    using r(1,3) Subscribers_set [OF assms(2), of r] Subscribers_distinct [OF r(2) assms(2)]
      SubscriberCount_card [OF r(2)] TotalSubscriptions_card [OF r(2) assms(1)]
    by (simp add: Let_def)
qed

theorem router_refines_subscriptions_witness:
  "\<exists>r. run_opt (router_op_step rev) zero_Router
        [OSubscribe ''a'' [1, 65], OSubscribe ''b'' [65], OUnsubscribeAll ''a''] = Some r \<and>
      set (Subscribers (\<lambda>xs. xs) r 65) = {''b''} \<and> set (Subscribers (\<lambda>xs. xs) r 1) = {}"
proof -
  let ?ops = "[OSubscribe ''a'' [1, 65], OSubscribe ''b'' [65], OUnsubscribeAll ''a'']"
  have f: "fold (\<lambda>x f. spec_router_op f x) ?ops (\<lambda>_. {}) 65 = {''b''}"
    "fold (\<lambda>x f. spec_router_op f x) ?ops (\<lambda>_. {}) 1 = {}" by auto
  show ?thesis
    using router_refines_subscriptions [OF range_order_rev range_order_id, of ?ops]
    unfolding Let_def by (metis f)
qed

text \<open>\<open>Route\<close> calls \<open>sendFn\<close> exactly once for each subscriber of the instrument and for
  nobody else, goes on after a failed send, and returns the number of subscribers and the
  first error. \<open>RouteAsync\<close> does the same from a snapshot.\<close>

lemma route_reaches_each_subscriber_once:
  assumes "wf_router r" and "range_order ord"
  shows "\<exists>ids. distinct ids \<and> set ids = subscribed r h \<and>
     Route ord r h data sendFn st =
       (case send_log sendFn data ids st of (st', errs) \<Rightarrow> (st', card (subscribed r h), first_error errs)) \<and>
     RouteAsync ord r h data sendFn st = Route ord r h data sendFn st"
proof (intro exI conjI)
  show "distinct (Subscribers ord r h)" "set (Subscribers ord r h) = subscribed r h"
    using assms by (simp_all add: Subscribers_distinct Subscribers_set)
  then have "length (Subscribers ord r h) = card (subscribed r h)" by (metis distinct_card)
  then show "Route ord r h data sendFn st = (case send_log sendFn data (Subscribers ord r h) st of
      (st', errs) \<Rightarrow> (st', card (subscribed r h), first_error errs))"
    by (auto simp: Route_def route_loop_eq async_loop_eq Subscribers_def split: prod.splits)
qed (rule RouteAsync_Route)

text \<open>Property C20. Under any interleaving of critical sections of concurrent calls nothing panics; a
  connection swept from the shard of an instrument by \<open>UnsubscribeAll\<close> and not subscribed to
  it meanwhile does not receive it, and one subscribed to it and not removed does.\<close>

theorem router_interleavings:
  assumes "wf_router r" and "range_order ord"
  shows "\<exists>r'. run_opt (router_step ord) r es = Some r' \<and> wf_router r' \<and>
     (\<forall>cid h. UnsubShard cid (router_shard h) \<in> set es \<longrightarrow> SubAt cid h \<notin> set es \<longrightarrow> cid \<notin> subscribed r' h) \<and>
     (\<forall>cid h. SubAt cid h \<in> set es \<longrightarrow> UnsubShard cid (router_shard h) \<notin> set es \<longrightarrow>
        UnsubAt cid h \<notin> set es \<longrightarrow> cid \<in> subscribed r' h)"
  using refinement.run_refines [OF router_refinement [OF assms(2)], of r "subscribed r" es] assms(1)
  by (auto simp: list_all_iff events_remove events_add)

theorem router_interleavings_witness:
  "\<exists>r'. run_opt (router_step rev) sample_router [UnsubShard ''a'' 1, SubAt ''c'' 65, UnsubShard ''b'' 1] = Some r' \<and>
     ''a'' \<notin> subscribed r' 65 \<and> ''c'' \<in> subscribed r' 65"
  using router_interleavings [OF wf_sample_router range_order_rev,
      of "[UnsubShard ''a'' 1, SubAt ''c'' 65, UnsubShard ''b'' 1]"]
  by (auto simp: router_shard_def numRouterShards_def)

end
