(* ===== verification/Broadcast.thy ===== *)
theory Broadcast
  imports Containers
begin

text \<open>
  The fan-out strategies of \<^verbatim>\<open>internal/broadcast\<close> that work on \<open>Writer\<close>s: \<open>NaiveBroadcaster\<close>,
  \<open>ShardedBroadcaster\<close> and \<open>WorkerPoolBroadcaster\<close>. A writer is its identifier with the
  implementation behind the interface, which is a parameter. Their registrations are
  interpretations of \<open>keyed_pool\<close>; deliveries are recorded in a log.
\<close>

section \<open>Writers and the naive broadcaster\<close>

type_synonym 'a Writer = "ConnID \<times> 'a"

abbreviation ID :: "'a Writer \<Rightarrow> ConnID" where "ID \<equiv> fst"

text \<open>The index of the first element with a property, as the \<open>for i, w := range\<close> loops find it\<close>

fun first_index :: "('a \<Rightarrow> bool) \<Rightarrow> 'a list \<Rightarrow> nat option" where
  "first_index P [] = None"
| "first_index P (x # xs) = (if P x then Some 0 else map_option Suc (first_index P xs))"

definition Naive_Add :: "'a Writer list \<Rightarrow> 'a Writer \<Rightarrow> 'a Writer list" where
  "Naive_Add writers w =
     (case first_index (\<lambda>existing. ID existing = ID w) writers of
        Some i \<Rightarrow> writers[i := w]
      | None \<Rightarrow> writers @ [w])"

definition Naive_Remove :: "'a Writer list \<Rightarrow> ConnID \<Rightarrow> 'a Writer list" where
  \<comment> \<open>the slot cleared by \<open>writers[last] = nil\<close> lies behind the new length\<close>
  "Naive_Remove writers cid =
     (case first_index (\<lambda>w. ID w = cid) writers of
        Some i \<Rightarrow> (let hi = length writers - 1 in take hi (writers[i := writers ! hi]))
      | None \<Rightarrow> writers)"

definition Naive_Len :: "'a Writer list \<Rightarrow> nat" where "Naive_Len writers = length writers"

text \<open>\<open>write\<close> threads the state behind the writers; an error is wrapped with the writer's
  identifier.\<close>

fun naive_loop ::
  "('a Writer \<Rightarrow> bytes \<Rightarrow> 's \<Rightarrow> 's \<times> 'err option) \<Rightarrow> bytes \<Rightarrow> 'a Writer list \<Rightarrow> (ConnID \<times> 'err) option \<Rightarrow> 's \<Rightarrow>
   's \<times> (ConnID \<times> 'err) option" where
  "naive_loop write data [] firstErr st = (st, firstErr)"
| "naive_loop write data (w # ws) firstErr st =
     (case write w data st of (st', err) \<Rightarrow>
        naive_loop write data ws
          (case err of Some e \<Rightarrow> if firstErr = None then Some (ID w, e) else firstErr | None \<Rightarrow> firstErr) st')"

definition Naive_Broadcast ::
  "('a Writer \<Rightarrow> bytes \<Rightarrow> 's \<Rightarrow> 's \<times> 'err option) \<Rightarrow> 'a Writer list \<Rightarrow> bytes \<Rightarrow> 's \<Rightarrow>
   's \<times> (ConnID \<times> 'err) option" where
  "Naive_Broadcast write writers data st = naive_loop write data writers None st"

section \<open>Sharding\<close>

definition bc_numShards :: nat where "bc_numShards = 16"

definition shardIndex :: "ConnID \<Rightarrow> nat" where
  "shardIndex cid = unat (fold (\<lambda>c h. (h XOR of_char c) * 16777619) cid (2166136261 :: u32)) mod bc_numShards"

section \<open>The worker-pool broadcaster\<close>

type_synonym 'a WorkerPool = "'a Writer list list"

definition NewWorkerPool :: "'a WorkerPool" where
  "NewWorkerPool = replicate bc_numShards []"

definition WorkerPool_Add :: "'a WorkerPool \<Rightarrow> 'a Writer \<Rightarrow> 'a WorkerPool" where
  "WorkerPool_Add b w =
     (let idx = shardIndex (ID w); ws = b ! idx in
      case first_index (\<lambda>existing. ID existing = ID w) ws of
        Some i \<Rightarrow> b[idx := ws[i := w]]
      | None \<Rightarrow> b[idx := ws @ [w]])"

definition WorkerPool_Remove :: "'a WorkerPool \<Rightarrow> ConnID \<Rightarrow> 'a WorkerPool" where
  "WorkerPool_Remove b cid =
     (let idx = shardIndex cid; ws = b ! idx in
      case first_index (\<lambda>w. ID w = cid) ws of
        Some i \<Rightarrow> (let hi = length ws - 1 in b[idx := take hi (ws[i := ws ! hi])])
      | None \<Rightarrow> b)"

definition WorkerPool_Len :: "'a WorkerPool \<Rightarrow> nat" where
  "WorkerPool_Len b = fold (\<lambda>ws total. total + length ws) b 0"

text \<open>A \<open>Broadcast\<close> in progress: the next shard of the submission loop, the writers the caller
  still has to serve inline after a refused \<open>Submit\<close>, the snapshots of the running tasks, the
  writes done so far with their outcomes, and \<open>firstErr\<close>. The goroutine pool decides which
  submissions it accepts and how the tasks interleave, the writers decide which writes
  fail.\<close>

record ('a, 'err) wp_run =
  next_shard :: nat
  inline_ws :: "'a Writer list"
  tasks :: "'a Writer list list"
  writes :: "('a Writer \<times> 'err option) list"
  wp_firstErr :: "(ConnID \<times> 'err) option"

definition note_err :: "(ConnID \<times> 'err) option \<Rightarrow> 'a Writer \<Rightarrow> 'err option \<Rightarrow> (ConnID \<times> 'err) option" where
  "note_err firstErr w err =
     (case err of Some e \<Rightarrow> if firstErr = None then Some (ID w, e) else firstErr | None \<Rightarrow> firstErr)"

definition wp_start :: "('a, 'err) wp_run" where
  "wp_start = \<lparr>next_shard = 0, inline_ws = [], tasks = [], writes = [], wp_firstErr = None\<rparr>"

inductive wp_step :: "'a WorkerPool \<Rightarrow> ('a, 'err) wp_run \<Rightarrow> ('a, 'err) wp_run \<Rightarrow> bool" for b where
  skip_empty: "next_shard s < bc_numShards \<Longrightarrow> inline_ws s = [] \<Longrightarrow> b ! next_shard s = [] \<Longrightarrow>
     wp_step b s (s\<lparr>next_shard := next_shard s + 1\<rparr>)"
| submit: "next_shard s < bc_numShards \<Longrightarrow> inline_ws s = [] \<Longrightarrow> b ! next_shard s \<noteq> [] \<Longrightarrow>
     wp_step b s (s\<lparr>next_shard := next_shard s + 1, tasks := (b ! next_shard s) # tasks s\<rparr>)"
| refused: "next_shard s < bc_numShards \<Longrightarrow> inline_ws s = [] \<Longrightarrow> b ! next_shard s \<noteq> [] \<Longrightarrow>
     wp_step b s (s\<lparr>next_shard := next_shard s + 1, inline_ws := b ! next_shard s\<rparr>)"
| inline_write: "inline_ws s = w # ws \<Longrightarrow>
     wp_step b s (s\<lparr>inline_ws := ws, writes := (w, err) # writes s,
                   wp_firstErr := note_err (wp_firstErr s) w err\<rparr>)"
| task_write: "i < length (tasks s) \<Longrightarrow> tasks s ! i = w # ws \<Longrightarrow>
     wp_step b s (s\<lparr>tasks := (tasks s)[i := ws], writes := (w, err) # writes s,
                   wp_firstErr := note_err (wp_firstErr s) w err\<rparr>)"

definition wp_returned :: "('a, 'err) wp_run \<Rightarrow> bool" where
  \<comment> \<open>the loop is over and \<open>wg.Wait\<close> has returned\<close>
  "wp_returned s \<longleftrightarrow> next_shard s = bc_numShards \<and> inline_ws s = [] \<and> (\<forall>t \<in> set (tasks s). t = [])"

section \<open>The sharded broadcaster\<close>

definition shardChanCap :: nat where "shardChanCap = 256"

record 'a broadcastShard =
  sh_writers :: "'a Writer list"
  sh_ch :: "bytes list"

type_synonym 'a Sharded = "'a broadcastShard list"

definition NewSharded :: "'a Sharded" where
  "NewSharded = replicate bc_numShards \<lparr>sh_writers = [], sh_ch = []\<rparr>"

definition Sharded_Add :: "'a Sharded \<Rightarrow> 'a Writer \<Rightarrow> 'a Sharded" where
  "Sharded_Add b w =
     (let idx = shardIndex (ID w); sh = b ! idx; ws = sh_writers sh in
      case first_index (\<lambda>existing. ID existing = ID w) ws of
        Some i \<Rightarrow> b[idx := sh\<lparr>sh_writers := ws[i := w]\<rparr>]
      | None \<Rightarrow> b[idx := sh\<lparr>sh_writers := ws @ [w]\<rparr>])"

definition Sharded_Remove :: "'a Sharded \<Rightarrow> ConnID \<Rightarrow> 'a Sharded" where
  "Sharded_Remove b cid =
     (let idx = shardIndex cid; sh = b ! idx; ws = sh_writers sh in
      case first_index (\<lambda>w. ID w = cid) ws of
        Some i \<Rightarrow> (let hi = length ws - 1 in b[idx := sh\<lparr>sh_writers := take hi (ws[i := ws ! hi])\<rparr>])
      | None \<Rightarrow> b)"

definition Sharded_Len :: "'a Sharded \<Rightarrow> nat" where
  "Sharded_Len b = fold (\<lambda>sh total. total + length (sh_writers sh)) b 0"

text \<open>\<open>Broadcast\<close>: a send to each channel that has room; the second result is the error, present
  when every send was dropped.\<close>

fun sharded_sends :: "bytes \<Rightarrow> 'a Sharded \<Rightarrow> nat \<Rightarrow> 'a Sharded \<times> nat" where
  "sharded_sends data [] dropped = ([], dropped)"
| "sharded_sends data (sh # b) dropped =
     (if length (sh_ch sh) < shardChanCap
      then (case sharded_sends data b dropped of (b', d) \<Rightarrow> (sh\<lparr>sh_ch := sh_ch sh @ [data]\<rparr> # b', d))
      else (case sharded_sends data b (dropped + 1) of (b', d) \<Rightarrow> (sh # b', d)))"

definition Sharded_Broadcast :: "'a Sharded \<Rightarrow> bytes \<Rightarrow> 'a Sharded \<times> bool" where
  "Sharded_Broadcast b data =
     (case sharded_sends data b 0 of (b', dropped) \<Rightarrow> (b', dropped = bc_numShards))"

text \<open>One turn of \<open>runShard\<close>: receive a payload and write it to the writers of the shard.\<close>

definition runShard_turn :: "'a broadcastShard \<Rightarrow> ('a broadcastShard \<times> ('a Writer \<times> bytes) list) option" where
  "runShard_turn sh =
     (case sh_ch sh of [] \<Rightarrow> None
      | data # rest \<Rightarrow> Some (sh\<lparr>sh_ch := rest\<rparr>, map (\<lambda>w. (w, data)) (sh_writers sh)))"

text \<open>After \<open>Stop\<close> the goroutine drains its channel, reading the writers again for each payload.\<close>

fun runShard_drain :: "'a Writer list \<Rightarrow> bytes list \<Rightarrow> ('a Writer \<times> bytes) list" where
  "runShard_drain ws [] = []"
| "runShard_drain ws (data # ch) = map (\<lambda>w. (w, data)) ws @ runShard_drain ws ch"

text \<open>Executions: broadcasts and the turns of the shard goroutines, in any order. The log of a
  shard holds its writes, oldest first; \<open>accepted\<close> the payloads its channel took.\<close>

datatype sharded_event = Bcast bytes | Turn nat

record 'a sharded_run =
  sr_shards :: "'a Sharded"
  sr_log :: "('a Writer \<times> bytes) list list"
  accepted :: "bytes list list"

definition sharded_start :: "'a Sharded \<Rightarrow> 'a sharded_run" where
  "sharded_start b = \<lparr>sr_shards = b, sr_log = replicate (length b) [], accepted = replicate (length b) []\<rparr>"

fun sharded_step :: "'a sharded_run \<Rightarrow> sharded_event \<Rightarrow> 'a sharded_run" where
  "sharded_step s (Bcast data) =
     s\<lparr>sr_shards := fst (Sharded_Broadcast (sr_shards s) data),
       accepted := map2 (\<lambda>sh acc. if length (sh_ch sh) < shardChanCap then acc @ [data] else acc)
                     (sr_shards s) (accepted s)\<rparr>"
| "sharded_step s (Turn i) =
     (case runShard_turn (sr_shards s ! i) of None \<Rightarrow> s
      | Some (sh, ws) \<Rightarrow> s\<lparr>sr_shards := (sr_shards s)[i := sh], sr_log := (sr_log s)[i := sr_log s ! i @ ws]\<rparr>)"

section \<open>The shared writer slice of a shard\<close>

text \<open>\<open>runShard\<close> copies the slice header \<open>shard.writers\<close> under the lock and iterates over it after
  releasing it, while \<open>Add\<close> and \<open>Remove\<close> change the backing array in place. Here the arrays
  are a heap; a slot is \<open>None\<close> when it is nil. \<open>grow\<close> is the spare capacity \<open>append\<close>
  chooses when it reallocates.\<close>

record 'a slices =
  arrays :: "'a Writer option list list"
  cur :: nat
  curlen :: nat

definition slot :: "'a slices \<Rightarrow> nat \<Rightarrow> nat \<Rightarrow> 'a Writer option" where
  "slot s a i = arrays s ! a ! i"

definition set_slot :: "'a slices \<Rightarrow> nat \<Rightarrow> nat \<Rightarrow> 'a Writer option \<Rightarrow> 'a slices" where
  "set_slot s a i v = s\<lparr>arrays := (arrays s)[a := (arrays s ! a)[i := v]]\<rparr>"

definition find_slot :: "'a slices \<Rightarrow> ConnID \<Rightarrow> nat option" where
  "find_slot s cid =
     first_index (\<lambda>x. map_option ID x = Some cid) (take (curlen s) (arrays s ! cur s))"

definition slice_Add :: "nat \<Rightarrow> 'a slices \<Rightarrow> 'a Writer \<Rightarrow> 'a slices" where
  "slice_Add grow s w =
     (case find_slot s (ID w) of
        Some i \<Rightarrow> set_slot s (cur s) i (Some w)
      | None \<Rightarrow>
          if curlen s < length (arrays s ! cur s)
          then (set_slot s (cur s) (curlen s) (Some w))\<lparr>curlen := curlen s + 1\<rparr>
          else \<lparr>arrays = arrays s @ [take (curlen s) (arrays s ! cur s) @ Some w # replicate grow None],
                cur = length (arrays s), curlen = curlen s + 1\<rparr>)"

definition slice_Remove :: "'a slices \<Rightarrow> ConnID \<Rightarrow> 'a slices" where
  "slice_Remove s cid =
     (case find_slot s cid of
        None \<Rightarrow> s
      | Some i \<Rightarrow>
          let hi = curlen s - 1;
              s1 = set_slot s (cur s) i (slot s (cur s) hi);
              s2 = set_slot s1 (cur s) hi None
          in s2\<lparr>curlen := hi\<rparr>)"

fun slice_op :: "nat \<Rightarrow> 'a slices \<Rightarrow> (ConnID, 'a Writer) pool_op \<Rightarrow> 'a slices" where
  "slice_op grow s (PAdd w) = slice_Add grow s w"
| "slice_op grow s (PRemove cid) = slice_Remove s cid"

text \<open>The delivery loop over the header \<open>(a, n)\<close> from index \<open>i\<close>; the operations \<open>sched i\<close> of
  other goroutines run before the element \<open>i\<close> is read. Calling \<open>Write\<close> on a nil interface
  panics.\<close>

fun deliver :: "nat \<Rightarrow> (nat \<Rightarrow> (ConnID, 'a Writer) pool_op list) \<Rightarrow> 'a slices \<Rightarrow> nat \<Rightarrow> nat \<Rightarrow> nat \<Rightarrow>
   'a Writer list option" where
  "deliver grow sched s a i 0 = Some []"
| "deliver grow sched s a i (Suc k) =
     (let s' = fold (\<lambda>x s. slice_op grow s x) (sched i) s in
      case slot s' a i of None \<Rightarrow> None
      | Some w \<Rightarrow> map_option (\<lambda>ws. w # ws) (deliver grow sched s' a (Suc i) k))"

definition runShard_deliver :: "nat \<Rightarrow> (nat \<Rightarrow> (ConnID, 'a Writer) pool_op list) \<Rightarrow> 'a slices \<Rightarrow> 'a Writer list option" where
  "runShard_deliver grow sched s = deliver grow sched s (cur s) 0 (curlen s)"

definition slice_writers :: "'a slices \<Rightarrow> 'a Writer list" where
  "slice_writers s = map the (take (curlen s) (arrays s ! cur s))"

definition wf_slices :: "'a slices \<Rightarrow> bool" where
  "wf_slices s \<longleftrightarrow> cur s < length (arrays s) \<and> curlen s \<le> length (arrays s ! cur s) \<and>
     (\<forall>i < curlen s. arrays s ! cur s ! i \<noteq> None) \<and> distinct (map ID (slice_writers s))"

section \<open>Registration\<close>

lemma first_index_SomeD:
  "first_index P xs = Some i \<Longrightarrow> i < length xs \<and> P (xs ! i)"
proof (induction xs arbitrary: i)
  case (Cons x xs)
  then show ?case by (cases i) (auto split: if_splits)
qed simp

lemma first_index_None: "first_index P xs = None \<longleftrightarrow> (\<forall>x \<in> set xs. \<not> P x)"
  by (induction xs) auto

lemma mset_swap_delete:
  assumes "i < length xs"
  shows "mset (take (length xs - 1) (xs[i := xs ! (length xs - 1)])) = mset xs - {#xs ! i#}"
proof -
  obtain ys y where xs: "xs = ys @ [y]" using assms by (metis list.size(3) not_less0 rev_exhaust)
  show ?thesis
  proof (cases "i < length ys")
    case True
    then show ?thesis by (simp add: xs list_update_append nth_append mset_update add_mset_diff_bothsides) 
  next
    case False
    then have "i = length ys" using assms by (simp add: xs)
    then show ?thesis by (simp add: xs)
  qed
qed

text \<open>What \<open>NaiveBroadcaster.Broadcast\<close> does: every write in order with its outcome.\<close>

fun run_writes ::
  "('a Writer \<Rightarrow> bytes \<Rightarrow> 's \<Rightarrow> 's \<times> 'err option) \<Rightarrow> bytes \<Rightarrow> 'a Writer list \<Rightarrow> 's \<Rightarrow> 's \<times> 'err option list" where
  "run_writes write data [] st = (st, [])"
| "run_writes write data (w # ws) st =
     (case write w data st of (st', err) \<Rightarrow>
        case run_writes write data ws st' of (st'', errs) \<Rightarrow> (st'', err # errs))"

definition first_failure :: "'a Writer list \<Rightarrow> 'err option list \<Rightarrow> (ConnID \<times> 'err) option" where
  "first_failure ws errs =
     (case filter (\<lambda>(w, err). err \<noteq> None) (zip ws errs) of
        [] \<Rightarrow> None | (w, err) # _ \<Rightarrow> map_option (Pair (ID w)) err)"

abbreviation wf_writers :: "'a Writer list \<Rightarrow> bool" where
  "wf_writers ws \<equiv> distinct (map ID ws)"

definition writer_get :: "'a Writer list \<Rightarrow> ConnID \<rightharpoonup> 'a Writer" where
  "writer_get ws k = map_option (Pair k) (map_of ws k)"

lemma writer_get_iff: "wf_writers ws \<Longrightarrow> writer_get ws k = Some w \<longleftrightarrow> w \<in> set ws \<and> ID w = k"
  by (cases w) (auto simp: writer_get_def)

lemma writer_get_eqI:
  assumes "wf_writers ws" and "\<And>w. m (ID w) = Some w \<longleftrightarrow> w \<in> set ws"
    and "\<And>k w. m k = Some w \<Longrightarrow> ID w = k"
  shows "writer_get ws = m"
proof
  fix k
  have iff: "writer_get ws k = Some w \<longleftrightarrow> m k = Some w" for w
  proof
    assume "writer_get ws k = Some w"
    then show "m k = Some w" using writer_get_iff [OF assms(1), of k w] assms(2) [of w] by auto
  next
    assume "m k = Some w"
    then show "writer_get ws k = Some w"
      using writer_get_iff [OF assms(1), of k w] assms(2) [of w] assms(3) [of k w] by auto
  qed
  then show "writer_get ws k = m k" by (cases "m k"; cases "writer_get ws k") auto
qed

lemma key_unique: "wf_writers ws \<Longrightarrow> x \<in> set ws \<Longrightarrow> y \<in> set ws \<Longrightarrow> ID x = ID y \<Longrightarrow> x = y"
  by (metis distinct_map inj_on_contraD)

lemma Naive_Add_spec:
  assumes ws: "wf_writers ws"
  shows "wf_writers (Naive_Add ws w) \<and> set (Naive_Add ws w) = insert w {x \<in> set ws. ID x \<noteq> ID w}"
proof (cases "first_index (\<lambda>e. ID e = ID w) ws")
  case None
  then have "Naive_Add ws w = ws @ [w]" "\<forall>x \<in> set ws. ID x \<noteq> ID w"
    by (simp_all add: Naive_Add_def first_index_None [symmetric])
  then show ?thesis using ws by auto
next
  case (Some i)
  then have i: "i < length ws" "ID (ws ! i) = ID w" by (auto dest: first_index_SomeD)
  have "map ID (ws[i := w]) = map ID ws" using i by (simp add: map_update list_update_same_conv)
  moreover have "set (ws[i := w]) = insert w (set ws - {ws ! i})"
    using ws i by (simp add: set_update_distinct distinct_map)
  moreover have "set ws - {ws ! i} = {x \<in> set ws. ID x \<noteq> ID w}"
    using key_unique [OF ws, of _ "ws ! i"] i by auto
  ultimately show ?thesis using ws Some by (simp add: Naive_Add_def)
qed

lemma Naive_Remove_spec:
  assumes ws: "wf_writers ws"
  shows "wf_writers (Naive_Remove ws k) \<and> set (Naive_Remove ws k) = {x \<in> set ws. ID x \<noteq> k}"
proof (cases "first_index (\<lambda>e. ID e = k) ws")
  case None
  then have "Naive_Remove ws k = ws" "\<forall>x \<in> set ws. ID x \<noteq> k"
    by (simp_all add: Naive_Remove_def first_index_None [symmetric])
  then show ?thesis using ws by auto
next
  case (Some i)
  then have i: "i < length ws" "ID (ws ! i) = k" by (auto dest: first_index_SomeD)
  have m: "mset (Naive_Remove ws k) = mset ws - {#ws ! i#}"
    using Some mset_swap_delete [OF i(1)] by (simp add: Naive_Remove_def Let_def)
  then have "mset (ws ! i # Naive_Remove ws k) = mset ws" using i(1) by simp
  then have "mset (map ID (ws ! i # Naive_Remove ws k)) = mset (map ID ws)"
    and s: "insert (ws ! i) (set (Naive_Remove ws k)) = set ws"
    by (metis mset_map, metis list.simps(15) mset_eq_setD)
  then have d: "distinct (map ID (ws ! i # Naive_Remove ws k))"
    using ws mset_eq_imp_distinct_iff by blast
  then have "set (Naive_Remove ws k) = {x \<in> set ws. ID x \<noteq> k}"
    using i(2) unfolding s [symmetric] by (auto simp: image_iff)
  then show ?thesis using d by simp
qed

interpretation naive: keyed_pool ID wf_writers writer_get "\<lambda>ws w. Some (Naive_Add ws w)" Naive_Remove
  Naive_Len "\<lambda>ws. ws"
proof unfold_locales
  fix ws :: "'a Writer list" and w
  assume ws: "wf_writers ws"
  have "writer_get (Naive_Add ws w) = (writer_get ws)(ID w \<mapsto> w)"
    using Naive_Add_spec [OF ws, of w] writer_get_iff [OF ws] by (intro writer_get_eqI) (auto split: if_splits)
  then show "\<exists>ws'. Some (Naive_Add ws w) = Some ws' \<and> wf_writers ws' \<and> writer_get ws' = (writer_get ws)(ID w \<mapsto> w)"
    using Naive_Add_spec [OF ws, of w] by simp
next
  fix ws :: "'a Writer list" and k
  assume ws: "wf_writers ws"
  have "writer_get (Naive_Remove ws k) = (writer_get ws)(k := None)"
    using Naive_Remove_spec [OF ws, of k] writer_get_iff [OF ws] by (intro writer_get_eqI) (auto split: if_splits)
  then show "wf_writers (Naive_Remove ws k) \<and> writer_get (Naive_Remove ws k) = (writer_get ws)(k := None)"
    using Naive_Remove_spec [OF ws, of k] by simp
qed (auto simp: writer_get_iff Naive_Len_def)

lemma shardIndex_less: "shardIndex k < bc_numShards"
  by (simp add: shardIndex_def bc_numShards_def)

interpretation workerpool: sharded_pool ID wf_writers writer_get "\<lambda>ws w. Some (Naive_Add ws w)" Naive_Remove
  Naive_Len "\<lambda>ws. ws" shardIndex bc_numShards
  by unfold_locales (rule shardIndex_less)

lemma WorkerPool_Add_eq:
  "shards_add ID (\<lambda>ws w. Some (Naive_Add ws w)) shardIndex b w = Some (WorkerPool_Add b w)"
  by (simp add: shards_add_def WorkerPool_Add_def Naive_Add_def Let_def split: option.split)

lemma WorkerPool_Remove_eq: "shards_remove Naive_Remove shardIndex b k = WorkerPool_Remove b k"
  by (simp add: shards_remove_def WorkerPool_Remove_def Naive_Remove_def Let_def split: option.split)

lemma WorkerPool_Len_eq: "shards_len Naive_Len b = WorkerPool_Len b"
  by (simp add: shards_len_def WorkerPool_Len_def Naive_Len_def)

definition shard_Add :: "'a broadcastShard \<Rightarrow> 'a Writer \<Rightarrow> 'a broadcastShard" where
  "shard_Add sh w = sh\<lparr>sh_writers := Naive_Add (sh_writers sh) w\<rparr>"

definition shard_Remove :: "'a broadcastShard \<Rightarrow> ConnID \<Rightarrow> 'a broadcastShard" where
  "shard_Remove sh k = sh\<lparr>sh_writers := Naive_Remove (sh_writers sh) k\<rparr>"

interpretation sharded: sharded_pool ID "\<lambda>sh. wf_writers (sh_writers sh)" "\<lambda>sh. writer_get (sh_writers sh)"
  "\<lambda>sh w. Some (shard_Add sh w)" shard_Remove "\<lambda>sh. length (sh_writers sh)" sh_writers shardIndex bc_numShards
proof unfold_locales
  fix sh :: "'a broadcastShard" and w
  assume "wf_writers (sh_writers sh)"
  then show "\<exists>sh'. Some (shard_Add sh w) = Some sh' \<and> wf_writers (sh_writers sh') \<and>
      writer_get (sh_writers sh') = (writer_get (sh_writers sh))(ID w \<mapsto> w)"
    using naive.add_spec [of "sh_writers sh" w] by (simp add: shard_Add_def)
next
  fix sh :: "'a broadcastShard" and k
  assume "wf_writers (sh_writers sh)"
  then show "wf_writers (sh_writers (shard_Remove sh k)) \<and>
      writer_get (sh_writers (shard_Remove sh k)) = (writer_get (sh_writers sh))(k := None)"
    using naive.remove_spec [of "sh_writers sh" k] by (simp add: shard_Remove_def)
qed (auto simp: writer_get_iff shardIndex_less)

lemma Sharded_Add_eq:
  "shards_add ID (\<lambda>sh w. Some (shard_Add sh w)) shardIndex b w = Some (Sharded_Add b w)"
  by (simp add: shards_add_def Sharded_Add_def shard_Add_def Naive_Add_def Let_def split: option.split)

lemma Sharded_Remove_eq: "shards_remove shard_Remove shardIndex b k = Sharded_Remove b k"
  by (simp add: shards_remove_def Sharded_Remove_def shard_Remove_def Naive_Remove_def Let_def
      split: option.split)

lemma Sharded_Len_eq: "shards_len (\<lambda>sh. length (sh_writers sh)) b = Sharded_Len b"
  by (simp add: shards_len_def Sharded_Len_def)

section \<open>Worker-pool executions\<close>

lemma note_err_None: "note_err fe w err = None \<longleftrightarrow> fe = None \<and> err = None"
  by (simp add: note_err_def split: option.split)

definition wp_inv :: "'a WorkerPool \<Rightarrow> ('a, 'err) wp_run \<Rightarrow> bool" where
  "wp_inv b s \<longleftrightarrow> next_shard s \<le> bc_numShards \<and>
     mset (map fst (writes s)) + mset (inline_ws s) + mset (concat (tasks s)) =
       mset (concat (take (next_shard s) b)) \<and>
     (wp_firstErr s = None \<longleftrightarrow> (\<forall>p \<in> set (writes s). snd p = None))"

lemma concat_take_Suc: "i < length b \<Longrightarrow> concat (take (Suc i) b) = concat (take i b) @ b ! i"
  by (simp add: take_Suc_conv_app_nth)

lemma mset_concat_update:
  assumes "i < length ts" and "ts ! i = w # ws"
  shows "add_mset w (mset (concat (ts[i := ws]))) = mset (concat ts)"
proof -
  have "ts = take i ts @ (w # ws) # drop (Suc i) ts" using assms by (metis id_take_nth_drop)
  moreover have "ts[i := ws] = take i ts @ ws # drop (Suc i) ts" using assms(1) by (simp add: upd_conv_take_nth_drop)
  ultimately show ?thesis by (metis concat.simps(2) concat_append mset_append append_Cons mset.simps(2)
      union_mset_add_mset_right)
qed

lemma wp_inv_step:
  assumes "wp_step b s s'" and "length b = bc_numShards" and "wp_inv b s"
  shows "wp_inv b s'"
  using assms
proof (induction rule: wp_step.induct)
  case (task_write i s w ws err)
  then show ?case
    by (auto simp: wp_inv_def note_err_None simp flip: mset_concat_update [OF task_write(1,2)])
next
  case (inline_write s w ws err)
  then show ?case by (auto simp: wp_inv_def note_err_None)
qed (auto simp: wp_inv_def concat_take_Suc ac_simps)

definition wp_measure :: "'a WorkerPool \<Rightarrow> ('a, 'err) wp_run \<Rightarrow> nat" where
  "wp_measure b s = (bc_numShards - next_shard s) + 2 * length (concat (drop (next_shard s) b)) +
     length (inline_ws s) + length (concat (tasks s))"

lemma concat_drop: "i < length b \<Longrightarrow> concat (drop i b) = b ! i @ concat (drop (Suc i) b)"
  by (metis Cons_nth_drop_Suc concat.simps(2))

lemma wp_step_decreases:
  assumes "wp_step b s s'" and "length b = bc_numShards"
  shows "wp_measure b s' < wp_measure b s"
  using assms
proof (induction rule: wp_step.induct)
  case (task_write i s w ws err)
  have "length (concat (tasks s)) = Suc (length (concat ((tasks s)[i := ws])))"
    using mset_concat_update [OF task_write(1,2)] by (metis size_mset size_add_mset)
  then show ?case by (simp add: wp_measure_def)
qed (auto simp: wp_measure_def concat_drop)

lemma wp_reachable_inv:
  "(wp_step b)\<^sup>*\<^sup>* wp_start s \<Longrightarrow> length b = bc_numShards \<Longrightarrow> wp_inv b s"
  by (induction rule: rtranclp_induct) (auto simp: wp_inv_step, simp add: wp_inv_def wp_start_def)

lemma wp_progress:
  assumes "wp_inv b s" and "\<not> wp_returned s"
  shows "\<exists>s'. wp_step b s s'"
proof (cases "inline_ws s")
  case (Cons w ws)
  then show ?thesis by (blast intro: wp_step.inline_write)
next
  case Nil
  show ?thesis
  proof (cases "next_shard s < bc_numShards")
    case True
    then show ?thesis using Nil by (cases "b ! next_shard s = []") (blast intro: wp_step.intros)+
  next
    case False
    then have "next_shard s = bc_numShards" using assms(1) by (simp add: wp_inv_def)
    then obtain t where "t \<in> set (tasks s)" "t \<noteq> []" using assms(2) Nil by (auto simp: wp_returned_def)
    then obtain i w ws where "i < length (tasks s)" "tasks s ! i = w # ws"
      by (metis in_set_conv_nth list.exhaust)
    then show ?thesis by (blast intro: wp_step.task_write)
  qed
qed

lemma wp_run_bound:
  assumes "length b = bc_numShards"
  shows "(wp_step b ^^ k) s s' \<Longrightarrow> k + wp_measure b s' \<le> wp_measure b s"
proof (induction k arbitrary: s')
  case (Suc k)
  then obtain s1 where "(wp_step b ^^ k) s s1" "wp_step b s1 s'" by auto
  then show ?case using Suc.IH [of s1] wp_step_decreases [OF _ assms] by fastforce
qed simp

lemma WorkerPool_Len_concat: "WorkerPool_Len b = length (concat b)"
  by (simp add: WorkerPool_Len_def fold_add_nat length_concat)

section \<open>Sharded executions\<close>

lemma sharded_sends_eq:
  "sharded_sends data b d =
     (map (\<lambda>sh. if length (sh_ch sh) < shardChanCap then sh\<lparr>sh_ch := sh_ch sh @ [data]\<rparr> else sh) b,
      d + length (filter (\<lambda>sh. \<not> length (sh_ch sh) < shardChanCap) b))"
  by (induction data b d rule: sharded_sends.induct) auto

lemma runShard_drain_append: "runShard_drain ws (xs @ ys) = runShard_drain ws xs @ runShard_drain ws ys"
  by (induction ws xs rule: runShard_drain.induct) auto

lemma runShard_drain_writer:
  "distinct ws \<Longrightarrow> w \<in> set ws \<Longrightarrow> filter (\<lambda>p. fst p = w) (runShard_drain ws ch) = map (Pair w) ch"
proof (induction ws ch rule: runShard_drain.induct)
  case (2 ws data ch)
  have "filter (\<lambda>p. fst p = w) (map (\<lambda>w. (w, data)) ws) = [(w, data)]"
    using 2(2,3) by (induction ws) (auto simp: filter_empty_conv)
  then show ?case using 2 by simp
qed simp

definition sharded_inv :: "'a Sharded \<Rightarrow> 'a sharded_run \<Rightarrow> bool" where
  "sharded_inv b s \<longleftrightarrow> length (sr_shards s) = length b \<and> length (sr_log s) = length b \<and>
     length (accepted s) = length b \<and>
     (\<forall>i < length b. sh_writers (sr_shards s ! i) = sh_writers (b ! i) \<and>
        length (sh_ch (sr_shards s ! i)) \<le> shardChanCap \<and>
        sr_log s ! i @ runShard_drain (sh_writers (b ! i)) (sh_ch (sr_shards s ! i)) =
          runShard_drain (sh_writers (b ! i)) (accepted s ! i))"

lemma sharded_inv_start:
  "\<forall>sh \<in> set b. sh_ch sh = [] \<Longrightarrow> sharded_inv b (sharded_start b)"
  by (auto simp: sharded_inv_def sharded_start_def)

lemma sharded_inv_step: "sharded_inv b s \<Longrightarrow> sharded_inv b (sharded_step s e)"
proof (cases e)
  case (Bcast data)
  assume "sharded_inv b s"
  then show ?thesis
    by (auto simp: Bcast sharded_inv_def Sharded_Broadcast_def sharded_sends_eq runShard_drain_append)
next
  case (Turn i)
  assume s: "sharded_inv b s"
  show ?thesis
  proof (cases "sh_ch (sr_shards s ! i)")
    case Nil
    then show ?thesis using s by (simp add: Turn runShard_turn_def)
  next
    case (Cons data rest)
    show ?thesis
      using s Cons by (cases "i < length b") (auto simp: Turn runShard_turn_def sharded_inv_def nth_list_update)
  qed
qed

lemma sharded_inv_run: "sharded_inv b s \<Longrightarrow> sharded_inv b (fold (\<lambda>e s. sharded_step s e) es s)"
  by (induction es arbitrary: s) (auto simp: sharded_inv_step)

section \<open>The shared slice\<close>

lemma find_slot_SomeD:
  assumes "wf_slices s" and "find_slot s k = Some i"
  shows "i < curlen s" and "map_option ID (slot s (cur s) i) = Some k"
  using first_index_SomeD [OF assms(2) [unfolded find_slot_def]] assms(1)
  by (auto simp: wf_slices_def slot_def)

lemma first_index_map: "first_index P (map f xs) = first_index (\<lambda>x. P (f x)) xs"
  by (induction xs) auto

lemma first_index_cong: "(\<And>x. x \<in> set xs \<Longrightarrow> P x = Q x) \<Longrightarrow> first_index P xs = first_index Q xs"
  by (induction xs) auto

lemma find_slot_writers:
  assumes "wf_slices s"
  shows "find_slot s k = first_index (\<lambda>w. ID w = k) (slice_writers s)"
  unfolding find_slot_def slice_writers_def first_index_map
  by (rule first_index_cong) (use assms in \<open>auto simp: wf_slices_def in_set_conv_nth\<close>)

lemma slice_Add_refines:
  assumes s: "wf_slices s"
  shows "slice_writers (slice_Add grow s w) = Naive_Add (slice_writers s) w" and "wf_slices (slice_Add grow s w)"
proof -
  note wf = s [unfolded wf_slices_def]
  show eq: "slice_writers (slice_Add grow s w) = Naive_Add (slice_writers s) w"
  proof (cases "find_slot s (ID w)")
    case None
    then have "Naive_Add (slice_writers s) w = slice_writers s @ [w]"
      by (simp add: Naive_Add_def find_slot_writers [OF s])
    then show ?thesis using wf None
      by (auto simp: slice_Add_def slice_writers_def set_slot_def take_Suc_conv_app_nth)
  next
    case (Some i)
    then have "Naive_Add (slice_writers s) w = (slice_writers s)[i := w]"
      by (simp add: Naive_Add_def find_slot_writers [OF s])
    then show ?thesis using wf Some find_slot_SomeD [OF s Some]
      by (auto simp: slice_Add_def slice_writers_def set_slot_def take_update_swap map_update)
  qed
  have "\<forall>i < curlen (slice_Add grow s w). arrays (slice_Add grow s w) ! cur (slice_Add grow s w) ! i \<noteq> None"
    using wf find_slot_SomeD [OF s]
    by (auto simp: slice_Add_def set_slot_def nth_update_if nth_append nth_Cons' split: option.splits)
  moreover have "cur (slice_Add grow s w) < length (arrays (slice_Add grow s w))"
    "curlen (slice_Add grow s w) \<le> length (arrays (slice_Add grow s w) ! cur (slice_Add grow s w))"
    using wf by (auto simp: slice_Add_def set_slot_def split: option.splits)
  ultimately show "wf_slices (slice_Add grow s w)"
    using eq Naive_Add_spec [of "slice_writers s" w] wf by (simp add: wf_slices_def)
qed

lemma slice_Remove_refines:
  assumes s: "wf_slices s"
  shows "slice_writers (slice_Remove s k) = Naive_Remove (slice_writers s) k" and "wf_slices (slice_Remove s k)"
proof -
  note wf = s [unfolded wf_slices_def]
  have len: "length (slice_writers s) = curlen s" using wf by (simp add: slice_writers_def)
  show eq: "slice_writers (slice_Remove s k) = Naive_Remove (slice_writers s) k"
  proof (cases "find_slot s k")
    case None
    then show ?thesis by (simp add: slice_Remove_def Naive_Remove_def find_slot_writers [OF s])
  next
    case (Some i)
    then have i: "i < curlen s" using find_slot_SomeD [OF s] by blast
    have "take (curlen s - 1) ((slice_writers s)[i := slice_writers s ! (curlen s - 1)]) =
        map the (take (curlen s - 1) (((arrays s ! cur s)[i := arrays s ! cur s ! (curlen s - 1)])[curlen s - 1 := None]))"
      using i wf by (auto simp: list_eq_iff_nth_eq nth_list_update slice_writers_def)
    moreover have "Naive_Remove (slice_writers s) k =
        take (curlen s - 1) ((slice_writers s)[i := slice_writers s ! (curlen s - 1)])"
      using Some by (simp add: Naive_Remove_def find_slot_writers [OF s] len Let_def)
    ultimately show ?thesis
      using i wf Some by (simp add: slice_Remove_def Let_def set_slot_def slot_def slice_writers_def)
  qed
  have "\<forall>i < curlen (slice_Remove s k). arrays (slice_Remove s k) ! cur (slice_Remove s k) ! i \<noteq> None"
    using wf find_slot_SomeD [OF s]
    by (auto simp: slice_Remove_def set_slot_def slot_def Let_def nth_update_if split: option.splits)
  moreover have "cur (slice_Remove s k) < length (arrays (slice_Remove s k))"
    "curlen (slice_Remove s k) \<le> length (arrays (slice_Remove s k) ! cur (slice_Remove s k))"
    using wf by (auto simp: slice_Remove_def set_slot_def Let_def split: option.splits)
  ultimately show "wf_slices (slice_Remove s k)"
    using eq Naive_Remove_spec [of "slice_writers s" k] wf by (simp add: wf_slices_def)
qed

lemma deliver_nil:
  "slot s a (i + j) = None \<Longrightarrow> j < k \<Longrightarrow> \<forall>l \<ge> i. sched l = [] \<Longrightarrow> deliver grow sched s a i k = None"
proof (induction k arbitrary: i j)
  case (Suc k)
  show ?case
  proof (cases j)
    case 0
    then show ?thesis using Suc.prems by (simp add: Let_def)
  next
    case (Suc j')
    then have "deliver grow sched s a (Suc i) k = None"
      using Suc.IH [of "Suc i" j'] Suc.prems by auto
    then show ?thesis using Suc.prems by (simp add: Let_def split: option.split)
  qed
qed simp

lemma deliver_before:
  "(\<And>l. i \<le> l \<Longrightarrow> l < i + m \<Longrightarrow> sched l = []) \<Longrightarrow> deliver grow sched s a (i + m) k = None \<Longrightarrow>
   deliver grow sched s a i (m + k) = None"
proof (induction m arbitrary: i)
  case (Suc m)
  then have "deliver grow sched s a (Suc i) (m + k) = None" by (intro Suc.IH) auto
  then show ?case using Suc.prems(1) [of i] by (simp add: Let_def split: option.split)
qed simp

lemma slice_Remove_clears:
  assumes "wf_slices s" and "k \<in> ID ` set (slice_writers s)"
  shows "slot (slice_Remove s k) (cur s) (curlen s - 1) = None"
proof -
  have "find_slot s k \<noteq> None"
    using assms by (auto simp: find_slot_writers first_index_None simp del: not_None_eq)
  then obtain i where i: "find_slot s k = Some i" by blast
  then show ?thesis
    using assms(1) find_slot_SomeD [OF assms(1) i]
    by (auto simp: slice_Remove_def Let_def set_slot_def slot_def wf_slices_def)
qed

definition adds_only :: "(ConnID, 'a Writer) pool_op list \<Rightarrow> bool" where
  "adds_only ops \<longleftrightarrow> list_all (\<lambda>x. case x of PAdd _ \<Rightarrow> True | PRemove _ \<Rightarrow> False) ops"

text \<open>What additions keep of a header: its array still has the same identifiers in its first \<open>n\<close>
  slots.\<close>

definition header_ok :: "ConnID list \<Rightarrow> nat \<Rightarrow> 'a slices \<Rightarrow> bool" where
  "header_ok ids a s \<longleftrightarrow> wf_slices s \<and> a < length (arrays s) \<and>
     (cur s = a \<longrightarrow> length ids \<le> curlen s) \<and>
     length ids \<le> length (arrays s ! a) \<and> (\<forall>i < length ids. map_option ID (slot s a i) = Some (ids ! i))"

lemma header_ok_add:
  assumes s: "header_ok ids a s"
  shows "header_ok ids a (slice_Add grow s w)"
proof -
  have wf: "wf_slices s" using s by (simp add: header_ok_def)
  then have "cur s < length (arrays s)" by (simp add: wf_slices_def)
  then show ?thesis
    using s slice_Add_refines(2) [OF wf, of grow w] find_slot_SomeD [OF wf, of "ID w"]
    by (cases w) (fastforce simp: header_ok_def slice_Add_def set_slot_def slot_def nth_update_if nth_append
        split: option.splits)
qed

lemma header_ok_adds:
  "adds_only ops \<Longrightarrow> header_ok ids a s \<Longrightarrow> header_ok ids a (fold (\<lambda>x s. slice_op grow s x) ops s)"
proof (induction ops arbitrary: s)
  case (Cons x ops)
  then show ?case by (cases x) (auto simp: adds_only_def header_ok_add)
qed simp

lemma deliver_adds:
  "(\<And>l. adds_only (sched l)) \<Longrightarrow> header_ok ids a s \<Longrightarrow> i + k = length ids \<Longrightarrow>
   \<exists>ws. deliver grow sched s a i k = Some ws \<and> map ID ws = drop i ids"
proof (induction k arbitrary: i s)
  case (Suc k)
  let ?s = "fold (\<lambda>x s. slice_op grow s x) (sched i) s"
  have ok: "header_ok ids a ?s" using Suc.prems by (intro header_ok_adds)
  then obtain w where w: "slot ?s a i = Some w" "ID w = ids ! i"
    using Suc.prems(3) by (force simp: header_ok_def)
  obtain ws where "deliver grow sched ?s a (Suc i) k = Some ws" "map ID ws = drop (Suc i) ids"
    using Suc.IH [OF Suc.prems(1) ok, of "Suc i"] Suc.prems(3) by auto
  then show ?case using w Suc.prems(3) by (auto simp: Let_def Cons_nth_drop_Suc [symmetric])
qed simp

lemma header_ok_start: "wf_slices s \<Longrightarrow> header_ok (map ID (slice_writers s)) (cur s) s"
  by (force simp: header_ok_def wf_slices_def slice_writers_def slot_def)

section \<open>Properties\<close>

lemma wf_NewSharded:
  "shards_inv ID (\<lambda>sh. wf_writers (sh_writers sh)) sh_writers shardIndex bc_numShards NewSharded"
  by (simp add: shards_inv_def NewSharded_def)

lemma wf_NewWorkerPool: "shards_inv ID wf_writers (\<lambda>ws. ws) shardIndex bc_numShards NewWorkerPool"
  by (simp add: shards_inv_def NewWorkerPool_def)

fun naive_op :: "'a Writer list \<Rightarrow> (ConnID, 'a Writer) pool_op \<Rightarrow> 'a Writer list" where
  "naive_op b (PAdd w) = Naive_Add b w"
| "naive_op b (PRemove k) = Naive_Remove b k"

fun workerpool_op :: "'a WorkerPool \<Rightarrow> (ConnID, 'a Writer) pool_op \<Rightarrow> 'a WorkerPool" where
  "workerpool_op b (PAdd w) = WorkerPool_Add b w"
| "workerpool_op b (PRemove k) = WorkerPool_Remove b k"

fun sharded_op :: "'a Sharded \<Rightarrow> (ConnID, 'a Writer) pool_op \<Rightarrow> 'a Sharded" where
  "sharded_op b (PAdd w) = Sharded_Add b w"
| "sharded_op b (PRemove k) = Sharded_Remove b k"

lemma naive_run: "run_opt (pool_step (\<lambda>ws w. Some (Naive_Add ws w)) Naive_Remove) b ops =
    Some (fold (\<lambda>x b. naive_op b x) ops b)"
proof (induction ops arbitrary: b)
  case (Cons x ops)
  then show ?case by (cases x) simp_all
qed simp

lemma workerpool_run:
  "run_opt (pool_step (shards_add ID (\<lambda>ws w. Some (Naive_Add ws w)) shardIndex) (shards_remove Naive_Remove shardIndex)) b ops =
    Some (fold (\<lambda>x b. workerpool_op b x) ops b)"
proof (induction ops arbitrary: b)
  case (Cons x ops)
  then show ?case by (cases x) (simp_all add: WorkerPool_Add_eq WorkerPool_Remove_eq)
qed simp

lemma sharded_run:
  "run_opt (pool_step (shards_add ID (\<lambda>sh w. Some (shard_Add sh w)) shardIndex) (shards_remove shard_Remove shardIndex)) b ops =
    Some (fold (\<lambda>x b. sharded_op b x) ops b)"
proof (induction ops arbitrary: b)
  case (Cons x ops)
  then show ?case by (cases x) (simp_all add: Sharded_Add_eq Sharded_Remove_eq)
qed simp

lemma shards_get_NewWorkerPool: "shards_get writer_get shardIndex NewWorkerPool = Map.empty"
  using shardIndex_less by (simp add: fun_eq_iff shards_get_def NewWorkerPool_def writer_get_def)

lemma shards_get_NewSharded:
  "shards_get (\<lambda>sh. writer_get (sh_writers sh)) shardIndex NewSharded = Map.empty"
  using shardIndex_less by (simp add: fun_eq_iff shards_get_def NewSharded_def writer_get_def)

lemma naive_loop_eq:
  "naive_loop write data ws fe st =
     (case run_writes write data ws st of (st', errs) \<Rightarrow>
        (st', if fe = None then first_failure ws errs else fe))"
  by (induction "write" data ws fe st rule: naive_loop.induct)
     (auto simp: first_failure_def split: prod.splits option.splits)

lemma sharded_error_iff:
  assumes "sharded_inv b s" and "length b = bc_numShards"
  shows "snd (Sharded_Broadcast (sr_shards s) data) \<longleftrightarrow>
    (\<forall>sh \<in> set (sr_shards s). length (sh_ch sh) = 256)"
proof -
  have len: "length (sr_shards s) = bc_numShards" and le: "\<forall>sh \<in> set (sr_shards s). length (sh_ch sh) \<le> 256"
    using assms by (auto simp: sharded_inv_def shardChanCap_def in_set_conv_nth)
  have "snd (Sharded_Broadcast (sr_shards s) data) \<longleftrightarrow>
      length (filter (\<lambda>sh. \<not> length (sh_ch sh) < 256) (sr_shards s)) = length (sr_shards s)"
    by (simp add: Sharded_Broadcast_def sharded_sends_eq len shardChanCap_def)
  also have "\<dots> \<longleftrightarrow> (\<forall>sh \<in> set (sr_shards s). length (sh_ch sh) = 256)"
    using le by (force simp: length_filter_all)
  finally show ?thesis .
qed

text \<open>\<open>NaiveBroadcaster.Broadcast\<close> attempts every registered writer exactly once, in
  registration order, whatever fails, and returns the first failure with the identifier of
  its writer, or nil when every write succeeded.\<close>

lemma naive_broadcast_attempts_all:
  "Naive_Broadcast write ws data st =
     (case run_writes write data ws st of (st', errs) \<Rightarrow> (st', first_failure ws errs))"
  by (simp add: Naive_Broadcast_def naive_loop_eq)

text \<open>Property C9. The three strategies register writers alike: after any sequence of \<open>Add\<close> and
  \<open>Remove\<close> on fresh broadcasters each holds exactly the writers of the abstract map, one per
  identifier, the latest one added, and their \<open>Len\<close>s agree.\<close>

theorem broadcasters_register_alike:
  "let m = fold (\<lambda>x m. spec_pool_op ID m x) ops Map.empty;
       nb = fold (\<lambda>x b. naive_op b x) ops [];
       wb = fold (\<lambda>x b. workerpool_op b x) ops NewWorkerPool;
       sb = fold (\<lambda>x b. sharded_op b x) ops NewSharded
   in (distinct (map ID nb) \<and> set nb = ran m \<and> Naive_Len nb = card (dom m)) \<and>
      (distinct (map ID (concat wb)) \<and> set (concat wb) = ran m \<and> WorkerPool_Len wb = card (dom m)) \<and>
      (distinct (map ID (concat (map sh_writers sb))) \<and> set (concat (map sh_writers sb)) = ran m \<and>
       Sharded_Len sb = card (dom m))"
  using naive.pool_run_elems [OF _ _ naive_run, of "[]" ops]
    workerpool.sh.pool_run_elems [OF wf_NewWorkerPool shards_get_NewWorkerPool workerpool_run, of ops]
    sharded.sh.pool_run_elems [OF wf_NewSharded shards_get_NewSharded sharded_run, of ops]
  by (simp add: Let_def writer_get_def fun_eq_iff WorkerPool_Len_eq Sharded_Len_eq shards_elems_def)

text \<open>Property C11. However the goroutine pool accepts and interleaves the tasks, a
  \<open>WorkerPoolBroadcaster.Broadcast\<close> never gets stuck, takes a bounded number of steps, and
  when it returns has written to every registered writer exactly once; the error is nil
  exactly when every write succeeded.\<close>

theorem workerpool_broadcast_writes_each_once:
  fixes s :: "('a, 'err) wp_run"
  assumes "length b = bc_numShards" and "(wp_step b ^^ k) wp_start s"
  shows "k \<le> bc_numShards + 2 * WorkerPool_Len b \<and>
     (if wp_returned s
      then mset (map fst (writes s)) = mset (concat b) \<and>
           (wp_firstErr s = None \<longleftrightarrow> (\<forall>p \<in> set (writes s). snd p = None))
      else \<exists>s'. wp_step b s s')"
proof -
  have inv: "wp_inv b s" using wp_reachable_inv [OF _ assms(1)] assms(2) by (metis relpowp_imp_rtranclp)
  have "k + wp_measure b s \<le> wp_measure b (wp_start :: ('a, 'err) wp_run)"
    by (rule wp_run_bound [OF assms])
  then have "k \<le> bc_numShards + 2 * WorkerPool_Len b"
    by (simp add: wp_measure_def wp_start_def WorkerPool_Len_concat)
  moreover have "mset (map fst (writes s)) = mset (concat b)" if "wp_returned s"
  proof -
    have "concat (tasks s) = []" "inline_ws s = []" "take (next_shard s) b = b"
      using that assms(1) by (simp_all add: wp_returned_def)
    then show ?thesis using inv by (simp only: wp_inv_def) simp
  qed
  moreover have "wp_firstErr s = None \<longleftrightarrow> (\<forall>p \<in> set (writes s). snd p = None)"
    using inv by (simp add: wp_inv_def)
  ultimately show ?thesis using wp_progress [OF inv] by simp
qed

theorem workerpool_broadcast_writes_each_once_witness:
  "\<exists>s :: (unit, unit) wp_run. writes s = [((''a'', ()), Some ())] \<and> \<not> wp_returned s \<and>
     (\<exists>s'. wp_step (replicate 16 [(''a'', ())]) s s')"
proof -
  let ?b = "replicate 16 [(''a'', ())]"
  let ?s1 = "(wp_start :: (unit, unit) wp_run)\<lparr>next_shard := 1, tasks := [[(''a'', ())]]\<rparr>"
  let ?s2 = "?s1\<lparr>tasks := [[]], writes := [((''a'', ()), Some ())], wp_firstErr := Some (''a'', ())\<rparr>"
  have "wp_step ?b wp_start ?s1"
    using wp_step.submit [of "wp_start :: (unit, unit) wp_run" ?b] by (simp add: wp_start_def bc_numShards_def)
  moreover have "wp_step ?b ?s1 ?s2"
    using wp_step.task_write [of 0 ?s1 "(''a'', ())" "[]" ?b "Some ()"] by (simp add: wp_start_def note_err_def)
  ultimately have "(wp_step ?b ^^ Suc (Suc 0)) wp_start ?s2" by (auto simp: OO_def)
  from workerpool_broadcast_writes_each_once [OF _ this]
  show ?thesis by (intro exI [of _ ?s2]) (simp add: bc_numShards_def wp_returned_def)
qed

text \<open>Property C12. \<open>ShardedBroadcaster\<close>: as long as the writers stay registered, however broadcasts
  and the turns of the shard goroutines interleave, each writer receives, in order and
  without repetition, exactly the payloads its shard's channel accepted, minus those still
  queued, of which there are at most 256; \<open>Broadcast\<close> reports an error only when all sixteen
  channels are full, and a shard that drops while another accepts goes unreported.\<close>

theorem sharded_delivers_accepted_in_order:
  assumes "\<forall>sh \<in> set b. sh_ch sh = []" and "length b = bc_numShards" and "i < bc_numShards"
    and "distinct (sh_writers (b ! i))" and "w \<in> set (sh_writers (b ! i))"
  shows "let s = fold (\<lambda>e s. sharded_step s e) es (sharded_start b); q = sh_ch (sr_shards s ! i) in
     map snd (filter (\<lambda>p. fst p = w) (sr_log s ! i)) @ q = accepted s ! i \<and> length q \<le> 256 \<and>
     (snd (Sharded_Broadcast (sr_shards s) data) \<longleftrightarrow> (\<forall>sh \<in> set (sr_shards s). length (sh_ch sh) = 256))"
proof -
  let ?s = "fold (\<lambda>e s. sharded_step s e) es (sharded_start b)"
  have inv: "sharded_inv b ?s" by (rule sharded_inv_run [OF sharded_inv_start [OF assms(1)]])
  have "sr_log ?s ! i @ runShard_drain (sh_writers (b ! i)) (sh_ch (sr_shards ?s ! i)) =
      runShard_drain (sh_writers (b ! i)) (accepted ?s ! i)"
    using inv assms(2,3) by (simp add: sharded_inv_def)
  from arg_cong [OF this, of "\<lambda>l. map snd (filter (\<lambda>p. fst p = w) l)"]
  have "map snd (filter (\<lambda>p. fst p = w) (sr_log ?s ! i)) @ sh_ch (sr_shards ?s ! i) = accepted ?s ! i"
    by (simp only: filter_append map_append runShard_drain_writer [OF assms(4,5)] map_map comp_def snd_conv map_ident)
  moreover have "length (sh_ch (sr_shards ?s ! i)) \<le> 256"
    using inv assms(2,3) by (simp add: sharded_inv_def shardChanCap_def)
  moreover have "snd (Sharded_Broadcast (sr_shards ?s) data) \<longleftrightarrow>
      (\<forall>sh \<in> set (sr_shards ?s). length (sh_ch sh) = 256)"
    using sharded_error_iff [OF inv assms(2)] .
  ultimately show ?thesis by (simp add: Let_def)
qed

theorem sharded_delivers_accepted_in_order_witness:
  "let b = (NewSharded :: unit Sharded)[3 := \<lparr>sh_writers = [(''a'', ())], sh_ch = []\<rparr>];
       s = fold (\<lambda>e s. sharded_step s e) [Bcast [1], Turn 3, Bcast [2]] (sharded_start b)
   in map snd (filter (\<lambda>p. fst p = (''a'', ())) (sr_log s ! 3)) @ sh_ch (sr_shards s ! 3) = accepted s ! 3"
proof -
  let ?b = "(NewSharded :: unit Sharded)[3 := \<lparr>sh_writers = [(''a'', ())], sh_ch = []\<rparr>]"
  have "\<forall>sh \<in> set ?b. sh_ch sh = []" "length ?b = bc_numShards" "3 < bc_numShards"
    "sh_writers (?b ! 3) = [(''a'', ())]"
    using set_update_subset_insert [of NewSharded 3] by (force simp: NewSharded_def bc_numShards_def)+
  from sharded_delivers_accepted_in_order [OF this(1-3), of "(''a'', ())" "[Bcast [1], Turn 3, Bcast [2]]"] this(4)
  show ?thesis unfolding Let_def by (metis distinct_singleton list.set_intros(1))
qed

text \<open>Property C21. \<open>runShard\<close> iterates over a slice it shares with \<open>Remove\<close>: when a registered writer of
  the shard is removed after the slice header was taken and before the iteration is over,
  the iteration reads the slot \<open>Remove\<close> has set to nil and panics. Additions are harmless:
  every writer of the header is served once.\<close>

theorem sharded_remove_race:
  assumes "wf_slices s" and "k < curlen s" and "cid \<in> ID ` set (slice_writers s)"
  shows "runShard_deliver grow (\<lambda>i. if i = k then [PRemove cid] else []) s = None \<and>
     (\<exists>ws. runShard_deliver grow (\<lambda>i. if i = k then [PAdd w] else []) s = Some ws \<and>
           map ID ws = map ID (slice_writers s))"
proof
  let ?sched = "\<lambda>i. if i = k then [PRemove cid] else []"
  have "deliver grow ?sched s (cur s) k (curlen s - k) = None"
  proof -
    obtain j where j: "curlen s - k = Suc j" using assms(2) by (metis Suc_diff_Suc)
    let ?s = "slice_Remove s cid"
    have "deliver grow ?sched ?s (cur s) (Suc k) j = None" if "slot ?s (cur s) k \<noteq> None"
    proof -
      have hi: "curlen s - 1 = k + j" using j assms(2) by simp
      then have "j \<noteq> 0" using slice_Remove_clears [OF assms(1,3)] that by (intro notI) simp
      then have "slot ?s (cur s) (Suc k + (j - 1)) = None"
        using slice_Remove_clears [OF assms(1,3)] hi by simp
      then show ?thesis using \<open>j \<noteq> 0\<close> by (intro deliver_nil [where j = "j - 1"]) auto
    qed
    then show ?thesis by (simp add: j Let_def split: option.split)
  qed
  then have "deliver grow ?sched s (cur s) 0 (k + (curlen s - k)) = None"
    by (intro deliver_before) auto
  then show "runShard_deliver grow ?sched s = None" using assms(2) by (simp add: runShard_deliver_def)
  show "\<exists>ws. runShard_deliver grow (\<lambda>i. if i = k then [PAdd w] else []) s = Some ws \<and>
      map ID ws = map ID (slice_writers s)"
    using deliver_adds [OF _ header_ok_start [OF assms(1)], of "\<lambda>i. if i = k then [PAdd w] else []" 0 "curlen s" grow]
      assms(1) by (simp add: runShard_deliver_def adds_only_def slice_writers_def wf_slices_def)
qed

theorem sharded_remove_race_witness:
  "runShard_deliver 0 (\<lambda>i. if i = 1 then [PRemove ''a''] else [])
     \<lparr>arrays = [[Some (''a'', ()), Some (''b'', ())]], cur = 0, curlen = 2\<rparr> = None"
  using sharded_remove_race [of "\<lparr>arrays = [[Some (''a'', ()), Some (''b'', ())]], cur = 0, curlen = 2\<rparr>"
      1 "''a''" 0]
  by (auto simp: wf_slices_def slice_writers_def less_Suc_eq nth_Cons' numeral_2_eq_2)

end
