(* ===== verification/Resources.thy ===== *)
theory Resources
  imports Prelude
begin

text \<open>
  The resource sampler of \<^verbatim>\<open>pkg/metrics/resources.go\<close>: the life cycle of its goroutine and
  channels, the samples, their aggregation and the in-place insertion sort behind the
  99th percentile. Readings of the operating system and of the clock are arguments; times
  and CPU fractions are rationals.
\<close>

section \<open>Samples and life cycle\<close>

record ResourcePoint =
  Ts :: rat
  CPUPercent :: rat
  MemBytes :: u64
  Goroutines :: int
  FDs :: int

record ResourceSnapshot =
  Samples :: nat
  CPUAvg :: rat
  CPUP99 :: rat
  MemAvg :: u64
  MemMax :: u64
  GoroutineAvg :: int
  GoroutineMax :: int
  FDAvg :: int
  FDMax :: int

record cpuTime =
  cpu_user :: rat
  cpu_system :: rat

definition cpu_total :: "cpuTime \<Rightarrow> rat" where "cpu_total c = cpu_user c + cpu_system c"

text \<open>\<open>rs_done\<close> and \<open>rs_stopped\<close> say whether the channels are closed, \<open>rs_loops\<close> how many sampling
  goroutines run.\<close>

record ResourceSampler =
  rs_interval :: rat
  rs_samples :: "ResourcePoint list"
  rs_done :: bool
  rs_stopped :: bool
  rs_loops :: nat
  lastCPUTime :: cpuTime
  lastWall :: rat

definition NewResourceSampler :: "rat \<Rightarrow> ResourceSampler" where
  "NewResourceSampler interval =
     \<lparr>rs_interval = (if interval \<le> 0 then 1/10 else interval), rs_samples = [], rs_done = False,
      rs_stopped = False, rs_loops = 0, lastCPUTime = \<lparr>cpu_user = 0, cpu_system = 0\<rparr>, lastWall = 0\<rparr>"

definition Sampler_Start :: "ResourceSampler \<Rightarrow> rat \<Rightarrow> cpuTime \<Rightarrow> ResourceSampler" where
  "Sampler_Start s now cpu = s\<lparr>lastWall := now, lastCPUTime := cpu, rs_loops := rs_loops s + 1\<rparr>"

text \<open>A sampling goroutine leaves its loop once \<open>done\<close> is closed and closes \<open>stopped\<close>, which
  panics when it is closed already.\<close>

definition loop_exit :: "ResourceSampler \<Rightarrow> ResourceSampler option" where
  "loop_exit s = (if rs_stopped s then None else Some (s\<lparr>rs_stopped := True, rs_loops := rs_loops s - 1\<rparr>))"

text \<open>\<open>Stop\<close> closes \<open>done\<close> and waits for \<open>stopped\<close>: \<open>None\<close> when it waits forever, \<open>Some None\<close> when
  closing panics.\<close>

definition Sampler_Stop :: "ResourceSampler \<Rightarrow> ResourceSampler option option" where
  "Sampler_Stop s =
     (if rs_done s then Some None
      else let s1 = s\<lparr>rs_done := True\<rparr> in
        if rs_stopped s1 then Some (Some s1)
        else if rs_loops s1 = 0 then None
        else Some (loop_exit s1))"

record os_reading =
  os_now :: rat
  os_mem :: u64
  os_cpu :: cpuTime
  os_goroutines :: int
  os_fds :: int

definition sample :: "ResourceSampler \<Rightarrow> os_reading \<Rightarrow> ResourceSampler \<times> ResourcePoint" where
  "sample s r =
     (let wallDelta = os_now r - lastWall s;
          cpuPct = (if wallDelta > 0
                    then (cpu_total (os_cpu r) - cpu_total (lastCPUTime s)) / wallDelta * 100 else 0)
      in (s\<lparr>lastCPUTime := os_cpu r, lastWall := os_now r\<rparr>,
          \<lparr>Ts = os_now r, CPUPercent = cpuPct, MemBytes = os_mem r, Goroutines = os_goroutines r,
           FDs = os_fds r\<rparr>))"

definition loop_tick :: "ResourceSampler \<Rightarrow> os_reading \<Rightarrow> ResourceSampler" where
  "loop_tick s r = (case sample s r of (s', p) \<Rightarrow> s'\<lparr>rs_samples := rs_samples s' @ [p]\<rparr>)"

definition Sampler_Reset :: "ResourceSampler \<Rightarrow> rat \<Rightarrow> cpuTime \<Rightarrow> ResourceSampler" where
  "Sampler_Reset s now cpu = s\<lparr>rs_samples := [], lastWall := now, lastCPUTime := cpu\<rparr>"

section \<open>Sorting\<close>

text \<open>The inner loop moves larger elements one place up; its second argument is \<open>j + 1\<close>.\<close>

fun shift_up :: "'a::linorder list \<Rightarrow> 'a \<Rightarrow> nat \<Rightarrow> 'a list \<times> nat" where
  "shift_up a v 0 = (a, 0)"
| "shift_up a v (Suc j) = (if a ! j > v then shift_up (a[Suc j := a ! j]) v j else (a, Suc j))"

definition insert_step :: "nat \<Rightarrow> 'a::linorder list \<Rightarrow> 'a list" where
  "insert_step i a = (let v = a ! i in case shift_up a v i of (a', p) \<Rightarrow> a'[p := v])"

definition sortFloat64 :: "'a::linorder list \<Rightarrow> 'a list" where
  "sortFloat64 a = fold insert_step [1..<length a] a"

section \<open>Aggregation\<close>

text \<open>\<open>int(float64(n)*0.99 + 0.5)\<close> is \<open>\<lfloor>(99 n + 50) / 100\<rfloor>\<close> (the product rounds to the exact value where
  it is a half-integer), and Go's \<open>/\<close> on \<open>int\<close> truncates.\<close>

definition p99Idx :: "nat \<Rightarrow> nat" where
  "p99Idx n = (let i = (99 * n + 50) div 100 in if i \<ge> n then n - 1 else i)"

definition go_div :: "int \<Rightarrow> int \<Rightarrow> int" where
  "go_div a b = sgn a * sgn b * (\<bar>a\<bar> div \<bar>b\<bar>)"

definition Sampler_Snapshot :: "ResourceSampler \<Rightarrow> ResourceSnapshot" where
  "Sampler_Snapshot s =
     (let samples = rs_samples s; n = length samples in
      if n = 0
      then \<lparr>Samples = 0, CPUAvg = 0, CPUP99 = 0, MemAvg = 0, MemMax = 0, GoroutineAvg = 0,
            GoroutineMax = 0, FDAvg = 0, FDMax = 0\<rparr>
      else
        let cpuValues = map CPUPercent samples;
            totalCPU = fold (\<lambda>p t. t + CPUPercent p) samples 0;
            totalMem = fold (\<lambda>p t. t + MemBytes p) samples 0;
            totalGoroutines = fold (\<lambda>p t. t + Goroutines p) samples 0;
            totalFDs = fold (\<lambda>p t. t + FDs p) samples 0;
            memMax = fold (\<lambda>p m. if MemBytes p > m then MemBytes p else m) samples 0;
            gMax = fold (\<lambda>p m. if Goroutines p > m then Goroutines p else m) samples 0;
            fdMax = fold (\<lambda>p m. if FDs p > m then FDs p else m) samples 0
        in \<lparr>Samples = n, CPUAvg = totalCPU / of_nat n, CPUP99 = sortFloat64 cpuValues ! p99Idx n,
            MemAvg = totalMem div of_nat n, MemMax = memMax,
            GoroutineAvg = go_div totalGoroutines (int n), GoroutineMax = gMax,
            FDAvg = go_div totalFDs (int n), FDMax = fdMax\<rparr>)"

section \<open>The sort is correct\<close>

text \<open>One pass of the inner loop inserts the value before the longest suffix of larger elements.\<close>

lemma shift_up_insert:
  "\<exists>as bs. xs = as @ bs \<and> (\<forall>b \<in> set bs. v < b) \<and> (as = [] \<or> last as \<le> v) \<and>
     (case shift_up (xs @ z # ys) v (length xs) of (a', p) \<Rightarrow> a'[p := v]) = as @ v # bs @ ys"
proof (induction xs arbitrary: z ys rule: rev_induct)
  case Nil
  then show ?case by simp
next
  case (snoc x xs)
  show ?case
  proof (cases "v < x")
    case True
    obtain as bs where "xs = as @ bs" "\<forall>b \<in> set bs. v < b" "as = [] \<or> last as \<le> v"
      "(case shift_up (xs @ x # x # ys) v (length xs) of (a', p) \<Rightarrow> a'[p := v]) = as @ v # bs @ x # ys"
      using snoc [of x "x # ys"] by blast
    then show ?thesis using True
      by (intro exI [of _ as] exI [of _ "bs @ [x]"]) (auto simp: nth_append list_update_append)
  next
    case False
    then show ?thesis
      by (intro exI [of _ "xs @ [x]"] exI [of _ "[]"]) (auto simp: nth_append list_update_append)
  qed
qed

lemma insert_step_sorts:
  assumes "sorted (take i a)" and "i < length a"
  shows "sorted (take (Suc i) (insert_step i a)) \<and> mset (insert_step i a) = mset a"
proof -
  let ?xs = "take i a" and ?ys = "drop (Suc i) a"
  have a: "a = ?xs @ a ! i # ?ys" and len: "length ?xs = i"
    using assms(2) by (simp_all add: id_take_nth_drop)
  obtain as bs where s: "?xs = as @ bs" "\<forall>b \<in> set bs. a ! i < b" "as = [] \<or> last as \<le> a ! i"
    "insert_step i a = as @ a ! i # bs @ ?ys"
    using shift_up_insert [of ?xs "a ! i" "a ! i" ?ys]
    unfolding len a [symmetric] insert_step_def Let_def by blast
  have "\<forall>x \<in> set as. x \<le> a ! i"
  proof (cases as rule: rev_cases)
    case (snoc as' x)
    then show ?thesis using assms(1) s(1,3) by (auto simp: sorted_append)
  qed simp
  then have "sorted (as @ a ! i # bs)" using assms(1) s(1,2) by (auto simp: sorted_append)
  moreover have "length (as @ a ! i # bs) = Suc i" using s(1) len by (metis add_Suc_right length_append length_Cons)
  ultimately have "sorted (take (Suc i) (insert_step i a))"
    unfolding s(4) by (metis append.assoc append_Cons append_eq_conv_conj)
  moreover have "mset (insert_step i a) = mset a" using s(1) by (subst (2) a) (simp add: s(4))
  ultimately show ?thesis by simp
qed

lemma insertion_loop:
  "i < length a \<Longrightarrow> sorted (take (Suc i) (fold insert_step [1..<Suc i] a)) \<and>
   mset (fold insert_step [1..<Suc i] a) = mset a"
proof (induction i)
  case 0
  then show ?case by (cases a) auto
next
  case (Suc i)
  let ?b = "fold insert_step [1..<Suc i] a"
  have "sorted (take (Suc i) ?b)" "mset ?b = mset a" using Suc by simp_all
  moreover have "length ?b = length a" using \<open>mset ?b = mset a\<close> by (rule mset_eq_length)
  ultimately show ?case using insert_step_sorts [of "Suc i" ?b] Suc.prems by simp
qed

lemma sortFloat64_sorts: "sorted (sortFloat64 a) \<and> mset (sortFloat64 a) = mset a"
proof (cases "length a")
  case 0
  then show ?thesis by (simp add: sortFloat64_def)
next
  case (Suc n)
  then have "sorted (take (length a) (sortFloat64 a))" "mset (sortFloat64 a) = mset a"
    using insertion_loop [of n a] by (simp_all add: sortFloat64_def)
  then show ?thesis by (metis mset_eq_length order_refl take_all)
qed

lemma sortFloat64_sort: "sortFloat64 a = sort a"
  using sortFloat64_sorts [of a] by (metis properties_for_sort)

section \<open>Aggregates\<close>

lemma p99Idx_less: "0 < n \<Longrightarrow> p99Idx n < n"
  by (simp add: p99Idx_def Let_def)

lemma fold_max_eq:
  fixes f :: "'p \<Rightarrow> 'm::linorder"
  shows "fold (\<lambda>p m. if f p > m then f p else m) ps m = Max (insert m (f ` set ps))"
proof -
  have "(if f p > m then f p else m) = max (f p) m" for p m by (auto simp: max_def)
  then have "fold (\<lambda>p m. if f p > m then f p else m) ps m = fold max (map f ps) m"
    by (simp add: fold_map comp_def)
  also have "\<dots> = Max (set (m # map f ps))" by (simp only: Max.set_eq_fold)
  finally show ?thesis by simp
qed

lemma p99Idx_covers: "0 < n \<Longrightarrow> 99 * n \<le> 100 * Suc (p99Idx n)"
  by (auto simp: p99Idx_def Let_def)

text \<open>An element of a sorted list has at least as many elements below it as its position.\<close>

lemma sorted_rank:
  assumes "i < length xs"
  shows "Suc i \<le> length (filter (\<lambda>x. x \<le> sort xs ! i) xs)"
proof -
  let ?ys = "sort xs" and ?P = "\<lambda>x. x \<le> sort xs ! i"
  have "?ys ! k \<le> ?ys ! i" if "k \<le> i" for k using that assms by (simp add: sorted_nth_mono)
  then have "\<forall>x \<in> set (take (Suc i) ?ys). ?P x" by (force simp: in_set_conv_nth)
  then have "Suc i = length (filter ?P (take (Suc i) ?ys))" using assms by simp
  also have "\<dots> \<le> length (filter ?P ?ys)"
    by (metis append_take_drop_id filter_append length_append le_add1)
  also have "\<dots> = length (filter ?P xs)" by (metis mset_filter mset_sort size_mset)
  finally show ?thesis .
qed

section \<open>Properties\<close>

text \<open>The in-place insertion sort is the stable sort of the library; hence on a non-empty
  window the reported 99th percentile is a sample that at least 99 percent of the samples
  do not exceed, the maxima are those of the samples, and \<open>Samples\<close> counts them. The index
  never leaves the slice.\<close>

lemma resource_snapshot_percentile:
  assumes "rs_samples s \<noteq> []"
  shows "let snap = Sampler_Snapshot s; cpus = map CPUPercent (rs_samples s) in
     sortFloat64 cpus = sort cpus \<and> Samples snap = length (rs_samples s) \<and>
     CPUP99 snap \<in> set cpus \<and>
     99 * length cpus \<le> 100 * length (filter (\<lambda>c. c \<le> CPUP99 snap) cpus) \<and>
     MemMax snap = Max (insert 0 (MemBytes ` set (rs_samples s))) \<and>
     GoroutineMax snap = Max (insert 0 (Goroutines ` set (rs_samples s)))"
proof -
  let ?cpus = "map CPUPercent (rs_samples s)" and ?n = "length (rs_samples s)"
  have n: "0 < ?n" and snap: "CPUP99 (Sampler_Snapshot s) = sort ?cpus ! p99Idx ?n"
    using assms by (simp_all add: Sampler_Snapshot_def Let_def sortFloat64_sort)
  have i: "p99Idx ?n < length ?cpus" using p99Idx_less [OF n] by simp
  have "99 * ?n \<le> 100 * length (filter (\<lambda>c. c \<le> CPUP99 (Sampler_Snapshot s)) ?cpus)"
    using p99Idx_covers [OF n] sorted_rank [OF i] unfolding snap by (meson mult_le_mono2 order_trans)
  moreover have "CPUP99 (Sampler_Snapshot s) \<in> set ?cpus"
    unfolding snap using i by (metis length_sort nth_mem set_sort)
  ultimately show ?thesis
    using assms by (simp add: Let_def sortFloat64_sort) (simp add: Sampler_Snapshot_def Let_def fold_max_eq)
qed

text \<open>The sampler is single-use: stopping it again panics, stopping one that was never started
  blocks forever, and a goroutine started after \<open>Stop\<close> panics when it exits.\<close>

lemma sampler_single_use:
  "Sampler_Stop (NewResourceSampler d) = None \<and>
   (\<exists>s. Sampler_Stop (Sampler_Start (NewResourceSampler d) now cpu) = Some (Some s) \<and> rs_loops s = 0 \<and>
        Sampler_Stop s = Some None \<and> loop_exit (Sampler_Start s now cpu) = None)"
  by (simp add: Sampler_Stop_def NewResourceSampler_def Sampler_Start_def loop_exit_def)

end
