(* ===== verification/Recorder.thy ===== *)
theory Recorder
  imports Sequence Containers Resources
begin

text \<open>
  The measurement sink of \<^verbatim>\<open>pkg/metrics/recorder.go\<close> with the latency histogram wrapper of
  \<^verbatim>\<open>pkg/metrics/histogram.go\<close>. The HdrHistogram library is a parameter: \<open>hdr_lib\<close> holds the
  operations the wrapper calls and \<open>hdr_ok\<close> states what its documentation says of them. The
  optional Prometheus export has no effect on the recorder's state and is left out. Time
  stamps are arguments.
\<close>

section \<open>Histograms\<close>

record 'h hdr_lib =
  hdr_New :: "i64 \<Rightarrow> i64 \<Rightarrow> nat \<Rightarrow> 'h"
  hdr_RecordValue :: "'h \<Rightarrow> i64 \<Rightarrow> 'h \<times> bool"  \<comment> \<open>True: the value is out of range\<close>
  hdr_TotalCount :: "'h \<Rightarrow> i64"
  hdr_Min :: "'h \<Rightarrow> i64"
  hdr_Max :: "'h \<Rightarrow> i64"
  hdr_Mean :: "'h \<Rightarrow> rat"
  hdr_StdDev :: "'h \<Rightarrow> rat"
  hdr_ValueAtQuantile :: "'h \<Rightarrow> rat \<Rightarrow> i64"
  hdr_Reset :: "'h \<Rightarrow> 'h"

record HistogramSnapshot =
  hs_Min :: i64
  hs_Max :: i64
  hs_Mean :: i64
  hs_P50 :: i64
  hs_P95 :: i64
  hs_P99 :: i64
  hs_P999 :: i64
  hs_StdDev :: i64
  hs_Count :: i64

definition NewHDRHistogram :: "'h hdr_lib \<Rightarrow> 'h" where
  "NewHDRHistogram lib = hdr_New lib 1 30000000000 3"

definition Histogram_Record :: "'h hdr_lib \<Rightarrow> 'h \<Rightarrow> i64 \<Rightarrow> 'h" where
  "Histogram_Record lib h latencyNs =
     fst (hdr_RecordValue lib h (if sint latencyNs < 1 then 1 else latencyNs))"

definition Histogram_RecordSince :: "'h hdr_lib \<Rightarrow> 'h \<Rightarrow> i64 \<Rightarrow> i64 \<Rightarrow> 'h" where
  "Histogram_RecordSince lib h now sendNs = Histogram_Record lib h (now - sendNs)"

definition int64_of :: "rat \<Rightarrow> i64" where
  "int64_of x = word_of_int (if x < 0 then \<lceil>x\<rceil> else \<lfloor>x\<rfloor>)"

definition Histogram_Snapshot :: "'h hdr_lib \<Rightarrow> 'h \<Rightarrow> HistogramSnapshot" where
  "Histogram_Snapshot lib h =
     (if hdr_TotalCount lib h = 0
      then \<lparr>hs_Min = 0, hs_Max = 0, hs_Mean = 0, hs_P50 = 0, hs_P95 = 0, hs_P99 = 0, hs_P999 = 0,
            hs_StdDev = 0, hs_Count = 0\<rparr>
      else \<lparr>hs_Min = hdr_Min lib h, hs_Max = hdr_Max lib h, hs_Mean = int64_of (hdr_Mean lib h),
            hs_P50 = hdr_ValueAtQuantile lib h 50, hs_P95 = hdr_ValueAtQuantile lib h 95,
            hs_P99 = hdr_ValueAtQuantile lib h 99, hs_P999 = hdr_ValueAtQuantile lib h (999/10),
            hs_StdDev = int64_of (hdr_StdDev lib h), hs_Count = hdr_TotalCount lib h\<rparr>)"

definition Histogram_Reset :: "'h hdr_lib \<Rightarrow> 'h \<Rightarrow> 'h" where
  "Histogram_Reset lib h = hdr_Reset lib h"

definition Histogram_Count :: "'h hdr_lib \<Rightarrow> 'h \<Rightarrow> i64" where
  "Histogram_Count lib h = hdr_TotalCount lib h"

text \<open>Documented behaviour of the library, for a histogram that tracks values up to \<open>limit\<close>:
  \<open>RecordValue\<close> counts a value in range and returns an error and changes nothing
  otherwise; \<open>Reset\<close> empties. \<open>count\<close> is the abstract number of recorded values.\<close>

definition hdr_ok :: "'h hdr_lib \<Rightarrow> ('h \<Rightarrow> nat) \<Rightarrow> int \<Rightarrow> bool" where
  "hdr_ok lib cnt limit \<longleftrightarrow> 30000000000 \<le> limit \<and>
     cnt (hdr_New lib 1 30000000000 3) = 0 \<and>
     (\<forall>h v. sint v \<ge> 1 \<longrightarrow>
        (if sint v \<le> limit
         then \<not> snd (hdr_RecordValue lib h v) \<and> cnt (fst (hdr_RecordValue lib h v)) = Suc (cnt h)
         else hdr_RecordValue lib h v = (h, True))) \<and>
     (\<forall>h. hdr_TotalCount lib h = of_nat (cnt h)) \<and> (\<forall>h. cnt (hdr_Reset lib h) = 0)"

section \<open>Connections\<close>

record 'h connStat =
  cs_tracker :: SequenceTracker
  cs_latency :: 'h
  cs_msgRecv :: u64
  cs_bytesRecv :: u64
  firstSeq :: u64
  lastSeq :: u64

definition newConnStat :: "'h hdr_lib \<Rightarrow> 'h connStat option" where
  "newConnStat lib = do {
     t \<leftarrow> NewSequenceTracker 4096;
     Some \<lparr>cs_tracker = t, cs_latency = NewHDRHistogram lib, cs_msgRecv = 0, cs_bytesRecv = 0,
           firstSeq = 0, lastSeq = 0\<rparr>
   }"

definition connStat_observe :: "'h hdr_lib \<Rightarrow> 'h connStat \<Rightarrow> u64 \<Rightarrow> nat \<Rightarrow> i64 \<Rightarrow> 'h connStat option" where
  "connStat_observe lib c seq sz latNs = do {
     t \<leftarrow> Observe (cs_tracker c) seq;
     Some (c\<lparr>cs_tracker := t, cs_latency := Histogram_Record lib (cs_latency c) latNs,
             cs_msgRecv := cs_msgRecv c + 1, cs_bytesRecv := cs_bytesRecv c + of_nat sz,
             firstSeq := (if firstSeq c = 0 \<or> seq < firstSeq c then seq else firstSeq c),
             lastSeq := (if seq > lastSeq c then seq else lastSeq c)\<rparr>)
   }"

record ConnSnapshot =
  sn_ConnID :: ConnID
  sn_MsgRecv :: u64
  sn_Delivered :: u64
  sn_Duplicated :: u64
  sn_Reordered :: u64
  sn_FirstSeq :: u64
  sn_LastSeq :: u64
  sn_Latency :: HistogramSnapshot

section \<open>The recorder\<close>

record 'h Recorder =
  label :: string
  protocol :: string
  scenario :: string
  latency :: 'h
  seqTracker :: SequenceTracker
  connStats :: "(ConnID, 'h connStat) gomap"
  resources :: ResourceSampler
  msgSent :: u64
  msgRecv :: u64
  bytesSent :: u64
  bytesRecv :: u64
  handshake :: 'h
  reconnect :: 'h
  startTime :: i64

record RecorderConfig =
  cfg_Label :: string
  cfg_Protocol :: string
  cfg_Scenario :: string
  cfg_SequenceWindowSize :: u64
  cfg_SampleInterval :: rat

definition NewRecorder :: "'h hdr_lib \<Rightarrow> RecorderConfig \<Rightarrow> i64 \<Rightarrow> 'h Recorder option" where
  "NewRecorder lib cfg now =
     (let ws = (if cfg_SequenceWindowSize cfg = 0 then 4096 else cfg_SequenceWindowSize cfg);
          iv = (if cfg_SampleInterval cfg = 0 then 1/10 else cfg_SampleInterval cfg)
      in do {
        t \<leftarrow> NewSequenceTracker ws;
        Some \<lparr>label = cfg_Label cfg, protocol = cfg_Protocol cfg, scenario = cfg_Scenario cfg,
              latency = NewHDRHistogram lib, seqTracker = t, connStats = Some [],
              resources = NewResourceSampler iv, msgSent = 0, msgRecv = 0, bytesSent = 0,
              bytesRecv = 0, handshake = NewHDRHistogram lib, reconnect = NewHDRHistogram lib,
              startTime = now\<rparr>
      })"

definition Recorder_Start :: "'h Recorder \<Rightarrow> i64 \<Rightarrow> rat \<Rightarrow> cpuTime \<Rightarrow> 'h Recorder" where
  "Recorder_Start r now wall cpu = r\<lparr>startTime := now, resources := Sampler_Start (resources r) wall cpu\<rparr>"

definition Recorder_Stop :: "'h Recorder \<Rightarrow> 'h Recorder option option" where
  "Recorder_Stop r = map_option (map_option (\<lambda>s. r\<lparr>resources := s\<rparr>)) (Sampler_Stop (resources r))"

definition RecordSend :: "'h Recorder \<Rightarrow> u64 \<Rightarrow> nat \<Rightarrow> 'h Recorder" where
  "RecordSend r seq sz = r\<lparr>msgSent := msgSent r + 1, bytesSent := bytesSent r + of_nat sz\<rparr>"

definition recordSample :: "'h hdr_lib \<Rightarrow> 'h Recorder \<Rightarrow> i64 \<Rightarrow> nat \<Rightarrow> i64 \<Rightarrow> 'h Recorder" where
  "recordSample lib r sendNs sz recvNs =
     r\<lparr>msgRecv := msgRecv r + 1, bytesRecv := bytesRecv r + of_nat sz,
       latency := Histogram_Record lib (latency r) (recvNs - sendNs)\<rparr>"

definition RecordRecv :: "'h hdr_lib \<Rightarrow> 'h Recorder \<Rightarrow> u64 \<Rightarrow> i64 \<Rightarrow> nat \<Rightarrow> i64 \<Rightarrow> 'h Recorder option" where
  "RecordRecv lib r seq sendNs sz recvNs = do {
     let r1 = recordSample lib r sendNs sz recvNs;
     t \<leftarrow> Observe (seqTracker r1) seq;
     Some (r1\<lparr>seqTracker := t\<rparr>)
   }"

definition RecordRecvFrom ::
  "'h hdr_lib \<Rightarrow> 'h Recorder \<Rightarrow> ConnID \<Rightarrow> u64 \<Rightarrow> i64 \<Rightarrow> nat \<Rightarrow> i64 \<Rightarrow> 'h Recorder option" where
  \<comment> \<open>\<open>cs\<close> is a pointer: what \<open>observe\<close> changes is stored back in the map\<close>
  "RecordRecvFrom lib r connID seq sendNs sz recvNs = do {
     let r1 = recordSample lib r sendNs sz recvNs;
     (cs, m) \<leftarrow> (case gomap_get (connStats r1) connID of
                   Some cs \<Rightarrow> Some (cs, connStats r1)
                 | None \<Rightarrow> do { cs \<leftarrow> newConnStat lib; m \<leftarrow> gomap_put (connStats r1) connID cs; Some (cs, m) });
     cs' \<leftarrow> connStat_observe lib cs seq sz (recvNs - sendNs);
     m' \<leftarrow> gomap_put m connID cs';
     Some (r1\<lparr>connStats := m'\<rparr>)
   }"

definition RecordHandshake :: "'h hdr_lib \<Rightarrow> 'h Recorder \<Rightarrow> i64 \<Rightarrow> 'h Recorder" where
  "RecordHandshake lib r d = r\<lparr>handshake := Histogram_Record lib (handshake r) d\<rparr>"

definition RecordReconnect :: "'h hdr_lib \<Rightarrow> 'h Recorder \<Rightarrow> i64 \<Rightarrow> 'h Recorder" where
  "RecordReconnect lib r d = r\<lparr>reconnect := Histogram_Record lib (reconnect r) d\<rparr>"

definition Recorder_Flush :: "'h Recorder \<Rightarrow> u64 \<Rightarrow> 'h Recorder option option" where
  "Recorder_Flush r lastSentSeq =
     map_option (map_option (\<lambda>t. r\<lparr>seqTracker := t\<rparr>)) (Flush (seqTracker r) lastSentSeq)"

definition Recorder_Reset :: "'h hdr_lib \<Rightarrow> 'h Recorder \<Rightarrow> i64 \<Rightarrow> rat \<Rightarrow> cpuTime \<Rightarrow> 'h Recorder" where
  "Recorder_Reset lib r now wall cpu =
     r\<lparr>latency := Histogram_Reset lib (latency r), handshake := Histogram_Reset lib (handshake r),
       reconnect := Histogram_Reset lib (reconnect r), seqTracker := Reset (seqTracker r),
       connStats := Some [], resources := Sampler_Reset (resources r) wall cpu,
       msgSent := 0, msgRecv := 0, bytesSent := 0, bytesRecv := 0, startTime := now\<rparr>"

type_synonym 'h conn_order = "(ConnID \<times> 'h connStat) list \<Rightarrow> (ConnID \<times> 'h connStat) list"

definition ConnSnapshots :: "'h hdr_lib \<Rightarrow> 'h conn_order \<Rightarrow> 'h Recorder \<Rightarrow> ConnSnapshot list" where
  "ConnSnapshots lib ord r =
     map (\<lambda>(cid, cs).
            let seq = Snapshot (cs_tracker cs) in
            \<lparr>sn_ConnID = cid, sn_MsgRecv = cs_msgRecv cs, sn_Delivered = Delivered seq,
             sn_Duplicated = Duplicated seq, sn_Reordered = Reordered seq,
             sn_FirstSeq = firstSeq cs, sn_LastSeq = lastSeq cs,
             sn_Latency = Histogram_Snapshot lib (cs_latency cs)\<rparr>)
       (ord (entries (connStats r)))"

record RecorderSnapshot =
  rs_Label :: string
  rs_Protocol :: string
  rs_Scenario :: string
  rs_Duration :: i64
  rs_Latency :: HistogramSnapshot
  rs_MsgSent :: u64
  rs_MsgRecv :: u64
  rs_BytesSent :: u64
  rs_BytesRecv :: u64
  rs_MsgPerSec :: rat
  rs_BytesPerSec :: rat
  rs_Seq :: SeqStats
  rs_Resources :: ResourceSnapshot
  rs_Handshake :: HistogramSnapshot
  rs_Reconnect :: HistogramSnapshot

definition add_stats :: "SeqStats \<Rightarrow> SeqStats \<Rightarrow> SeqStats" where
  "add_stats agg s = \<lparr>Delivered = Delivered agg + Delivered s, Lost = Lost agg + Lost s,
     Duplicated = Duplicated agg + Duplicated s, Reordered = Reordered agg + Reordered s\<rparr>"

definition Recorder_Snapshot :: "'h hdr_lib \<Rightarrow> 'h conn_order \<Rightarrow> 'h Recorder \<Rightarrow> i64 \<Rightarrow> RecorderSnapshot" where
  "Recorder_Snapshot lib ord r now =
     (let elapsed = now - startTime r;
          elapsedSec = (of_int (sint elapsed) / 1000000000 :: rat);
          nConn = gomap_len (connStats r);
          seqSnap = (if nConn > 0
                     then fold (\<lambda>(cid, cs) agg. add_stats agg (Snapshot (cs_tracker cs)))
                            (ord (entries (connStats r)))
                            \<lparr>Delivered = 0, Lost = 0, Duplicated = 0, Reordered = 0\<rparr>
                     else Snapshot (seqTracker r));
          mrecv = (if nConn > 0 then msgRecv r div of_nat nConn else msgRecv r);
          brecv = (if nConn > 0 then bytesRecv r div of_nat nConn else bytesRecv r)
      in \<lparr>rs_Label = label r, rs_Protocol = protocol r, rs_Scenario = scenario r, rs_Duration = elapsed,
          rs_Latency = Histogram_Snapshot lib (latency r), rs_MsgSent = msgSent r, rs_MsgRecv = mrecv,
          rs_BytesSent = bytesSent r, rs_BytesRecv = brecv,
          rs_MsgPerSec = (if elapsedSec > 0 then of_nat (unat mrecv) / elapsedSec else 0),
          rs_BytesPerSec = (if elapsedSec > 0 then of_nat (unat brecv) / elapsedSec else 0),
          rs_Seq = seqSnap, rs_Resources = Sampler_Snapshot (resources r),
          rs_Handshake = Histogram_Snapshot lib (handshake r),
          rs_Reconnect = Histogram_Snapshot lib (reconnect r)\<rparr>)"

section \<open>Runs of receptions\<close>

type_synonym recv_event = "ConnID \<times> u64 \<times> i64 \<times> nat \<times> i64"

definition recv_step :: "'h hdr_lib \<Rightarrow> 'h Recorder \<Rightarrow> recv_event \<Rightarrow> 'h Recorder option" where
  "recv_step lib r = (\<lambda>(cid, seq, sendNs, sz, recvNs). RecordRecvFrom lib r cid seq sendNs sz recvNs)"

definition ev_seq :: "recv_event \<Rightarrow> u64" where "ev_seq = (\<lambda>(cid, seq, sendNs, sz, recvNs). seq)"

definition ev_lat :: "recv_event \<Rightarrow> i64" where "ev_lat = (\<lambda>(cid, seq, sendNs, sz, recvNs). recvNs - sendNs)"

definition conn_step :: "'h hdr_lib \<Rightarrow> 'h connStat \<Rightarrow> recv_event \<Rightarrow> 'h connStat option" where
  "conn_step lib c = (\<lambda>(cid, seq, sendNs, sz, recvNs). connStat_observe lib c seq sz (recvNs - sendNs))"

definition events_of :: "ConnID \<Rightarrow> recv_event list \<Rightarrow> recv_event list" where
  "events_of cid es = filter (\<lambda>e. fst e = cid) es"

text \<open>The sequence numbers a connection has observed, in order.\<close>

definition seqs_of :: "ConnID \<Rightarrow> recv_event list \<Rightarrow> u64 list" where
  "seqs_of cid es = map ev_seq (events_of cid es)"

text \<open>A histogram that only counts, and a recorder built on it.\<close>

definition count_lib :: "nat hdr_lib" where
  "count_lib = \<lparr>hdr_New = (\<lambda>_ _ _. 0),
     hdr_RecordValue = (\<lambda>h v. if sint v \<le> 30000000000 then (Suc h, False) else (h, True)),
     hdr_TotalCount = of_nat, hdr_Min = (\<lambda>_. 0), hdr_Max = (\<lambda>_. 0), hdr_Mean = (\<lambda>_. 0),
     hdr_StdDev = (\<lambda>_. 0), hdr_ValueAtQuantile = (\<lambda>_ _. 0), hdr_Reset = (\<lambda>_. 0)\<rparr>"

definition sample_recorder :: "nat Recorder" where
  "sample_recorder = the (NewRecorder count_lib
     \<lparr>cfg_Label = ''l'', cfg_Protocol = ''tcp'', cfg_Scenario = ''A'', cfg_SequenceWindowSize = 0,
      cfg_SampleInterval = 0\<rparr> 0)"

definition sample_events :: "recv_event list" where
  "sample_events = [(''a'', 1, 0, 88, 500), (''b'', 1, 0, 88, 700), (''a'', 2, 100, 88, 40000000100)]"

text \<open>What a single connection's statistics are after its own receptions.\<close>

definition conn_ok :: "u64 list \<Rightarrow> 'h connStat \<Rightarrow> bool" where
  "conn_ok qs c \<longleftrightarrow>
     run_opt Observe (the (NewSequenceTracker 4096)) qs = Some (cs_tracker c) \<and>
     cs_msgRecv c = of_nat (length qs) \<and>
     (0 \<notin> set qs \<longrightarrow> firstSeq c = (if qs = [] then 0 else Min (set qs))) \<and>
     lastSeq c = Max (insert 0 (set qs))"

lemma NewSequenceTracker_4096: "NewSequenceTracker 4096 = Some (the (NewSequenceTracker 4096))"
  by (simp add: NewSequenceTracker_def)

lemma Observe_run_total: "-1 \<notin> set qs \<Longrightarrow> \<exists>t. run_opt Observe (the (NewSequenceTracker 4096)) qs = Some t"
  using Observe_run [OF NewSequenceTracker_tracks [OF NewSequenceTracker_4096]] by metis

lemma newConnStat_ok: "\<exists>c. newConnStat lib = Some c \<and> conn_ok [] c"
  by (subst newConnStat_def, subst NewSequenceTracker_4096) (simp add: conn_ok_def)

lemma conn_ok_observe:
  assumes c: "conn_ok qs c" and q: "-1 \<notin> set (qs @ [q])"
  shows "\<exists>c'. connStat_observe lib c q sz lat = Some c' \<and> conn_ok (qs @ [q]) c'"
proof -
  obtain t where t: "run_opt Observe (the (NewSequenceTracker 4096)) (qs @ [q]) = Some t"
    using Observe_run_total [OF q] by blast
  then have o: "Observe (cs_tracker c) q = Some t"
    using c by (auto simp: conn_ok_def run_opt_append bind_eq_Some_conv)
  have L: "lastSeq c = Max (insert 0 (set qs))" using c by (simp add: conn_ok_def)
  have "Max (insert 0 (insert q (set qs))) = max q (lastSeq c)"
    unfolding L by (subst insert_commute) (rule Max_insert, simp_all)
  then have last: "Max (insert 0 (insert q (set qs))) = (if q > lastSeq c then q else lastSeq c)"
    by (auto simp: max_def)
  have first: "(if firstSeq c = 0 \<or> q < firstSeq c then q else firstSeq c) = Min (insert q (set qs))"
    if "0 \<notin> set (qs @ [q])"
  proof (cases "qs = []")
    case True
    then show ?thesis using c by (simp add: conn_ok_def)
  next
    case False
    then have F: "firstSeq c = Min (set qs)" using c that by (simp add: conn_ok_def)
    have "Min (set qs) \<in> set qs" using False by simp
    then have "firstSeq c \<noteq> 0" using F that by (metis UnI1 set_append)
    moreover have "Min (insert q (set qs)) = min q (firstSeq c)" unfolding F using False by (simp add: Min_insert)
    ultimately show ?thesis by (auto simp: min_def)
  qed
  show ?thesis
    using o t c first unfolding connStat_observe_def conn_ok_def by (simp add: last)
qed

lemma recv_run:
  assumes "connStats r = Some []" and "-1 \<notin> ev_seq ` set es"
  shows "\<exists>r'. run_opt (recv_step lib) r es = Some r' \<and> connStats r' \<noteq> None \<and> wf_gomap (connStats r') \<and>
     dom (gomap_get (connStats r')) = fst ` set es \<and>
     (\<forall>cid c. gomap_get (connStats r') cid = Some c \<longrightarrow> conn_ok (seqs_of cid es) c) \<and>
     msgRecv r' = msgRecv r + of_nat (length es) \<and> seqTracker r' = seqTracker r \<and>
     latency r' = fold (\<lambda>e h. Histogram_Record lib h (ev_lat e)) es (latency r)"
  using assms(2)
proof (induction es rule: rev_induct)
  case Nil
  then show ?case using assms(1) by (auto simp: wf_gomap_def gomap_get_def)
next
  case (snoc e es)
  obtain cid q sNs sz rNs where e: "e = (cid, q, sNs, sz, rNs)" by (metis prod_cases5)
  obtain r1 where r1: "run_opt (recv_step lib) r es = Some r1" "connStats r1 \<noteq> None" "wf_gomap (connStats r1)"
    "dom (gomap_get (connStats r1)) = fst ` set es"
    "\<And>cid c. gomap_get (connStats r1) cid = Some c \<Longrightarrow> conn_ok (seqs_of cid es) c"
    "msgRecv r1 = msgRecv r + of_nat (length es)" "seqTracker r1 = seqTracker r"
    "latency r1 = fold (\<lambda>e h. Histogram_Record lib h (ev_lat e)) es (latency r)"
    using snoc by auto
  let ?r = "recordSample lib r1 sNs sz rNs"
  have same: "connStats ?r = connStats r1" by (simp add: recordSample_def)
  obtain cs m where cs: "(case gomap_get (connStats r1) cid of Some cs \<Rightarrow> Some (cs, connStats r1)
      | None \<Rightarrow> do { cs \<leftarrow> newConnStat lib; m \<leftarrow> gomap_put (connStats r1) cid cs; Some (cs, m) }) = Some (cs, m)"
    and ok: "conn_ok (seqs_of cid es) cs" and m: "m \<noteq> None" "wf_gomap m"
      "gomap_get m = (gomap_get (connStats r1))(cid \<mapsto> cs)"
  proof (cases "gomap_get (connStats r1) cid")
    case None
    then have "seqs_of cid es = []" using r1(4) by (auto simp: seqs_of_def events_of_def filter_empty_conv)
    moreover obtain c where c: "newConnStat lib = Some c" "conn_ok [] c" using newConnStat_ok by blast
    moreover obtain m where m: "gomap_put (connStats r1) cid c = Some m" "m \<noteq> None"
      using r1(2) by (auto simp: gomap_put_def)
    ultimately show thesis
      using that [of c m] None gomap_get_put [OF m(1)] wf_gomap_put [OF r1(3) m(1)] by simp
  next
    case (Some c)
    then show thesis using that [of c "connStats r1"] r1(2,3,5) by (simp add: fun_upd_idem)
  qed
  have "seqs_of cid (es @ [e]) = seqs_of cid es @ [q]" by (simp add: seqs_of_def events_of_def e ev_seq_def)
  moreover have "-1 \<notin> set (seqs_of cid (es @ [e]))" using snoc.prems by (auto simp: seqs_of_def events_of_def)
  ultimately obtain cs' where cs': "connStat_observe lib cs q sz (rNs - sNs) = Some cs'"
    "conn_ok (seqs_of cid (es @ [e])) cs'"
    using conn_ok_observe [OF ok, of q lib sz "rNs - sNs"] by auto
  obtain m' where m': "gomap_put m cid cs' = Some m'" "m' \<noteq> None" using m(1) by (auto simp: gomap_put_def)
  have run: "recv_step lib r1 e = Some (?r\<lparr>connStats := m'\<rparr>)"
    unfolding recv_step_def e RecordRecvFrom_def Let_def same prod.case cs by (simp add: cs'(1) m'(1))
  have other: "seqs_of k (es @ [e]) = seqs_of k es" if "k \<noteq> cid" for k
    using that by (simp add: seqs_of_def events_of_def e)
  show ?case
    using run r1 cs'(2) m'(2) wf_gomap_put [OF m(2) m'(1)] other
    by (auto simp: run_opt_append gomap_get_put [OF m'(1)] m(3) recordSample_def e ev_lat_def split: if_splits)
qed

section \<open>Aggregation\<close>

lemma sum_events_of:
  "finite A \<Longrightarrow> fst ` set es \<subseteq> A \<Longrightarrow> (\<Sum>cid \<in> A. length (events_of cid es)) = length es"
proof (induction es)
  case (Cons e es)
  have "(\<Sum>cid \<in> A. length (events_of cid (e # es))) =
      (\<Sum>cid \<in> A. (if fst e = cid then 1 else 0) + length (events_of cid es))"
    by (rule sum.cong) (auto simp: events_of_def)
  also have "\<dots> = 1 + length es" using Cons by (simp add: sum.distrib)
  finally show ?case by simp
qed (simp add: events_of_def)

lemma fold_add_stats:
  "fold (\<lambda>(cid, cs) agg. add_stats agg (Snapshot (cs_tracker cs))) xs z =
     \<lparr>Delivered = Delivered z + (\<Sum>e\<leftarrow>xs. Delivered (Stats (cs_tracker (snd e)))),
      Lost = Lost z + (\<Sum>e\<leftarrow>xs. Lost (Stats (cs_tracker (snd e)))),
      Duplicated = Duplicated z + (\<Sum>e\<leftarrow>xs. Duplicated (Stats (cs_tracker (snd e)))),
      Reordered = Reordered z + (\<Sum>e\<leftarrow>xs. Reordered (Stats (cs_tracker (snd e))))\<rparr>"
  by (induction xs arbitrary: z) (auto simp: add_stats_def Snapshot_def)

lemma sum_list_zero: "(\<And>x. x \<in> set xs \<Longrightarrow> f x = 0) \<Longrightarrow> (\<Sum>x\<leftarrow>xs. f x) = (0 :: 'a::comm_monoid_add)"
  by (induction xs) auto

lemma sum_list_of_nat: "(\<Sum>x\<leftarrow>xs. of_nat (f x)) = (of_nat (\<Sum>x\<leftarrow>xs. f x) :: 'a::semiring_1)"
  by (induction xs) auto

lemma increasing_conn:
  assumes "conn_ok qs c" and "-1 \<notin> set qs" and "sorted_wrt (<) qs"
  shows "Stats (cs_tracker c) = \<lparr>Delivered = of_nat (length qs), Lost = 0, Duplicated = 0, Reordered = 0\<rparr>"
proof -
  have "sorted_wrt (\<lambda>a b. unat a < unat b + unat (4096 :: u64)) qs"
    by (rule sorted_wrt_mono_rel [OF _ assms(3)]) (simp add: word_less_nat_alt)
  from Observe_run_exact [OF NewSequenceTracker_4096 assms(2) this] obtain t where
    t: "run_opt Observe (the (NewSequenceTracker 4096)) qs = Some t"
      "Delivered (Snapshot t) = of_nat (card (set qs))"
      "Duplicated (Snapshot t) = of_nat (length qs - card (set qs))"
      "Reordered (Snapshot t) = of_nat (card (late_firsts qs))" by auto
  have "distinct qs" using assms(3) by (simp add: strict_sorted_iff)
  then have "card (set qs) = length qs" by (rule distinct_card)
  moreover have "late_firsts qs = {}" using assms(3)
    by (auto simp: late_firsts_def in_set_conv_nth sorted_wrt_iff_nth_less) (meson order.asym)
  moreover have "Lost (Stats t) = 0"
    using Observe_run_lost [OF t(1)] by (simp add: NewSequenceTracker_def)
  ultimately show ?thesis using t assms(1) by (simp add: conn_ok_def Snapshot_def)
qed

lemma histogram_run:
  assumes "hdr_ok lib cnt limit" and "cnt h = n"
  shows "cnt (fold (\<lambda>e h. Histogram_Record lib h (f e)) es h) = n + length (filter (\<lambda>e. sint (f e) \<le> limit) es)"
  using assms(2)
proof (induction es arbitrary: h n)
  case (Cons e es)
  let ?v = "if sint (f e) < 1 then 1 else f e"
  have v: "1 \<le> sint ?v" "sint ?v \<le> limit \<longleftrightarrow> sint (f e) \<le> limit"
    using assms(1) by (auto simp: hdr_ok_def)
  have "cnt (Histogram_Record lib h (f e)) = (if sint (f e) \<le> limit then Suc n else n)"
    using assms(1) v Cons.prems unfolding hdr_ok_def Histogram_Record_def by (metis fst_conv)
  then show ?case using Cons.IH by simp
qed simp

section \<open>Properties\<close>

text \<open>Fan-out is not duplication: after a reset, when each connection receives a strictly
  increasing stream, however the receptions of the connections interleave and whatever
  sequence numbers they share, the aggregated snapshot counts every reception as delivered
  and none as lost, duplicated or reordered, and reports the receptions per connection.\<close>

lemma fanout_is_not_duplication:
  assumes "range_order ord" and "es \<noteq> []" and "-1 \<notin> ev_seq ` set es"
    and "\<And>cid. sorted_wrt (<) (seqs_of cid es)"
  shows "\<exists>r'. run_opt (recv_step lib) (Recorder_Reset lib r now wall cpu) es = Some r' \<and>
     rs_Seq (Recorder_Snapshot lib ord r' later) =
       \<lparr>Delivered = of_nat (length es), Lost = 0, Duplicated = 0, Reordered = 0\<rparr> \<and>
     rs_MsgRecv (Recorder_Snapshot lib ord r' later) = of_nat (length es) div of_nat (card (fst ` set es))"
proof -
  let ?r = "Recorder_Reset lib r now wall cpu"
  obtain r' where run: "run_opt (recv_step lib) ?r es = Some r'" and wf: "wf_gomap (connStats r')"
    and dom: "dom (gomap_get (connStats r')) = fst ` set es"
    and ok: "\<And>cid c. gomap_get (connStats r') cid = Some c \<Longrightarrow> conn_ok (seqs_of cid es) c"
    and recv: "msgRecv r' = of_nat (length es)"
    using recv_run [of ?r es lib] assms(3) by (auto simp: Recorder_Reset_def)
  let ?xs = "ord (entries (connStats r'))"
  have st: "Stats (cs_tracker (snd e)) =
      \<lparr>Delivered = of_nat (length (events_of (fst e) es)), Lost = 0, Duplicated = 0, Reordered = 0\<rparr>"
    if "e \<in> set ?xs" for e
  proof -
    obtain cid c where e: "e = (cid, c)" by fastforce
    have "gomap_get (connStats r') cid = Some c"
      using that assms(1) wf by (simp add: e in_entries_iff)
    then have "conn_ok (seqs_of cid es) c" by (rule ok)
    moreover have "-1 \<notin> set (seqs_of cid es)" using assms(3) by (auto simp: seqs_of_def events_of_def)
    ultimately show ?thesis using increasing_conn [OF _ _ assms(4)] by (simp add: e seqs_of_def)
  qed
  have len: "gomap_len (connStats r') = card (fst ` set es)" using gomap_len_card [OF wf] dom by simp
  have fst_xs: "set (map fst ?xs) = fst ` set es" "distinct (map fst ?xs)"
    using assms(1) wf dom by (simp_all add: fst_entries_dom wf_gomap_def)
  have "(\<Sum>e\<leftarrow>?xs. Delivered (Stats (cs_tracker (snd e)))) =
      (\<Sum>e\<leftarrow>?xs. of_nat (length (events_of (fst e) es)))"
    using st by (intro arg_cong [where f = sum_list] map_cong) simp_all
  also have "\<dots> = of_nat (\<Sum>cid\<leftarrow>map fst ?xs. length (events_of cid es))" by (simp add: comp_def sum_list_of_nat)
  also have "(\<Sum>cid\<leftarrow>map fst ?xs. length (events_of cid es)) = length es"
    unfolding sum_list_distinct_conv_sum_set [OF fst_xs(2)] fst_xs(1) by (rule sum_events_of) simp_all
  finally have "(\<Sum>e\<leftarrow>?xs. Delivered (Stats (cs_tracker (snd e)))) = of_nat (length es)" .
  moreover have "0 < card (fst ` set es)" using assms(2) by (simp add: card_gt_0_iff)
  ultimately show ?thesis
    using run st recv by (simp add: Recorder_Snapshot_def Let_def len fold_add_stats sum_list_zero)
qed

text \<open>A latency the histogram cannot hold is lost silently: the message counter counts every
  reception, but the latency histogram only those up to its limit (at least 30 s), since
  only values below one are clamped and the error of \<open>RecordValue\<close> is dropped.\<close>

lemma recorder_counts_samples:
  assumes "hdr_ok lib cnt limit" and "-1 \<notin> ev_seq ` set es"
  shows "\<exists>r'. run_opt (recv_step lib) (Recorder_Reset lib r now wall cpu) es = Some r' \<and>
     msgRecv r' = of_nat (length es) \<and>
     Histogram_Count lib (latency r') = of_nat (length (filter (\<lambda>e. sint (ev_lat e) \<le> limit) es))"
proof -
  let ?r = "Recorder_Reset lib r now wall cpu"
  obtain r' where r': "run_opt (recv_step lib) ?r es = Some r'" "msgRecv r' = of_nat (length es)"
    "latency r' = fold (\<lambda>e h. Histogram_Record lib h (ev_lat e)) es (latency ?r)"
    using recv_run [of ?r es lib] assms(2) by (auto simp: Recorder_Reset_def)
  have "cnt (latency ?r) = 0" using assms(1) by (simp add: hdr_ok_def Recorder_Reset_def Histogram_Reset_def)
  from histogram_run [OF assms(1) this, of ev_lat es] show ?thesis
    using r' assms(1) by (simp add: hdr_ok_def Histogram_Count_def)
qed

end
