(* ===== verification/Generators.thy ===== *)
theory Generators
  imports Wire Market
begin

text \<open>
  The payload generators of \<^verbatim>\<open>pkg/generator\<close>. The global sequence counter is part of the
  state; the clock, the pseudo-random source (\<open>uint64\<close> and bounded draws on a state of any
  type), the JSON marshaller and the floating-point price diffusion are parameters. Every
  generator returns a wire frame; the market generator wraps a 64-byte tick.
\<close>

section \<open>Counters and random bytes\<close>

definition StandardSizes :: "int list" where
  "StandardSizes = [16, 32, 64, 128, 256, 512, 1024, 4 * 1024, 16 * 1024, 64 * 1024, 1024 * 1024]"

text \<open>\<open>globalSeq\<close> is threaded: the new value is also the one returned.\<close>

definition nextSeq :: "u64 \<Rightarrow> u64" where "nextSeq globalSeq = globalSeq + 1"

definition ResetGlobalSeq :: "u64 \<Rightarrow> u64" where "ResetGlobalSeq globalSeq = 0"

type_synonym 'g rng = "'g \<Rightarrow> u64 \<times> 'g"

fun fill_words :: "'g rng \<Rightarrow> nat \<Rightarrow> 'g \<Rightarrow> bytes \<times> 'g" where
  "fill_words uint64 0 g = ([], g)"
| "fill_words uint64 (Suc n) g =
     (case uint64 g of (v, g') \<Rightarrow> case fill_words uint64 n g' of (bs, g'') \<Rightarrow> (le_bytes 8 v @ bs, g''))"

definition fillRandom :: "'g rng \<Rightarrow> nat \<Rightarrow> 'g \<Rightarrow> bytes \<times> 'g" where
  "fillRandom uint64 n g =
     (case fill_words uint64 (n div 8) g of (bs, g') \<Rightarrow>
        let m = n mod 8 in
        if m > 0 then (case uint64 g' of (v, g'') \<Rightarrow> (bs @ map (\<lambda>j. ucast (drop_bit (j * 8) v)) [0..<m], g''))
        else (bs, g'))"

section \<open>Generators\<close>

definition payload_len :: "int \<Rightarrow> nat" where
  \<comment> \<open>\<open>int(targetSize) - wire.HeaderLen\<close>, floored at zero\<close>
  "payload_len targetSize = (let n = targetSize - int HeaderLen in if n < 0 then 0 else nat n)"

definition Random_Next :: "'g rng \<Rightarrow> u64 \<Rightarrow> i64 \<Rightarrow> 'g \<Rightarrow> int \<Rightarrow> (bytes \<times> u64 \<times> 'g) option" where
  "Random_Next uint64 globalSeq now g targetSize = do {
     let payloadLen = payload_len targetSize;
     let seq = nextSeq globalSeq;
     let out = replicate (HeaderLen + payloadLen) 0;
     out \<leftarrow> EncodeInto out seq now (drop HeaderLen out);
     let (bs, g') = fillRandom uint64 (length (drop HeaderLen out)) g;
     out \<leftarrow> put_at out HeaderLen bs;
     Some (out, seq, g')
   }"

definition Random_NextInto :: "'g rng \<Rightarrow> u64 \<Rightarrow> i64 \<Rightarrow> 'g \<Rightarrow> byte_slice \<Rightarrow> int \<Rightarrow> (byte_slice \<times> u64 \<times> 'g) option" where
  "Random_NextInto uint64 globalSeq now g dst targetSize = do {
     let payloadLen = payload_len targetSize;
     let need = HeaderLen + payloadLen;
     let arr = (if length (backing dst) < need then replicate need 0 else backing dst);
     let seq = nextSeq globalSeq;
     let dst' = take need arr;
     out \<leftarrow> EncodeInto dst' seq now (drop HeaderLen dst');
     let (bs, g') = fillRandom uint64 (length (drop HeaderLen out)) g;
     out \<leftarrow> put_at out HeaderLen bs;
     arr' \<leftarrow> put_at arr 0 out;
     Some (\<lparr>backing = arr', slen = need\<rparr>, seq, g')
   }"

definition Sequential_Next :: "u64 \<Rightarrow> i64 \<Rightarrow> int \<Rightarrow> (bytes \<times> u64) option" where
  "Sequential_Next globalSeq now targetSize = do {
     let payloadLen = payload_len targetSize;
     let seq = nextSeq globalSeq;
     let out = replicate (HeaderLen + payloadLen) 0;
     out \<leftarrow> EncodeInto out seq now (drop HeaderLen out);
     out \<leftarrow> put_at out HeaderLen (map of_nat [0..<payloadLen]);
     Some (out, seq)
   }"

fun verify_from :: "nat \<Rightarrow> bytes \<Rightarrow> int" where
  "verify_from i [] = -1"
| "verify_from i (b # bs) = (if b \<noteq> of_nat i then int i else verify_from (Suc i) bs)"

definition Sequential_Verify :: "bytes \<Rightarrow> int" where
  "Sequential_Verify payload = verify_from 0 payload"

definition Binary_Next :: "u64 \<Rightarrow> i64 \<Rightarrow> int \<Rightarrow> (bytes \<times> u64) option" where
  "Binary_Next globalSeq now targetSize = do {
     let payloadLen = payload_len targetSize;
     let seq = nextSeq globalSeq;
     let out = replicate (HeaderLen + payloadLen) 0;
     out \<leftarrow> EncodeInto out seq now (drop HeaderLen out);
     Some (out, seq)
   }"

record jsonPayload =
  js_Seq :: u64
  js_Ts :: i64
  js_Pad :: bytes
  js_Sym :: string
  js_Price :: i64

definition json_pad :: "'g rng \<Rightarrow> int \<Rightarrow> 'g \<Rightarrow> bytes \<times> 'g" where
  \<comment> \<open>random bytes mapped to printable ASCII\<close>
  "json_pad uint64 padNeeded g =
     (if padNeeded > 0
      then (case fillRandom uint64 (nat padNeeded) g of (bs, g') \<Rightarrow> (map (\<lambda>b. 0x20 + b mod 95) bs, g'))
      else ([], g))"

definition JSON_Next ::
  "(jsonPayload \<Rightarrow> bytes option) \<Rightarrow> 'g rng \<Rightarrow> u64 \<Rightarrow> i64 \<Rightarrow> 'g \<Rightarrow> int \<Rightarrow> (bytes \<times> u64 \<times> 'g) option" where
  \<comment> \<open>\<open>marshal\<close> is \<open>sonic.Marshal\<close>; the error of its first call is ignored\<close>
  "JSON_Next marshal uint64 globalSeq now g targetSize = do {
     let seq = nextSeq globalSeq;
     let base = \<lparr>js_Seq = seq, js_Ts = now, js_Pad = [], js_Sym = ''BENCH'', js_Price = 0\<rparr>;
     let baseSize = HeaderLen + length (case marshal base of None \<Rightarrow> [] | Some j \<Rightarrow> j);
     let padNeeded = targetSize - int baseSize;
     let (pad, g') = json_pad uint64 padNeeded g;
     case marshal (base\<lparr>js_Pad := pad\<rparr>) of
       None \<Rightarrow> do { out \<leftarrow> EncodeInto (replicate HeaderLen 0) seq now []; Some (out, seq, g') }
     | Some jsonBytes \<Rightarrow> do {
         out \<leftarrow> EncodeInto (replicate (HeaderLen + length jsonBytes) 0) seq now jsonBytes;
         Some (out, seq, g') }
   }"

section \<open>The market tick generator\<close>

record MarketTickGenerator =
  universe :: "Instrument list"
  prices :: "i64 list"
  mg_seq :: u64

definition NewMarketTickGenerator :: "Instrument list \<Rightarrow> MarketTickGenerator" where
  "NewMarketTickGenerator u = \<lparr>universe = u, prices = map MidPrice u, mg_seq = 0\<rparr>"

text \<open>What one tick takes from outside the integer model: \<open>diffuse\<close> is
  \<open>int64(float64(old) * math.Exp(lnReturn))\<close> and \<open>rawSpread\<close> is
  \<open>int64(float64(newMid) * float64(SpreadBps) / 10000.0)\<close>, both in floating point; the other three
  are results of \<open>IntN\<close>.\<close>

record draws =
  diffuse :: "i64 \<Rightarrow> i64"
  rawSpread :: "i64 \<Rightarrow> int \<Rightarrow> i64"
  drawVolume :: nat
  drawBidSize :: nat
  drawAskSize :: nat

definition floor_one :: "i64 \<Rightarrow> i64" where
  "floor_one x = (if sint x < 1 then 1 else x)"

definition NextTick ::
  "MarketTickGenerator \<Rightarrow> draws \<Rightarrow> i64 \<Rightarrow> nat \<Rightarrow> (MarketTick \<times> MarketTickGenerator) option" where
  \<comment> \<open>the compare-and-swap that succeeds: the price is not changed by others in between\<close>
  "NextTick g d now i =
     (if i < length (universe g) \<and> i < length (prices g) then
        (let inst = universe g ! i;
             newMid = floor_one (diffuse d (prices g ! i));
             spreadMicros = floor_one (rawSpread d newMid (SpreadBps inst));
             half = i64_div spreadMicros 2;
             seq = mg_seq g + 1
         in Some (\<lparr>TickSeqNum = seq, Timestamp = now, RecvNs = 0, InstrHash = SymbolHash inst,
                   BidPrice = newMid - half, AskPrice = newMid + half, LastPrice = newMid,
                   Volume = of_nat (drawVolume d + 100), BidSize = of_nat (drawBidSize d + 100),
                   AskSize = of_nat (drawAskSize d + 100), Flags = 0, TickClass = InstClass inst\<rparr>,
                  g\<lparr>prices := (prices g)[i := newMid], mg_seq := seq\<rparr>))
      else None)"

definition NextTickEncoded ::
  "MarketTickGenerator \<Rightarrow> draws \<Rightarrow> i64 \<Rightarrow> nat \<Rightarrow> (bytes \<times> MarketTickGenerator) option" where
  "NextTickEncoded g d now i = do {
     (tick, g') \<leftarrow> NextTick g d now i;
     buf \<leftarrow> Tick_Encode tick (replicate TickSize 0);
     out \<leftarrow> Encode (TickSeqNum tick) (Timestamp tick) buf;
     Some (out, g')
   }"

text \<open>One firing of an instrument's ticker in \<open>RunFeed\<close>: the tick is dropped when the channel is
  full.\<close>

definition feed_tick ::
  "nat \<Rightarrow> MarketTickGenerator \<Rightarrow> MarketTick list \<Rightarrow> draws \<Rightarrow> i64 \<Rightarrow> nat \<Rightarrow> (MarketTickGenerator \<times> MarketTick list) option"
where
  "feed_tick cap g ch d now i = do {
     (tick, g') \<leftarrow> NextTick g d now i;
     Some (g', if length ch < cap then ch @ [tick] else ch)
   }"

definition CurrentPrice :: "MarketTickGenerator \<Rightarrow> nat \<Rightarrow> i64 option" where
  "CurrentPrice g i = (if i < length (prices g) then Some (prices g ! i) else None)"

definition TotalTicksGenerated :: "MarketTickGenerator \<Rightarrow> u64" where
  "TotalTicksGenerated g = mg_seq g"

section \<open>Frames\<close>

lemma length_fill_words: "length (fst (fill_words u n g)) = 8 * n"
  by (induction u n g rule: fill_words.induct) (auto split: prod.splits)

lemma length_fillRandom [simp]: "length (fst (fillRandom u n g)) = n"
proof -
  have "length (fst (fill_words u (n div 8) g)) + n mod 8 = n" by (simp add: length_fill_words)
  then show ?thesis by (auto simp: fillRandom_def Let_def split: prod.splits)
qed

lemma EncodeInto_fill:
  "EncodeInto (replicate (24 + n) 0) seq now (drop 24 (replicate (24 + n) 0)) =
     Some (frame_bytes seq now (replicate n 0))"
  by (simp add: EncodeInto_exact)

lemma put_payload:
  "length p = length q \<Longrightarrow> put_at (frame_bytes seq ns p) 24 q = Some (frame_bytes seq ns q)"
  by (simp add: put_at_def frame_bytes_def)

lemma fillRandom_len: "fillRandom u n g = (bs, g') \<Longrightarrow> length bs = n"
  using length_fillRandom [of u n g] by simp

lemma Random_Next_eq:
  "Random_Next u gs now g sz =
     Some (frame_bytes (gs + 1) now (fst (fillRandom u (payload_len sz) g)), gs + 1,
           snd (fillRandom u (payload_len sz) g))"
  by (cases "fillRandom u (payload_len sz) g")
     (simp add: Random_Next_def HeaderLen_def nextSeq_def Let_def EncodeInto_exact put_payload fillRandom_len)

lemma Sequential_Next_eq:
  "Sequential_Next gs now sz =
     Some (frame_bytes (gs + 1) now (map of_nat [0..<payload_len sz]), gs + 1)"
  by (simp add: Sequential_Next_def HeaderLen_def nextSeq_def Let_def EncodeInto_exact put_payload)

lemma Binary_Next_eq:
  "Binary_Next gs now sz = Some (frame_bytes (gs + 1) now (replicate (payload_len sz) 0), gs + 1)"
  by (simp add: Binary_Next_def HeaderLen_def nextSeq_def Let_def EncodeInto_exact)


lemma Random_NextInto_eq:
  assumes "HeaderLen + payload_len sz \<le> length (backing dst)"
  shows "\<exists>r. Random_NextInto u gs now g dst sz = Some (r, gs + 1, snd (fillRandom u (payload_len sz) g)) \<and>
     contents r = frame_bytes (gs + 1) now (fst (fillRandom u (payload_len sz) g))"
proof -
  obtain bs g' where f: "fillRandom u (payload_len sz) g = (bs, g')" by (cases "fillRandom u (payload_len sz) g")
  note [simp] = fillRandom_len [OF f]
  let ?p = "drop 24 (take (24 + payload_len sz) (backing dst))"
  have e: "EncodeInto (take (24 + payload_len sz) (backing dst)) (gs + 1) now ?p = Some (frame_bytes (gs + 1) now ?p)"
    using assms by (simp add: HeaderLen_def EncodeInto_exact)
  have p: "put_at (frame_bytes (gs + 1) now ?p) 24 bs = Some (frame_bytes (gs + 1) now bs)"
    using assms by (intro put_payload) (simp add: HeaderLen_def)
  show ?thesis using assms e p f
    by (simp add: Random_NextInto_def HeaderLen_def nextSeq_def Let_def put_at_eq_Some contents_def del: drop_take)
qed

text \<open>The contract the runner relies on: \<open>Next\<close> returns one frame that carries the next global
  sequence number, the time, and a payload of the length asked for.\<close>

type_synonym 's next_op = "u64 \<Rightarrow> i64 \<Rightarrow> 's \<Rightarrow> int \<Rightarrow> (bytes \<times> u64 \<times> 's) option"

fun gen_run :: "'s next_op \<Rightarrow> u64 \<Rightarrow> i64 list \<Rightarrow> 's \<Rightarrow> int \<Rightarrow> (bytes list \<times> u64) option" where
  "gen_run nxt gs [] s sz = Some ([], gs)"
| "gen_run nxt gs (now # nows) s sz = do {
     (fr, gs', s') \<leftarrow> nxt gs now s sz;
     (frs, gs'') \<leftarrow> gen_run nxt gs' nows s' sz;
     Some (fr # frs, gs'')
   }"

fun consecutive :: "u64 \<Rightarrow> i64 list \<Rightarrow> bytes list \<Rightarrow> bool" where
  "consecutive gs [] [] = True"
| "consecutive gs (now # nows) (fr # frs) =
     ((case Decode fr of
         Some (Inr (f, n)) \<Rightarrow> SeqNum f = gs + 1 \<and> SendNs f = now \<and> n = length fr
       | _ \<Rightarrow> False) \<and> consecutive (gs + 1) nows frs)"
| "consecutive gs _ _ = False"

definition emits_stream :: "'s next_op \<Rightarrow> u64 \<Rightarrow> i64 list \<Rightarrow> 's \<Rightarrow> int \<Rightarrow> bool" where
  \<comment> \<open>the calls return, with frames of the size asked for, consecutive numbers and the given times\<close>
  "emits_stream nxt gs nows s sz =
     (case gen_run nxt gs nows s sz of
        None \<Rightarrow> False
      | Some (frs, gs') \<Rightarrow> gs' = gs + of_nat (length nows) \<and>
          list_all (\<lambda>fr. length fr = HeaderLen + payload_len sz) frs \<and> consecutive gs nows frs)"

definition stateless :: "(u64 \<Rightarrow> i64 \<Rightarrow> int \<Rightarrow> (bytes \<times> u64) option) \<Rightarrow> unit next_op" where
  "stateless nxt = (\<lambda>gs now s sz. map_option (\<lambda>(fr, q). (fr, q, s)) (nxt gs now sz))"

locale frame_generator =
  fixes nxt :: "'s next_op"
  assumes next_frame: "\<exists>p s'. nxt gs now s sz = Some (frame_bytes (gs + 1) now p, gs + 1, s') \<and> length p = payload_len sz"
begin

lemma run_consecutive:
  assumes "payload_len sz \<le> MaxPayload"
  shows "emits_stream nxt gs nows s sz"
proof (induction nows arbitrary: gs s)
  case Nil
  then show ?case by (simp add: emits_stream_def)
next
  case (Cons now nows)
  obtain p s' where n: "nxt gs now s sz = Some (frame_bytes (gs + 1) now p, gs + 1, s')"
    and l: "length p = payload_len sz" using next_frame by blast
  have d: "Decode (frame_bytes (gs + 1) now p) =
      Some (Inr (\<lparr>SeqNum = gs + 1, SendNs = now, PayloadLen = of_nat (length p), Payload = p\<rparr>, 24 + length p))"
    using Decode_frame_bytes [of p "gs + 1" now "[]"] assms l by simp
  show ?case using Cons.IH [of "gs + 1" s'] n l d
    by (auto simp: emits_stream_def HeaderLen_def split: option.splits)
qed

end

lemma generatorI:
  "x = Some (frame_bytes q now p, q, s) \<Longrightarrow> length p = n \<Longrightarrow>
   \<exists>p s'. x = Some (frame_bytes q now p, q, s') \<and> length p = n"
  by blast

interpretation gr: frame_generator "Random_Next u"
  by unfold_locales (rule generatorI [OF Random_Next_eq], simp)

interpretation gs: frame_generator "stateless Sequential_Next"
  by unfold_locales (rule generatorI, simp add: Sequential_Next_eq stateless_def, simp)

interpretation gb: frame_generator "stateless Binary_Next"
  by unfold_locales (rule generatorI, simp add: Binary_Next_eq stateless_def, simp)

text \<open>The JSON generator keeps the header contract, with the length of the marshalled object.\<close>

lemma JSON_Next_eq:
  "\<exists>p g'. JSON_Next marshal u gs now g sz = Some (frame_bytes (gs + 1) now p, gs + 1, g') \<and>
     (p = [] \<or> (\<exists>b. marshal b = Some p))"
  unfolding JSON_Next_def Let_def nextSeq_def HeaderLen_def
  by (auto simp: EncodeInto_exact split: prod.splits option.splits)

text \<open>Property C16. The random, sequential and zero-filled generators keep the promise of the
  \<open>Generator\<close> interface: any number of \<open>Next\<close> calls returns, and returns frames of the requested total size
  (at least the header), which decode to the consecutive sequence numbers after the counter and to the
  times of the calls; the counter advances by the number of calls.\<close>

theorem generated_stream_decodes:
  assumes "payload_len sz \<le> MaxPayload"
  shows "emits_stream (Random_Next u) q nows g sz \<and>
         emits_stream (stateless Sequential_Next) q nows () sz \<and>
         emits_stream (stateless Binary_Next) q nows () sz"
  by (intro conjI gr.run_consecutive [OF assms] gs.run_consecutive [OF assms] gb.run_consecutive [OF assms])

theorem generated_stream_decodes_witness:
  "emits_stream (Random_Next (\<lambda>g. (g, g * 3 + 1))) 41 [5, 6] 9 48 \<and>
   emits_stream (stateless Sequential_Next) 41 [5, 6] () 48 \<and>
   emits_stream (stateless Binary_Next) 41 [5, 6] () 48"
  by (rule generated_stream_decodes) (simp add: payload_len_def HeaderLen_def MaxPayload_def)

section \<open>Pattern check\<close>

lemma verify_from_ok: "verify_from i bs = -1 \<longleftrightarrow> bs = map of_nat [i..<i + length bs]"
proof (induction i bs rule: verify_from.induct)
  case (2 i b bs)
  have "[i..<i + length (b # bs)] = i # [Suc i..<Suc i + length bs]" by (simp add: upt_rec)
  then show ?case using 2 by simp
qed simp

lemma verify_from_ge: "verify_from i bs = -1 \<or> int i \<le> verify_from i bs"
  by (induction i bs rule: verify_from.induct) auto

lemma verify_from_first:
  "verify_from i bs = int (i + m) \<longleftrightarrow>
     m < length bs \<and> bs ! m \<noteq> of_nat (i + m) \<and> (\<forall>j < m. bs ! j = of_nat (i + j))"
proof (induction i bs arbitrary: m rule: verify_from.induct)
  case (2 i b bs)
  show ?case
  proof (cases m)
    case 0
    then show ?thesis using verify_from_ge [of "Suc i" bs] by auto
  next
    case (Suc n)
    then show ?thesis using 2 [of n] by (auto simp: All_less_Suc2)
  qed
qed simp

text \<open>\<open>Verify\<close> of the sequential generator is exact: it returns -1 precisely on
  payloads that follow the pattern (\<open>byte(i)\<close> at index \<open>i\<close>, wrapping at 256), which the generator's own
  frames do, and otherwise the index of the first byte that deviates.\<close>

lemma sequential_verify_exact:
  "(Sequential_Verify p = -1 \<longleftrightarrow> p = map of_nat [0..<length p]) \<and>
   (Sequential_Verify p = int k \<longleftrightarrow>
      k < length p \<and> p ! k \<noteq> of_nat k \<and> take k p = map of_nat [0..<k]) \<and>
   (\<exists>f. Sequential_Next gs now sz = Some (f, gs + 1) \<and> Sequential_Verify (drop HeaderLen f) = -1)"
proof (intro conjI)
  show "Sequential_Verify p = -1 \<longleftrightarrow> p = map of_nat [0..<length p]"
    using verify_from_ok [of 0 p] by (simp add: Sequential_Verify_def)
  have "(\<forall>j < k. p ! j = of_nat j) \<longleftrightarrow> take k p = map of_nat [0..<k]" if "k < length p"
    using that by (auto simp: list_eq_iff_nth_eq)
  then show "Sequential_Verify p = int k \<longleftrightarrow> k < length p \<and> p ! k \<noteq> of_nat k \<and> take k p = map of_nat [0..<k]"
    using verify_from_first [of 0 p k] by (auto simp: Sequential_Verify_def)
  have "verify_from 0 (map of_nat [0..<n]) = -1" for n
    by (simp add: verify_from_ok)
  then show "\<exists>f. Sequential_Next gs now sz = Some (f, gs + 1) \<and> Sequential_Verify (drop HeaderLen f) = -1"
    by (simp add: Sequential_Next_eq Sequential_Verify_def HeaderLen_def frame_bytes_def)
qed

section \<open>Market ticks\<close>

lemma floor_one_ge: "1 \<le> sint (floor_one x)"
  by (simp add: floor_one_def)

definition feed_ok :: "MarketTickGenerator \<Rightarrow> bool" where
  \<comment> \<open>one positive price per instrument\<close>
  "feed_ok g \<longleftrightarrow> length (prices g) = length (universe g) \<and> list_all (\<lambda>p. 1 \<le> sint p) (prices g)"

lemma feed_ok_New: "list_all (\<lambda>inst. 1 \<le> sint (MidPrice inst)) u \<Longrightarrow> feed_ok (NewMarketTickGenerator u)"
  by (simp add: feed_ok_def NewMarketTickGenerator_def list_all_iff)

lemma feed_ok_DefaultUniverse: "feed_ok (NewMarketTickGenerator DefaultUniverse)"
  by (rule feed_ok_New) (simp add: universe_defs list_all_iff)

lemma feed_ok_NextTick: "feed_ok g \<Longrightarrow> NextTick g d now i = Some (t, g') \<Longrightarrow> feed_ok g'"
  by (auto simp: feed_ok_def NextTick_def Let_def list_all_length nth_list_update floor_one_ge split: if_splits)

lemma half_spread:
  assumes "1 \<le> sint (s :: i64)"
  shows "0 \<le> sint (i64_div s 2) \<and> sint (i64_div s 2) = sint s div 2"
proof -
  have "sint s < 2 ^ 63" using sint_lt [of s] by simp
  then show ?thesis using sint_i64_div2 [of "sint s"] assms
    by (simp add: signed_divide_int_def sgn_if)
qed

lemma sint_add_fits:
  "- (2 ^ 63) \<le> sint a + sint b \<Longrightarrow> sint a + sint b < 2 ^ 63 \<Longrightarrow> sint (a + b :: i64) = sint a + sint b"
  by (simp add: sint_word_ariths signed_take_bit_int_eq_self)

lemma sint_diff_fits:
  "- (2 ^ 63) \<le> sint a - sint b \<Longrightarrow> sint a - sint b < 2 ^ 63 \<Longrightarrow> sint (a - b :: i64) = sint a - sint b"
  by (simp add: sint_word_ariths signed_take_bit_int_eq_self)

lemma quote_around:
  assumes "1 \<le> sint m" "1 \<le> sint s" "sint m + sint s div 2 < 2 ^ 63"
  shows "sint (m - i64_div s 2) = sint m - sint s div 2" "sint (m + i64_div s 2) = sint m + sint s div 2"
proof -
  have h: "sint (i64_div s 2) = sint s div 2" "0 \<le> sint s div 2" "sint s div 2 < 2 ^ 63"
    using half_spread [OF assms(2)] sint_lt [of s] assms by auto
  show "sint (m - i64_div s 2) = sint m - sint s div 2"
    using assms h sint_lt [of m] sint_diff_fits [of m "i64_div s 2"] by simp
  show "sint (m + i64_div s 2) = sint m + sint s div 2"
    using assms h sint_add_fits [of m "i64_div s 2"] by simp
qed

text \<open>A tick of the market generator survives the whole path to a receiver: for an
  instrument of the universe \<open>NextTickEncoded\<close> returns an 88-byte frame whose header carries the
  generator's next sequence number and the time, whose payload decodes to the tick of the right
  instrument (by symbol hash and class), with a positive last price that becomes the instrument's
  current price, and, unless the quote leaves the \<open>int64\<close> range, with bid at most last at most ask
  symmetrically around it. No other instrument's price changes.\<close>

lemma market_tick_reaches_receiver:
  assumes "feed_ok g" and "i < length (universe g)"
  shows "\<exists>out g' t. NextTickEncoded g d now i = Some (out, g') \<and> length out = 88 \<and>
     Decode out = Some (Inr (\<lparr>SeqNum = mg_seq g + 1, SendNs = now, PayloadLen = 64, Payload = tick_bytes t\<rparr>, 88)) \<and>
     Tick_DecodeSlice (tick_bytes t) = Some t \<and> TickSeqNum t = mg_seq g + 1 \<and>
     TotalTicksGenerated g' = mg_seq g + 1 \<and>
     InstrHash t = SymbolHash (universe g ! i) \<and> TickClass t = InstClass (universe g ! i) \<and>
     1 \<le> sint (LastPrice t) \<and> CurrentPrice g' i = Some (LastPrice t) \<and>
     (\<forall>k. k \<noteq> i \<longrightarrow> CurrentPrice g' k = CurrentPrice g k) \<and>
     (let h = sint (floor_one (rawSpread d (LastPrice t) (SpreadBps (universe g ! i)))) div 2 in
        sint (LastPrice t) + h < 2 ^ 63 \<longrightarrow>
        sint (BidPrice t) = sint (LastPrice t) - h \<and> sint (AskPrice t) = sint (LastPrice t) + h \<and> 0 \<le> h)"
proof -
  define t where "t = fst (the (NextTick g d now i))"
  define g' where "g' = snd (the (NextTick g d now i))"
  have i: "i < length (prices g)" using assms by (simp add: feed_ok_def)
  have n: "NextTick g d now i = Some (t, g')"
    using assms(2) i by (simp add: NextTick_def Let_def t_def g'_def)
  have g': "prices g' = (prices g)[i := LastPrice t]" "mg_seq g' = mg_seq g + 1"
    and t: "TickSeqNum t = mg_seq g + 1" "Timestamp t = now" "InstrHash t = SymbolHash (universe g ! i)"
      "TickClass t = InstClass (universe g ! i)" "LastPrice t = floor_one (diffuse d (prices g ! i))"
    and q: "BidPrice t = LastPrice t - i64_div (floor_one (rawSpread d (LastPrice t) (SpreadBps (universe g ! i)))) 2"
      "AskPrice t = LastPrice t + i64_div (floor_one (rawSpread d (LastPrice t) (SpreadBps (universe g ! i)))) 2"
    using n assms(2) i by (auto simp: NextTick_def Let_def)
  have e: "NextTickEncoded g d now i = Some (frame_bytes (mg_seq g + 1) now (tick_bytes t), g')"
    by (simp add: NextTickEncoded_def n Tick_Encode_eq TickSize_def t)
  have dec: "Decode (frame_bytes (mg_seq g + 1) now (tick_bytes t)) =
      Some (Inr (\<lparr>SeqNum = mg_seq g + 1, SendNs = now, PayloadLen = 64, Payload = tick_bytes t\<rparr>, 88))"
    using Decode_frame_bytes [of "tick_bytes t" "mg_seq g + 1" now "[]"] by (simp add: MaxPayload_def)
  have l: "1 \<le> sint (LastPrice t)" by (simp add: t floor_one_ge)
  show ?thesis
    using e dec l t i quote_around [OF l floor_one_ge]
    by (intro exI [of _ "frame_bytes (mg_seq g + 1) now (tick_bytes t)"] exI [of _ g'] exI [of _ t])
       (auto simp: Tick_DecodeSlice_eq Tick_Decode_tick_bytes g' q CurrentPrice_def TotalTicksGenerated_def Let_def
          pos_imp_zdiv_nonneg_iff order_trans [OF _ floor_one_ge])
qed

text \<open>The floor of one micro on the spread does not keep bid and ask apart: half of it is zero.\<close>

lemma tight_spread_collapses:
  "NextTick g d now i = Some (t, g') \<Longrightarrow>
   sint (rawSpread d (LastPrice t) (SpreadBps (universe g ! i))) \<le> 1 \<Longrightarrow>
   BidPrice t = LastPrice t \<and> AskPrice t = LastPrice t"
  by (auto simp: NextTick_def Let_def floor_one_def i64_div_def signed_divide_int_def sgn_if split: if_splits
       dest!: order_antisym)

end
