(* ===== verification/Transport_Base.thy ===== *)
theory Transport_Base
  imports Prelude
begin

text \<open>
  What every protocol implementation shares: the sentinel errors and the statistics record of
  \<^verbatim>\<open>pkg/transport/interface.go\<close> and the embedded life-cycle fields of
  \<^verbatim>\<open>pkg/transport/base.go\<close>. A time stamp is an \<open>i64\<close> of nanoseconds and an argument where the
  code reads the clock.
\<close>

section \<open>Interface types\<close>

datatype transportError = ErrNotStarted | ErrAlreadyStarted | ErrClientNotFound | ErrBroadcastFailed

definition transportError_Error :: "transportError \<Rightarrow> string" where
  "transportError_Error e = (case e of
     ErrNotStarted \<Rightarrow> ''transport: not started''
   | ErrAlreadyStarted \<Rightarrow> ''transport: already started''
   | ErrClientNotFound \<Rightarrow> ''transport: client not found''
   | ErrBroadcastFailed \<Rightarrow> ''transport: broadcast failed'')"

text \<open>Latency, resource and life-cycle fields that no implementation sets stay at their zero value and
  are not fields here.\<close>

record Stats =
  st_Protocol :: string
  st_Connections :: int
  st_Sent :: u64
  st_Received :: u64
  st_Lost :: u64
  st_Duplicated :: u64
  st_Reordered :: u64
  st_BytesSent :: u64
  st_BytesRecv :: u64
  st_Uptime :: i64
  st_SnapshotAt :: i64

text \<open>The start-up parameters; of a handler only matters whether it is set, its calls are recorded by the
  transports as \<open>handler_call\<close>s.\<close>

record TransportConfig =
  cfg_ListenAddr :: string
  cfg_TLSCertDir :: string
  cfg_MaxConnections :: int
  cfg_ReadBufSize :: int
  cfg_WriteBufSize :: int
  cfg_WriteTimeout :: i64
  cfg_ReadTimeout :: i64
  cfg_OnRecv :: bool
  cfg_OnConnect :: bool
  cfg_OnDisconnect :: bool

datatype handler_call =
    CallConnect string
  | CallRecv string "u8 list" i64
  | CallDisconnect string

text \<open>A call of a handler that may not be set.\<close>

definition calls_if :: "bool \<Rightarrow> handler_call \<Rightarrow> handler_call list" where
  "calls_if b c = (if b then [c] else [])"

section \<open>Life cycle\<close>

record BaseTransport =
  bt_protocol :: string
  bt_startTime :: i64
  bt_started :: bool

definition zero_BaseTransport :: BaseTransport where
  "zero_BaseTransport = \<lparr>bt_protocol = [], bt_startTime = 0, bt_started = False\<rparr>"

definition SetProtocol :: "BaseTransport \<Rightarrow> string \<Rightarrow> BaseTransport" where
  "SetProtocol b name = b\<lparr>bt_protocol := name\<rparr>"

definition Base_Protocol :: "BaseTransport \<Rightarrow> string" where "Base_Protocol b = bt_protocol b"

definition MarkStarted :: "BaseTransport \<Rightarrow> i64 \<Rightarrow> BaseTransport" where
  "MarkStarted b now = b\<lparr>bt_startTime := now, bt_started := True\<rparr>"

definition MarkStopped :: "BaseTransport \<Rightarrow> BaseTransport" where
  "MarkStopped b = b\<lparr>bt_started := False\<rparr>"

definition IsStarted :: "BaseTransport \<Rightarrow> bool" where "IsStarted b = bt_started b"

definition Uptime :: "BaseTransport \<Rightarrow> i64 \<Rightarrow> i64" where
  "Uptime b now = (if \<not> bt_started b then 0 else now - bt_startTime b)"

definition BaseStats :: "BaseTransport \<Rightarrow> i64 \<Rightarrow> Stats" where
  "BaseStats b now =
     \<lparr>st_Protocol = bt_protocol b, st_Connections = 0, st_Sent = 0, st_Received = 0, st_Lost = 0,
      st_Duplicated = 0, st_Reordered = 0, st_BytesSent = 0, st_BytesRecv = 0,
      st_Uptime = (if bt_started b then now - bt_startTime b else 0), st_SnapshotAt = now\<rparr>"

lemmas base_defs = SetProtocol_def MarkStarted_def MarkStopped_def IsStarted_def Uptime_def BaseStats_def
  zero_BaseTransport_def Base_Protocol_def

lemma IsStarted_life [simp]:
  "IsStarted (MarkStarted b now)" "\<not> IsStarted (MarkStopped b)" "IsStarted (SetProtocol b p) = IsStarted b"
  "\<not> IsStarted zero_BaseTransport"
  by (simp_all add: base_defs)

lemma Protocol_life [simp]:
  "Base_Protocol (MarkStarted b now) = Base_Protocol b" "Base_Protocol (MarkStopped b) = Base_Protocol b"
  "Base_Protocol (SetProtocol b p) = p"
  by (simp_all add: base_defs)

text \<open>\<open>Uptime\<close> and \<open>BaseStats\<close> agree, and a stopped transport reports none.\<close>

lemma BaseStats_uptime: "st_Uptime (BaseStats b now) = Uptime b now" "st_Protocol (BaseStats b now) = Base_Protocol b"
  by (simp_all add: base_defs)

lemma Uptime_life [simp]:
  "Uptime (MarkStarted b t) now = now - t" "Uptime (MarkStopped b) now = 0"
  by (simp_all add: base_defs)

end
