(* ===== verification/Collector.thy ===== *)
theory Collector
  imports Prelude
begin

text \<open>
  Benchmark results and where they are kept: the result records of
  \<^verbatim>\<open>pkg/collector/collector.go\<close>, the in-memory collector of \<^verbatim>\<open>pkg/collector/memory.go\<close> and the
  query \<^verbatim>\<open>pkg/collector/postgres.go\<close> builds in \<open>List\<close>. The database itself is not modelled.
\<close>

section \<open>Results\<close>

text \<open>The descriptive fields \<open>GoVersion\<close>, \<open>OSArch\<close>, \<open>CPUModel\<close> and \<open>Config\<close> are left out.\<close>

record ClientStat =
  ct_ClientID :: string
  ct_MsgRecv :: i64
  ct_Delivered :: i64
  ct_Lost :: i64
  ct_Duplicated :: i64
  ct_Reordered :: i64
  ct_LossRatePct :: rat
  ct_FirstSeq :: u64
  ct_LastSeq :: u64
  ct_LatP50Ns :: i64
  ct_LatP99Ns :: i64
  ct_LatMaxNs :: i64

record RunResult =
  rr_RunID :: string
  rr_Protocol :: string
  rr_Scenario :: string
  rr_MsgSize :: int
  rr_GeneratorType :: string
  rr_NetProfile :: string
  rr_BroadcastStrat :: string
  rr_ReceiverCount :: int
  rr_SenderCount :: int
  rr_DurationS :: int
  rr_WarmupS :: int
  rr_StartedAt :: i64
  rr_EndedAt :: i64
  rr_LatMinNs :: i64
  rr_LatAvgNs :: i64
  rr_LatP50Ns :: i64
  rr_LatP95Ns :: i64
  rr_LatP99Ns :: i64
  rr_LatP999Ns :: i64
  rr_LatMaxNs :: i64
  rr_LatStddevNs :: i64
  rr_MsgsPerSec :: rat
  rr_BytesPerSec :: rat
  rr_TotalMsgsSent :: i64
  rr_TotalMsgsRecv :: i64
  rr_MsgsLost :: i64
  rr_MsgsReordered :: i64
  rr_MsgsDuplicated :: i64
  rr_LossRatePct :: rat
  rr_CPUPctAvg :: rat
  rr_CPUPctP99 :: rat
  rr_MemBytesAvg :: i64
  rr_MemBytesMax :: i64
  rr_GoroutinesAvg :: int
  rr_GoroutinesMax :: int
  rr_FDCountAvg :: int
  rr_FDCountMax :: int
  rr_HandshakeAvgNs :: i64
  rr_HandshakeP99Ns :: i64
  rr_ReconnectAvgNs :: i64
  rr_ReconnectP99Ns :: i64
  rr_PerClient :: "ClientStat list"

section \<open>The in-memory collector\<close>

type_synonym 'r MemoryCollector = "'r list"

definition NewMemoryCollector :: "'r MemoryCollector" where "NewMemoryCollector = []"

definition Memory_Store :: "'r MemoryCollector \<Rightarrow> 'r \<Rightarrow> 'r MemoryCollector" where
  "Memory_Store m r = m @ [r]"

definition list_matches :: "string \<Rightarrow> string \<Rightarrow> RunResult \<Rightarrow> bool" where
  "list_matches proto scen r \<longleftrightarrow> \<not> (proto \<noteq> [] \<and> rr_Protocol r \<noteq> proto) \<and> \<not> (scen \<noteq> [] \<and> rr_Scenario r \<noteq> scen)"

text \<open>The loop of \<open>List\<close>: \<open>n\<close> entries are left to visit, from the end, and \<open>out\<close> holds the matches.\<close>

fun list_loop :: "RunResult list \<Rightarrow> string \<Rightarrow> string \<Rightarrow> int \<Rightarrow> nat \<Rightarrow> RunResult list \<Rightarrow> RunResult list" where
  "list_loop results proto scen lm 0 out = out"
| "list_loop results proto scen lm (Suc i) out =
     (let r = results ! i in
      if \<not> list_matches proto scen r then list_loop results proto scen lm i out
      else if lm > 0 \<and> int (length (out @ [r])) \<ge> lm then out @ [r]
      else list_loop results proto scen lm i (out @ [r]))"

definition Memory_List :: "RunResult MemoryCollector \<Rightarrow> string \<Rightarrow> string \<Rightarrow> int \<Rightarrow> RunResult list" where
  "Memory_List m proto scen lm = list_loop m proto scen lm (length m) []"

definition Memory_All :: "'r MemoryCollector \<Rightarrow> 'r list" where "Memory_All m = m"

text \<open>The limit as \<open>List\<close> reads it: none when it is not positive.\<close>

definition limited :: "int \<Rightarrow> 'a list \<Rightarrow> 'a list" where
  "limited lm xs = (if lm > 0 then take (nat lm) xs else xs)"

lemma list_loop_eq:
  assumes "i \<le> length rs" and "lm \<le> 0 \<or> int (length out) < lm"
  shows "list_loop rs p s lm i out = limited lm (out @ filter (list_matches p s) (rev (take i rs)))"
  using assms
proof (induction i arbitrary: out)
  case 0
  then show ?case by (auto simp: limited_def)
next
  case (Suc i)
  have t: "take (Suc i) rs = take i rs @ [rs ! i]" using Suc.prems by (simp add: take_Suc_conv_app_nth)
  show ?case
  proof (cases "list_matches p s (rs ! i) \<and> lm > 0 \<and> int (length out) + 1 \<ge> lm")
    case True
    then have "lm = int (length out) + 1" using Suc.prems by linarith
    then have "nat lm = Suc (length out)" by simp
    then show ?thesis using True t by (simp add: Let_def limited_def)
  next
    case False
    then have "lm \<le> 0 \<or> int (length (out @ [rs ! i])) < lm \<or> \<not> list_matches p s (rs ! i)" by auto
    then show ?thesis using Suc False t by (auto simp: Let_def)
  qed
qed

section \<open>The query of the PostgreSQL collector\<close>

definition list_query :: "string \<Rightarrow> string \<Rightarrow> int \<Rightarrow> string \<times> (int + string) list" where
  \<comment> \<open>the text of the \<open>WHERE\<close> clause and the arguments; the argument index never exceeds 3\<close>
  "list_query proto scen lm =
     (let lm' = (if lm \<le> 0 then 100 else lm);
          args = [Inl lm'];
          (wh, args, argIdx) =
            (if proto \<noteq> [] then ('' AND r.protocol = $'' @ [digit_char 2], args @ [Inr proto], 3) else ([], args, 2));
          (wh, args) =
            (if scen \<noteq> [] then (wh @ '' AND r.scenario = $'' @ [digit_char argIdx], args @ [Inr scen]) else (wh, args))
      in (wh, args))"

text \<open>The four queries, with each placeholder at the position of its argument.\<close>

lemma list_query_cases:
  "list_query [] [] lm = ([], [Inl (if lm \<le> 0 then 100 else lm)])"
  "p \<noteq> [] \<Longrightarrow> list_query p [] lm = ('' AND r.protocol = $2'', [Inl (if lm \<le> 0 then 100 else lm), Inr p])"
  "s \<noteq> [] \<Longrightarrow> list_query [] s lm = ('' AND r.scenario = $2'', [Inl (if lm \<le> 0 then 100 else lm), Inr s])"
  "p \<noteq> [] \<Longrightarrow> s \<noteq> [] \<Longrightarrow> list_query p s lm =
     ('' AND r.protocol = $2 AND r.scenario = $3'', [Inl (if lm \<le> 0 then 100 else lm), Inr p, Inr s])"
  by (simp_all add: list_query_def Let_def digit_char_def)

section \<open>Properties\<close>

text \<open>The index loop of the in-memory \<open>List\<close> is equivalent to filtering the stored results, newest
  first, and keeping the first \<open>limit\<close> of them, all when \<open>limit\<close> is not positive; so a result just stored comes
  first in every listing that it matches, and the listings of other filters do not change.\<close>

lemma memory_list_newest_first:
  "Memory_List m p s lm = limited lm (filter (list_matches p s) (rev m)) \<and>
   Memory_List (Memory_Store m r) p s lm =
     (if list_matches p s r then limited lm (r # Memory_List m p s 0) else Memory_List m p s lm)"
  using list_loop_eq [of "length m" m lm "[]" p s] list_loop_eq [of "length m" m 0 "[]" p s]
    list_loop_eq [of "Suc (length m)" "m @ [r]" lm "[]" p s]
  by (auto simp: Memory_List_def Memory_Store_def limited_def)

end
