(* ===== verification/Scenario.thy ===== *)
theory Scenario
  imports Recorder Generators Collector Transport_Base "HOL-Library.Char_ord" "HOL-Library.List_Lexorder"
begin

text \<open>
  The benchmark runner of \<^verbatim>\<open>internal/scenarios\<close>: registered transport factories, the
  handler that routes client receptions into the recorder, the broadcast loop of the warm-up
  and measurement phases, the per-client loss report and the five scenario presets.

  The transport is a parameter (the operations of the \<open>Transport\<close> interface on a state of any
  type). A phase is the list of what happens until its context ends: iterations of the
  broadcast loop, and receptions, which the client goroutines report in between; a reception is one step, so
  the reset between the phases and the snapshots at the end do not fall into the middle of one. The clock, the
  rate limiter and the readings of the operating system are in these events or in the
  environment. \<open>None\<close> is a panic.
\<close>

section \<open>Configuration\<close>

record ScenarioConfig =
  sc_Protocol :: string
  sc_Scenario :: string
  sc_ReceiverCount :: int
  sc_SenderCount :: int
  sc_Duration :: int
  sc_WarmupDuration :: int
  sc_MsgSize :: int
  sc_GeneratorType :: string
  sc_RateLimit :: int
  sc_NetworkProfile :: string
  sc_BroadcastStrat :: string
  sc_ServerAddr :: string
  sc_ServerPort :: int
  sc_LogLevel :: string
  sc_TraceWriter :: bool  \<comment> \<open>whether one is set\<close>

definition Second :: int where "Second = 1000000000"

definition scenarioA :: "ScenarioConfig \<Rightarrow> ScenarioConfig" where
  "scenarioA cfg = cfg\<lparr>sc_Scenario := ''A'', sc_ReceiverCount := 1,
     sc_Duration := (if sc_Duration cfg = 0 then 60 * Second else sc_Duration cfg),
     sc_WarmupDuration := (if sc_WarmupDuration cfg = 0 then 5 * Second else sc_WarmupDuration cfg)\<rparr>"

definition scenarioB :: "ScenarioConfig \<Rightarrow> ScenarioConfig" where
  "scenarioB cfg = cfg\<lparr>sc_Scenario := ''B'', sc_ReceiverCount := 100,
     sc_Duration := (if sc_Duration cfg = 0 then 60 * Second else sc_Duration cfg),
     sc_WarmupDuration := (if sc_WarmupDuration cfg = 0 then 5 * Second else sc_WarmupDuration cfg)\<rparr>"

definition scenarioC :: "ScenarioConfig \<Rightarrow> ScenarioConfig" where
  "scenarioC cfg = cfg\<lparr>sc_Scenario := ''C'', sc_ReceiverCount := 1000,
     sc_Duration := (if sc_Duration cfg = 0 then 120 * Second else sc_Duration cfg),
     sc_WarmupDuration := (if sc_WarmupDuration cfg = 0 then 10 * Second else sc_WarmupDuration cfg)\<rparr>"

definition scenarioD :: "ScenarioConfig \<Rightarrow> ScenarioConfig" where
  "scenarioD cfg = cfg\<lparr>sc_Scenario := ''D'', sc_ReceiverCount := 10000,
     sc_RateLimit := (if sc_RateLimit cfg = 0 then 50000 else sc_RateLimit cfg),
     sc_Duration := (if sc_Duration cfg = 0 then 180 * Second else sc_Duration cfg),
     sc_WarmupDuration := (if sc_WarmupDuration cfg = 0 then 15 * Second else sc_WarmupDuration cfg)\<rparr>"

definition kubernetesAvailable :: "string \<Rightarrow> bool \<Rightarrow> bool" where
  \<comment> \<open>the environment variable, and whether the service account token can be opened\<close>
  "kubernetesAvailable kubeconfig token = (if kubeconfig \<noteq> [] then True else token)"

datatype run_error = UnknownProtocol string | CreateTransport | StartTransport | KubernetesMode

definition scenarioE :: "string \<Rightarrow> bool \<Rightarrow> ScenarioConfig \<Rightarrow> run_error + ScenarioConfig" where
  "scenarioE kubeconfig token cfg =
     (let cfg = cfg\<lparr>sc_Scenario := ''E'',
            sc_ReceiverCount := (if sc_ReceiverCount cfg = 0 then 100000 else sc_ReceiverCount cfg),
            sc_Duration := (if sc_Duration cfg = 0 then 300 * Second else sc_Duration cfg)\<rparr>
      in if \<not> kubernetesAvailable kubeconfig token
         then Inr (cfg\<lparr>sc_ReceiverCount := 1000, sc_Scenario := ''E-local''\<rparr>)
         else Inl KubernetesMode)"

section \<open>Generators and transports as the runner sees them\<close>

datatype 'g gen_closure =
    JSONGen 'g int
  | BinaryGen int
  | SequentialGen int
  | MarketGen MarketTickGenerator "Instrument list" nat
  | RandomGen 'g int

definition makeGenerator :: "'g \<Rightarrow> ScenarioConfig \<Rightarrow> 'g gen_closure" where
  \<comment> \<open>\<open>seed\<close> is the state of the generator's fresh random source\<close>
  "makeGenerator seed cfg =
     (if sc_GeneratorType cfg = ''json'' then JSONGen seed (sc_MsgSize cfg)
      else if sc_GeneratorType cfg = ''binary'' then BinaryGen (sc_MsgSize cfg)
      else if sc_GeneratorType cfg = ''sequential'' then SequentialGen (sc_MsgSize cfg)
      else if sc_GeneratorType cfg = ''market''
        then MarketGen (NewMarketTickGenerator DefaultUniverse) DefaultUniverse 0
      else RandomGen seed (sc_MsgSize cfg))"

record ('h, 'g, 'x) run_env =
  env_hdr :: "'h hdr_lib"
  env_marshal :: "jsonPayload \<Rightarrow> bytes option"
  env_uint64 :: "'g rng"
  env_Start :: "'x \<Rightarrow> bool \<times> 'x"      \<comment> \<open>True: an error\<close>
  env_Broadcast :: "'x \<Rightarrow> bytes \<Rightarrow> bool \<times> 'x"
  env_Stop :: "'x \<Rightarrow> 'x"
  env_Stats :: "'x \<Rightarrow> Stats"
  env_order :: "'h conn_order"

fun gen_next ::
  "('h, 'g, 'x) run_env \<Rightarrow> u64 \<Rightarrow> i64 \<Rightarrow> draws \<Rightarrow> 'g gen_closure \<Rightarrow> (bytes \<times> u64 \<times> 'g gen_closure) option" where
  "gen_next env gs now d (JSONGen g sz) = do {
     (out, gs', g') \<leftarrow> JSON_Next (env_marshal env) (env_uint64 env) gs now g sz; Some (out, gs', JSONGen g' sz) }"
| "gen_next env gs now d (BinaryGen sz) = do {
     (out, gs') \<leftarrow> Binary_Next gs now sz; Some (out, gs', BinaryGen sz) }"
| "gen_next env gs now d (SequentialGen sz) = do {
     (out, gs') \<leftarrow> Sequential_Next gs now sz; Some (out, gs', SequentialGen sz) }"
| "gen_next env gs now d (MarketGen g u idx) = do {
     (out, g') \<leftarrow> NextTickEncoded g d now (idx mod length u); Some (out, gs, MarketGen g' u (idx + 1)) }"
| "gen_next env gs now d (RandomGen g sz) = do {
     (out, gs', g') \<leftarrow> Random_Next (env_uint64 env) gs now g sz; Some (out, gs', RandomGen g' sz) }"

section \<open>Factories\<close>

type_synonym 'x factories = "(string, ScenarioConfig \<Rightarrow> 'x option) gomap"

definition no_factories :: "'x factories" where "no_factories = Some []"

definition Register :: "'x factories \<Rightarrow> string \<Rightarrow> (ScenarioConfig \<Rightarrow> 'x option) \<Rightarrow> 'x factories option" where
  "Register facs name f = gomap_put facs name f"

section \<open>Receptions\<close>

type_synonym trace_row = "string \<times> ConnID \<times> u64 \<times> i64 \<times> i64 \<times> i64"

record ('h, 'g, 'x) run_state =
  rn_recorder :: "'h Recorder"
  rn_gen :: "'g gen_closure"
  rn_globalSeq :: u64
  rn_srv :: 'x
  rn_traceOn :: bool
  rn_trace :: "trace_row list"

definition traceCap :: nat where "traceCap = 5000000"

text \<open>The counter \<open>traceCnt\<close> is the number of rows written.\<close>

definition RecvHandler ::
  "('h, 'g, 'x) run_env \<Rightarrow> ScenarioConfig \<Rightarrow> ('h, 'g, 'x) run_state \<Rightarrow> ConnID \<Rightarrow> bytes \<Rightarrow> i64 \<Rightarrow> ('h, 'g, 'x) run_state option"
where
  "RecvHandler env cfg st cid data recvNs = do {
     h \<leftarrow> DecodeHeader data;
     case h of
       Inl err \<Rightarrow> Some st
     | Inr (seq, sendNs, _) \<Rightarrow> do {
         r \<leftarrow> RecordRecvFrom (env_hdr env) (rn_recorder st) cid seq sendNs (length data) recvNs;
         let st = st\<lparr>rn_recorder := r\<rparr>;
         Some (if sc_TraceWriter cfg \<and> rn_traceOn st \<and> length (rn_trace st) < traceCap
               then st\<lparr>rn_trace := rn_trace st @
                        [(sc_Protocol cfg, cid, seq, sendNs, recvNs, i64_div (recvNs - sendNs) 1000)]\<rparr>
               else st)
       }
   }"

section \<open>The broadcast loop\<close>

datatype loop_event =
    Iter i64 draws            \<comment> \<open>an iteration that neither the context nor the limiter ended\<close>
  | LimiterError              \<comment> \<open>\<open>limiter.Wait\<close> returns an error\<close>
  | Received ConnID bytes i64 \<comment> \<open>a client goroutine calls the handler\<close>
  | Sampled os_reading        \<comment> \<open>the recorder's resource sampler ticks\<close>

fun broadcastLoop ::
  "('h, 'g, 'x) run_env \<Rightarrow> ScenarioConfig \<Rightarrow> bool \<Rightarrow> u64 \<Rightarrow> loop_event list \<Rightarrow> ('h, 'g, 'x) run_state \<Rightarrow>
   ('h, 'g, 'x) run_state option"
where
  "broadcastLoop env cfg warmup sent [] st = Some st"
| "broadcastLoop env cfg warmup sent (LimiterError # es) st =
     (if sc_RateLimit cfg > 0 then Some st else broadcastLoop env cfg warmup sent es st)"
| "broadcastLoop env cfg warmup sent (Received cid data recvNs # es) st = do {
     st \<leftarrow> RecvHandler env cfg st cid data recvNs;
     broadcastLoop env cfg warmup sent es st }"
| "broadcastLoop env cfg warmup sent (Sampled r # es) st =
     broadcastLoop env cfg warmup sent es
       (if rs_loops (resources (rn_recorder st)) > 0
        then st\<lparr>rn_recorder := (rn_recorder st)\<lparr>resources := loop_tick (resources (rn_recorder st)) r\<rparr>\<rparr> else st)"
| "broadcastLoop env cfg warmup sent (Iter now d # es) st = do {
     (data, gs, gen) \<leftarrow> gen_next env (rn_globalSeq st) now d (rn_gen st);
     let (err, x) = env_Broadcast env (rn_srv st) data;
     let st = st\<lparr>rn_globalSeq := gs, rn_gen := gen, rn_srv := x\<rparr>;
     if err then broadcastLoop env cfg warmup sent es st
     else do {
       let n = sent + 1;
       let st = (if \<not> warmup then st\<lparr>rn_recorder := RecordSend (rn_recorder st) n (length data)\<rparr> else st);
       broadcastLoop env cfg warmup n es st } }"

section \<open>The per-client report\<close>

definition globalMax :: "ConnSnapshot list \<Rightarrow> u64" where
  "globalMax conns = fold (\<lambda>c m. if sn_LastSeq c > m then sn_LastSeq c else m) conns 0"

definition client_of :: "u64 \<Rightarrow> ConnSnapshot \<Rightarrow> ClientStat" where
  "client_of gmax c =
     (let (lost, lossPct) =
        (if sn_Delivered c > 0 \<and> sn_FirstSeq c > 0 then
           (let expected = (gmax - sn_FirstSeq c) + 1;
                l = expected - sn_Delivered c;
                lost = (if sint l < 0 then 0 else l)
            in (lost, if sint expected > 0 then of_int (sint lost) / of_int (sint expected) * 100 else 0))
         else (0, 0))
      in \<lparr>ct_ClientID = sn_ConnID c, ct_MsgRecv = sn_MsgRecv c, ct_Delivered = sn_Delivered c, ct_Lost = lost,
          ct_Duplicated = sn_Duplicated c, ct_Reordered = sn_Reordered c, ct_LossRatePct = lossPct,
          ct_FirstSeq = sn_FirstSeq c, ct_LastSeq = sn_LastSeq c, ct_LatP50Ns = hs_P50 (sn_Latency c),
          ct_LatP99Ns = hs_P99 (sn_Latency c), ct_LatMaxNs = hs_Max (sn_Latency c)\<rparr>)"

definition buildPerClient :: "ConnSnapshot list \<Rightarrow> ClientStat list" where
  \<comment> \<open>the connection identifiers are map keys, so the order of the sort is the only one\<close>
  "buildPerClient conns = (if conns = [] then [] else
     map (client_of (globalMax conns)) (sort_key sn_ConnID conns))"

section \<open>A run\<close>

definition NewRunner :: "'h hdr_lib \<Rightarrow> ScenarioConfig \<Rightarrow> i64 \<Rightarrow> 'h Recorder option" where
  "NewRunner lib cfg now = NewRecorder lib
     \<lparr>cfg_Label = sc_Protocol cfg @ ''/scenario-'' @ sc_Scenario cfg @ ''/'' @ dec_int (sc_MsgSize cfg) @ ''B/'' @
                  sc_NetworkProfile cfg,
      cfg_Protocol = sc_Protocol cfg, cfg_Scenario = sc_Scenario cfg, cfg_SequenceWindowSize = 0,
      cfg_SampleInterval = 0\<rparr> now"

record run_times =
  at_started :: i64
  at_reset :: i64
  at_reset_wall :: rat
  at_reset_cpu :: cpuTime
  at_start :: i64
  at_start_wall :: rat
  at_start_cpu :: cpuTime
  at_ended :: i64
  at_snapshot :: i64

definition loss_summary :: "ClientStat list \<Rightarrow> Stats \<Rightarrow> RecorderSnapshot \<Rightarrow> i64 \<times> rat" where
  "loss_summary perClient stats snap =
     (if perClient \<noteq> [] then
        (sum_list (map ct_Lost perClient), sum_list (map ct_LossRatePct perClient) / of_nat (length perClient))
      else
        (st_Lost stats,
         let s = rs_MsgSent snap in
         if sint s > 0 then of_nat (unat (Lost (rs_Seq snap))) / of_int (sint s) * 100 else 0))"

definition int32_of :: "int \<Rightarrow> int" where "int32_of i = sint (word_of_int i :: 32 word)"

definition build_result ::
  "ScenarioConfig \<Rightarrow> run_times \<Rightarrow> RecorderSnapshot \<Rightarrow> Stats \<Rightarrow> ClientStat list \<Rightarrow> RunResult" where
  "build_result cfg tm snap stats perClient =
     (let (totalLost, lossRatePct) = loss_summary perClient stats snap in
      \<lparr>rr_RunID = [], rr_Protocol = sc_Protocol cfg, rr_Scenario = sc_Scenario cfg, rr_MsgSize = sc_MsgSize cfg,
       rr_GeneratorType = sc_GeneratorType cfg, rr_NetProfile = sc_NetworkProfile cfg,
       rr_BroadcastStrat = sc_BroadcastStrat cfg, rr_ReceiverCount = sc_ReceiverCount cfg,
       rr_SenderCount = sc_SenderCount cfg, rr_DurationS = sc_Duration cfg sdiv Second,
       rr_WarmupS = sc_WarmupDuration cfg sdiv Second, rr_StartedAt = at_started tm, rr_EndedAt = at_ended tm,
       rr_LatMinNs = hs_Min (rs_Latency snap), rr_LatAvgNs = hs_Mean (rs_Latency snap),
       rr_LatP50Ns = hs_P50 (rs_Latency snap), rr_LatP95Ns = hs_P95 (rs_Latency snap),
       rr_LatP99Ns = hs_P99 (rs_Latency snap), rr_LatP999Ns = hs_P999 (rs_Latency snap),
       rr_LatMaxNs = hs_Max (rs_Latency snap), rr_LatStddevNs = hs_StdDev (rs_Latency snap),
       rr_MsgsPerSec = rs_MsgPerSec snap, rr_BytesPerSec = rs_BytesPerSec snap,
       rr_TotalMsgsSent = rs_MsgSent snap, rr_TotalMsgsRecv = rs_MsgRecv snap,
       rr_MsgsLost = totalLost, rr_MsgsReordered = Reordered (rs_Seq snap),
       rr_MsgsDuplicated = Duplicated (rs_Seq snap), rr_LossRatePct = lossRatePct,
       rr_CPUPctAvg = CPUAvg (rs_Resources snap), rr_CPUPctP99 = CPUP99 (rs_Resources snap),
       rr_MemBytesAvg = MemAvg (rs_Resources snap), rr_MemBytesMax = MemMax (rs_Resources snap),
       rr_GoroutinesAvg = int32_of (GoroutineAvg (rs_Resources snap)),
       rr_GoroutinesMax = int32_of (GoroutineMax (rs_Resources snap)),
       rr_FDCountAvg = int32_of (FDAvg (rs_Resources snap)), rr_FDCountMax = int32_of (FDMax (rs_Resources snap)),
       rr_HandshakeAvgNs = hs_Mean (rs_Handshake snap), rr_HandshakeP99Ns = hs_P99 (rs_Handshake snap),
       rr_ReconnectAvgNs = hs_Mean (rs_Reconnect snap), rr_ReconnectP99Ns = hs_P99 (rs_Reconnect snap),
       rr_PerClient = perClient\<rparr>)"

text \<open>The two phases of a run on a started transport. Stopping the recorder may panic or block
  forever; both are \<open>None\<close> here.\<close>

definition run_phases ::
  "('h, 'g, 'x) run_env \<Rightarrow> ScenarioConfig \<Rightarrow> run_times \<Rightarrow> loop_event list \<Rightarrow> loop_event list \<Rightarrow>
   ('h, 'g, 'x) run_state \<Rightarrow> ('h, 'g, 'x) run_state option"
where
  "run_phases env cfg tm warm meas st = do {
     st \<leftarrow> (if sc_WarmupDuration cfg > 0 then broadcastLoop env cfg True 0 warm st else Some st);
     let r = Recorder_Reset (env_hdr env) (rn_recorder st) (at_reset tm) (at_reset_wall tm) (at_reset_cpu tm);
     let r = Recorder_Start r (at_start tm) (at_start_wall tm) (at_start_cpu tm);
     let st = st\<lparr>rn_recorder := r, rn_traceOn := True\<rparr>;
     st \<leftarrow> broadcastLoop env cfg False 0 meas st;
     r \<leftarrow> (case Recorder_Stop (rn_recorder st) of None \<Rightarrow> None | Some r \<Rightarrow> r);
     Some (st\<lparr>rn_traceOn := False, rn_recorder := r\<rparr>)
   }"

definition Run ::
  "('h, 'g, 'x) run_env \<Rightarrow> 'x factories \<Rightarrow> ScenarioConfig \<Rightarrow> 'h Recorder \<Rightarrow> 'g \<Rightarrow> u64 \<Rightarrow> run_times \<Rightarrow>
   loop_event list \<Rightarrow> loop_event list \<Rightarrow> ((run_error + RunResult) \<times> 'x option \<times> trace_row list) option"
where
  \<comment> \<open>the result, the state the transport is left in (if there is one), and the trace\<close>
  "Run env facs cfg rec seed globalSeq tm warm meas =
     (case gomap_get facs (sc_Protocol cfg) of
        None \<Rightarrow> Some (Inl (UnknownProtocol (sc_Protocol cfg)), None, [])
      | Some factory \<Rightarrow>
     (case factory cfg of
        None \<Rightarrow> Some (Inl CreateTransport, None, [])
      | Some x \<Rightarrow>
     (case env_Start env x of
        (True, x) \<Rightarrow> Some (Inl StartTransport, Some x, [])
      | (False, x) \<Rightarrow> do {
          st \<leftarrow> run_phases env cfg tm warm meas
                \<lparr>rn_recorder = rec, rn_gen = makeGenerator seed cfg, rn_globalSeq = globalSeq, rn_srv = x,
                 rn_traceOn = False, rn_trace = []\<rparr>;
          let snap = Recorder_Snapshot (env_hdr env) (env_order env) (rn_recorder st) (at_snapshot tm);
          let perClient = buildPerClient (ConnSnapshots (env_hdr env) (env_order env) (rn_recorder st));
          Some (Inr (build_result cfg tm snap (env_Stats env (rn_srv st)) perClient),
                Some (env_Stop env (rn_srv st)), rn_trace st)
        })))"

section \<open>Generators always return\<close>

definition gen_ok :: "'g gen_closure \<Rightarrow> bool" where
  "gen_ok c = (case c of MarketGen g u idx \<Rightarrow> feed_ok g \<and> universe g = u \<and> u \<noteq> [] | _ \<Rightarrow> True)"

lemma gen_ok_makeGenerator: "gen_ok (makeGenerator seed cfg)"
  by (simp add: gen_ok_def makeGenerator_def feed_ok_DefaultUniverse)
     (simp add: NewMarketTickGenerator_def universe_size flip: length_0_conv)

lemma NextTick_total: "feed_ok g \<Longrightarrow> i < length (universe g) \<Longrightarrow>
   \<exists>t g'. NextTick g d now i = Some (t, g') \<and> universe g' = universe g"
  by (auto simp: NextTick_def Let_def feed_ok_def)

lemma gen_next_total:
  assumes "gen_ok c"
  shows "\<exists>out gs' c'. gen_next env gs now d c = Some (out, gs', c') \<and> gen_ok c'"
proof (cases c)
  case (JSONGen g sz)
  obtain p g' where "JSON_Next (env_marshal env) (env_uint64 env) gs now g sz = Some (frame_bytes (gs + 1) now p, gs + 1, g')"
    using JSON_Next_eq [of "env_marshal env" "env_uint64 env" gs now g sz] by (elim exE conjE) (rule that)
  then show ?thesis using JSONGen by (simp add: gen_ok_def)
next
  case (MarketGen g u idx)
  then have "idx mod length u < length (universe g)" using assms by (simp add: gen_ok_def)
  moreover have ok: "feed_ok g" "universe g = u" "u \<noteq> []" using assms MarketGen by (simp_all add: gen_ok_def)
  ultimately obtain t g' where t: "NextTick g d now (idx mod length u) = Some (t, g')" "universe g' = universe g"
    using NextTick_total [of g "idx mod length u" d now] by (auto intro: that)
  then show ?thesis using MarketGen ok feed_ok_NextTick [OF ok(1) t(1)]
    by (simp add: NextTickEncoded_def gen_ok_def Tick_Encode_eq TickSize_def)
qed (auto simp: gen_ok_def Binary_Next_eq Sequential_Next_eq Random_Next_eq)

section \<open>What a phase does to the recorder\<close>

fun loop_iters :: "ScenarioConfig \<Rightarrow> loop_event list \<Rightarrow> (i64 \<times> draws) list" where
  "loop_iters cfg [] = []"
| "loop_iters cfg (LimiterError # es) = (if sc_RateLimit cfg > 0 then [] else loop_iters cfg es)"
| "loop_iters cfg (Iter now d # es) = (now, d) # loop_iters cfg es"
| "loop_iters cfg (_ # es) = loop_iters cfg es"

text \<open>What a phase should send, with no recorder and no loop: the messages the generator gives for the
  iterations, and then what \<open>Broadcast\<close> answers to each of these messages in turn (True: an error).\<close>

fun phase_messages ::
  "('h, 'g, 'x) run_env \<Rightarrow> u64 \<Rightarrow> 'g gen_closure \<Rightarrow> (i64 \<times> draws) list \<Rightarrow> (bytes list \<times> u64 \<times> 'g gen_closure) option"
where
  "phase_messages env gs gen [] = Some ([], gs, gen)"
| "phase_messages env gs gen ((now, d) # its) = do {
     (data, gs, gen) \<leftarrow> gen_next env gs now d gen;
     (datas, gs, gen) \<leftarrow> phase_messages env gs gen its;
     Some (data # datas, gs, gen) }"

fun broadcast_all :: "('h, 'g, 'x) run_env \<Rightarrow> 'x \<Rightarrow> bytes list \<Rightarrow> bool list \<times> 'x" where
  "broadcast_all env x [] = ([], x)"
| "broadcast_all env x (data # datas) =
     (let (err, x1) = env_Broadcast env x data; (errs, x2) = broadcast_all env x1 datas in (err # errs, x2))"

definition accepted_sends :: "('h, 'g, 'x) run_env \<Rightarrow> 'x \<Rightarrow> bytes list \<Rightarrow> nat" where
  "accepted_sends env x datas = length (filter Not (fst (broadcast_all env x datas)))"

lemma accepted_sends_Cons:
  "accepted_sends env x (data # datas) =
     (if fst (env_Broadcast env x data) then 0 else 1) + accepted_sends env (snd (env_Broadcast env x data)) datas"
  by (simp add: accepted_sends_def Let_def split: prod.splits)

lemma accepted_sends_le: "accepted_sends env x datas \<le> length datas"
  by (induction datas arbitrary: x) (auto simp: accepted_sends_Cons accepted_sends_def [of _ _ "[]"] le_SucI)

fun recv_events :: "ScenarioConfig \<Rightarrow> loop_event list \<Rightarrow> recv_event list" where
  \<comment> \<open>the receptions with a valid header\<close>
  "recv_events cfg [] = []"
| "recv_events cfg (LimiterError # es) = (if sc_RateLimit cfg > 0 then [] else recv_events cfg es)"
| "recv_events cfg (Received cid data recvNs # es) =
     (case DecodeHeader data of
        Some (Inr (seq, sendNs, _)) \<Rightarrow> (cid, seq, sendNs, length data, recvNs) # recv_events cfg es
      | _ \<Rightarrow> recv_events cfg es)"
| "recv_events cfg (_ # es) = recv_events cfg es"

definition with_sends :: "u64 \<Rightarrow> u64 \<Rightarrow> ResourceSampler \<Rightarrow> 'h Recorder \<Rightarrow> 'h Recorder" where
  "with_sends m b s r = r\<lparr>msgSent := m, bytesSent := b, resources := s\<rparr>"

lemma with_sends_self: "with_sends (msgSent r) (bytesSent r) (resources r) r = r"
  by (simp add: with_sends_def)

lemma with_sends_sel [simp]:
  "msgSent (with_sends m b s r) = m" "bytesSent (with_sends m b s r) = b" "resources (with_sends m b s r) = s"
  "connStats (with_sends m b s r) = connStats r" "msgRecv (with_sends m b s r) = msgRecv r"
  "with_sends m' b' s' (with_sends m b s r) = with_sends m' b' s' r"
  by (simp_all add: with_sends_def)

lemma recv_step_with_sends:
  "recv_step lib (with_sends m b s r) e = map_option (with_sends m b s) (recv_step lib r e)"
  by (cases e)
     (auto simp: recv_step_def RecordRecvFrom_def recordSample_def with_sends_def Let_def map_option_case
       split: option.splits bind_splits)

lemma run_with_sends:
  "run_opt (recv_step lib) (with_sends m b s r) es = map_option (with_sends m b s) (run_opt (recv_step lib) r es)"
  by (induction es arbitrary: r) (auto simp: recv_step_with_sends split: bind_splits)

definition same_life :: "ResourceSampler \<Rightarrow> ResourceSampler \<Rightarrow> bool" where
  "same_life s s' \<longleftrightarrow> rs_done s' = rs_done s \<and> rs_stopped s' = rs_stopped s \<and> rs_loops s' = rs_loops s"

lemma same_life_refl [simp]: "same_life s s"
  by (simp add: same_life_def)

lemma same_life_tick: "same_life s (loop_tick s' r) = same_life s s'"
  by (simp add: same_life_def loop_tick_def sample_def Let_def)

lemma RecvHandler_eq:
  "RecvHandler env cfg st cid data recvNs =
     (case DecodeHeader data of
        Some (Inr (seq, sendNs, _)) \<Rightarrow>
          map_option (\<lambda>r. st\<lparr>rn_recorder := r,
              rn_trace := rn_trace st @ (if sc_TraceWriter cfg \<and> rn_traceOn st \<and> length (rn_trace st) < traceCap
                then [(sc_Protocol cfg, cid, seq, sendNs, recvNs, i64_div (recvNs - sendNs) 1000)] else [])\<rparr>)
            (recv_step (env_hdr env) (rn_recorder st) (cid, seq, sendNs, length data, recvNs))
      | Some (Inl _) \<Rightarrow> Some st
      | None \<Rightarrow> None)"
  by (auto simp: RecvHandler_def recv_step_def map_option_case Let_def split: option.splits sum.splits bind_splits)

text \<open>Sends and samples do not disturb the receptions: the recorder after a phase is the one the
  receptions alone give, with other send counters and samples. The generator and the transport end up where
  the messages of the phase take them, and outside the warm-up the send counter has grown by the accepted ones.\<close>

definition phase_post ::
  "('h, 'g, 'x) run_env \<Rightarrow> bool \<Rightarrow> u64 \<Rightarrow> 'g gen_closure \<Rightarrow> 'x \<Rightarrow> (i64 \<times> draws) list \<Rightarrow> 'h Recorder \<Rightarrow> 'h Recorder \<Rightarrow>
   ('h, 'g, 'x) run_state \<Rightarrow> bool" where
  "phase_post env w gs gen x its r r' st' \<longleftrightarrow> gen_ok (rn_gen st') \<and>
     (\<exists>b s datas. phase_messages env gs gen its = Some (datas, rn_globalSeq st', rn_gen st') \<and>
        rn_srv st' = snd (broadcast_all env x datas) \<and>
        rn_recorder st' = with_sends (msgSent r + of_nat (if w then 0 else accepted_sends env x datas)) b s r' \<and>
        same_life (resources r) s)"

lemma phase_post_stop:
  "gen_ok (rn_gen st) \<Longrightarrow>
   phase_post env w (rn_globalSeq st) (rn_gen st) (rn_srv st) [] (rn_recorder st) (rn_recorder st) st"
  unfolding phase_post_def
  by (intro conjI exI [of _ "bytesSent (rn_recorder st)"] exI [of _ "resources (rn_recorder st)"] exI [of _ "[]"])
     (simp_all add: with_sends_self accepted_sends_def)

lemma phase_post_cong:
  "phase_post env w gs gen x its q (with_sends m b s r') st' \<Longrightarrow> msgSent q = msgSent r \<Longrightarrow>
   same_life (resources q) = same_life (resources r) \<Longrightarrow> phase_post env w gs gen x its r r' st'"
  by (simp add: phase_post_def)

lemma phase_post_iter:
  assumes "phase_post env w gs1 gen1 x1 its q (with_sends m b s r') st'"
    and "gen_next env gs now d gen = Some (data, gs1, gen1)" and "env_Broadcast env x data = (err, x1)"
    and "msgSent q = msgSent r + (if w \<or> err then 0 else 1)" and "resources q = resources r"
  shows "phase_post env w gs gen x ((now, d) # its) r r' st'"
proof -
  obtain b' s' datas where n: "phase_messages env gs1 gen1 its = Some (datas, rn_globalSeq st', rn_gen st')"
      "rn_srv st' = snd (broadcast_all env x1 datas)"
      "rn_recorder st' = with_sends (msgSent q + of_nat (if w then 0 else accepted_sends env x1 datas)) b' s' r'"
      "same_life (resources q) s'"
    using assms(1) by (auto simp: phase_post_def)
  have "gen_ok (rn_gen st')" using assms(1) by (simp add: phase_post_def)
  then show ?thesis using n unfolding phase_post_def
    by (intro conjI exI [of _ b'] exI [of _ s'] exI [of _ "data # datas"])
       (simp_all add: assms(2-5) accepted_sends_Cons add.assoc split: prod.splits)
qed

lemma run_sends_Some:
  "run_opt (recv_step lib) r es = Some r' \<Longrightarrow>
   run_opt (recv_step lib) (with_sends m b s r) es = Some (with_sends m b s r')"
  by (simp add: run_with_sends)

lemma broadcastLoop_recorder:
  assumes "gen_ok (rn_gen st)" and "run_opt (recv_step (env_hdr env)) (rn_recorder st) (recv_events cfg es) = Some r'"
  shows "\<exists>st'. broadcastLoop env cfg w sent es st = Some st' \<and>
     phase_post env w (rn_globalSeq st) (rn_gen st) (rn_srv st) (loop_iters cfg es) (rn_recorder st) r' st'"
  using assms
proof (induction env cfg w sent es st arbitrary: r' rule: broadcastLoop.induct)
  case (1 env cfg warmup sent st)
  then show ?case using phase_post_stop [of st env warmup] by simp
next
  case (2 env cfg warmup sent es st)
  then show ?case using phase_post_stop [of st env warmup] by (cases "sc_RateLimit cfg > 0") simp_all
next
  case (3 env cfg warmup sent cid data recvNs es st)
  obtain h where h: "DecodeHeader data = Some h" using DecodeHeader_cases [of data] by (auto split: if_splits)
  show ?case
  proof (cases h)
    case (Inl e)
    then show ?thesis using 3 h by (simp add: RecvHandler_eq)
  next
    case (Inr x)
    then obtain seq sNs n where x: "x = (seq, sNs, n)" by (cases x)
    with 3(3) h Inr obtain r1 where r1: "recv_step (env_hdr env) (rn_recorder st) (cid, seq, sNs, length data, recvNs) = Some r1"
      "run_opt (recv_step (env_hdr env)) r1 (recv_events cfg es) = Some r'" by (auto simp: bind_eq_Some_conv)
    have keep: "msgSent r1 = msgSent (rn_recorder st)" "resources r1 = resources (rn_recorder st)"
      using r1(1) by (auto simp: recv_step_def RecordRecvFrom_def recordSample_def Let_def bind_eq_Some_conv)
    obtain st1 where st1: "RecvHandler env cfg st cid data recvNs = Some st1" "rn_recorder st1 = r1" "rn_gen st1 = rn_gen st"
      "rn_globalSeq st1 = rn_globalSeq st" "rn_srv st1 = rn_srv st" by (simp add: RecvHandler_eq h Inr x r1(1))
    from 3(1) [OF st1(1)] st1 3(2) r1(2) show ?thesis by (auto simp: phase_post_def keep)
  qed
next
  case (4 env cfg warmup sent r es st)
  let ?q = "rn_recorder st"
  let ?s = "if rs_loops (resources ?q) > 0 then loop_tick (resources ?q) r else resources ?q"
  let ?st = "if rs_loops (resources ?q) > 0 then st\<lparr>rn_recorder := ?q\<lparr>resources := loop_tick (resources ?q) r\<rparr>\<rparr> else st"
  have r: "rn_recorder ?st = with_sends (msgSent ?q) (bytesSent ?q) ?s ?q" by (simp add: with_sends_def)
  have "run_opt (recv_step (env_hdr env)) (rn_recorder ?st) (recv_events cfg es) =
      Some (with_sends (msgSent ?q) (bytesSent ?q) ?s r')"
    unfolding r using 4(3) by (intro run_sends_Some) simp
  moreover have "gen_ok (rn_gen ?st)" using 4(2) by simp
  moreover have keep: "rn_globalSeq ?st = rn_globalSeq st" "rn_gen ?st = rn_gen st" "rn_srv ?st = rn_srv st" by simp_all
  ultimately obtain st' where st': "broadcastLoop env cfg warmup sent es ?st = Some st'"
    "phase_post env warmup (rn_globalSeq st) (rn_gen st) (rn_srv st) (loop_iters cfg es) (rn_recorder ?st)
       (with_sends (msgSent ?q) (bytesSent ?q) ?s r') st'"
    using 4(1) unfolding keep by blast
  have "phase_post env warmup (rn_globalSeq st) (rn_gen st) (rn_srv st) (loop_iters cfg es) ?q r' st'"
    by (rule phase_post_cong [OF st'(2)]) (simp_all add: r same_life_def fun_eq_iff loop_tick_def sample_def Let_def)
  then show ?case using st'(1) by simp
next
  case (5 env cfg warmup sent now d es st)
  let ?q = "rn_recorder st"
  obtain data gs gen where g: "gen_next env (rn_globalSeq st) now d (rn_gen st) = Some (data, gs, gen)" "gen_ok gen"
    using gen_next_total [OF 5(3)] by blast
  obtain err x where x: "env_Broadcast env (rn_srv st) data = (err, x)" by fastforce
  let ?st = "st\<lparr>rn_globalSeq := gs, rn_gen := gen, rn_srv := x\<rparr>"
  have q: "run_opt (recv_step (env_hdr env)) ?q (recv_events cfg es) = Some r'" using 5(4) by simp
  show ?case
  proof (cases err)
    case True
    have "gen_ok (rn_gen ?st)" "rn_recorder ?st = ?q" using g(2) by simp_all
    with 5(1) [OF g(1) refl refl refl x [symmetric] refl True] q obtain st' where st':
      "broadcastLoop env cfg warmup sent es ?st = Some st'"
      "phase_post env warmup gs gen x (loop_iters cfg es) ?q (with_sends (msgSent r') (bytesSent r') (resources r') r') st'"
      unfolding with_sends_self by force
    have "phase_post env warmup (rn_globalSeq st) (rn_gen st) (rn_srv st) ((now, d) # loop_iters cfg es) ?q r' st'"
      by (rule phase_post_iter [OF st'(2) g(1) x]) (simp_all add: True)
    then show ?thesis using st'(1) g(1) x True by simp
  next
    case False
    let ?st1 = "if \<not> warmup then ?st\<lparr>rn_recorder := RecordSend (rn_recorder ?st) (sent + 1) (length data)\<rparr> else ?st"
    let ?m = "msgSent ?q + (if warmup then 0 else 1)"
    let ?b = "bytesSent ?q + (if warmup then 0 else of_nat (length data))"
    have r: "rn_recorder ?st1 = with_sends ?m ?b (resources ?q) ?q" by (simp add: with_sends_def RecordSend_def)
    have "run_opt (recv_step (env_hdr env)) (rn_recorder ?st1) (recv_events cfg es) =
        Some (with_sends ?m ?b (resources ?q) r')" unfolding r by (rule run_sends_Some [OF q])
    moreover have "gen_ok (rn_gen ?st1)" using g(2) by simp
    moreover have keep: "rn_globalSeq ?st1 = gs" "rn_gen ?st1 = gen" "rn_srv ?st1 = x" by simp_all
    ultimately obtain st' where st': "broadcastLoop env cfg warmup (sent + 1) es ?st1 = Some st'"
      "phase_post env warmup gs gen x (loop_iters cfg es) (rn_recorder ?st1) (with_sends ?m ?b (resources ?q) r') st'"
      using 5(2) [OF g(1) refl refl refl x [symmetric] refl False refl refl] unfolding keep by blast
    have "phase_post env warmup (rn_globalSeq st) (rn_gen st) (rn_srv st) ((now, d) # loop_iters cfg es) ?q r' st'"
      by (rule phase_post_iter [OF st'(2) g(1) x]) (simp_all add: r False)
    then show ?thesis using st'(1) g(1) x False by (simp add: Let_def)
  qed
qed

section \<open>The per-client report\<close>

lemma globalMax_eq: "globalMax conns = Max (insert 0 (sn_LastSeq ` set conns))"
proof -
  have "fold (\<lambda>c m. if sn_LastSeq c > m then sn_LastSeq c else m) conns z = Max (insert z (sn_LastSeq ` set conns))" for z
  proof (induction conns arbitrary: z)
    case (Cons c conns)
    have "Max (insert z (insert (sn_LastSeq c) A)) = Max (insert (if sn_LastSeq c > z then sn_LastSeq c else z) A)"
      if "finite A" for A :: "u64 set"
      using that by (cases "A = {}") (auto simp: max_def)
    then show ?case using Cons by simp
  qed simp
  then show ?thesis by (simp add: globalMax_def)
qed

text \<open>The statistics of one connection that received the sequence numbers \<open>qs\<close>, within a window.\<close>

lemma conn_ok_window:
  assumes "conn_ok qs c" and "-1 \<notin> set qs" and "sorted_wrt (\<lambda>a b. unat a < unat b + 4096) qs"
  shows "Delivered (Snapshot (cs_tracker c)) = of_nat (card (set qs))"
proof -
  have "sorted_wrt (\<lambda>a b. unat a < unat b + unat (4096 :: u64)) qs" using assms(3) by simp
  from Observe_run_exact [OF NewSequenceTracker_4096 assms(2) this] show ?thesis
    using assms(1) by (auto simp: conn_ok_def)
qed

lemma sint_of_nat: "n < 2 ^ 63 \<Longrightarrow> sint (of_nat n :: i64) = int n"
  by (simp add: signed_of_nat signed_take_bit_int_eq_self)

lemma client_loss:
  fixes qs :: "u64 set"
  assumes "qs \<noteq> {}" "finite qs" "0 \<notin> qs" "\<And>q. q \<in> qs \<Longrightarrow> q \<le> hi" "unat hi < 2 ^ 63"
    and "sn_Delivered s = of_nat (card qs)" "sn_FirstSeq s = Min qs"
  shows "ct_Lost (client_of hi s) = of_nat (card ({unat (Min qs)..unat hi} - unat ` qs)) \<and>
     ct_LossRatePct (client_of hi s) =
       of_nat (card ({unat (Min qs)..unat hi} - unat ` qs)) / of_nat (card {unat (Min qs)..unat hi}) * 100"
proof -
  let ?I = "{unat (Min qs)..unat hi}"
  have m: "Min qs \<in> qs" "\<And>q. q \<in> qs \<Longrightarrow> Min qs \<le> q" using assms by simp_all
  have sub: "unat ` qs \<subseteq> ?I" using m assms(4) by (auto simp: word_le_nat_alt)
  have "card (unat ` qs) = card qs" by (intro card_image inj_onI) (simp add: word_unat_eq_iff)
  then have lost: "card (?I - unat ` qs) = card ?I - card qs" and le: "card qs \<le> card ?I"
    using sub assms(2) card_mono [OF _ sub] by (simp_all add: card_Diff_subset)
  have "0 < card qs" using assms by (simp add: card_gt_0_iff)
  have "Min qs \<le> hi" "Min qs \<noteq> 0" using m(1) assms(3,4) by metis+
  then have le': "unat (Min qs) \<le> unat hi" "0 < Min qs" by (simp_all add: word_le_nat_alt word_gt_0)
  have ex: "(hi - Min qs) + 1 = of_nat (card ?I)" "0 < card ?I" "card ?I < 2 ^ 63"
    using assms(5) le' unat_gt_0 [of "Min qs"] by (auto simp: of_nat_diff Suc_diff_le word_gt_0)
  have l: "(of_nat (card ?I) :: u64) - of_nat (card qs) = of_nat (card (?I - unat ` qs))"
    unfolding lost using le by (simp only: of_nat_diff)
  have d: "(of_nat (card qs) :: u64) > 0"
    using \<open>0 < card qs\<close> le ex(3) by (simp add: word_less_nat_alt unsigned_of_nat take_bit_nat_eq_self)
  have s: "sint (of_nat (card (?I - unat ` qs)) :: i64) = int (card (?I - unat ` qs))"
    "sint (of_nat (card ?I) :: i64) = int (card ?I)"
    using ex(3) lost by (intro sint_of_nat; linarith)+
  show ?thesis
    using le' d s ex(2) by (simp add: client_of_def Let_def assms(6,7) ex(1) l del: card_atLeastAtMost)
qed

text \<open>The report for a recorder whose connections have seen the receptions \<open>es\<close>.\<close>

definition in_window :: "recv_event list \<Rightarrow> bool" where
  \<comment> \<open>numbers between 1 and \<open>2 ^ 63 - 1\<close>, none of them 4096 or more behind an earlier one of its connection\<close>
  "in_window es \<longleftrightarrow> (\<forall>e \<in> set es. 0 < unat (ev_seq e) \<and> unat (ev_seq e) < 2 ^ 63 \<and>
     sorted_wrt (\<lambda>a b. unat a < unat b + 4096) (seqs_of (fst e) es))"

definition client_ok :: "recv_event list \<Rightarrow> ClientStat \<Rightarrow> bool" where
  "client_ok es c \<longleftrightarrow>
     (let got = set (seqs_of (ct_ClientID c) es);
          due = {unat (Min got)..unat (Max (ev_seq ` set es))};
          missed = due - unat ` got
      in ct_FirstSeq c = Min got \<and> ct_Delivered c = of_nat (card got) \<and>
         ct_MsgRecv c = of_nat (length (seqs_of (ct_ClientID c) es)) \<and>
         ct_Lost c = of_nat (card missed) \<and> ct_LossRatePct c = of_nat (card missed) / of_nat (card due) * 100)"

lemma in_window_no_max: "in_window es \<Longrightarrow> -1 \<notin> ev_seq ` set es"
proof
  assume w: "in_window es" and "-1 \<in> ev_seq ` set es"
  then obtain e where e: "e \<in> set es" "ev_seq e = -1" by fastforce
  then have "unat (ev_seq e) < 2 ^ 63" using w unfolding in_window_def by blast
  then show False by (simp add: e(2) unsigned_minus_1_eq_mask mask_eq_exp_minus_1)
qed

lemma set_seqs_of: "set (seqs_of cid es) = ev_seq ` {e \<in> set es. fst e = cid}"
  by (auto simp: seqs_of_def events_of_def)

lemma buildPerClient_ok:
  fixes r :: "'h Recorder"
  assumes ord: "range_order ord" and win: "in_window es" and wf: "wf_gomap (connStats r)"
    and dom: "dom (gomap_get (connStats r)) = fst ` set es"
    and ok: "\<And>cid c. gomap_get (connStats r) cid = Some c \<Longrightarrow> conn_ok (seqs_of cid es) c"
  shows "map ct_ClientID (buildPerClient (ConnSnapshots lib ord r)) = sorted_list_of_set (fst ` set es) \<and>
     list_all (client_ok es) (buildPerClient (ConnSnapshots lib ord r))"
proof -
  let ?cs = "ConnSnapshots lib ord r" and ?hi = "Max (ev_seq ` set es)"
  have ids: "map sn_ConnID ?cs = map fst (ord (entries (connStats r)))"
    by (simp add: ConnSnapshots_def comp_def case_prod_unfold Let_def)
  have set_ids: "set (map sn_ConnID ?cs) = fst ` set es" and dist: "distinct (map sn_ConnID ?cs)"
    unfolding ids using ord wf dom by (simp_all add: fst_entries_dom wf_gomap_def)
  have id: "ct_ClientID (client_of m s) = sn_ConnID s" for m s
    by (simp add: client_of_def Let_def split: prod.splits if_splits)
  have "sorted_list_of_set (set (map sn_ConnID ?cs)) = sort (map sn_ConnID ?cs)"
    using dist by (simp only: sorted_list_of_set_sort_remdups distinct_remdups_id)
  also have "\<dots> = map sn_ConnID (sort_key sn_ConnID ?cs)"
    by (rule properties_for_sort) (simp_all add: mset_map)
  finally have keys: "map ct_ClientID (buildPerClient ?cs) = sorted_list_of_set (fst ` set es)"
    unfolding set_ids by (simp add: buildPerClient_def id comp_def)
  have snap: "\<exists>c :: 'h connStat. conn_ok (seqs_of (sn_ConnID s) es) c \<and> sn_ConnID s \<in> fst ` set es \<and>
      sn_Delivered s = Delivered (Snapshot (cs_tracker c)) \<and> sn_FirstSeq s = firstSeq c \<and>
      sn_LastSeq s = lastSeq c \<and> sn_MsgRecv s = cs_msgRecv c" if "s \<in> set ?cs" for s
  proof -
    from that obtain cid c where c: "(cid, c) \<in> set (entries (connStats r))" "sn_ConnID s = cid"
      "sn_Delivered s = Delivered (Snapshot (cs_tracker c))" "sn_FirstSeq s = firstSeq c"
      "sn_LastSeq s = lastSeq c" "sn_MsgRecv s = cs_msgRecv c"
      using ord by (auto simp: ConnSnapshots_def Let_def)
    then have g: "gomap_get (connStats r) cid = Some c" using wf by (simp add: in_entries_iff)
    then have "cid \<in> fst ` set es" using dom by blast
    then show ?thesis using c ok [OF g] by (intro exI [of _ c]) simp
  qed
  have last: "lastSeq c = Max (insert 0 (set (seqs_of (sn_ConnID s) es)))"
    if "conn_ok (seqs_of (sn_ConnID s) es) c" for s :: ConnSnapshot and c :: "'h connStat"
    using that by (simp add: conn_ok_def)
  have hi: "globalMax ?cs = ?hi" if "es \<noteq> []"
  proof (rule antisym)
    have "sn_LastSeq s \<le> ?hi" if "s \<in> set ?cs" for s
      using snap [OF that] last by (auto simp: set_seqs_of intro!: Max.boundedI)
    then show "globalMax ?cs \<le> ?hi" by (auto simp: globalMax_eq)
    have "?hi \<in> ev_seq ` set es" using that by simp
    then obtain e where e: "e \<in> set es" "ev_seq e = ?hi" by fastforce
    then have "fst e \<in> set (map sn_ConnID ?cs)" unfolding set_ids by simp
    then obtain s where s: "s \<in> set ?cs" "sn_ConnID s = fst e" by auto
    have "?hi \<in> set (seqs_of (sn_ConnID s) es)" unfolding set_seqs_of s(2) e(2) [symmetric] using e(1) by blast
    then have "?hi \<le> sn_LastSeq s" using snap [OF s(1)] last [of s] by auto
    also have "\<dots> \<le> globalMax ?cs" using s(1) by (simp add: globalMax_eq)
    finally show "?hi \<le> globalMax ?cs" .
  qed
  have "client_ok es (client_of (globalMax ?cs) s)" if s: "s \<in> set ?cs" for s
  proof -
    obtain c :: "'h connStat" where c: "conn_ok (seqs_of (sn_ConnID s) es) c" "sn_ConnID s \<in> fst ` set es"
      "sn_Delivered s = Delivered (Snapshot (cs_tracker c))" "sn_FirstSeq s = firstSeq c" "sn_MsgRecv s = cs_msgRecv c"
      using snap [OF s] by blast
    let ?got = "set (seqs_of (sn_ConnID s) es)"
    obtain e where e: "e \<in> set es" "fst e = sn_ConnID s" using c(2) by force
    have "0 < unat q" if "q \<in> ?got" for q using that win by (auto simp: set_seqs_of in_window_def)
    from this [of 0] have nz: "0 \<notin> ?got" by auto
    have ne: "?got \<noteq> {}" "es \<noteq> []" using e unfolding set_seqs_of by (blast, force)
    have w: "-1 \<notin> ?got" "sorted_wrt (\<lambda>a b. unat a < unat b + 4096) (seqs_of (sn_ConnID s) es)"
      using in_window_no_max [OF win] win e unfolding set_seqs_of in_window_def by (blast, metis)
    have "?hi \<in> ev_seq ` set es" using ne(2) by simp
    then have "unat ?hi < 2 ^ 63" using win unfolding in_window_def by (metis (no_types, lifting) imageE)
    moreover have "q \<le> ?hi" if "q \<in> ?got" for q
      using that by (auto simp: set_seqs_of intro!: Max_ge)
    moreover have "sn_Delivered s = of_nat (card ?got)" using conn_ok_window [OF c(1) w] c(3) by simp
    moreover have "sn_FirstSeq s = Min ?got" "sn_MsgRecv s = of_nat (length (seqs_of (sn_ConnID s) es))"
      using c nz ne by (auto simp: conn_ok_def)
    ultimately show ?thesis using client_loss [of ?got ?hi s] nz ne hi
      by (simp add: client_ok_def Let_def id) (simp add: client_of_def Let_def split: prod.splits)
  qed
  then have "list_all (client_ok es) (buildPerClient ?cs)" by (auto simp: buildPerClient_def list_all_iff)
  with keys show ?thesis by simp
qed

section \<open>Runs\<close>

text \<open>The parts of a recorder on which the outcome of a phase depends.\<close>

lemma fresh_after_start:
  "connStats (Recorder_Start (Recorder_Reset lib r a b c) d e f) = Some []"
  "msgSent (Recorder_Start (Recorder_Reset lib r a b c) d e f) = 0"
  "msgRecv (Recorder_Start (Recorder_Reset lib r a b c) d e f) = 0"
  by (simp_all add: Recorder_Start_def Recorder_Reset_def)

lemma stop_after_start:
  assumes "rs_loops (resources r) = 0" "\<not> rs_done (resources r)" "\<not> rs_stopped (resources r)"
    and "same_life (resources (Recorder_Start (Recorder_Reset lib r a b c) d e f)) (resources r')"
  shows "\<exists>s. Recorder_Stop r' = Some (Some (r'\<lparr>resources := s\<rparr>))"
  using assms by (auto simp: Recorder_Stop_def Sampler_Stop_def Recorder_Start_def Recorder_Reset_def
      Sampler_Start_def Sampler_Reset_def same_life_def loop_exit_def Let_def)

text \<open>The two phases together: the messages of the warm-up are broadcast first and are not counted, those of
  the measurement phase are broadcast next, on the transport the warm-up left, and the ones accepted are counted.\<close>

definition phases_sent ::
  "('h, 'g, 'x) run_env \<Rightarrow> (i64 \<times> draws) list \<Rightarrow> (i64 \<times> draws) list \<Rightarrow> u64 \<Rightarrow> 'g gen_closure \<Rightarrow> 'x \<Rightarrow> u64 \<Rightarrow> 'x \<Rightarrow> bool"
where
  "phases_sent env warm meas gs gen x sent x' \<longleftrightarrow>
     (case phase_messages env gs gen (warm @ meas) of
        None \<Rightarrow> False
      | Some (datas, _, _) \<Rightarrow>
          let x1 = snd (broadcast_all env x (take (length warm) datas)); measured = drop (length warm) datas
          in sent = of_nat (accepted_sends env x1 measured) \<and> x' = snd (broadcast_all env x1 measured))"

lemma phase_messages_length: "phase_messages env gs gen its = Some (datas, gs', gen') \<Longrightarrow> length datas = length its"
  by (induction env gs gen its arbitrary: datas rule: phase_messages.induct) (auto simp: bind_eq_Some_conv)

lemma phase_messages_append:
  "phase_messages env gs gen (its @ its') = do {
     (datas, gs, gen) \<leftarrow> phase_messages env gs gen its;
     (datas', gs, gen) \<leftarrow> phase_messages env gs gen its';
     Some (datas @ datas', gs, gen) }"
proof (induction env gs gen its rule: phase_messages.induct)
  case (1 env gs gen)
  show ?case by (cases "phase_messages env gs gen its'") auto
next
  case (2 env gs gen now d its)
  show ?case
  proof (cases "gen_next env gs now d gen")
    case (Some p)
    obtain data gs1 gen1 where p: "p = (data, gs1, gen1)" by (cases p)
    have ih: "phase_messages env gs1 gen1 (its @ its') = do {
     (datas, gs, gen) \<leftarrow> phase_messages env gs1 gen1 its; (datas', gs, gen) \<leftarrow> phase_messages env gs gen its'; Some (datas @ datas', gs, gen) }"
      by (rule 2 [OF Some p [symmetric] refl])
    show ?thesis by (auto simp: Some p ih split: prod.splits bind_splits)
  qed simp
qed

lemma run_phases_ok:
  assumes r: "rs_loops (resources (rn_recorder st)) = 0" "\<not> rs_done (resources (rn_recorder st))"
      "\<not> rs_stopped (resources (rn_recorder st))" "connStats (rn_recorder st) = Some []"
    and gen: "gen_ok (rn_gen st)"
    and warm: "-1 \<notin> ev_seq ` set (recv_events cfg warm)" and meas: "-1 \<notin> ev_seq ` set (recv_events cfg meas)"
  shows "\<exists>st'. run_phases env cfg tm warm meas st = Some st' \<and> wf_gomap (connStats (rn_recorder st')) \<and>
     dom (gomap_get (connStats (rn_recorder st'))) = fst ` set (recv_events cfg meas) \<and>
     (\<forall>cid c. gomap_get (connStats (rn_recorder st')) cid = Some c \<longrightarrow> conn_ok (seqs_of cid (recv_events cfg meas)) c) \<and>
     msgRecv (rn_recorder st') = of_nat (length (recv_events cfg meas)) \<and>
     phases_sent env (if sc_WarmupDuration cfg > 0 then loop_iters cfg warm else []) (loop_iters cfg meas)
       (rn_globalSeq st) (rn_gen st) (rn_srv st) (msgSent (rn_recorder st')) (rn_srv st')"
proof -
  let ?warm = "if sc_WarmupDuration cfg > 0 then loop_iters cfg warm else []"
  obtain st1 datas where st1: "(if sc_WarmupDuration cfg > 0 then broadcastLoop env cfg True 0 warm st else Some st) = Some st1"
    "gen_ok (rn_gen st1)" "same_life (resources (rn_recorder st)) (resources (rn_recorder st1))"
    and warmed: "phase_messages env (rn_globalSeq st) (rn_gen st) ?warm = Some (datas, rn_globalSeq st1, rn_gen st1)"
    "rn_srv st1 = snd (broadcast_all env (rn_srv st) datas)"
  proof (cases "sc_WarmupDuration cfg > 0")
    case True
    obtain r1 where "run_opt (recv_step (env_hdr env)) (rn_recorder st) (recv_events cfg warm) = Some r1"
      using recv_run [OF r(4) warm] by blast
    from broadcastLoop_recorder [OF gen this, of True 0] obtain st1 where
      "broadcastLoop env cfg True 0 warm st = Some st1"
      "phase_post env True (rn_globalSeq st) (rn_gen st) (rn_srv st) (loop_iters cfg warm) (rn_recorder st) r1 st1" by blast
    with True that show thesis by (auto simp: phase_post_def)
  qed (use that gen in simp)
  let ?r0 = "Recorder_Start (Recorder_Reset (env_hdr env) (rn_recorder st1) (at_reset tm) (at_reset_wall tm) (at_reset_cpu tm))
     (at_start tm) (at_start_wall tm) (at_start_cpu tm)"
  let ?st2 = "st1\<lparr>rn_recorder := ?r0, rn_traceOn := True\<rparr>"
  obtain r' where r': "run_opt (recv_step (env_hdr env)) ?r0 (recv_events cfg meas) = Some r'"
    "wf_gomap (connStats r')" "dom (gomap_get (connStats r')) = fst ` set (recv_events cfg meas)"
    "\<And>cid c. gomap_get (connStats r') cid = Some c \<Longrightarrow> conn_ok (seqs_of cid (recv_events cfg meas)) c"
    "msgRecv r' = of_nat (length (recv_events cfg meas))"
    using recv_run [of ?r0 "recv_events cfg meas" "env_hdr env"] meas by (auto simp: fresh_after_start)
  obtain st3 where st3: "broadcastLoop env cfg False 0 meas ?st2 = Some st3"
    "phase_post env False (rn_globalSeq st1) (rn_gen st1) (rn_srv st1) (loop_iters cfg meas) ?r0 r' st3"
    using broadcastLoop_recorder [of ?st2 env cfg meas r' False 0] st1(2) r'(1) by auto
  then obtain b s datas' where n: "rn_recorder st3 = with_sends (of_nat (accepted_sends env (rn_srv st1) datas')) b s r'"
    "same_life (resources ?r0) s" and measured:
    "phase_messages env (rn_globalSeq st1) (rn_gen st1) (loop_iters cfg meas) = Some (datas', rn_globalSeq st3, rn_gen st3)"
    "rn_srv st3 = snd (broadcast_all env (rn_srv st1) datas')" by (auto simp: phase_post_def fresh_after_start)
  have "rs_loops (resources (rn_recorder st1)) = 0" "\<not> rs_done (resources (rn_recorder st1))"
    "\<not> rs_stopped (resources (rn_recorder st1))" using st1(3) r(1-3) by (simp_all add: same_life_def)
  then obtain s' where "Recorder_Stop (rn_recorder st3) = Some (Some ((rn_recorder st3)\<lparr>resources := s'\<rparr>))"
    using stop_after_start [of "rn_recorder st1"] n(1,2) by (metis with_sends_sel(3))
  then have run: "run_phases env cfg tm warm meas st =
      Some (st3\<lparr>rn_traceOn := False, rn_recorder := (rn_recorder st3)\<lparr>resources := s'\<rparr>\<rparr>)"
    using st1(1) st3(1) by (simp add: run_phases_def Let_def)
  have "phases_sent env ?warm (loop_iters cfg meas) (rn_globalSeq st) (rn_gen st) (rn_srv st)
      (msgSent (rn_recorder st3)) (rn_srv st3)"
    using phase_messages_length [OF warmed(1)]
    by (simp add: phases_sent_def phase_messages_append warmed measured n(1) Let_def)
  then show ?thesis using run r'(2-5) n(1) by (intro exI conjI) (assumption, simp_all)
qed

definition sample_env :: "(nat, u64, bytes list) run_env" where
  \<comment> \<open>a transport that keeps what is broadcast, and whose fourth broadcast fails\<close>
  "sample_env = \<lparr>env_hdr = count_lib, env_marshal = (\<lambda>_. Some []), env_uint64 = (\<lambda>g. (g, g + 1)),
     env_Start = (\<lambda>x. (False, x)), env_Broadcast = (\<lambda>x d. (length x = 3, x @ [d])), env_Stop = (\<lambda>x. x),
     env_Stats = (\<lambda>x. BaseStats zero_BaseTransport 0), env_order = rev\<rparr>"

definition sample_cfg :: ScenarioConfig where
  "sample_cfg = \<lparr>sc_Protocol = ''tcp'', sc_Scenario = ''A'', sc_ReceiverCount = 2, sc_SenderCount = 1,
     sc_Duration = Second, sc_WarmupDuration = Second, sc_MsgSize = 32, sc_GeneratorType = ''binary'',
     sc_RateLimit = 0, sc_NetworkProfile = ''clean'', sc_BroadcastStrat = ''naive'', sc_ServerAddr = [],
     sc_ServerPort = 9001, sc_LogLevel = [], sc_TraceWriter = False\<rparr>"

definition sample_draws :: draws where
  "sample_draws = \<lparr>diffuse = (\<lambda>p. p), rawSpread = (\<lambda>m b. 0), drawVolume = 0, drawBidSize = 0, drawAskSize = 0\<rparr>"

definition sample_times :: run_times where
  "sample_times = \<lparr>at_started = 0, at_reset = 1, at_reset_wall = 0, at_reset_cpu = \<lparr>cpu_user = 0, cpu_system = 0\<rparr>,
     at_start = 2, at_start_wall = 0, at_start_cpu = \<lparr>cpu_user = 0, cpu_system = 0\<rparr>, at_ended = 9, at_snapshot = 9\<rparr>"

definition sample_phase :: "loop_event list" where
  "sample_phase = [Iter 3 sample_draws, Received ''a'' (frame_bytes 1 3 []) 4, Iter 5 sample_draws,
     Received ''b'' (frame_bytes 1 3 []) 6, Received ''a'' (frame_bytes 3 5 []) 7]"

section \<open>Properties\<close>

text \<open>Property C6. The loss report is exact: after a reset, for receptions whose numbers stay in the tracker's
  window, \<open>buildPerClient\<close> has one entry per connection that received anything, in the order of the
  connection identifiers, and in each the loss is the number of sequence numbers from the connection's first to
  the highest any connection received that this connection did not receive, the loss rate their share.\<close>

theorem per_client_loss_exact:
  assumes "range_order ord" and "in_window es"
  shows "\<exists>r'. run_opt (recv_step lib) (Recorder_Reset lib r now wall cpu) es = Some r' \<and>
     map ct_ClientID (buildPerClient (ConnSnapshots lib ord r')) = sorted_list_of_set (fst ` set es) \<and>
     list_all (client_ok es) (buildPerClient (ConnSnapshots lib ord r'))"
proof -
  let ?r = "Recorder_Reset lib r now wall cpu"
  obtain r' where r': "run_opt (recv_step lib) ?r es = Some r'" "wf_gomap (connStats r')"
    "dom (gomap_get (connStats r')) = fst ` set es"
    "\<And>cid c. gomap_get (connStats r') cid = Some c \<Longrightarrow> conn_ok (seqs_of cid es) c"
    using recv_run [of ?r es lib] in_window_no_max [OF assms(2)] by (auto simp: Recorder_Reset_def)
  with buildPerClient_ok [OF assms r'(2-4)] show ?thesis by blast
qed

text \<open>Property C1. A run measures exactly its measurement phase. For a registered protocol whose transport is
  created and starts, \<open>Run\<close> returns a result, leaves the transport stopped, and whatever happened in the
  warm-up: the messages counted as sent are exactly the messages of the measurement phase that \<open>Broadcast\<close>
  accepted (\<open>phases_sent\<close>: the generator's messages for the iterations of both phases are broadcast in order,
  and among those of the measurement phase the ones answered without an error are counted); the transport that
  is stopped is the one these broadcasts leave. \<open>TotalMsgsRecv\<close> is the number of receptions of the measurement
  phase with a readable header divided by the number of connections, rounded down; the exact number of receptions
  of each connection is in the per-client report, which covers exactly these receptions. (No reception carries
  the number \<open>2 ^ 64 - 1\<close>, and those of the measurement phase stay in the tracker's window.)\<close>

theorem run_measures_measurement_phase:
  assumes "NewRunner (env_hdr env) cfg t0 = Some rec"
    and "gomap_get facs (sc_Protocol cfg) = Some factory" and "factory cfg = Some x"
    and "env_Start env x = (False, x1)" and "range_order (env_order env)"
    and "-1 \<notin> ev_seq ` set (recv_events cfg warm)" and "in_window (recv_events cfg meas)"
  shows "\<exists>rr x2 tr. Run env facs cfg rec seed gs tm warm meas = Some (Inr rr, Some (env_Stop env x2), tr) \<and>
     phases_sent env (if sc_WarmupDuration cfg > 0 then loop_iters cfg warm else []) (loop_iters cfg meas)
       gs (makeGenerator seed cfg) x1 (rr_TotalMsgsSent rr) x2 \<and>
     (recv_events cfg meas \<noteq> [] \<longrightarrow> rr_TotalMsgsRecv rr =
        of_nat (length (recv_events cfg meas)) div of_nat (card (fst ` set (recv_events cfg meas)))) \<and>
     map ct_ClientID (rr_PerClient rr) = sorted_list_of_set (fst ` set (recv_events cfg meas)) \<and>
     list_all (client_ok (recv_events cfg meas)) (rr_PerClient rr)"
proof -
  let ?es = "recv_events cfg meas"
  let ?st = "\<lparr>rn_recorder = rec, rn_gen = makeGenerator seed cfg, rn_globalSeq = gs, rn_srv = x1,
     rn_traceOn = False, rn_trace = []\<rparr>"
  have rec: "rs_loops (resources rec) = 0" "\<not> rs_done (resources rec)" "\<not> rs_stopped (resources rec)"
    "connStats rec = Some []"
    using assms(1) by (auto simp: NewRunner_def NewRecorder_def Let_def NewResourceSampler_def bind_eq_Some_conv)
  obtain st' where st': "run_phases env cfg tm warm meas ?st = Some st'" "wf_gomap (connStats (rn_recorder st'))"
    "dom (gomap_get (connStats (rn_recorder st'))) = fst ` set ?es"
    "\<And>cid c. gomap_get (connStats (rn_recorder st')) cid = Some c \<Longrightarrow> conn_ok (seqs_of cid ?es) c"
    "msgRecv (rn_recorder st') = of_nat (length ?es)"
    "phases_sent env (if sc_WarmupDuration cfg > 0 then loop_iters cfg warm else []) (loop_iters cfg meas)
       gs (makeGenerator seed cfg) x1 (msgSent (rn_recorder st')) (rn_srv st')"
    using run_phases_ok [of ?st cfg warm meas env tm] rec gen_ok_makeGenerator [of seed cfg] assms(6)
      in_window_no_max [OF assms(7)] by auto
  let ?pc = "buildPerClient (ConnSnapshots (env_hdr env) (env_order env) (rn_recorder st'))"
  let ?snap = "Recorder_Snapshot (env_hdr env) (env_order env) (rn_recorder st') (at_snapshot tm)"
  let ?rr = "build_result cfg tm ?snap (env_Stats env (rn_srv st')) ?pc"
  have run: "Run env facs cfg rec seed gs tm warm meas = Some (Inr ?rr, Some (env_Stop env (rn_srv st')), rn_trace st')"
    by (simp add: Run_def assms(2-4) st'(1) Let_def)
  have "gomap_len (connStats (rn_recorder st')) = card (fst ` set ?es)"
    using gomap_len_card [OF st'(2)] st'(3) by simp
  then have recv: "rs_MsgRecv ?snap = of_nat (length ?es) div of_nat (card (fst ` set ?es))" if "?es \<noteq> []"
    using that st'(5) by (simp add: Recorder_Snapshot_def Let_def card_gt_0_iff)
  have "rs_MsgSent ?snap = msgSent (rn_recorder st')" by (simp add: Recorder_Snapshot_def Let_def)
  moreover have "rr_TotalMsgsSent ?rr = rs_MsgSent ?snap" "rr_TotalMsgsRecv ?rr = rs_MsgRecv ?snap" "rr_PerClient ?rr = ?pc"
    by (simp_all add: build_result_def split: prod.splits)
  ultimately show ?thesis
    using buildPerClient_ok [OF assms(5,7) st'(2-4), of "env_hdr env"] run recv st'(6)
    by (intro exI [of _ ?rr] exI [of _ "rn_srv st'"] exI [of _ "rn_trace st'"]) simp
qed

lemma DecodeHeader_frame: "DecodeHeader (frame_bytes q ns p) = Some (Inr (q, ns, of_nat (length p)))"
  using hdr_frame_bytes [of q ns p "[]"] by (simp add: DecodeHeader_cases)

lemma sample_phase_events:
  "recv_events sample_cfg sample_phase = [(''a'', 1, 3, 24, 4), (''b'', 1, 3, 24, 6), (''a'', 3, 5, 24, 7)]"
  by (simp add: sample_phase_def DecodeHeader_frame)

lemma sample_phase_window: "in_window (recv_events sample_cfg sample_phase)"
  by (simp add: in_window_def sample_phase_events ev_seq_def seqs_of_def events_of_def)

theorem per_client_loss_exact_witness:
  "\<exists>r'. run_opt (recv_step count_lib) (Recorder_Reset count_lib sample_recorder 0 0 \<lparr>cpu_user = 0, cpu_system = 0\<rparr>)
       (recv_events sample_cfg sample_phase) = Some r' \<and>
     list_all (client_ok (recv_events sample_cfg sample_phase)) (buildPerClient (ConnSnapshots count_lib rev r'))"
  using per_client_loss_exact [OF range_order_rev sample_phase_window, of count_lib sample_recorder 0 0
      "\<lparr>cpu_user = 0, cpu_system = 0\<rparr>"] by blast

lemma sample_sent:
  "phases_sent sample_env (loop_iters sample_cfg sample_phase) (loop_iters sample_cfg sample_phase)
     0 (makeGenerator 0 sample_cfg) [] sent x2 \<Longrightarrow> sent = 1 \<and> length x2 = 4"
  by (simp add: phases_sent_def sample_env_def sample_cfg_def sample_phase_def makeGenerator_def Binary_Next_eq
      accepted_sends_def)

theorem run_measures_measurement_phase_witness:
  "\<exists>rr x2 tr. Run sample_env (Some [(''tcp'', \<lambda>_. Some [])]) sample_cfg (the (NewRunner count_lib sample_cfg 0)) 0 0
       sample_times sample_phase sample_phase = Some (Inr rr, Some x2, tr) \<and>
     rr_TotalMsgsSent rr = 1 \<and> rr_TotalMsgsRecv rr = 1 \<and> length (rr_PerClient rr) = 2"
proof -
  let ?facs = "Some [(''tcp'', \<lambda>_. Some [])] :: bytes list factories"
  have n: "NewRunner (env_hdr sample_env) sample_cfg 0 = Some (the (NewRunner count_lib sample_cfg 0))"
    by (simp add: NewRunner_def NewRecorder_def Let_def sample_env_def NewSequenceTracker_def)
  have f: "gomap_get ?facs (sc_Protocol sample_cfg) = Some (\<lambda>_. Some [])" by (simp add: sample_cfg_def gomap_get_def entries_def)
  have st: "env_Start sample_env [] = (False, [])" and o: "range_order (env_order sample_env)"
    and wu: "(if sc_WarmupDuration sample_cfg > 0 then loop_iters sample_cfg sample_phase else []) = loop_iters sample_cfg sample_phase"
    by (simp_all add: sample_env_def sample_cfg_def Second_def)
  have w: "-1 \<notin> ev_seq ` set (recv_events sample_cfg sample_phase)" by (rule in_window_no_max [OF sample_phase_window])
  have ids: "fst ` set (recv_events sample_cfg sample_phase) = {''a'', ''b''}" by (auto simp: sample_phase_events)
  have c: "card {''a'', ''b''} = 2" "length (recv_events sample_cfg sample_phase) = 3" "recv_events sample_cfg sample_phase \<noteq> []"
    by (simp_all add: sample_phase_events)
  obtain rr x2 tr where r: "Run sample_env ?facs sample_cfg (the (NewRunner count_lib sample_cfg 0)) 0 0 sample_times
      sample_phase sample_phase = Some (Inr rr, Some (env_Stop sample_env x2), tr)"
    "phases_sent sample_env (loop_iters sample_cfg sample_phase) (loop_iters sample_cfg sample_phase)
       0 (makeGenerator 0 sample_cfg) [] (rr_TotalMsgsSent rr) x2"
    "rr_TotalMsgsRecv rr = of_nat 3 div of_nat 2" "map ct_ClientID (rr_PerClient rr) = sorted_list_of_set {''a'', ''b''}"
    using run_measures_measurement_phase [OF n f refl st o w sample_phase_window, of 0 0 sample_times]
    unfolding ids c(1,2) wu using c(3) by blast
  have "length (rr_PerClient rr) = card {''a'', ''b''}" using r(4) by (metis length_map length_sorted_list_of_set)
  then show ?thesis using r(1,3) c(1) sample_sent [OF r(2)]
    by (intro exI [of _ rr] exI [of _ "env_Stop sample_env x2"] exI [of _ tr]) (simp add: o)
qed

text \<open>The other outcomes of \<open>Run\<close> are errors, and none broadcasts anything; when the transport fails to start it
  is not stopped either, although a bench transport may have started its server by then.\<close>

lemma run_errors:
  "gomap_get facs (sc_Protocol cfg) = None \<Longrightarrow>
     Run env facs cfg rec seed gs tm warm meas = Some (Inl (UnknownProtocol (sc_Protocol cfg)), None, [])"
  "gomap_get facs (sc_Protocol cfg) = Some f \<Longrightarrow> f cfg = None \<Longrightarrow>
     Run env facs cfg rec seed gs tm warm meas = Some (Inl CreateTransport, None, [])"
  "gomap_get facs (sc_Protocol cfg) = Some f \<Longrightarrow> f cfg = Some x \<Longrightarrow> env_Start env x = (True, x1) \<Longrightarrow>
     Run env facs cfg rec seed gs tm warm meas = Some (Inl StartTransport, Some x1, [])"
  by (simp_all add: Run_def)

lemma Register_lookup:
  assumes "Register facs name f = Some facs'"
  shows "gomap_get facs' p = (if p = name then Some f else gomap_get facs p)"
  using gomap_get_put [OF assms [unfolded Register_def]] by simp

end
