(* ===== verification/Reception.thy ===== *)
theory Reception
  imports Wire Recorder
begin

text \<open>
  What the receiving goroutines of the transports have in common: a payload that is shorter than a
  header or does not decode is skipped, any other is recorded and handed to the receive handler.
  On a recorder whose tracker is well-formed this never panics, whatever the bytes.
\<close>

definition dispatch ::
  "'h hdr_lib \<Rightarrow> 'h Recorder \<Rightarrow> bytes \<Rightarrow> i64 \<Rightarrow> ('h Recorder \<times> bytes option) option" where
  "dispatch lib r payload recvNs =
     (if length payload < HeaderLen then Some (r, None)
      else do {
        d \<leftarrow> Decode payload;
        case d of
          Inl err \<Rightarrow> Some (r, None)
        | Inr (frame, _) \<Rightarrow> do {
            r' \<leftarrow> RecordRecv lib r (SeqNum frame) (SendNs frame) (length payload) recvNs;
            Some (r', Some payload) } })"

abbreviation wf_rec :: "'h Recorder \<Rightarrow> bool" where "wf_rec r \<equiv> wf_tracker (seqTracker r)"

lemma RecordRecv_total:
  "wf_rec r \<Longrightarrow> \<exists>r'. RecordRecv lib r q ns n t = Some r' \<and> wf_rec r' \<and> msgRecv r' = msgRecv r + 1 \<and> msgSent r' = msgSent r \<and> resources r' = resources r"
  using Observe_wf [of "seqTracker r" q] by (auto simp: RecordRecv_def recordSample_def Let_def)

lemma Decode_total: "\<exists>d. Decode b = Some d"
  by (simp add: Decode_cases)

definition is_frame :: "bytes \<Rightarrow> bool" where
  "is_frame b = (case Decode b of Some (Inr _) \<Rightarrow> True | _ \<Rightarrow> False)"

lemma dispatch_total:
  assumes "wf_rec r"
  shows "\<exists>r' called. dispatch lib r b t = Some (r', called) \<and> wf_rec r' \<and> msgSent r' = msgSent r \<and> resources r' = resources r \<and>
     called \<in> {None, Some b} \<and> (called = Some b \<longrightarrow> is_frame b) \<and>
     msgRecv r' = msgRecv r + (if called = None then 0 else 1)"
proof (cases "length b < HeaderLen")
  case True
  then show ?thesis using assms by (simp add: dispatch_def)
next
  case False
  obtain d where d: "Decode b = Some d" using Decode_total by blast
  show ?thesis
  proof (cases d)
    case (Inl e)
    then show ?thesis using False d assms by (simp add: dispatch_def)
  next
    case (Inr x)
    obtain f n where x: "x = (f, n)" by fastforce
    obtain r' where "RecordRecv lib r (SeqNum f) (SendNs f) (length b) t = Some r'" "wf_rec r'"
      "msgRecv r' = msgRecv r + 1" "msgSent r' = msgSent r" "resources r' = resources r"
      using RecordRecv_total [OF assms] by blast
    then show ?thesis using False d Inr x by (simp add: dispatch_def is_frame_def)
  qed
qed

lemma wf_sample_recorder: "wf_rec sample_recorder"
  using wf_NewSequenceTracker [OF NewSequenceTracker_4096]
  by (simp add: sample_recorder_def NewRecorder_def Let_def NewSequenceTracker_def)

end
