(* ===== verification/Channels.thy ===== *)
theory Channels
  imports Prelude "HOL-Library.Sublist"
begin

text \<open>
  Buffered Go channels as the transports use them: a non-blocking send that drops the value when the
  buffer is full, and a goroutine that receives the values one by one. The locale \<open>send_queue\<close>
  states what a connection with such a channel promises, whatever else its record holds, and proves
  what follows for any interleaving of sends and receives.
\<close>

section \<open>Channel operations\<close>

definition try_send :: "nat \<Rightarrow> 'm list \<Rightarrow> 'm \<Rightarrow> 'm list \<times> bool" where
  \<comment> \<open>\<open>select { case ch <- v: ... default: ... }\<close> on a channel of the given capacity\<close>
  "try_send cp ch v = (if length ch < cp then (ch @ [v], True) else (ch, False))"

definition try_recv :: "'m list \<Rightarrow> ('m \<times> 'm list) option" where
  \<comment> \<open>\<open>None\<close>: the receiver blocks\<close>
  "try_recv ch = (case ch of [] \<Rightarrow> None | v # vs \<Rightarrow> Some (v, vs))"

text \<open>What the \<open>select\<close> of a sending goroutine picks when it is scheduled: the cancellation of its context, the
  next value of its channel or its ticker. Go picks any case that is ready; the flag says whether the write
  that follows succeeds.\<close>

datatype pick = PickDone | PickData bool | PickTick bool

lemma subseq_subset: "subseq xs ys \<Longrightarrow> set xs \<subseteq> set ys"
  by (auto simp: subseq_conv_nths dest: in_set_nthsD)

section \<open>Connections with a send queue\<close>

datatype 'm queue_event = Offer 'm | Drain

fun offers :: "'m queue_event list \<Rightarrow> 'm list" where
  "offers [] = []"
| "offers (Offer m # es) = m # offers es"
| "offers (Drain # es) = offers es"

lemma offers_append: "offers (xs @ ys) = offers xs @ offers ys"
  by (induction xs rule: offers.induct) auto

locale send_queue =
  fixes queue :: "'c \<Rightarrow> 'm list" and cp :: nat
    and offer :: "'c \<Rightarrow> 'm \<Rightarrow> 'c \<times> bool" and drain :: "'c \<Rightarrow> ('m \<times> 'c) option"
  assumes offer_accepts: "length (queue c) < cp \<Longrightarrow> offer c m = (c', b) \<Longrightarrow> b \<and> queue c' = queue c @ [m]"
    and offer_drops: "\<not> length (queue c) < cp \<Longrightarrow> offer c m = (c', b) \<Longrightarrow> \<not> b \<and> c' = c"
    and drain_None: "drain c = None \<longleftrightarrow> queue c = []"
    and drain_Some: "drain c = Some (m, c') \<Longrightarrow> queue c = m # queue c'"
begin

text \<open>A run of the sender and the receiving goroutine: the connection, the values accepted and the values
  received.\<close>

fun qrun :: "'c \<Rightarrow> 'm queue_event list \<Rightarrow> 'c \<times> 'm list \<times> 'm list" where
  "qrun c [] = (c, [], [])"
| "qrun c (Offer m # es) =
     (case offer c m of (c', b) \<Rightarrow> case qrun c' es of (c'', acc, out) \<Rightarrow> (c'', if b then m # acc else acc, out))"
| "qrun c (Drain # es) =
     (case drain c of None \<Rightarrow> qrun c es
      | Some (m, c') \<Rightarrow> case qrun c' es of (c'', acc, out) \<Rightarrow> (c'', acc, m # out))"

lemma qrun_fifo: "qrun c es = (c', acc, out) \<Longrightarrow> out @ queue c' = queue c @ acc"
proof (induction c es arbitrary: acc out rule: qrun.induct)
  case (2 c m es)
  obtain c1 b where c1: "offer c m = (c1, b)" by fastforce
  then show ?case
    using 2 offer_accepts [OF _ c1] offer_drops [OF _ c1] by (cases "length (queue c) < cp") (auto split: prod.splits)
next
  case (3 c es)
  then show ?case by (auto simp: drain_None dest: drain_Some split: option.splits prod.splits)
qed auto

lemma qrun_accepted: "qrun c es = (c', acc, out) \<Longrightarrow> subseq acc (offers es)"
proof (induction c es arbitrary: acc out rule: qrun.induct)
  case (2 c m es)
  then show ?case by (auto split: prod.splits if_splits)
qed (auto split: option.splits prod.splits)

lemma qrun_bounded: "qrun c es = (c', acc, out) \<Longrightarrow> length (queue c) \<le> cp \<Longrightarrow> length (queue c') \<le> cp"
proof (induction c es arbitrary: acc out rule: qrun.induct)
  case (2 c m es)
  obtain c1 b where c1: "offer c m = (c1, b)" by fastforce
  have "length (queue c1) \<le> cp"
    using offer_accepts [OF _ c1] offer_drops [OF _ c1] 2(3) by (cases "length (queue c) < cp") auto
  then show ?case using 2(1,2) c1 by (auto split: prod.splits)
next
  case (3 c es)
  then show ?case by (auto dest: drain_Some split: option.splits prod.splits)
qed auto

lemma qrun_append:
  "qrun c (xs @ ys) = (case qrun c xs of (c1, a1, o1) \<Rightarrow> case qrun c1 ys of (c2, a2, o2) \<Rightarrow> (c2, a1 @ a2, o1 @ o2))"
  by (induction c xs rule: qrun.induct) (auto split: prod.splits option.splits)

text \<open>The receiver empties the queue: as many receives as it holds values.\<close>

lemma qrun_drains: "\<exists>c'. qrun c (replicate (length (queue c)) Drain) = (c', [], queue c) \<and> queue c' = []"
proof (induction "length (queue c)" arbitrary: c)
  case (Suc n)
  then obtain m c1 where d: "drain c = Some (m, c1)" using drain_None [of c] by fastforce
  from drain_Some [OF d] Suc(2) have n: "n = length (queue c1)" "queue c = m # queue c1" by simp_all
  from Suc(1) [OF n(1)] show ?case using d n(2) by (auto split: prod.splits)
qed auto

lemma qrun_idle: "queue c = [] \<Longrightarrow> qrun c (replicate n Drain) = (c, [], [])"
  using drain_None [of c] by (induction n) simp_all

lemma qrun_drains_enough:
  assumes "length (queue c) \<le> n"
  shows "\<exists>c'. qrun c (replicate n Drain) = (c', [], queue c) \<and> queue c' = []"
proof -
  obtain c' where c': "qrun c (replicate (length (queue c)) Drain) = (c', [], queue c)" "queue c' = []"
    using qrun_drains by blast
  have n: "replicate n Drain = replicate (length (queue c)) Drain @ replicate (n - length (queue c)) (Drain :: 'm queue_event)"
    using assms by (simp flip: replicate_add)
  show ?thesis unfolding n using c' by (simp add: qrun_append qrun_idle)
qed

text \<open>Nothing is dropped while the queue has room for all offers.\<close>

lemma qrun_no_drop:
  "qrun c es = (c', acc, out) \<Longrightarrow> length (queue c) + length (offers es) \<le> cp \<Longrightarrow> acc = offers es"
proof (induction c es arbitrary: acc out rule: qrun.induct)
  case (2 c m es)
  obtain c1 b where c1: "offer c m = (c1, b)" by fastforce
  have "length (queue c) < cp" using 2(3) by simp
  from offer_accepts [OF this c1] 2 c1 show ?case by (auto split: prod.splits)
next
  case (3 c es)
  then show ?case by (auto dest: drain_Some split: option.splits prod.splits)
qed auto

end

lemma subseq_map_D: "subseq xs (map f ys) \<Longrightarrow> \<exists>zs. subseq zs ys \<and> xs = map f zs"
  unfolding subseq_conv_nths by (auto simp: nths_map)

end
