(* ===== verification/Tcp.thy ===== *)
theory Tcp
  imports Reception Registry Transport_Base Channels
begin

text \<open>
  The TCP transport of \<^verbatim>\<open>internal/tcp\<close>: length-prefixed frames, the server with its registry of
  connections and their bounded write channels, the read and write pumps, and the client.

  Connections are allocated in a store (a list); the registry holds indices of it, as the code's
  registry holds pointers. A socket is the stream of bytes written to it; what the network delivers is
  an argument of the read pump, up to the point where reading fails. A goroutine's turn is one
  operation. \<open>None\<close> is a panic or a call that never returns.
\<close>

section \<open>Framing\<close>

definition tcpWriteChanCap :: nat where "tcpWriteChanCap = 256"
definition tcpReadBufSize :: nat where "tcpReadBufSize = 65536"
definition tcpLenBytes :: nat where "tcpLenBytes = 4"
definition tcpMaxFrameSize :: nat where "tcpMaxFrameSize = 8 * 1024 * 1024"

definition prependLength :: "bytes \<Rightarrow> bytes option" where
  "prependLength frame = do {
     let out = replicate (tcpLenBytes + length frame) 0;
     out \<leftarrow> put_at out 0 (be_bytes 4 (of_nat (length frame) :: u32));
     copy_at out tcpLenBytes frame
   }"

text \<open>One turn of a read pump on the bytes still to come: the payload (the first bytes of the buffer it was read
  into), the buffer and the rest of the stream; \<open>Some None\<close> when the pump returns, \<open>None\<close> when slicing the buffer
  panics.\<close>

definition read_frame :: "bytes \<Rightarrow> bytes \<Rightarrow> (bytes \<times> bytes \<times> bytes) option option" where
  "read_frame payloadBuf stream =
     (if length stream < tcpLenBytes then Some None
      else let frameLen = be_word (take tcpLenBytes stream) :: u32; rest = drop tcpLenBytes stream in
        if frameLen = 0 \<or> unat frameLen > tcpMaxFrameSize then Some None
        else let n = unat frameLen;
                 payloadBuf = (if n > length payloadBuf then replicate n 0 else payloadBuf) in
          case subslice payloadBuf 0 n of
            None \<Rightarrow> None
          | Some payload \<Rightarrow>
              if length rest < length payload then Some None
              else do {
                payloadBuf \<leftarrow> copy_at payloadBuf 0 (take (length payload) rest);
                payload \<leftarrow> subslice payloadBuf 0 n;
                Some (Some (payload, payloadBuf, drop n rest)) })"

lemma read_frame_shrinks: "read_frame buf stream = Some (Some (p, buf', rest)) \<Longrightarrow> length rest < length stream"
  by (auto simp: read_frame_def Let_def tcpLenBytes_def bind_eq_Some_conv split: if_splits option.splits)

text \<open>The loop of both read pumps; \<open>clock i\<close> is the time of the \<open>i\<close>-th read and the last component collects
  the handler calls.\<close>

function pump_loop ::
  "'h hdr_lib \<Rightarrow> (nat \<Rightarrow> i64) \<Rightarrow> nat \<Rightarrow> bytes \<Rightarrow> bytes \<Rightarrow> 'h Recorder \<Rightarrow> ('h Recorder \<times> (bytes \<times> i64) list) option" where
  "pump_loop lib clock i buf stream r =
     (case read_frame buf stream of
        None \<Rightarrow> None
      | Some None \<Rightarrow> Some (r, [])
      | Some (Some (payload, buf', rest)) \<Rightarrow> do {
          (r', called) \<leftarrow> dispatch lib r payload (clock i);
          (r'', calls) \<leftarrow> pump_loop lib clock (Suc i) buf' rest r';
          Some (r'', (case called of None \<Rightarrow> calls | Some p \<Rightarrow> (p, clock i) # calls)) })"
  by pat_completeness auto
termination
  by (relation "measure (\<lambda>(lib, clock, i, buf, stream, r). length stream)")
     (auto dest: read_frame_shrinks)

declare pump_loop.simps [simp del]

section \<open>The server\<close>

record tcpConn =
  tc_id :: ConnID
  writeCh :: "bytes list"
  cancelled :: bool
  tc_closed :: bool
  tc_writer :: bool        \<comment> \<open>whether its write pump runs\<close>
  tc_sock :: "bytes list"  \<comment> \<open>what was written, one entry per \<open>Write\<close>\<close>

datatype tcp_error =
    TransportErr transportError
  | ListenErr string nat
  | ChannelFull ConnID
  | NotConnected
  | ClientChannelFull
  | WriteErr
  | ResolveErr
  | DialErr

record 'h TCPServer =
  tcp_base :: BaseTransport
  tcp_addr :: string
  tcp_listeners :: "(string \<times> bool) list"  \<comment> \<open>address, and whether it is open\<close>
  tcp_registry :: "nat Registry"
  tcp_metrics :: "'h Recorder"
  seqCounter :: u64
  lostCounter :: u64
  connCounter :: u64
  tcp_done :: bool                            \<comment> \<open>closed\<close>
  tcp_accepts :: "string list"                \<comment> \<open>listeners with a running accept loop\<close>
  tcp_conns :: "tcpConn list"

definition NewTCPServer :: "'h Recorder \<Rightarrow> string \<Rightarrow> 'h TCPServer" where
  "NewTCPServer rec addr =
     \<lparr>tcp_base = SetProtocol zero_BaseTransport ''tcp'', tcp_addr = addr, tcp_listeners = [],
      tcp_registry = zero_Registry, tcp_metrics = rec, seqCounter = 0, lostCounter = 0, connCounter = 0,
      tcp_done = False, tcp_accepts = [], tcp_conns = []\<rparr>"

text \<open>\<open>listen bindAddr i\<close> is the resolved address of the \<open>i\<close>-th \<open>Listen\<close>, or \<open>None\<close> on an error.\<close>

fun open_listeners ::
  "(string \<Rightarrow> nat \<Rightarrow> string option) \<Rightarrow> string \<Rightarrow> nat \<Rightarrow> nat \<Rightarrow> string \<Rightarrow> (string \<times> bool) list \<Rightarrow>
   (string \<times> nat) + (string \<times> bool) list" where
  "open_listeners listen addr i 0 resolved ls = Inr ls"
| "open_listeners listen addr i (Suc k) resolved ls =
     (let bindAddr = (if i > 0 \<and> resolved \<noteq> [] then resolved else addr) in
      case listen bindAddr i of
        None \<Rightarrow> Inl (bindAddr, i)
      | Some a \<Rightarrow> open_listeners listen addr (Suc i) k (if i = 0 then a else resolved) (ls @ [(a, True)]))"

definition listener_count :: "nat \<Rightarrow> bool \<Rightarrow> nat" where
  "listener_count numCPU linux = (let n = (if numCPU > 4 then 4 else numCPU) in if \<not> linux then 1 else n)"

definition TCP_Start ::
  "(string \<Rightarrow> nat \<Rightarrow> string option) \<Rightarrow> nat \<Rightarrow> bool \<Rightarrow> i64 \<Rightarrow> rat \<Rightarrow> cpuTime \<Rightarrow> 'h TCPServer \<Rightarrow>
   (tcp_error + unit) \<times> 'h TCPServer" where
  "TCP_Start listen numCPU linux now wall cpu s =
     (if IsStarted (tcp_base s) then (Inl (TransportErr ErrAlreadyStarted), s)
      else case open_listeners listen (tcp_addr s) 0 (listener_count numCPU linux) [] (tcp_listeners s) of
        Inl (bindAddr, i) \<Rightarrow> (Inl (ListenErr bindAddr i), s\<lparr>tcp_listeners := []\<rparr>)
      | Inr ls \<Rightarrow>
          (Inr (), s\<lparr>tcp_listeners := ls, tcp_base := MarkStarted (tcp_base s) now,
                     tcp_metrics := Recorder_Start (tcp_metrics s) now wall cpu, tcp_done := False,
                     tcp_accepts := map fst ls\<rparr>))"

text \<open>\<open>handleConn\<close> registers an accepted connection.\<close>

definition handleConn :: "'h TCPServer \<Rightarrow> 'h TCPServer option" where
  "handleConn s = do {
     let n = connCounter s + 1;
     let cid = ''tcp-'' @ dec (unat n);
     let tc = \<lparr>tc_id = cid, writeCh = [], cancelled = False, tc_closed = False, tc_writer = True, tc_sock = []\<rparr>;
     reg \<leftarrow> Registry_Add (tcp_registry s) cid (length (tcp_conns s));
     Some (s\<lparr>connCounter := n, tcp_conns := tcp_conns s @ [tc], tcp_registry := reg\<rparr>)
   }"

definition conn_offer :: "tcpConn \<Rightarrow> bytes \<Rightarrow> tcpConn \<times> bool" where
  "conn_offer tc framed = (case try_send tcpWriteChanCap (writeCh tc) framed of (ch, ok) \<Rightarrow> (tc\<lparr>writeCh := ch\<rparr>, ok))"

definition offer_to :: "u64 \<Rightarrow> bytes \<Rightarrow> nat \<Rightarrow> 'h TCPServer \<Rightarrow> ('h TCPServer \<times> bool) option" where
  "offer_to seq framed p s =
     (if p < length (tcp_conns s) then
        case conn_offer (tcp_conns s ! p) framed of (tc, ok) \<Rightarrow>
          Some (if ok
                then (s\<lparr>tcp_conns := (tcp_conns s)[p := tc],
                        tcp_metrics := RecordSend (tcp_metrics s) seq (length framed)\<rparr>, True)
                else (s\<lparr>lostCounter := lostCounter s + 1\<rparr>, False))
      else None)"

fun offer_all :: "u64 \<Rightarrow> bytes \<Rightarrow> nat list \<Rightarrow> 'h TCPServer \<Rightarrow> 'h TCPServer option" where
  "offer_all seq framed [] s = Some s"
| "offer_all seq framed (p # ps) s = do { (s', _) \<leftarrow> offer_to seq framed p s; offer_all seq framed ps s' }"

type_synonym conn_order = "(ConnID \<times> nat) list \<Rightarrow> (ConnID \<times> nat) list"

definition TCP_Broadcast :: "conn_order \<Rightarrow> i64 \<Rightarrow> bytes \<Rightarrow> 'h TCPServer \<Rightarrow> 'h TCPServer option" where
  \<comment> \<open>the error is always nil\<close>
  "TCP_Broadcast ord now data s = do {
     let seq = seqCounter s + 1;
     let s = s\<lparr>seqCounter := seq\<rparr>;
     frame \<leftarrow> Encode seq now data;
     framed \<leftarrow> prependLength frame;
     offer_all seq framed (Registry_Snapshot ord (tcp_registry s)) s
   }"

definition TCP_Send :: "ConnID \<Rightarrow> i64 \<Rightarrow> bytes \<Rightarrow> 'h TCPServer \<Rightarrow> ((tcp_error + unit) \<times> 'h TCPServer) option" where
  "TCP_Send cid now data s =
     (case Registry_Get (tcp_registry s) cid of
        None \<Rightarrow> Some (Inl (TransportErr ErrClientNotFound), s)
      | Some p \<Rightarrow> do {
          let seq = seqCounter s + 1;
          let s = s\<lparr>seqCounter := seq\<rparr>;
          frame \<leftarrow> Encode seq now data;
          framed \<leftarrow> prependLength frame;
          (s', ok) \<leftarrow> offer_to seq framed p s;
          Some (if ok then Inr () else Inl (ChannelFull cid), s') })"

definition TCP_Connections :: "'h TCPServer \<Rightarrow> nat" where
  "TCP_Connections s = Registry_Len (tcp_registry s)"

definition TCP_Stats :: "'h hdr_lib \<Rightarrow> 'h Recorder.conn_order \<Rightarrow> 'h TCPServer \<Rightarrow> i64 \<Rightarrow> Stats" where
  "TCP_Stats lib ord s now =
     (let snap = Recorder_Snapshot lib ord (tcp_metrics s) now; base = BaseStats (tcp_base s) now in
      base\<lparr>st_Connections := int (TCP_Connections s), st_Sent := rs_MsgSent snap, st_Received := rs_MsgRecv snap,
           st_Lost := Lost (rs_Seq snap) + lostCounter s, st_Duplicated := Duplicated (rs_Seq snap),
           st_Reordered := Reordered (rs_Seq snap), st_BytesSent := rs_BytesSent snap,
           st_BytesRecv := rs_BytesRecv snap\<rparr>)"

text \<open>A turn of a connection's write pump: it returns when it sees the cancelled context or when the write
  fails, else it writes the next value of the channel. It has no ticker.\<close>

definition conn_drain :: "tcpConn \<Rightarrow> (bytes \<times> tcpConn) option" where
  "conn_drain tc = (case try_recv (writeCh tc) of None \<Rightarrow> None
     | Some (data, ch) \<Rightarrow> Some (data, tc\<lparr>writeCh := ch, tc_sock := tc_sock tc @ [data]\<rparr>))"

definition writePump_turn :: "pick \<Rightarrow> nat \<Rightarrow> 'h TCPServer \<Rightarrow> 'h TCPServer option" where
  "writePump_turn pk p s =
     (if p < length (tcp_conns s) then
        let tc = tcp_conns s ! p in
        if \<not> tc_writer tc then Some s
        else case pk of
          PickDone \<Rightarrow> Some (if cancelled tc then s\<lparr>tcp_conns := (tcp_conns s)[p := tc\<lparr>tc_writer := False\<rparr>]\<rparr> else s)
        | PickData ok \<Rightarrow> (case try_recv (writeCh tc) of
            None \<Rightarrow> Some s
          | Some (data, ch) \<Rightarrow>
              Some (s\<lparr>tcp_conns := (tcp_conns s)[p := (if ok then tc\<lparr>writeCh := ch, tc_sock := tc_sock tc @ [data]\<rparr>
                                                      else tc\<lparr>writeCh := ch, tc_writer := False\<rparr>)]\<rparr>))
        | PickTick ok \<Rightarrow> Some s
      else None)"

text \<open>The whole life of a connection's read pump, on everything the peer sends until reading fails, with its
  deferred clean-up. The last component is the calls of \<open>onRecv\<close>.\<close>

definition readPump ::
  "'h hdr_lib \<Rightarrow> (nat \<Rightarrow> i64) \<Rightarrow> bytes \<Rightarrow> nat \<Rightarrow> 'h TCPServer \<Rightarrow> ('h TCPServer \<times> (ConnID \<times> bytes \<times> i64) list) option" where
  "readPump lib clock stream p s =
     (if p < length (tcp_conns s) then do {
        let tc = tcp_conns s ! p;
        (r, calls) \<leftarrow> pump_loop lib clock 0 (replicate tcpReadBufSize 0) stream (tcp_metrics s);
        Some (s\<lparr>tcp_metrics := r, tcp_conns := (tcp_conns s)[p := tc\<lparr>cancelled := True, tc_closed := True\<rparr>],
                tcp_registry := Registry_Remove (tcp_registry s) (tc_id tc)\<rparr>,
              map (\<lambda>(payload, t). (tc_id tc, payload, t)) calls)
      } else None)"

text \<open>\<open>Stop\<close> cancels and closes what is registered and waits for the pumps, each of which removes its
  connection and ends; no \<open>handleConn\<close> is under way.\<close>

definition shut :: "tcpConn \<Rightarrow> tcpConn" where "shut tc = tc\<lparr>cancelled := True, tc_closed := True\<rparr>"

definition TCP_Stop :: "conn_order \<Rightarrow> 'h TCPServer \<Rightarrow> ((tcp_error + unit) \<times> 'h TCPServer) option" where
  "TCP_Stop ord s =
     (if \<not> IsStarted (tcp_base s) then Some (Inl (TransportErr ErrNotStarted), s)
      else if tcp_done s then None
      else do {
        let reg = tcp_registry s;
        let cs = fold (\<lambda>p cs. cs[p := shut (cs ! p)]) (Registry_Snapshot ord reg) (tcp_conns s);
        let ids = fst (Registry_SnapshotWithIDs ord reg);
        m \<leftarrow> (case Recorder_Stop (tcp_metrics s) of None \<Rightarrow> None | Some m \<Rightarrow> m);
        Some (Inr (), s\<lparr>tcp_done := True, tcp_listeners := map (\<lambda>(a, _). (a, False)) (tcp_listeners s),
           tcp_accepts := [], tcp_conns := map (\<lambda>tc. tc\<lparr>tc_writer := False\<rparr>) cs, tcp_registry := fold (\<lambda>cid r. Registry_Remove r cid) ids reg,
           tcp_metrics := m, tcp_base := MarkStopped (tcp_base s)\<rparr>)
      })"

section \<open>The client\<close>

record 'h TCPClient =
  cl_conn :: bool
  cl_writeCh :: "bytes list"
  cl_recorder :: "'h Recorder"
  cl_seq :: u64
  cl_done :: bool
  cl_writer :: bool
  cl_sock :: "bytes list"

definition NewTCPClient :: "'h Recorder \<Rightarrow> 'h TCPClient" where
  "NewTCPClient rec = \<lparr>cl_conn = False, cl_writeCh = [], cl_recorder = rec, cl_seq = 0, cl_done = False, cl_writer = False, cl_sock = []\<rparr>"

definition Client_Dial :: "bool \<Rightarrow> bool \<Rightarrow> i64 \<Rightarrow> rat \<Rightarrow> cpuTime \<Rightarrow> 'h TCPClient \<Rightarrow> (tcp_error + unit) \<times> 'h TCPClient" where
  "Client_Dial resolves dials now wall cpu c =
     (if \<not> resolves then (Inl ResolveErr, c)
      else if \<not> dials then (Inl DialErr, c)
      else (Inr (), c\<lparr>cl_conn := True, cl_done := False, cl_writer := True, cl_sock := [],
                      cl_recorder := Recorder_Start (cl_recorder c) now wall cpu\<rparr>))"

definition Client_Send :: "i64 \<Rightarrow> bytes \<Rightarrow> 'h TCPClient \<Rightarrow> ((tcp_error + unit) \<times> 'h TCPClient) option" where
  "Client_Send now data c =
     (if \<not> cl_conn c then Some (Inl NotConnected, c)
      else do {
        let seq = cl_seq c + 1;
        let c = c\<lparr>cl_seq := seq\<rparr>;
        frame \<leftarrow> Encode seq now data;
        framed \<leftarrow> prependLength frame;
        Some (case try_send tcpWriteChanCap (cl_writeCh c) framed of
            (ch, True) \<Rightarrow> (Inr (), c\<lparr>cl_writeCh := ch, cl_recorder := RecordSend (cl_recorder c) seq (length framed)\<rparr>)
          | (ch, False) \<Rightarrow> (Inl ClientChannelFull, c)) })"

definition Client_SendSync :: "bool \<Rightarrow> i64 \<Rightarrow> bytes \<Rightarrow> 'h TCPClient \<Rightarrow> ((tcp_error + unit) \<times> 'h TCPClient) option" where
  "Client_SendSync ok now data c =
     (if \<not> cl_conn c then Some (Inl NotConnected, c)
      else do {
        let seq = cl_seq c + 1;
        let c = c\<lparr>cl_seq := seq\<rparr>;
        frame \<leftarrow> Encode seq now data;
        framed \<leftarrow> prependLength frame;
        Some (if \<not> ok then (Inl WriteErr, c)
              else (Inr (), c\<lparr>cl_sock := cl_sock c @ [framed],
                              cl_recorder := RecordSend (cl_recorder c) seq (length framed)\<rparr>)) })"

definition Client_Close :: "'h TCPClient \<Rightarrow> 'h TCPClient option" where
  "Client_Close c =
     (if cl_done c then Some c
      else do {
        r \<leftarrow> (case Recorder_Stop (cl_recorder c) of None \<Rightarrow> None | Some r \<Rightarrow> r);
        Some (c\<lparr>cl_done := True, cl_recorder := r\<rparr>) })"

definition Client_writePump_turn :: "pick \<Rightarrow> 'h TCPClient \<Rightarrow> 'h TCPClient" where
  "Client_writePump_turn pk c =
     (if \<not> cl_writer c then c
      else case pk of
        PickDone \<Rightarrow> if cl_done c then c\<lparr>cl_writer := False\<rparr> else c
      | PickData ok \<Rightarrow> (case try_recv (cl_writeCh c) of
          None \<Rightarrow> c
        | Some (data, ch) \<Rightarrow> if ok then c\<lparr>cl_writeCh := ch, cl_sock := cl_sock c @ [data]\<rparr> else c\<lparr>cl_writeCh := ch, cl_writer := False\<rparr>)
      | PickTick ok \<Rightarrow> c)"

definition Client_readPump ::
  "'h hdr_lib \<Rightarrow> (nat \<Rightarrow> i64) \<Rightarrow> string \<Rightarrow> bytes \<Rightarrow> 'h TCPClient \<Rightarrow> ('h TCPClient \<times> (ConnID \<times> bytes \<times> i64) list) option" where
  "Client_readPump lib clock localAddr stream c = do {
     (r, calls) \<leftarrow> pump_loop lib clock 0 (replicate tcpReadBufSize 0) stream (cl_recorder c);
     Some (c\<lparr>cl_recorder := r\<rparr>, map (\<lambda>(payload, t). (''tcp-'' @ localAddr, payload, t)) calls)
   }"

section \<open>Framing and streams\<close>

type_synonym message = "u64 \<times> i64 \<times> bytes"

definition msg_frame :: "message \<Rightarrow> bytes" where
  "msg_frame = (\<lambda>(seq, ns, data). frame_bytes seq ns data)"

definition framed :: "message \<Rightarrow> bytes" where
  "framed m = be_bytes 4 (of_nat (length (msg_frame m)) :: u32) @ msg_frame m"

definition fits :: "message \<Rightarrow> bool" where
  "fits m \<longleftrightarrow> length (msg_frame m) \<le> tcpMaxFrameSize"

lemma length_msg_frame [simp]: "length (msg_frame (q, ns, d)) = 24 + length d"
  by (simp add: msg_frame_def)

lemma length_framed [simp]: "length (framed m) = 4 + length (msg_frame m)"
  by (simp add: framed_def)

lemma msg_frame_pos: "24 \<le> length (msg_frame m)"
  by (cases m) simp

lemma prependLength_eq: "prependLength (msg_frame m) = Some (framed m)"
  by (simp add: prependLength_def framed_def Let_def tcpLenBytes_def slice_ops)

lemma copy_at_start: "length src \<le> length dst \<Longrightarrow> copy_at dst 0 src = Some (src @ drop (length src) dst)"
  by (simp add: copy_at_def put_at_def)

text \<open>The buffer is long enough for every admissible frame, so reading one never panics.\<close>

lemma read_frame_eq:
  "read_frame buf stream = Some
     (let frameLen = be_word (take tcpLenBytes stream) :: u32; n = unat frameLen; rest = drop tcpLenBytes stream in
      if length stream < tcpLenBytes \<or> frameLen = 0 \<or> n > tcpMaxFrameSize \<or> length rest < n then None
      else Some (take n rest, take n rest @ drop n (if n > length buf then replicate n 0 else buf), drop n rest))"
  by (simp add: read_frame_def Let_def slice_ops copy_at_start)

lemma read_frame_framed:
  assumes "fits m"
  shows "\<exists>buf'. read_frame buf (framed m @ rest) = Some (Some (msg_frame m, buf', rest))"
proof -
  have "length (msg_frame m) < 2 ^ 32" using assms by (simp add: fits_def tcpMaxFrameSize_def)
  then have u: "unat (of_nat (length (msg_frame m)) :: u32) = length (msg_frame m)"
    by (simp add: unsigned_of_nat take_bit_nat_eq_self)
  have "(of_nat (length (msg_frame m)) :: u32) \<noteq> 0"
    using u msg_frame_pos [of m] by (metis le_zero_eq unsigned_0 zero_neq_numeral)
  then show ?thesis
    using assms by (auto simp: read_frame_eq framed_def Let_def tcpLenBytes_def fits_def u)
qed

text \<open>A stream that breaks off inside a frame ends the pump.\<close>

lemma read_frame_cut:
  assumes "fits m" and "k < length (framed m)"
  shows "read_frame buf (take k (framed m)) = Some None"
proof (cases "k < 4")
  case True
  then show ?thesis by (simp add: read_frame_def tcpLenBytes_def)
next
  case False
  have "length (msg_frame m) < 2 ^ 32" using assms by (simp add: fits_def tcpMaxFrameSize_def)
  then have u: "unat (of_nat (length (msg_frame m)) :: u32) = length (msg_frame m)"
    by (simp add: unsigned_of_nat take_bit_nat_eq_self)
  have "take 4 (take k (framed m)) = be_bytes 4 (of_nat (length (msg_frame m)) :: u32)"
    using False by (simp add: framed_def min_def)
  moreover have "k - 4 < length (msg_frame m)" using assms(2) False by simp
  ultimately show ?thesis using assms(2) False by (simp add: read_frame_eq Let_def tcpLenBytes_def u)
qed

lemma dispatch_frame:
  assumes "fits (q, ns, d)"
  shows "dispatch lib r (msg_frame (q, ns, d)) t =
     map_option (\<lambda>r'. (r', Some (msg_frame (q, ns, d)))) (RecordRecv lib r q ns (24 + length d) t)"
proof -
  have "length d \<le> MaxPayload" using assms by (simp add: fits_def tcpMaxFrameSize_def MaxPayload_def)
  then have "Decode (frame_bytes q ns d) =
      Some (Inr (\<lparr>SeqNum = q, SendNs = ns, PayloadLen = of_nat (length d), Payload = d\<rparr>, 24 + length d))"
    using Decode_frame_bytes [of d q ns "[]"] by simp
  then show ?thesis
    by (cases "RecordRecv lib r q ns (24 + length d) t")
       (simp_all add: dispatch_def HeaderLen_def msg_frame_def)
qed

text \<open>The number of whole frames in the first \<open>k\<close> bytes of a stream of messages.\<close>

fun whole :: "nat \<Rightarrow> message list \<Rightarrow> nat" where
  "whole k [] = 0"
| "whole k (m # ms) = (if k < length (framed m) then 0 else Suc (whole (k - length (framed m)) ms))"

definition recv_msg :: "'h hdr_lib \<Rightarrow> (nat \<Rightarrow> i64) \<Rightarrow> 'h Recorder \<Rightarrow> nat \<times> message \<Rightarrow> 'h Recorder option" where
  "recv_msg lib clock r = (\<lambda>(i, q, ns, d). RecordRecv lib r q ns (24 + length d) (clock i))"

lemma recv_msg_apply: "recv_msg lib clock r (i, q, ns, d) = RecordRecv lib r q ns (24 + length d) (clock i)"
  by (simp add: recv_msg_def)

lemma pump_loop_stream:
  assumes "list_all fits ms"
    and "run_opt (recv_msg lib clock) r (enumerate i (take (whole k ms) ms)) = Some r'"
  shows "pump_loop lib clock i buf (take k (concat (map framed ms))) r =
     Some (r', map (\<lambda>(j, m). (msg_frame m, clock j)) (enumerate i (take (whole k ms) ms)))"
  using assms
proof (induction ms arbitrary: i k r buf)
  case Nil
  then show ?case by (subst pump_loop.simps) (simp add: read_frame_def tcpLenBytes_def)
next
  case (Cons m ms)
  obtain q ns d where m: "m = (q, ns, d)" by (cases m)
  show ?case
  proof (cases "k < length (framed m)")
    case True
    then have "take k (concat (map framed (m # ms))) = take k (framed m)" by simp
    then show ?thesis using Cons.prems True read_frame_cut [of m k buf]
      by (subst pump_loop.simps) simp
  next
    case False
    then have t: "take k (concat (map framed (m # ms))) = framed m @ take (k - length (framed m)) (concat (map framed ms))"
      by simp
    obtain buf' where b: "read_frame buf (framed m @ take (k - length (framed m)) (concat (map framed ms))) =
        Some (Some (msg_frame m, buf', take (k - length (framed m)) (concat (map framed ms))))"
      using Cons.prems(1) read_frame_framed [of m buf] by auto
    obtain r1 where r1: "RecordRecv lib r q ns (24 + length d) (clock i) = Some r1"
      "run_opt (recv_msg lib clock) r1 (enumerate (Suc i) (take (whole (k - length (framed m)) ms) ms)) = Some r'"
      using Cons.prems(2) False by (auto simp: recv_msg_apply m bind_eq_Some_conv)
    have "dispatch lib r (msg_frame m) (clock i) = Some (r1, Some (msg_frame m))"
      using dispatch_frame [of q ns d lib r "clock i"] r1(1) Cons.prems(1) by (simp add: m)
    then show ?thesis
      using Cons.IH [where i = "Suc i" and k = "k - length (framed m)" and r = r1 and buf = buf'] r1(2) Cons.prems(1) False
      unfolding t by (subst pump_loop.simps) (simp add: b [simplified])
  qed
qed

section \<open>Read pumps never panic\<close>

lemma read_frame_returns: "read_frame buf st \<noteq> None"
  by (simp add: read_frame_eq)

lemma read_frame_size:
  "read_frame buf st = Some (Some (p, buf', rest)) \<Longrightarrow> 0 < length p \<and> length p \<le> tcpMaxFrameSize"
  by (auto simp: read_frame_eq Let_def unat_eq_zero min_def split: if_splits)

lemma pump_loop_total:
  assumes "wf_rec r"
  shows "\<exists>r' calls. pump_loop lib clock i buf stream r = Some (r', calls) \<and> wf_rec r' \<and> msgSent r' = msgSent r \<and> resources r' = resources r \<and>
     msgRecv r' = msgRecv r + of_nat (length calls) \<and>
     (\<forall>(p, t) \<in> set calls. is_frame p \<and> length p \<le> tcpMaxFrameSize)"
  using assms
proof (induction lib clock i buf stream r rule: pump_loop.induct)
  case (1 lib clock i buf stream r)
  show ?case
  proof (cases "read_frame buf stream = Some None")
    case True
    then show ?thesis using 1 by (subst pump_loop.simps) simp
  next
    case False
    then obtain p buf' rest where Some: "read_frame buf stream = Some (Some (p, buf', rest))"
      using read_frame_returns [of buf stream] by auto
    obtain r1 called where r1: "dispatch lib r p (clock i) = Some (r1, called)" "wf_rec r1" "msgSent r1 = msgSent r" "resources r1 = resources r"
      "called \<in> {None, Some p}" "called = Some p \<longrightarrow> is_frame p" "msgRecv r1 = msgRecv r + (if called = None then 0 else 1)"
      using dispatch_total [OF 1(2)] by blast
    obtain r2 calls where "pump_loop lib clock (Suc i) buf' rest r1 = Some (r2, calls)" "wf_rec r2" "msgSent r2 = msgSent r1" "resources r2 = resources r1"
      "msgRecv r2 = msgRecv r1 + of_nat (length calls)" "\<forall>(p, t) \<in> set calls. is_frame p \<and> length p \<le> tcpMaxFrameSize"
      using 1(1) [OF Some refl refl refl r1(1) refl r1(2)] by blast
    then show ?thesis using Some r1 read_frame_size [of buf stream p buf' rest]
      by (subst pump_loop.simps) (auto split: option.splits)
  qed
qed

section \<open>Server runs\<close>

interpretation tcpq: send_queue writeCh tcpWriteChanCap conn_offer conn_drain
  by unfold_locales
     (auto simp: conn_offer_def conn_drain_def try_send_def try_recv_def split: list.splits prod.splits if_splits)

datatype tcp_event =
    Accepted
  | Broadcasts i64 bytes
  | Sends ConnID i64 bytes
  | Writes pick nat
  | Reads "nat \<Rightarrow> i64" bytes nat
  | Starts "string \<Rightarrow> nat \<Rightarrow> string option" nat bool i64 rat cpuTime
  | Stops
  | SamplerEnds  \<comment> \<open>a sampling goroutine of the recorder finds \<open>done\<close> closed\<close>

fun tcp_step :: "'h hdr_lib \<Rightarrow> conn_order \<Rightarrow> 'h TCPServer \<Rightarrow> tcp_event \<Rightarrow> 'h TCPServer option" where
  "tcp_step lib ord s Accepted = handleConn s"
| "tcp_step lib ord s (Broadcasts now data) = TCP_Broadcast ord now data s"
| "tcp_step lib ord s (Sends cid now data) = map_option snd (TCP_Send cid now data s)"
| "tcp_step lib ord s (Writes pk p) = writePump_turn pk p s"
| "tcp_step lib ord s (Reads clock stream p) = map_option fst (readPump lib clock stream p s)"
| "tcp_step lib ord s (Starts listen cpus linux now wall cpu) = Some (snd (TCP_Start listen cpus linux now wall cpu s))"
| "tcp_step lib ord s Stops = map_option snd (TCP_Stop ord s)"
| "tcp_step lib ord s SamplerEnds =
     map_option (\<lambda>rs. s\<lparr>tcp_metrics := (tcp_metrics s)\<lparr>resources := rs\<rparr>\<rparr>) (loop_exit (resources (tcp_metrics s)))"

text \<open>An event of a goroutine that exists: its connection has been accepted.\<close>

definition exists_conn :: "'h TCPServer \<Rightarrow> tcp_event \<Rightarrow> bool" where
  "exists_conn s e = (case e of Writes pk p \<Rightarrow> p < length (tcp_conns s) | Reads cl st p \<Rightarrow> p < length (tcp_conns s) | _ \<Rightarrow> True)"

definition conn_name :: "nat \<Rightarrow> ConnID" where "conn_name p = ''tcp-'' @ dec (Suc p)"

definition tcp_wf :: "'h TCPServer \<Rightarrow> bool" where
  "tcp_wf s \<longleftrightarrow> wf_registry (tcp_registry s) \<and> wf_rec (tcp_metrics s) \<and>
     unat (connCounter s) = length (tcp_conns s) \<and>
     (\<forall>p < length (tcp_conns s). tc_id (tcp_conns s ! p) = conn_name p \<and>
        length (writeCh (tcp_conns s ! p)) \<le> tcpWriteChanCap) \<and>
     (\<forall>cid p. Registry_Get (tcp_registry s) cid = Some p \<longrightarrow> p < length (tcp_conns s) \<and> cid = conn_name p)"

lemma conn_name_inj: "conn_name p = conn_name q \<longleftrightarrow> p = q"
  by (simp add: conn_name_def dec_inj)

lemma tcp_wf_New: "wf_rec r \<Longrightarrow> tcp_wf (NewTCPServer r addr)"
  using wf_zero_Registry
  by (auto simp: tcp_wf_def NewTCPServer_def Registry_Get_def zero_Registry_def gomap_get_def entries_def)

lemma tcp_wf_update:
  assumes "tcp_wf s" and "tc_id tc = conn_name p" and "length (writeCh tc) \<le> tcpWriteChanCap"
  shows "tcp_wf (s\<lparr>tcp_conns := (tcp_conns s)[p := tc]\<rparr>)"
proof -
  have "tc_id ((tcp_conns s)[p := tc] ! r) = conn_name r \<and> length (writeCh ((tcp_conns s)[p := tc] ! r)) \<le> tcpWriteChanCap"
    if "r < length (tcp_conns s)" for r
    using that assms by (cases "r = p") (simp_all add: tcp_wf_def)
  then show ?thesis using assms(1) by (simp add: tcp_wf_def)
qed

lemma tcp_wf_conn: "tcp_wf s \<Longrightarrow> p < length (tcp_conns s) \<Longrightarrow>
   tc_id (tcp_conns s ! p) = conn_name p \<and> length (writeCh (tcp_conns s ! p)) \<le> tcpWriteChanCap"
  by (simp add: tcp_wf_def)

lemma tcp_wf_cong:
  "tcp_wf s \<Longrightarrow> tcp_registry s' = tcp_registry s \<Longrightarrow> wf_rec (tcp_metrics s') \<Longrightarrow>
   connCounter s' = connCounter s \<Longrightarrow> tcp_conns s' = tcp_conns s \<Longrightarrow> tcp_wf s'"
  by (simp add: tcp_wf_def)

lemma conn_offer_cases:
  "conn_offer tc m = (if length (writeCh tc) < tcpWriteChanCap then (tc\<lparr>writeCh := writeCh tc @ [m]\<rparr>, True) else (tc, False))"
  by (simp add: conn_offer_def try_send_def)

lemma offer_to_cases:
  assumes "p < length (tcp_conns s)"
  shows "offer_to q m p s =
     Some (if length (writeCh (tcp_conns s ! p)) < tcpWriteChanCap
           then (s\<lparr>tcp_conns := (tcp_conns s)[p := fst (conn_offer (tcp_conns s ! p) m)],
                   tcp_metrics := RecordSend (tcp_metrics s) q (length m)\<rparr>, True)
           else (s\<lparr>lostCounter := lostCounter s + 1\<rparr>, False))"
  using assms by (simp add: offer_to_def conn_offer_cases)

lemma tcp_wf_offer_to:
  assumes "tcp_wf s" and "p < length (tcp_conns s)"
  shows "\<exists>s' ok. offer_to q m p s = Some (s', ok) \<and> tcp_wf s' \<and> length (tcp_conns s') = length (tcp_conns s) \<and>
     tcp_registry s' = tcp_registry s \<and> (\<forall>r. r \<noteq> p \<longrightarrow> tcp_conns s' ! r = tcp_conns s ! r) \<and>
     tcp_conns s' ! p = fst (conn_offer (tcp_conns s ! p) m) \<and> seqCounter s' = seqCounter s \<and>
     msgSent (tcp_metrics s') + lostCounter s' = msgSent (tcp_metrics s) + lostCounter s + 1"
proof (cases "length (writeCh (tcp_conns s ! p)) < tcpWriteChanCap")
  case True
  let ?s = "s\<lparr>tcp_conns := (tcp_conns s)[p := fst (conn_offer (tcp_conns s ! p) m)]\<rparr>"
  have "tcp_wf ?s" using tcp_wf_conn [OF assms] True by (intro tcp_wf_update assms) (simp_all add: conn_offer_cases)
  then have "tcp_wf (?s\<lparr>tcp_metrics := RecordSend (tcp_metrics s) q (length m)\<rparr>)"
    by (rule tcp_wf_cong) (use assms(1) in \<open>simp_all add: tcp_wf_def RecordSend_def\<close>)
  then show ?thesis using True assms(2) by (auto simp: offer_to_cases RecordSend_def)
next
  case False
  have "tcp_wf (s\<lparr>lostCounter := lostCounter s + 1\<rparr>)"
    by (rule tcp_wf_cong [OF assms(1)]) (use assms(1) in \<open>simp_all add: tcp_wf_def\<close>)
  then show ?thesis using False assms(2) by (auto simp: offer_to_cases conn_offer_cases)
qed

lemma offer_all_ok:
  assumes "tcp_wf s" and "\<forall>p \<in> set ps. p < length (tcp_conns s)" and "distinct ps"
  shows "\<exists>s'. offer_all q m ps s = Some s' \<and> tcp_wf s' \<and> length (tcp_conns s') = length (tcp_conns s) \<and>
     tcp_registry s' = tcp_registry s \<and> seqCounter s' = seqCounter s \<and>
     (\<forall>r. tcp_conns s' ! r = (if r \<in> set ps then fst (conn_offer (tcp_conns s ! r) m) else tcp_conns s ! r)) \<and>
     msgSent (tcp_metrics s') + lostCounter s' = msgSent (tcp_metrics s) + lostCounter s + of_nat (length ps)"
  using assms
proof (induction ps arbitrary: s)
  case (Cons p ps)
  obtain s1 ok where s1: "offer_to q m p s = Some (s1, ok)" "tcp_wf s1" "length (tcp_conns s1) = length (tcp_conns s)"
    "tcp_registry s1 = tcp_registry s" "\<And>r. r \<noteq> p \<Longrightarrow> tcp_conns s1 ! r = tcp_conns s ! r"
    "tcp_conns s1 ! p = fst (conn_offer (tcp_conns s ! p) m)" "seqCounter s1 = seqCounter s"
    "msgSent (tcp_metrics s1) + lostCounter s1 = msgSent (tcp_metrics s) + lostCounter s + 1"
    using tcp_wf_offer_to [OF Cons.prems(1), of p q m] Cons.prems(2) by auto
  obtain s2 where s2: "offer_all q m ps s1 = Some s2" "tcp_wf s2" "length (tcp_conns s2) = length (tcp_conns s1)"
    "tcp_registry s2 = tcp_registry s1" "seqCounter s2 = seqCounter s1"
    "\<And>r. tcp_conns s2 ! r = (if r \<in> set ps then fst (conn_offer (tcp_conns s1 ! r) m) else tcp_conns s1 ! r)"
    "msgSent (tcp_metrics s2) + lostCounter s2 = msgSent (tcp_metrics s1) + lostCounter s1 + of_nat (length ps)"
    using Cons.IH [OF s1(2)] Cons.prems s1(3) by auto
  have "tcp_conns s2 ! r = (if r \<in> set (p # ps) then fst (conn_offer (tcp_conns s ! r) m) else tcp_conns s ! r)" for r
    using s2(6) [of r] s1(5,6) Cons.prems(3) by (cases "r = p") auto
  moreover have "msgSent (tcp_metrics s2) + lostCounter s2 = msgSent (tcp_metrics s) + lostCounter s + of_nat (length (p # ps))"
    using s2(7) s1(8) by (simp add: algebra_simps)
  ultimately show ?case using s1 s2 by simp
qed simp

lemma peers_of:
  assumes "tcp_wf s" and "range_order ord"
  shows "set (Registry_Snapshot ord (tcp_registry s)) = {p. Registry_Get (tcp_registry s) (conn_name p) = Some p}"
    and "distinct (Registry_Snapshot ord (tcp_registry s))"
    and "length (Registry_Snapshot ord (tcp_registry s)) = TCP_Connections s"
proof -
  let ?es = "all_entries ord (tcp_registry s)"
  have reg: "wf_registry (tcp_registry s)" and
    name: "\<And>cid p. Registry_Get (tcp_registry s) cid = Some p \<Longrightarrow> cid = conn_name p"
    using assms(1) by (auto simp: tcp_wf_def)
  have in_es: "(cid, p) \<in> set ?es \<longleftrightarrow> Registry_Get (tcp_registry s) cid = Some p" for cid p
    by (rule all_entries_get [OF reg assms(2)])
  then show "set (Registry_Snapshot ord (tcp_registry s)) = {p. Registry_Get (tcp_registry s) (conn_name p) = Some p}"
    using name by (force simp: Snapshot_all_entries)
  have "map fst ?es = map conn_name (map snd ?es)" using in_es name by (auto intro!: map_cong)
  then have "distinct (map conn_name (map snd ?es))" using distinct_all_entries [OF reg assms(2)] by metis
  then show "distinct (Registry_Snapshot ord (tcp_registry s))"
    unfolding Snapshot_all_entries distinct_map [of conn_name] by (rule conjunct1)
  show "length (Registry_Snapshot ord (tcp_registry s)) = TCP_Connections s"
    using assms(2) by (simp add: Snapshot_all_entries TCP_Connections_def Registry_Len_all_entries)
qed

lemma tcp_wf_seq: "tcp_wf s \<Longrightarrow> tcp_wf (s\<lparr>seqCounter := q\<rparr>)"
  by (rule tcp_wf_cong) (simp_all add: tcp_wf_def)

lemma TCP_Broadcast_ok:
  assumes "tcp_wf s" and "range_order ord"
  shows "\<exists>s'. TCP_Broadcast ord now data s = Some s' \<and> tcp_wf s' \<and> length (tcp_conns s') = length (tcp_conns s) \<and>
     tcp_registry s' = tcp_registry s \<and> seqCounter s' = seqCounter s + 1 \<and>
     (\<forall>p. tcp_conns s' ! p = (if Registry_Get (tcp_registry s) (conn_name p) = Some p
        then fst (conn_offer (tcp_conns s ! p) (framed (seqCounter s + 1, now, data))) else tcp_conns s ! p)) \<and>
     msgSent (tcp_metrics s') + lostCounter s' =
       msgSent (tcp_metrics s) + lostCounter s + of_nat (TCP_Connections s)"
proof -
  let ?q = "seqCounter s + 1" and ?s = "s\<lparr>seqCounter := seqCounter s + 1\<rparr>"
  let ?ps = "Registry_Snapshot ord (tcp_registry s)"
  have fr: "frame_bytes ?q now data = msg_frame (?q, now, data)" by (simp add: msg_frame_def)
  have "TCP_Broadcast ord now data s = offer_all ?q (framed (?q, now, data)) ?ps ?s"
    by (simp add: TCP_Broadcast_def Let_def fr prependLength_eq)
  moreover have "\<forall>p \<in> set ?ps. p < length (tcp_conns ?s)"
    using assms(1) peers_of(1) [OF assms] by (auto simp: tcp_wf_def)
  ultimately show ?thesis
    using offer_all_ok [OF tcp_wf_seq [OF assms(1)] _ peers_of(2) [OF assms], of "seqCounter s + 1" ?q "framed (?q, now, data)"]
      peers_of(1,3) [OF assms] by auto
qed

lemma TCP_Send_ok:
  assumes "tcp_wf s"
  shows "\<exists>r s'. TCP_Send cid now data s = Some (r, s') \<and> tcp_wf s' \<and> length (tcp_conns s') = length (tcp_conns s)"
proof (cases "Registry_Get (tcp_registry s) cid")
  case None
  then show ?thesis using assms by (simp add: TCP_Send_def)
next
  case (Some p)
  let ?q = "seqCounter s + 1"
  have fr: "frame_bytes ?q now data = msg_frame (?q, now, data)" by (simp add: msg_frame_def)
  have "p < length (tcp_conns s)" using assms Some by (auto simp: tcp_wf_def)
  then show ?thesis
    using tcp_wf_offer_to [OF tcp_wf_seq [OF assms], of p ?q ?q "framed (?q, now, data)"] Some
    by (auto simp: TCP_Send_def Let_def fr prependLength_eq)
qed

lemma handleConn_ok:
  assumes "tcp_wf s" and "connCounter s \<noteq> -1"
  shows "\<exists>s'. handleConn s = Some s' \<and> tcp_wf s' \<and> length (tcp_conns s') = Suc (length (tcp_conns s)) \<and>
     Registry_Get (tcp_registry s') = (Registry_Get (tcp_registry s))(conn_name (length (tcp_conns s)) \<mapsto> length (tcp_conns s)) \<and>
     tcp_conns s' = tcp_conns s @ [\<lparr>tc_id = conn_name (length (tcp_conns s)), writeCh = [], cancelled = False,
        tc_closed = False, tc_writer = True, tc_sock = []\<rparr>] \<and> seqCounter s' = seqCounter s"
proof -
  have n: "unat (connCounter s + 1) = Suc (length (tcp_conns s))"
    using assms by (simp add: tcp_wf_def unat_add_one)
  have reg: "wf_registry (tcp_registry s)" using assms(1) by (simp add: tcp_wf_def)
  from Registry_Add_eq [OF reg, of "conn_name (length (tcp_conns s))" "length (tcp_conns s)"] obtain r' where
    r': "Registry_Add (tcp_registry s) (conn_name (length (tcp_conns s))) (length (tcp_conns s)) = Some r'" "wf_registry r'"
      "Registry_Get r' = (Registry_Get (tcp_registry s))(conn_name (length (tcp_conns s)) \<mapsto> length (tcp_conns s))" by metis
  let ?tc = "\<lparr>tc_id = conn_name (length (tcp_conns s)), writeCh = [], cancelled = False,
    tc_closed = False, tc_writer = True, tc_sock = []\<rparr>"
  let ?s = "s\<lparr>connCounter := connCounter s + 1, tcp_conns := tcp_conns s @ [?tc], tcp_registry := r'\<rparr>"
  have "handleConn s = Some ?s" using n r'(1) by (simp add: handleConn_def Let_def conn_name_def)
  moreover have "p < Suc (length (tcp_conns s)) \<and> cid = conn_name p" if "Registry_Get r' cid = Some p" for cid p
    using that assms(1) by (cases "cid = conn_name (length (tcp_conns s))") (auto simp: r'(3) tcp_wf_def less_Suc_eq)
  then have "tcp_wf ?s" using assms(1) n r'(2) by (auto simp: tcp_wf_def nth_append less_Suc_eq)
  ultimately show ?thesis using r'(3) by auto
qed

lemma writePump_turn_ok:
  assumes "tcp_wf s" and "p < length (tcp_conns s)"
  shows "\<exists>s'. writePump_turn pk p s = Some s' \<and> tcp_wf s' \<and> length (tcp_conns s') = length (tcp_conns s) \<and>
     tcp_registry s' = tcp_registry s \<and> seqCounter s' = seqCounter s \<and> (\<forall>r. r \<noteq> p \<longrightarrow> tcp_conns s' ! r = tcp_conns s ! r)"
proof -
  let ?tc = "tcp_conns s ! p"
  have id: "tc_id ?tc = conn_name p" "length (writeCh ?tc) \<le> tcpWriteChanCap" using tcp_wf_conn [OF assms] by auto
  have ok: "tcp_wf (s\<lparr>tcp_conns := (tcp_conns s)[p := tc]\<rparr>)"
    if "tc_id tc = tc_id ?tc" "length (writeCh tc) \<le> length (writeCh ?tc)" for tc
    using that id by (intro tcp_wf_update assms(1)) simp_all
  show ?thesis
    using assms ok by (auto simp: writePump_turn_def Let_def try_recv_def split: list.splits pick.splits)
qed

lemma writePump_turn_drain:
  assumes "p < length (tcp_conns s)" "tc_writer (tcp_conns s ! p)"
  shows "writePump_turn (PickData True) p s =
     Some (case conn_drain (tcp_conns s ! p) of None \<Rightarrow> s | Some (m, tc) \<Rightarrow> s\<lparr>tcp_conns := (tcp_conns s)[p := tc]\<rparr>)"
  using assms by (simp add: writePump_turn_def conn_drain_def Let_def split: option.splits)

lemma readPump_ok:
  assumes "tcp_wf s" and "p < length (tcp_conns s)"
  shows "\<exists>s' calls. readPump lib clock stream p s = Some (s', calls) \<and> tcp_wf s' \<and> length (tcp_conns s') = length (tcp_conns s)"
proof -
  obtain r calls where r: "pump_loop lib clock 0 (replicate tcpReadBufSize 0) stream (tcp_metrics s) = Some (r, calls)" "wf_rec r"
    using pump_loop_total [of "tcp_metrics s"] assms(1) unfolding tcp_wf_def by blast
  let ?tc = "tcp_conns s ! p"
  let ?s = "s\<lparr>tcp_conns := (tcp_conns s)[p := ?tc\<lparr>cancelled := True, tc_closed := True\<rparr>]\<rparr>"
  have w: "tcp_wf ?s" using tcp_wf_conn [OF assms] by (intro tcp_wf_update assms(1)) simp_all
  have reg: "wf_registry (tcp_registry s)" using assms(1) by (simp add: tcp_wf_def)
  have "tcp_wf (s\<lparr>tcp_metrics := r, tcp_conns := tcp_conns ?s, tcp_registry := Registry_Remove (tcp_registry s) (tc_id ?tc)\<rparr>)"
    using w r(2) Registry_Remove_eq [OF reg, of "tc_id ?tc"] by (simp add: tcp_wf_def)
  then show ?thesis using r(1) assms(2) by (simp add: readPump_def Let_def)
qed

text \<open>Starting and stopping.\<close>

lemma shut_at:
  "q < length cs \<Longrightarrow> tc_id (cs[p := shut (cs ! p)] ! q) = tc_id (cs ! q) \<and> writeCh (cs[p := shut (cs ! p)] ! q) = writeCh (cs ! q)"
  by (cases "p = q") (simp_all add: shut_def)

lemma shut_all:
  "length (fold (\<lambda>p cs. cs[p := shut (cs ! p)]) ps cs) = length cs \<and>
   (\<forall>q < length cs. tc_id (fold (\<lambda>p cs. cs[p := shut (cs ! p)]) ps cs ! q) = tc_id (cs ! q) \<and>
      writeCh (fold (\<lambda>p cs. cs[p := shut (cs ! p)]) ps cs ! q) = writeCh (cs ! q))"
proof (induction ps arbitrary: cs)
  case (Cons p ps)
  show ?case using Cons [of "cs[p := shut (cs ! p)]"] by (simp add: shut_at)
qed simp

lemma remove_get:
  "wf_registry r \<Longrightarrow> Registry_Get (Registry_Remove r i) cid = Some p \<Longrightarrow> Registry_Get r cid = Some p"
  by (simp add: Registry_Remove_eq(2) split: if_splits)

lemma remove_all:
  assumes "wf_registry r"
  shows "wf_registry (fold (\<lambda>cid r. Registry_Remove r cid) ids r)"
    and "Registry_Get (fold (\<lambda>cid r. Registry_Remove r cid) ids r) cid = Some p \<Longrightarrow> Registry_Get r cid = Some p"
  using assms
proof (induction ids arbitrary: r)
  case (Cons i ids)
  {
    case 1
    then show ?case using Cons.IH(1) [OF Registry_Remove_eq(1)] by simp
  next
    case 2
    then show ?case using Cons.IH(2) [OF _ Registry_Remove_eq(1)] remove_get by (metis comp_apply fold_simps(2))
  }
qed simp_all

lemma TCP_Stop_ok:
  assumes "tcp_wf s" and "TCP_Stop ord s = Some (e, s')"
  shows "tcp_wf s'"
proof (cases "IsStarted (tcp_base s)")
  case True
  let ?cs = "map (\<lambda>tc. tc\<lparr>tc_writer := False\<rparr>)
    (fold (\<lambda>p cs. cs[p := shut (cs ! p)]) (Registry_Snapshot ord (tcp_registry s)) (tcp_conns s))"
  let ?reg = "fold (\<lambda>cid r. Registry_Remove r cid) (fst (Registry_SnapshotWithIDs ord (tcp_registry s))) (tcp_registry s)"
  from assms(2) True obtain m where m: "Recorder_Stop (tcp_metrics s) = Some (Some m)"
    and s': "tcp_conns s' = ?cs" "tcp_registry s' = ?reg" "tcp_metrics s' = m" "connCounter s' = connCounter s"
    by (auto simp: TCP_Stop_def Let_def bind_eq_Some_conv split: if_splits option.splits)
  have "wf_rec m" using m assms(1) by (auto simp: Recorder_Stop_def tcp_wf_def)
  moreover have "length ?cs = length (tcp_conns s)"
    "\<And>q. q < length (tcp_conns s) \<Longrightarrow> tc_id (?cs ! q) = tc_id (tcp_conns s ! q) \<and> writeCh (?cs ! q) = writeCh (tcp_conns s ! q)"
    using shut_all [of "Registry_Snapshot ord (tcp_registry s)" "tcp_conns s"] by simp_all
  moreover have "wf_registry (tcp_registry s)" using assms(1) by (simp add: tcp_wf_def)
  then have "wf_registry ?reg" "\<And>cid p. Registry_Get ?reg cid = Some p \<Longrightarrow> p < length (tcp_conns s) \<and> cid = conn_name p"
    using remove_all [of "tcp_registry s" "fst (Registry_SnapshotWithIDs ord (tcp_registry s))"] assms(1)
    unfolding tcp_wf_def by blast+
  ultimately show ?thesis using assms(1) unfolding tcp_wf_def s' by simp
qed (use assms in \<open>simp add: TCP_Stop_def\<close>)

lemma TCP_Start_wf: "tcp_wf s \<Longrightarrow> tcp_wf (snd (TCP_Start listen cpus linux now wall cpu s))"
  by (auto simp: TCP_Start_def tcp_wf_def Recorder_Start_def split: sum.splits prod.splits)

text \<open>What the life cycle of the server and of its sampler depends on, and the steps that leave it alone.\<close>

definition life :: "'h TCPServer \<Rightarrow> bool \<times> bool \<times> ResourceSampler" where
  "life s = (IsStarted (tcp_base s), tcp_done s, resources (tcp_metrics s))"

lemma life_offer_to: "offer_to q m p s = Some (s', ok) \<Longrightarrow> life s' = life s"
  by (auto simp: offer_to_def life_def RecordSend_def split: if_splits prod.splits)

lemma life_offer_all: "offer_all q m ps s = Some s' \<Longrightarrow> life s' = life s"
  by (induction ps arbitrary: s) (auto simp: bind_eq_Some_conv dest: life_offer_to)

lemma life_kept:
  assumes "tcp_wf s" and "tcp_step lib ord s e = Some s'"
    and "case e of Starts _ _ _ _ _ _ \<Rightarrow> False | Stops \<Rightarrow> False | SamplerEnds \<Rightarrow> False | _ \<Rightarrow> True"
  shows "life s' = life s"
proof (cases e)
  case Accepted
  then show ?thesis using assms(2) by (auto simp: handleConn_def Let_def bind_eq_Some_conv life_def)
next
  case (Broadcasts now data)
  then show ?thesis using assms(2)
    by (auto simp: TCP_Broadcast_def Let_def bind_eq_Some_conv dest!: life_offer_all) (simp add: life_def)
next
  case (Sends cid now data)
  then show ?thesis using assms(2)
    by (auto simp: TCP_Send_def Let_def bind_eq_Some_conv split: option.splits dest!: life_offer_to) (simp_all add: life_def)
next
  case (Writes pk p)
  then show ?thesis using assms(2)
    by (auto simp: writePump_turn_def Let_def life_def split: if_splits pick.splits option.splits)
next
  case (Reads clock stream p)
  have "\<exists>r' calls. pump_loop lib clock 0 (replicate tcpReadBufSize 0) stream (tcp_metrics s) = Some (r', calls) \<and>
      resources r' = resources (tcp_metrics s)"
    using pump_loop_total [of "tcp_metrics s" lib clock 0 "replicate tcpReadBufSize 0" stream] assms(1)
    unfolding tcp_wf_def by blast
  with Reads show ?thesis using assms(2) by (auto simp: readPump_def Let_def life_def split: if_splits)
qed (use assms(3) in simp_all)

text \<open>A step that can happen: of a goroutine that exists. An accept may follow as long as the connection counter
  does not wrap; a sampling goroutine leaves its loop when \<open>done\<close> is closed.\<close>

definition enabled :: "'h TCPServer \<Rightarrow> tcp_event \<Rightarrow> bool" where
  "enabled s e \<longleftrightarrow> exists_conn s e \<and> (e = Accepted \<longrightarrow> connCounter s \<noteq> -1) \<and>
     (e = SamplerEnds \<longrightarrow> rs_done (resources (tcp_metrics s)) \<and> 0 < rs_loops (resources (tcp_metrics s)))"

text \<open>The states a server can reach by any steps, \<open>Start\<close> and \<open>Stop\<close> included, counting the calls of \<open>Stop\<close> that
  stopped it.\<close>

inductive tcp_reach :: "'h hdr_lib \<Rightarrow> conn_order \<Rightarrow> 'h TCPServer \<Rightarrow> nat \<Rightarrow> 'h TCPServer \<Rightarrow> bool"
  for lib :: "'h hdr_lib" and ord :: conn_order and s0 :: "'h TCPServer" where
  start: "tcp_reach lib ord s0 0 s0"
| step: "tcp_reach lib ord s0 k s \<Longrightarrow> enabled s e \<Longrightarrow> tcp_step lib ord s e = Some s' \<Longrightarrow>
    tcp_reach lib ord s0 (if e = Stops \<and> IsStarted (tcp_base s) then Suc k else k) s'"

definition life_ok :: "nat \<Rightarrow> 'h TCPServer \<Rightarrow> bool" where
  "life_ok k s = (case life s of (started, fin, rs) \<Rightarrow>
     k \<le> 1 \<and> rs_done rs = (k = 1) \<and> rs_stopped rs = (k = 1) \<and> rs_loops rs = (if started then 1 else 0) \<and>
     (started \<longrightarrow> \<not> fin))"

lemma life_ok_Start: "life_ok k s \<Longrightarrow> life_ok k (snd (TCP_Start listen cpus linux now wall cpu s))"
  by (auto simp: life_ok_def life_def TCP_Start_def Recorder_Start_def Sampler_Start_def IsStarted_def MarkStarted_def
      split: sum.splits prod.splits)

lemma life_ok_Stop:
  assumes "life_ok k s"
  shows "TCP_Stop ord s = None \<longleftrightarrow> k = 1 \<and> IsStarted (tcp_base s)"
    and "TCP_Stop ord s = Some (err, s') \<Longrightarrow> life_ok (if IsStarted (tcp_base s) then Suc k else k) s'"
  using assms
  by (auto simp: life_ok_def life_def TCP_Stop_def Let_def Recorder_Stop_def Sampler_Stop_def loop_exit_def
      IsStarted_def MarkStopped_def bind_eq_Some_conv bind_eq_None_conv split: if_splits)

lemma tcp_step_ok:
  assumes "tcp_wf s" and "range_order ord" and "enabled s e" and "life_ok k s"
  shows "tcp_step lib ord s e = None \<longleftrightarrow> k = 1 \<and> IsStarted (tcp_base s) \<and> (e = Stops \<or> e = SamplerEnds)"
    and "tcp_step lib ord s e = Some s' \<Longrightarrow> tcp_wf s' \<and> life_ok (if e = Stops \<and> IsStarted (tcp_base s) then Suc k else k) s'"
proof -
  have keep: "life_ok k s'" if "tcp_step lib ord s e = Some s'"
    "case e of Starts _ _ _ _ _ _ \<Rightarrow> False | Stops \<Rightarrow> False | SamplerEnds \<Rightarrow> False | _ \<Rightarrow> True"
    using life_kept [OF assms(1) that] assms(4) by (simp add: life_ok_def)
  have "(tcp_step lib ord s e = None \<longleftrightarrow> k = 1 \<and> IsStarted (tcp_base s) \<and> (e = Stops \<or> e = SamplerEnds)) \<and>
    (tcp_step lib ord s e = Some s' \<longrightarrow> tcp_wf s' \<and> life_ok (if e = Stops \<and> IsStarted (tcp_base s) then Suc k else k) s')"
  proof (cases e)
    case Accepted
    then show ?thesis using handleConn_ok [OF assms(1)] assms(3) keep by (auto simp: enabled_def)
  next
    case (Broadcasts now data)
    then show ?thesis using TCP_Broadcast_ok [OF assms(1,2), of now data] keep by auto
  next
    case (Sends cid now data)
    then show ?thesis using TCP_Send_ok [OF assms(1), of cid now data] keep by auto
  next
    case (Writes pk p)
    then show ?thesis using writePump_turn_ok [OF assms(1), of p pk] assms(3) keep by (auto simp: enabled_def exists_conn_def)
  next
    case (Reads clock stream p)
    then show ?thesis using readPump_ok [OF assms(1), of p lib clock stream] assms(3) keep
      by (auto simp: enabled_def exists_conn_def)
  next
    case (Starts listen cpus linux now wall cpu)
    then show ?thesis using TCP_Start_wf [OF assms(1)] life_ok_Start [OF assms(4)] by auto
  next
    case Stops
    then show ?thesis using TCP_Stop_ok [OF assms(1), of ord] life_ok_Stop [OF assms(4), of ord] by (auto split: if_splits)
  next
    case SamplerEnds
    then show ?thesis using assms(3,4) by (auto simp: enabled_def life_ok_def life_def loop_exit_def split: if_splits)
  qed
  then show "tcp_step lib ord s e = None \<longleftrightarrow> k = 1 \<and> IsStarted (tcp_base s) \<and> (e = Stops \<or> e = SamplerEnds)"
    and "tcp_step lib ord s e = Some s' \<Longrightarrow> tcp_wf s' \<and> life_ok (if e = Stops \<and> IsStarted (tcp_base s) then Suc k else k) s'"
    by blast+
qed

lemma tcp_reach_ok:
  assumes "tcp_reach lib ord s0 k s" and "tcp_wf s0" and "life_ok 0 s0" and "range_order ord"
  shows "tcp_wf s \<and> life_ok k s"
  using assms(1)
proof (induction rule: tcp_reach.induct)
  case start
  then show ?case using assms(2,3) by simp
next
  case (step k s e s')
  then show ?case using tcp_step_ok(2) [OF _ assms(4) step.hyps(2)] by blast
qed

lemma life_ok_New: "NewRecorder lib cfg t0 = Some r \<Longrightarrow> life_ok 0 (NewTCPServer r addr) \<and> tcp_wf (NewTCPServer r addr)"
  using tcp_wf_New [of r addr] wf_NewSequenceTracker
  by (auto simp: life_ok_def life_def NewTCPServer_def NewRecorder_def Let_def NewResourceSampler_def bind_eq_Some_conv
      SetProtocol_def zero_BaseTransport_def IsStarted_def)

section \<open>From broadcast to client\<close>

fun sent_msgs :: "u64 \<Rightarrow> tcp_event list \<Rightarrow> message list" where
  "sent_msgs q [] = []"
| "sent_msgs q (Broadcasts now d # es) = (q + 1, now, d) # sent_msgs (q + 1) es"
| "sent_msgs q (e # es) = sent_msgs q es"

fun proj :: "nat \<Rightarrow> u64 \<Rightarrow> tcp_event list \<Rightarrow> bytes queue_event list" where
  "proj p q [] = []"
| "proj p q (Broadcasts now d # es) = Offer (framed (q + 1, now, d)) # proj p (q + 1) es"
| "proj p q (Writes pk r # es) = (if r = p then Drain # proj p q es else proj p q es)"
| "proj p q (e # es) = proj p q es"

lemma offers_proj: "offers (proj p q es) = map framed (sent_msgs q es)"
  by (induction p q es rule: proj.induct) auto

text \<open>Broadcasts, and write pumps whose sockets accept the bytes.\<close>

definition quiet :: "nat \<Rightarrow> tcp_event \<Rightarrow> bool" where
  "quiet n e = (case e of Broadcasts now d \<Rightarrow> True | Writes pk r \<Rightarrow> pk = PickData True \<and> r < n | _ \<Rightarrow> False)"

definition live_conn :: "'h TCPServer \<Rightarrow> nat \<Rightarrow> bool" where
  "live_conn s p \<longleftrightarrow> p < length (tcp_conns s) \<and> Registry_Get (tcp_registry s) (conn_name p) = Some p \<and>
     tc_writer (tcp_conns s ! p) \<and> \<not> cancelled (tcp_conns s ! p)"

lemma conn_life:
  "fst (conn_offer tc m) = tc' \<Longrightarrow> tc_writer tc' = tc_writer tc \<and> cancelled tc' = cancelled tc \<and> tc_sock tc' = tc_sock tc"
  "conn_drain tc = Some (d, tc') \<Longrightarrow> tc_writer tc' = tc_writer tc \<and> cancelled tc' = cancelled tc \<and> tc_sock tc' = tc_sock tc @ [d]"
  by (auto simp: conn_offer_cases conn_drain_def split: if_splits option.splits)

lemma qrun_sock: "tcpq.qrun tc es = (tc', acc, out) \<Longrightarrow> tc_sock tc' = tc_sock tc @ out"
proof (induction tc es arbitrary: acc out rule: tcpq.qrun.induct)
  case (2 c m es)
  then show ?case using conn_life(1) [of c m] by (auto split: prod.splits)
next
  case (3 c es)
  then show ?case using conn_life(2) [of c] by (fastforce split: option.splits prod.splits)
qed simp

lemma server_run_conn:
  assumes "tcp_wf s" and "range_order ord" and "live_conn s p" and "list_all (quiet (length (tcp_conns s))) es"
  shows "\<exists>s'. run_opt (tcp_step lib ord) s es = Some s' \<and> tcp_wf s' \<and> live_conn s' p \<and>
     length (tcp_conns s') = length (tcp_conns s) \<and>
     tcp_conns s' ! p = fst (tcpq.qrun (tcp_conns s ! p) (proj p (seqCounter s) es))"
  using assms
proof (induction es arbitrary: s)
  case (Cons e es)
  show ?case
  proof (cases e)
    case (Broadcasts now d)
    let ?tc = "fst (conn_offer (tcp_conns s ! p) (framed (seqCounter s + 1, now, d)))"
    obtain s1 where s1: "TCP_Broadcast ord now d s = Some s1" "tcp_wf s1" "length (tcp_conns s1) = length (tcp_conns s)"
      "tcp_registry s1 = tcp_registry s" "seqCounter s1 = seqCounter s + 1" "tcp_conns s1 ! p = ?tc"
      using TCP_Broadcast_ok [OF Cons.prems(1,2), of now d] Cons.prems(3) by (auto simp: live_conn_def)
    have "live_conn s1 p" using Cons.prems(3) s1 conn_life(1) [OF refl] by (simp add: live_conn_def)
    with Cons.IH [OF s1(2) Cons.prems(2)] Cons.prems(4) s1 Broadcasts show ?thesis
      by (auto split: prod.splits)
  next
    case (Writes pk r)
    then have q: "pk = PickData True" "r < length (tcp_conns s)" using Cons.prems(4) by (simp_all add: quiet_def)
    obtain s1 where s1: "writePump_turn pk r s = Some s1" "tcp_wf s1" "length (tcp_conns s1) = length (tcp_conns s)"
      "tcp_registry s1 = tcp_registry s" "seqCounter s1 = seqCounter s" "\<And>k. k \<noteq> r \<Longrightarrow> tcp_conns s1 ! k = tcp_conns s ! k"
      using writePump_turn_ok [OF Cons.prems(1) q(2), of pk] by blast
    have d: "tcp_conns s1 ! p = (case conn_drain (tcp_conns s ! p) of None \<Rightarrow> tcp_conns s ! p | Some (m, tc) \<Rightarrow> tc)" if "r = p"
      using writePump_turn_drain [of p s] Cons.prems(3) s1(1) q(1) that
      by (auto simp: live_conn_def split: option.splits)
    have "live_conn s1 p"
    proof (cases "r = p")
      case True
      then show ?thesis using d Cons.prems(3) s1 conn_life(2) [of "tcp_conns s ! p"]
        by (auto simp: live_conn_def split: option.splits)
    next
      case False
      then show ?thesis using Cons.prems(3) s1 by (simp add: live_conn_def)
    qed
    with Cons.IH [OF s1(2) Cons.prems(2)] Cons.prems(4) s1 d Writes show ?thesis
      by (cases "r = p") (auto split: prod.splits option.splits)
  qed (use Cons.prems(4) in \<open>simp_all add: quiet_def\<close>)
qed simp

lemma recv_msg_run:
  assumes "wf_rec r"
  shows "\<exists>r'. run_opt (recv_msg lib clock) r (enumerate i ms) = Some r' \<and> wf_rec r' \<and>
     msgRecv r' = msgRecv r + of_nat (length ms)"
  using assms
proof (induction ms arbitrary: i r)
  case (Cons m ms)
  obtain q ns d where m: "m = (q, ns, d)" by (cases m)
  obtain r1 where r1: "RecordRecv lib r q ns (24 + length d) (clock i) = Some r1" "wf_rec r1" "msgRecv r1 = msgRecv r + 1"
    using RecordRecv_total [OF Cons.prems] by blast
  then show ?case using Cons.IH [of r1 "Suc i"] by (auto simp: m recv_msg_apply algebra_simps)
qed simp

lemma client_reads:
  assumes "list_all fits ms" and "wf_rec (cl_recorder c)"
  shows "\<exists>c'. Client_readPump lib clock addr (take k (concat (map framed ms))) c =
       Some (c', map (\<lambda>(i, m). (''tcp-'' @ addr, msg_frame m, clock i)) (enumerate 0 (take (whole k ms) ms))) \<and>
     msgRecv (cl_recorder c') = msgRecv (cl_recorder c) + of_nat (whole k ms)"
proof -
  have "whole k ms \<le> length ms" by (induction k ms rule: whole.induct) auto
  then have l: "length (take (whole k ms) ms) = whole k ms" by simp
  obtain r' where r': "run_opt (recv_msg lib clock) (cl_recorder c) (enumerate 0 (take (whole k ms) ms)) = Some r'"
    "msgRecv r' = msgRecv (cl_recorder c) + of_nat (whole k ms)"
    using recv_msg_run [OF assms(2)] l by metis
  then show ?thesis
    using pump_loop_stream [OF assms(1) r'(1)] by (auto simp: Client_readPump_def)
qed

lemma whole_all: "whole (length (concat (map framed ms))) ms = length ms"
  by (induction ms) auto

lemma proj_Writes: "proj p q (es @ replicate n (Writes (PickData True) p)) = proj p q es @ replicate n Drain"
proof (induction p q es rule: proj.induct)
  case (1 p q)
  then show ?case by (induction n) auto
qed auto

section \<open>Properties\<close>

text \<open>Property C13. However the network cuts a stream of messages, a client hands to its handler exactly the messages
  that arrived whole, in order and unchanged, and counts as many: reading the first \<open>k\<close> bytes of the
  length-prefixed frames of any messages of admissible size returns and calls the handler once per whole
  frame.\<close>

theorem tcp_stream_cut_anywhere:
  assumes "list_all fits ms" and "wf_tracker (seqTracker (cl_recorder c))"
  shows "\<exists>c'. Client_readPump lib clock addr (take k (concat (map framed ms))) c =
       Some (c', map (\<lambda>(i, m). (''tcp-'' @ addr, msg_frame m, clock i)) (enumerate 0 (take (whole k ms) ms))) \<and>
     msgRecv (cl_recorder c') = msgRecv (cl_recorder c) + of_nat (whole k ms)"
  by (rule client_reads [OF assms])

theorem tcp_stream_cut_anywhere_witness:
  "\<exists>c'. Client_readPump count_lib (\<lambda>i. 9) ''x'' (take 60 (concat (map framed [(1, 5, []), (2, 6, [7])]))) (NewTCPClient sample_recorder) =
       Some (c', [(''tcp-x'', frame_bytes 1 5 [], 9), (''tcp-x'', frame_bytes 2 6 [7], 9)]) \<and>
     msgRecv (cl_recorder c') = msgRecv sample_recorder + 2"
  using tcp_stream_cut_anywhere [of "[(1, 5, []), (2, 6, [7])]" "NewTCPClient sample_recorder" count_lib "\<lambda>i. 9" "''x''" 60]
    wf_sample_recorder
  by (simp add: NewTCPClient_def fits_def tcpMaxFrameSize_def msg_frame_def)

text \<open>Property C22. No input brings a read pump down: on any bytes whatever, the server's pump returns without a panic,
  calls the handler only with payloads that \<open>Decode\<close> accepts and that are at most 8 MiB, counts one reception per
  call, and afterwards the connection is cancelled, closed and no longer registered.\<close>

theorem tcp_pump_survives_any_input:
  assumes "tcp_wf s" and "p < length (tcp_conns s)"
  shows "\<exists>s' calls. readPump lib clock stream p s = Some (s', calls) \<and>
     (\<forall>(cid, b, t) \<in> set calls. cid = conn_name p \<and> length b \<le> tcpMaxFrameSize \<and> (\<exists>f n. Decode b = Some (Inr (f, n)))) \<and>
     msgRecv (tcp_metrics s') = msgRecv (tcp_metrics s) + of_nat (length calls) \<and>
     cancelled (tcp_conns s' ! p) \<and> tc_closed (tcp_conns s' ! p) \<and> Registry_Get (tcp_registry s') (conn_name p) = None"
proof -
  obtain r calls where r: "pump_loop lib clock 0 (replicate tcpReadBufSize 0) stream (tcp_metrics s) = Some (r, calls)"
    "msgRecv r = msgRecv (tcp_metrics s) + of_nat (length calls)"
    "\<And>b t. (b, t) \<in> set calls \<Longrightarrow> is_frame b \<and> length b \<le> tcpMaxFrameSize"
    using pump_loop_total [of "tcp_metrics s" lib clock 0 "replicate tcpReadBufSize 0" stream] assms(1)
    by (fastforce simp: tcp_wf_def)
  have "\<exists>f n. Decode b = Some (Inr (f, n))" if "is_frame b" for b
    using that by (auto simp: is_frame_def split: option.splits sum.splits)
  then show ?thesis
    using r assms tcp_wf_conn [OF assms] Registry_Remove_eq(2) [of "tcp_registry s" "conn_name p"]
    by (auto simp: readPump_def Let_def tcp_wf_def split: prod.splits)
qed

theorem tcp_pump_survives_any_input_witness:
  "\<exists>s' calls. readPump count_lib (\<lambda>i. 9) [0, 0, 0, 1, 255, 1, 2] 0 (the (handleConn (NewTCPServer sample_recorder ''a''))) = Some (s', calls) \<and>
     Registry_Get (tcp_registry s') (conn_name 0) = None"
proof -
  have w: "tcp_wf (NewTCPServer sample_recorder ''a'')" by (rule tcp_wf_New [OF wf_sample_recorder])
  obtain s where "handleConn (NewTCPServer sample_recorder ''a'') = Some s" "tcp_wf s" "0 < length (tcp_conns s)"
    using handleConn_ok [OF w] by (auto simp: NewTCPServer_def)
  then show ?thesis
    using tcp_pump_survives_any_input [of s 0 count_lib "\<lambda>i. 9" "[0, 0, 0, 1, 255, 1, 2]"] by auto
qed

text \<open>Property C5. Invariant of the server, \<open>Start\<close> and \<open>Stop\<close> included. Whatever sequence of starts, stops, accepts,
  broadcasts, sends, write-pump turns and read-pump runs (with any input) follows the creation of a server with a
  fresh recorder, every write channel holds at most 256 frames, connection identifiers are unique and the registry
  maps each to its own connection. No step panics or blocks, with exactly one exception: once the server has been
  stopped (which succeeds at most once) and started again, the recorder's new sampling goroutine panics and so
  does another \<open>Stop\<close>.\<close>

theorem tcp_server_invariant:
  assumes "NewRecorder lib cfg t0 = Some r" and "range_order ord" and "tcp_reach lib ord (NewTCPServer r addr) k s"
  shows "tcp_wf s \<and> k \<le> 1 \<and>
     (\<forall>e. enabled s e \<longrightarrow>
        (tcp_step lib ord s e = None \<longleftrightarrow> k = 1 \<and> IsStarted (tcp_base s) \<and> (e = Stops \<or> e = SamplerEnds)))"
proof -
  have s: "tcp_wf s" "life_ok k s" using tcp_reach_ok [OF assms(3) _ _ assms(2)] life_ok_New [OF assms(1), of addr] by blast+
  moreover have "k \<le> 1" using s(2) by (simp add: life_ok_def split: prod.splits)
  ultimately show ?thesis by (intro conjI allI impI s(1) tcp_step_ok(1) [OF s(1) assms(2) _ s(2)])
qed

lemma case_option_FalseE: "(case x of None \<Rightarrow> False | Some y \<Rightarrow> P y) \<Longrightarrow> (\<And>y. x = Some y \<Longrightarrow> P y \<Longrightarrow> Q) \<Longrightarrow> Q"
  by (cases x) simp_all

theorem tcp_server_invariant_witness:
  "\<exists>s. tcp_reach count_lib rev (NewTCPServer sample_recorder ''a'') 1 s \<and> tcp_wf s \<and> length (tcp_conns s) = 1 \<and>
     enabled s SamplerEnds \<and> tcp_step count_lib rev s SamplerEnds = None \<and> tcp_step count_lib rev s Stops = None"
proof -
  let ?s0 = "NewTCPServer sample_recorder ''a''"
  let ?start = "Starts (\<lambda>a i. Some a) 1 True 5 0 \<lparr>cpu_user = 0, cpu_system = 0\<rparr>"
  have n: "NewRecorder count_lib \<lparr>cfg_Label = ''l'', cfg_Protocol = ''tcp'', cfg_Scenario = ''A'', cfg_SequenceWindowSize = 0,
      cfg_SampleInterval = 0\<rparr> 0 = Some sample_recorder"
    by (simp add: sample_recorder_def NewRecorder_def Let_def NewSequenceTracker_def)
  have f: "case tcp_step count_lib rev ?s0 ?start of None \<Rightarrow> False | Some s1 \<Rightarrow> connCounter s1 \<noteq> -1 \<and>
     (case tcp_step count_lib rev s1 Accepted of None \<Rightarrow> False | Some s2 \<Rightarrow> IsStarted (tcp_base s2) \<and>
     (case tcp_step count_lib rev s2 Stops of None \<Rightarrow> False | Some s3 \<Rightarrow>
     (case tcp_step count_lib rev s3 ?start of None \<Rightarrow> False | Some s4 \<Rightarrow> length (tcp_conns s4) = 1 \<and>
        IsStarted (tcp_base s4) \<and> rs_done (resources (tcp_metrics s4)) \<and> 0 < rs_loops (resources (tcp_metrics s4)))))"
    by code_simp
  then obtain s1 s2 s3 s4 where
    st: "tcp_step count_lib rev ?s0 ?start = Some s1" "tcp_step count_lib rev s1 Accepted = Some s2"
      "tcp_step count_lib rev s2 Stops = Some s3" "tcp_step count_lib rev s3 ?start = Some s4"
    and p: "connCounter s1 \<noteq> -1" "IsStarted (tcp_base s2)" "length (tcp_conns s4) = 1" "IsStarted (tcp_base s4)"
      "rs_done (resources (tcp_metrics s4))" "0 < rs_loops (resources (tcp_metrics s4))"
    by (elim case_option_FalseE conjE) (rule that; assumption)
  have "tcp_reach count_lib rev ?s0 0 s1" using tcp_reach.step [OF tcp_reach.start _ st(1)] by (simp add: enabled_def exists_conn_def)
  from tcp_reach.step [OF this _ st(2)] have "tcp_reach count_lib rev ?s0 0 s2" using p(1) by (simp add: enabled_def exists_conn_def)
  from tcp_reach.step [OF this _ st(3)] have "tcp_reach count_lib rev ?s0 1 s3" using p(2) by (simp add: enabled_def exists_conn_def)
  from tcp_reach.step [OF this _ st(4)] have r: "tcp_reach count_lib rev ?s0 1 s4" by (simp add: enabled_def exists_conn_def)
  have e: "enabled s4 SamplerEnds" "enabled s4 Stops" using p(5,6) by (simp_all add: enabled_def exists_conn_def)
  have "tcp_wf s4 \<and> (\<forall>e. enabled s4 e \<longrightarrow> (tcp_step count_lib rev s4 e = None \<longleftrightarrow> e = Stops \<or> e = SamplerEnds))"
    using tcp_server_invariant [OF n range_order_rev r] p(4) by simp
  then show ?thesis using r e p(3) by (intro exI [of _ s4]) blast
qed

text \<open>Accounting of a broadcast: \<open>Broadcast\<close> never fails; a registered connection whose channel has room gets
  exactly the new frame at the end of its channel, every other connection is unchanged, and the messages sent
  plus the messages lost grow by the number of registered connections.\<close>

lemma tcp_broadcast_accounts:
  assumes "tcp_wf s" and "range_order ord"
  shows "\<exists>s'. TCP_Broadcast ord now data s = Some s' \<and> seqCounter s' = seqCounter s + 1 \<and>
     (\<forall>p < length (tcp_conns s).
        writeCh (tcp_conns s' ! p) = writeCh (tcp_conns s ! p) @
          (if Registry_Get (tcp_registry s) (conn_name p) = Some p \<and> length (writeCh (tcp_conns s ! p)) < tcpWriteChanCap
           then [framed (seqCounter s + 1, now, data)] else [])) \<and>
     msgSent (tcp_metrics s') + lostCounter s' =
       msgSent (tcp_metrics s) + lostCounter s + of_nat (TCP_Connections s)"
  using TCP_Broadcast_ok [OF assms, of now data] by (auto simp: conn_offer_cases)

text \<open>Property C2. Accepted broadcasts reach the client. Take a registered connection with an empty channel and any
  interleaving of broadcasts and write-pump turns of the connections; once its write pump has had 256 more turns,
  the channel is empty and a client reading the connection hands over, in order and unchanged, a subsequence of
  the broadcast messages, numbered as they were sent; with at most 256 broadcasts it is all of them.\<close>

theorem tcp_broadcast_reaches_client:
  assumes "tcp_wf s" and "range_order ord" and "live_conn s p"
    and "writeCh (tcp_conns s ! p) = []" and "tc_sock (tcp_conns s ! p) = []"
    and "list_all (quiet (length (tcp_conns s))) es" and "list_all fits (sent_msgs (seqCounter s) es)"
    and "wf_tracker (seqTracker (cl_recorder c))"
  shows "\<exists>s' c' ms. run_opt (tcp_step lib ord) s (es @ replicate tcpWriteChanCap (Writes (PickData True) p)) = Some s' \<and>
     writeCh (tcp_conns s' ! p) = [] \<and> subseq ms (sent_msgs (seqCounter s) es) \<and>
     Client_readPump lib clock addr (concat (tc_sock (tcp_conns s' ! p))) c =
       Some (c', map (\<lambda>(i, m). (''tcp-'' @ addr, msg_frame m, clock i)) (enumerate 0 ms)) \<and>
     (length (sent_msgs (seqCounter s) es) \<le> tcpWriteChanCap \<longrightarrow> ms = sent_msgs (seqCounter s) es)"
proof -
  let ?es = "es @ replicate tcpWriteChanCap (Writes (PickData True) p)" and ?tc = "tcp_conns s ! p"
  have q: "list_all (quiet (length (tcp_conns s))) ?es"
    using assms(3,6) by (auto simp: list_all_iff quiet_def live_conn_def)
  obtain s' where s': "run_opt (tcp_step lib ord) s ?es = Some s'"
    "tcp_conns s' ! p = fst (tcpq.qrun ?tc (proj p (seqCounter s) ?es))"
    using server_run_conn [OF assms(1,2,3) q] by blast
  obtain c1 acc out1 where r1: "tcpq.qrun ?tc (proj p (seqCounter s) es) = (c1, acc, out1)" by (metis prod_cases3)
  have "length (writeCh c1) \<le> tcpWriteChanCap" using tcpq.qrun_bounded [OF r1] assms(4) by simp
  from tcpq.qrun_drains_enough [OF this] obtain c2 where
    r2: "tcpq.qrun c1 (replicate tcpWriteChanCap Drain) = (c2, [], writeCh c1)" "writeCh c2 = []" by blast
  have run: "tcpq.qrun ?tc (proj p (seqCounter s) ?es) = (c2, acc, out1 @ writeCh c1)"
    by (simp add: proj_Writes tcpq.qrun_append r1 r2)
  have "out1 @ writeCh c1 = acc" using tcpq.qrun_fifo [OF r1] assms(4) by simp
  then have sock: "tc_sock (tcp_conns s' ! p) = acc" using qrun_sock [OF run] s'(2) run assms(5) by simp
  obtain ms where ms: "subseq ms (sent_msgs (seqCounter s) es)" "acc = map framed ms"
    using tcpq.qrun_accepted [OF r1] subseq_map_D unfolding offers_proj by blast
  have all: "ms = sent_msgs (seqCounter s) es" if "length (sent_msgs (seqCounter s) es) \<le> tcpWriteChanCap"
  proof (rule subseq_same_length [OF ms(1)])
    have "map framed ms = map framed (sent_msgs (seqCounter s) es)"
      using tcpq.qrun_no_drop [OF r1] that assms(4) ms(2) by (simp add: offers_proj)
    then show "length ms = length (sent_msgs (seqCounter s) es)" by (rule map_eq_imp_length_eq)
  qed
  have "set ms \<subseteq> set (sent_msgs (seqCounter s) es)" using ms(1) by (auto simp: subseq_conv_nths dest: in_set_nthsD)
  then have "list_all fits ms" using assms(7) by (auto simp: list_all_iff)
  from client_reads [OF this assms(8), of lib clock addr "length (concat (map framed ms))"] obtain c' where
    "Client_readPump lib clock addr (concat (map framed ms)) c =
       Some (c', map (\<lambda>(i, m). (''tcp-'' @ addr, msg_frame m, clock i)) (enumerate 0 ms))"
    by (auto simp: whole_all)
  then show ?thesis
    using s' run r2(2) ms all sock by (intro exI [of _ s'] exI [of _ c'] exI [of _ ms]) simp
qed

theorem tcp_broadcast_reaches_client_witness:
  "\<exists>s s' c'. handleConn (NewTCPServer sample_recorder ''a'') = Some s \<and>
     run_opt (tcp_step count_lib rev) s ([Broadcasts 5 [1], Writes (PickData True) 0, Broadcasts 6 [2]] @ replicate tcpWriteChanCap (Writes (PickData True) 0)) = Some s' \<and>
     Client_readPump count_lib (\<lambda>i. 9) ''x'' (concat (tc_sock (tcp_conns s' ! 0))) (NewTCPClient sample_recorder) =
       Some (c', [(''tcp-x'', frame_bytes 1 5 [1], 9), (''tcp-x'', frame_bytes 2 6 [2], 9)])"
proof -
  let ?es = "[Broadcasts 5 [1], Writes (PickData True) 0, Broadcasts 6 [2]]"
  have w: "tcp_wf (NewTCPServer sample_recorder ''a'')" by (rule tcp_wf_New [OF wf_sample_recorder])
  obtain s where s: "handleConn (NewTCPServer sample_recorder ''a'') = Some s" "tcp_wf s" "length (tcp_conns s) = 1"
    "Registry_Get (tcp_registry s) (conn_name 0) = Some 0" "seqCounter s = 0"
    "tcp_conns s ! 0 = \<lparr>tc_id = conn_name 0, writeCh = [], cancelled = False, tc_closed = False, tc_writer = True, tc_sock = []\<rparr>"
    using handleConn_ok [OF w] by (auto simp: NewTCPServer_def)
  have l: "live_conn s 0" and e: "writeCh (tcp_conns s ! 0) = []" "tc_sock (tcp_conns s ! 0) = []"
    using s(3,4,6) by (simp_all add: live_conn_def)
  have q: "list_all (quiet (length (tcp_conns s))) ?es" and m: "sent_msgs (seqCounter s) ?es = [(1, 5, [1]), (2, 6, [2])]"
    using s(3,5) by (simp_all add: quiet_def)
  have f: "list_all fits (sent_msgs (seqCounter s) ?es)" unfolding m by (simp add: fits_def tcpMaxFrameSize_def)
  have c: "wf_tracker (seqTracker (cl_recorder (NewTCPClient sample_recorder)))"
    using wf_sample_recorder by (simp add: NewTCPClient_def)
  from tcp_broadcast_reaches_client [OF s(2) range_order_rev l e q f c, of count_lib "\<lambda>i. 9" "''x''"]
  obtain s' c' ms where r: "run_opt (tcp_step count_lib rev) s (?es @ replicate tcpWriteChanCap (Writes (PickData True) 0)) = Some s'"
    "Client_readPump count_lib (\<lambda>i. 9) ''x'' (concat (tc_sock (tcp_conns s' ! 0))) (NewTCPClient sample_recorder) =
       Some (c', map (\<lambda>(i, m). (''tcp-'' @ ''x'', msg_frame m, 9)) (enumerate 0 ms))" "ms = sent_msgs (seqCounter s) ?es"
    by (auto simp: m tcpWriteChanCap_def)
  show ?thesis
    by (intro exI [of _ s] exI [of _ s'] exI [of _ c'] conjI s(1) r(1)) (use r(2,3) m in \<open>simp add: msg_frame_def\<close>)
qed

lemma open_listeners_grow:
  "open_listeners listen addr i k res ls = Inr ls' \<Longrightarrow> \<exists>zs. ls' = ls @ zs \<and> length zs = k"
proof (induction k arbitrary: i res ls)
  case (Suc k)
  then obtain a where "open_listeners listen addr (Suc i) k (if i = 0 then a else res) (ls @ [(a, True)]) = Inr ls'"
    by (auto simp: Let_def split: option.splits)
  from Suc.IH [OF this] obtain zs where "ls' = ls @ (a, True) # zs" "length zs = k" by auto
  then show ?case by (intro exI [of _ "(a, True) # zs"]) simp
qed simp

text \<open>A server cannot be restarted, although \<open>Start\<close> recreates its channels for that: after \<open>Start\<close>, \<open>Stop\<close> and
  \<open>Start\<close>, an accept loop runs on a listener that is closed, and \<open>Stop\<close> panics in the recorder's sampler.\<close>

lemma tcp_restart_fails:
  assumes "TCP_Start listen cpus linux now wall cpu s = (Inr (), s1)" and "TCP_Stop ord s1 = Some (Inr (), s2)"
    and "TCP_Start listen cpus linux now wall cpu s2 = (Inr (), s3)" and "0 < listener_count cpus linux"
  shows "TCP_Stop ord s3 = None \<and> (\<exists>a. (a, False) \<in> set (tcp_listeners s3) \<and> a \<in> set (tcp_accepts s3))"
proof -
  have l1: "tcp_listeners s1 \<noteq> []" "\<not> IsStarted (tcp_base s2)"
    using assms(1,2,4) open_listeners_grow [of listen "tcp_addr s" 0 "listener_count cpus linux" "[]" "tcp_listeners s"]
    by (auto simp: TCP_Start_def TCP_Stop_def Let_def bind_eq_Some_conv split: if_splits sum.splits prod.splits)
  have "rs_done (resources (tcp_metrics s2))" and l2: "tcp_listeners s2 = map (\<lambda>(a, _). (a, False)) (tcp_listeners s1)"
    using assms(2) by (auto simp: TCP_Stop_def Let_def Recorder_Stop_def Sampler_Stop_def loop_exit_def bind_eq_Some_conv
        split: if_splits option.splits)
  then have m3: "rs_done (resources (tcp_metrics s3))" and
    l3: "\<exists>zs. tcp_listeners s3 = tcp_listeners s2 @ zs \<and> tcp_accepts s3 = map fst (tcp_listeners s3)"
    using assms(3) open_listeners_grow [of listen "tcp_addr s2" 0 "listener_count cpus linux" "[]" "tcp_listeners s2"]
    by (auto simp: TCP_Start_def Recorder_Start_def Sampler_Start_def split: if_splits sum.splits prod.splits)
  have "IsStarted (tcp_base s3)"
    using assms(3) by (auto simp: TCP_Start_def split: if_splits sum.splits prod.splits)
  then have "TCP_Stop ord s3 = None"
    using m3 by (simp add: TCP_Stop_def Let_def Recorder_Stop_def Sampler_Stop_def)
  moreover obtain a b zs where "tcp_listeners s1 = (a, b) # zs" using l1(1) by (cases "tcp_listeners s1") auto
  ultimately show ?thesis using l2 l3 by force
qed

text \<open>A client that was never connected cannot be closed: \<open>Close\<close> waits for a sampler that was never started.\<close>

lemma client_close_before_dial:
  "NewRecorder lib cfg now = Some r \<Longrightarrow> Client_Close (NewTCPClient r) = None"
  by (auto simp: Client_Close_def NewTCPClient_def Recorder_Stop_def Sampler_Stop_def NewRecorder_def Let_def
      NewResourceSampler_def bind_eq_Some_conv)

end
