(* ===== verification/Udp.thy ===== *)
theory Udp
  imports Reception Registry Transport_Base
begin

text \<open>
  The UDP transport of \<^verbatim>\<open>internal/udp\<close>: peers registered by their datagrams and evicted after
  30 s of silence, the generic and the Linux receive loops (\<open>recvmmsg\<close> into reused buffers), the batched
  send (\<open>sendmmsg\<close>) and the client.

  What the kernel returns is an argument: the datagrams of a receive call and the outcomes of send
  calls. The textual form of an address is a parameter. A peer record is reached only through the
  registry, so a change through its pointer is a change of the registry's value. \<open>None\<close> is a panic
  or a call that never returns.
\<close>

section \<open>Addresses\<close>

record UDPAddr =
  ua_IP :: bytes
  ua_Port :: u16

datatype sockaddr = SockaddrInet4 u16 bytes | SockaddrInet6 u16 bytes | SockaddrOther

definition htons :: "u16 \<Rightarrow> u16" where
  "htons v = (drop_bit 8 v AND 0xff) OR push_bit 8 (v AND 0xff)"

definition ntohs :: "u16 \<Rightarrow> u16" where
  "ntohs v = (drop_bit 8 v AND 0xff) OR push_bit 8 (v AND 0xff)"

text \<open>\<open>net.IP.To4\<close>: a 4-byte address, or the last four bytes of an IPv4-mapped 16-byte one.\<close>

definition To4 :: "bytes \<Rightarrow> bytes option" where
  "To4 ip = (if length ip = 4 then Some ip
     else if length ip = 16 \<and> take 10 ip = replicate 10 0 \<and> take 2 (drop 10 ip) = [0xff, 0xff] then Some (drop 12 ip)
     else None)"

definition fillSockaddr :: "UDPAddr \<Rightarrow> sockaddr" where
  "fillSockaddr a = (case To4 (ua_IP a) of
     Some ip4 \<Rightarrow> SockaddrInet4 (htons (ua_Port a)) ip4
   | None \<Rightarrow> SockaddrInet6 (htons (ua_Port a)) (ua_IP a))"

definition toUDPAddr :: "sockaddr \<Rightarrow> UDPAddr option" where
  "toUDPAddr sa = (case sa of
     SockaddrInet4 p ip \<Rightarrow> Some \<lparr>ua_IP = ip, ua_Port = ntohs p\<rparr>
   | SockaddrInet6 p ip \<Rightarrow> Some \<lparr>ua_IP = ip, ua_Port = ntohs p\<rparr>
   | SockaddrOther \<Rightarrow> None)"

section \<open>The server\<close>

definition peerTTL :: int where "peerTTL = 30 * 1000000000"
definition maxBatchSize :: nat where "maxBatchSize = 64"
definition maxUDPSize :: nat where "maxUDPSize = 65536"

record udpPeer =
  up_addr :: UDPAddr
  lastSeen :: i64
  up_connID :: ConnID

record 'h UDPServer =
  udp_base :: BaseTransport
  udp_addr :: string
  udp_conn :: bool
  udp_metrics :: "'h Recorder"
  udp_registry :: "udpPeer Registry"
  udp_seq :: u64
  udp_lost :: u64
  udp_done :: bool
  udp_sent :: "(UDPAddr \<times> bytes) list"  \<comment> \<open>datagrams handed to the kernel\<close>

datatype udp_error =
    UTransport transportError
  | UResolve
  | UListen
  | USend
  | UNotConnected
  | UDial
  | UHello

definition NewUDPServer :: "'h Recorder \<Rightarrow> string \<Rightarrow> 'h UDPServer" where
  "NewUDPServer rec addr =
     \<lparr>udp_base = SetProtocol zero_BaseTransport ''udp'', udp_addr = addr, udp_conn = False, udp_metrics = rec,
      udp_registry = zero_Registry, udp_seq = 0, udp_lost = 0, udp_done = False, udp_sent = []\<rparr>"

definition UDP_Start ::
  "bool \<Rightarrow> bool \<Rightarrow> i64 \<Rightarrow> rat \<Rightarrow> cpuTime \<Rightarrow> 'h UDPServer \<Rightarrow> (udp_error + unit) \<times> 'h UDPServer" where
  "UDP_Start resolves listens now wall cpu s =
     (if IsStarted (udp_base s) then (Inl (UTransport ErrAlreadyStarted), s)
      else if \<not> resolves then (Inl UResolve, s)
      else if \<not> listens then (Inl UListen, s)
      else (Inr (), s\<lparr>udp_conn := True, udp_base := MarkStarted (udp_base s) now,
                      udp_metrics := Recorder_Start (udp_metrics s) now wall cpu, udp_done := False\<rparr>))"

definition UDP_Stop :: "'h UDPServer \<Rightarrow> ((udp_error + unit) \<times> 'h UDPServer) option" where
  "UDP_Stop s =
     (if \<not> IsStarted (udp_base s) then Some (Inl (UTransport ErrNotStarted), s)
      else if udp_done s then None
      else do {
        m \<leftarrow> (case Recorder_Stop (udp_metrics s) of None \<Rightarrow> None | Some m \<Rightarrow> m);
        Some (Inr (), s\<lparr>udp_done := True, udp_metrics := m, udp_base := MarkStopped (udp_base s)\<rparr>) })"

subsection \<open>Sending\<close>

text \<open>The outcome of a \<open>sendmmsg\<close> call: how many messages it took, would block, or another error.\<close>

datatype send_outcome = Took nat | WouldBlock | SendFailed

datatype batch_result = Done | NotReady | BatchErr

text \<open>The function passed to \<open>raw.Write\<close>: what it sends, its result, and the outcomes it leaves. A kernel that
  takes no message at all keeps the loop going; the list of outcomes bounds it.\<close>

fun batch_fn :: "UDPAddr list \<Rightarrow> nat \<Rightarrow> send_outcome list \<Rightarrow> UDPAddr list \<times> batch_result \<times> send_outcome list" where
  "batch_fn addrs sent [] = ([], if sent < length addrs then NotReady else Done, [])"
| "batch_fn addrs sent (out # outs) =
     (if sent < length addrs then
        (case out of
           WouldBlock \<Rightarrow> ([], NotReady, outs)
         | SendFailed \<Rightarrow> ([], BatchErr, outs)
         | Took r \<Rightarrow> (case batch_fn addrs (sent + r) outs of
             (lg, res, outs') \<Rightarrow> (take r (drop sent addrs) @ lg, res, outs')))
      else ([], Done, out # outs))"

lemma batch_fn_outs: "batch_fn addrs sent outs = (lg, res, outs') \<Longrightarrow> length outs' \<le> length outs"
  by (induction addrs sent outs arbitrary: lg res outs' rule: batch_fn.induct)
     (fastforce split: if_splits send_outcome.splits prod.splits)+

lemma batch_fn_progress:
  "batch_fn addrs sent (x # outs) = (lg, NotReady, outs') \<Longrightarrow> length outs' < length (x # outs)"
  using batch_fn_outs by (fastforce split: if_splits send_outcome.splits prod.splits)

text \<open>\<open>raw.Write\<close> waits until the socket is writable and calls the function again as long as it returns false.
  \<open>None\<close>: it still waits when the outcomes are used up.\<close>

function raw_Write :: "UDPAddr list \<Rightarrow> send_outcome list \<Rightarrow> UDPAddr list \<times> bool option" where
  "raw_Write addrs [] = ([], None)"
| "raw_Write addrs (x # outs) =
     (case batch_fn addrs 0 (x # outs) of
        (lg, Done, _) \<Rightarrow> (lg, Some True)
      | (lg, BatchErr, _) \<Rightarrow> (lg, Some False)
      | (lg, NotReady, outs') \<Rightarrow> (case raw_Write addrs outs' of (lg', r) \<Rightarrow> (lg @ lg', r)))"
  by pat_completeness auto
termination
  by (relation "measure (\<lambda>(addrs, outs). length outs)") (auto simp del: batch_fn.simps dest!: batch_fn_progress [OF sym])

definition batchSend :: "UDPAddr list \<Rightarrow> send_outcome list \<Rightarrow> UDPAddr list \<times> bool option" where
  "batchSend addrs outs = (if addrs = [] then ([], Some True) else raw_Write addrs outs)"

text \<open>The loop over \<open>WriteToUDP\<close> of the other systems: \<open>ok i\<close> tells whether the \<open>i\<close>-th write succeeds.\<close>

fun write_loop :: "(nat \<Rightarrow> bool) \<Rightarrow> nat \<Rightarrow> UDPAddr list \<Rightarrow> UDPAddr list \<times> nat \<times> bool" where
  \<comment> \<open>what is sent, the number lost, and whether there was an error\<close>
  "write_loop ok i [] = ([], 0, False)"
| "write_loop ok i (a # as) =
     (case write_loop ok (Suc i) as of (lg, lost, err) \<Rightarrow>
        if ok i then (a # lg, lost, err) else (lg, Suc lost, True))"

type_synonym peer_order = "(ConnID \<times> udpPeer) list \<Rightarrow> (ConnID \<times> udpPeer) list"

definition UDP_Broadcast ::
  "peer_order \<Rightarrow> bool \<Rightarrow> send_outcome list \<Rightarrow> (nat \<Rightarrow> bool) \<Rightarrow> i64 \<Rightarrow> bytes \<Rightarrow> 'h UDPServer \<Rightarrow>
   ((udp_error + unit) \<times> 'h UDPServer) option" where
  "UDP_Broadcast ord linux outs ok now data s = do {
     let seq = udp_seq s + 1;
     let s = s\<lparr>udp_seq := seq\<rparr>;
     frame \<leftarrow> Encode seq now data;
     let peers = Registry_Snapshot ord (udp_registry s);
     if peers = [] then Some (Inr (), s)
     else do {
       let addrs = map up_addr peers;
       (lg, lost, err) \<leftarrow> (if linux
           then (case batchSend addrs outs of (lg, None) \<Rightarrow> None | (lg, Some b) \<Rightarrow> Some (lg, 0, \<not> b))
           else Some (write_loop ok 0 addrs));
       Some (if err then Inl USend else Inr (),
             s\<lparr>udp_sent := udp_sent s @ map (\<lambda>a. (a, frame)) lg, udp_lost := udp_lost s + of_nat lost,
               udp_metrics := RecordSend (udp_metrics s) seq (length frame * length peers)\<rparr>) } }"

definition UDP_Send :: "bool \<Rightarrow> ConnID \<Rightarrow> i64 \<Rightarrow> bytes \<Rightarrow> 'h UDPServer \<Rightarrow> ((udp_error + unit) \<times> 'h UDPServer) option" where
  "UDP_Send ok cid now data s =
     (case Registry_Get (udp_registry s) cid of
        None \<Rightarrow> Some (Inl (UTransport ErrClientNotFound), s)
      | Some peer \<Rightarrow> do {
          let seq = udp_seq s + 1;
          let s = s\<lparr>udp_seq := seq\<rparr>;
          frame \<leftarrow> Encode seq now data;
          Some (if \<not> ok then (Inl USend, s)
                else (Inr (), s\<lparr>udp_sent := udp_sent s @ [(up_addr peer, frame)],
                                udp_metrics := RecordSend (udp_metrics s) seq (length frame)\<rparr>)) })"

definition UDP_Connections :: "'h UDPServer \<Rightarrow> nat" where "UDP_Connections s = Registry_Len (udp_registry s)"

definition UDP_Stats :: "'h hdr_lib \<Rightarrow> 'h Recorder.conn_order \<Rightarrow> 'h UDPServer \<Rightarrow> i64 \<Rightarrow> Stats" where
  "UDP_Stats lib ord s now =
     (let snap = Recorder_Snapshot lib ord (udp_metrics s) now; base = BaseStats (udp_base s) now in
      base\<lparr>st_Connections := int (UDP_Connections s), st_Sent := rs_MsgSent snap, st_Received := rs_MsgRecv snap,
           st_Lost := Lost (rs_Seq snap) + udp_lost s, st_Duplicated := Duplicated (rs_Seq snap),
           st_Reordered := Reordered (rs_Seq snap), st_BytesSent := rs_BytesSent snap,
           st_BytesRecv := rs_BytesRecv snap\<rparr>)"

subsection \<open>Receiving\<close>

definition peer_name :: "(UDPAddr \<Rightarrow> string) \<Rightarrow> UDPAddr \<Rightarrow> ConnID" where "peer_name str a = ''udp-'' @ str a"

definition seen_peer :: "ConnID \<Rightarrow> UDPAddr \<Rightarrow> i64 \<Rightarrow> udpPeer option \<Rightarrow> udpPeer" where
  "seen_peer connID a recvAt p = (case p of
     Some p \<Rightarrow> p\<lparr>lastSeen := recvAt\<rparr>
   | None \<Rightarrow> \<lparr>up_addr = a, lastSeen = recvAt, up_connID = connID\<rparr>)"

definition handlePacket ::
  "'h hdr_lib \<Rightarrow> (UDPAddr \<Rightarrow> string) \<Rightarrow> bytes \<Rightarrow> UDPAddr option \<Rightarrow> i64 \<Rightarrow> 'h UDPServer \<Rightarrow>
   ('h UDPServer \<times> (ConnID \<times> bytes \<times> i64) list) option" where
  "handlePacket lib str data addr recvAt s =
     (case addr of None \<Rightarrow> Some (s, [])
      | Some a \<Rightarrow>
        if data = [] then Some (s, [])
        else do {
          let connID = peer_name str a;
          reg \<leftarrow> Registry_Add (udp_registry s) connID (seen_peer connID a recvAt (Registry_Get (udp_registry s) connID));
          let s = s\<lparr>udp_registry := reg\<rparr>;
          (r, called) \<leftarrow> dispatch lib (udp_metrics s) data recvAt;
          Some (s\<lparr>udp_metrics := r\<rparr>, case called of None \<Rightarrow> [] | Some b \<Rightarrow> [(connID, b, recvAt)]) })"

text \<open>A turn of the generic loop on one datagram: \<open>buf[:n]\<close> is the datagram.\<close>

definition receive_generic ::
  "'h hdr_lib \<Rightarrow> (UDPAddr \<Rightarrow> string) \<Rightarrow> bytes \<times> UDPAddr \<Rightarrow> i64 \<Rightarrow> bytes \<Rightarrow> 'h UDPServer \<Rightarrow>
   (bytes \<times> 'h UDPServer \<times> (ConnID \<times> bytes \<times> i64) list) option" where
  "receive_generic lib str d recvAt buf s = do {
     buf \<leftarrow> put_at buf 0 (fst d);
     data \<leftarrow> subslice buf 0 (length (fst d));
     (s, calls) \<leftarrow> handlePacket lib str data (Some (snd d)) recvAt s;
     Some (buf, s, calls) }"

text \<open>\<open>batchRecv\<close> on the datagrams the kernel delivers: within the call each buffer is cut to its message, before it
  returns every buffer is extended to its capacity again.\<close>

fun recv_into :: "byte_slice list \<Rightarrow> (bytes \<times> sockaddr) list \<Rightarrow> byte_slice list option" where
  "recv_into bufs [] = Some bufs"
| "recv_into [] (d # ds) = None"
| "recv_into (b # bufs) ((d, a) # ds) = do {
     arr \<leftarrow> put_at (backing b) 0 d;
     bs \<leftarrow> recv_into bufs ds;
     Some (\<lparr>backing = arr, slen = length d\<rparr> # bs) }"

definition batchRecv ::
  "byte_slice list \<Rightarrow> (bytes \<times> sockaddr) list \<Rightarrow> (nat \<times> byte_slice list \<times> UDPAddr option list) option" where
  "batchRecv bufs ds = do {
     bs \<leftarrow> recv_into bufs ds;
     Some (length ds, map (\<lambda>b. b\<lparr>slen := length (backing b)\<rparr>) bs, map (\<lambda>(d, a). toUDPAddr a) ds) }"

fun handle_batch ::
  "'h hdr_lib \<Rightarrow> (UDPAddr \<Rightarrow> string) \<Rightarrow> (byte_slice \<times> UDPAddr option) list \<Rightarrow> i64 \<Rightarrow> 'h UDPServer \<Rightarrow>
   ('h UDPServer \<times> (ConnID \<times> bytes \<times> i64) list) option" where
  "handle_batch lib str [] recvAt s = Some (s, [])"
| "handle_batch lib str ((b, a) # xs) recvAt s = do {
     (s, c1) \<leftarrow> handlePacket lib str (contents b) a recvAt s;
     (s, c2) \<leftarrow> handle_batch lib str xs recvAt s;
     Some (s, c1 @ c2) }"

definition receive_linux ::
  "'h hdr_lib \<Rightarrow> (UDPAddr \<Rightarrow> string) \<Rightarrow> (bytes \<times> sockaddr) list \<Rightarrow> i64 \<Rightarrow> byte_slice list \<Rightarrow> 'h UDPServer \<Rightarrow>
   (byte_slice list \<times> 'h UDPServer \<times> (ConnID \<times> bytes \<times> i64) list) option" where
  "receive_linux lib str ds recvAt bufs s = do {
     (n, bufs, addrs) \<leftarrow> batchRecv bufs ds;
     (s, calls) \<leftarrow> handle_batch lib str (take n (zip bufs addrs)) recvAt s;
     Some (bufs, s, calls) }"

definition fresh_buffers :: "byte_slice list" where
  "fresh_buffers = replicate maxBatchSize \<lparr>backing = replicate maxUDPSize 0, slen = maxUDPSize\<rparr>"

subsection \<open>Eviction\<close>

definition is_stale :: "i64 \<Rightarrow> udpPeer \<Rightarrow> bool" where
  "is_stale now p \<longleftrightarrow> sint now - sint (lastSeen p) > peerTTL"

definition evictStalePeers :: "peer_order \<Rightarrow> i64 \<Rightarrow> 'h UDPServer \<Rightarrow> 'h UDPServer" where
  "evictStalePeers ord now s =
     (let stale = Registry_Range ord (udp_registry s)
            (\<lambda>cid p st. (if is_stale now p then st @ [cid] else st, True)) []
      in s\<lparr>udp_registry := fold (\<lambda>cid r. Registry_Remove r cid) stale (udp_registry s)\<rparr>)"

section \<open>The client\<close>

record 'h UDPClient =
  uc_conn :: bool
  uc_recorder :: "'h Recorder"
  uc_seq :: u64
  uc_done :: bool
  uc_sent :: "bytes list"

definition NewUDPClient :: "'h Recorder \<Rightarrow> 'h UDPClient" where
  "NewUDPClient rec = \<lparr>uc_conn = False, uc_recorder = rec, uc_seq = 0, uc_done = False, uc_sent = []\<rparr>"

definition HELLO :: bytes where "HELLO = map of_char ''HELLO''"
definition HB :: bytes where "HB = map of_char ''HB''"

definition UDPClient_Dial ::
  "bool \<Rightarrow> bool \<Rightarrow> bool \<Rightarrow> i64 \<Rightarrow> rat \<Rightarrow> cpuTime \<Rightarrow> 'h UDPClient \<Rightarrow> (udp_error + unit) \<times> 'h UDPClient" where
  "UDPClient_Dial resolves dials hello now wall cpu c =
     (if \<not> resolves then (Inl UResolve, c)
      else if \<not> dials then (Inl UDial, c)
      else if \<not> hello then (Inl UHello, c\<lparr>uc_conn := True\<rparr>)
      else (Inr (), c\<lparr>uc_conn := True, uc_sent := uc_sent c @ [HELLO],
                      uc_recorder := Recorder_Start (uc_recorder c) now wall cpu, uc_done := False\<rparr>))"

definition UDPClient_Send :: "bool \<Rightarrow> i64 \<Rightarrow> bytes \<Rightarrow> 'h UDPClient \<Rightarrow> ((udp_error + unit) \<times> 'h UDPClient) option" where
  "UDPClient_Send ok now data c =
     (if \<not> uc_conn c then Some (Inl UNotConnected, c)
      else do {
        let seq = uc_seq c + 1;
        let c = c\<lparr>uc_seq := seq\<rparr>;
        frame \<leftarrow> Encode seq now data;
        Some (if \<not> ok then (Inl USend, c)
              else (Inr (), c\<lparr>uc_sent := uc_sent c @ [frame],
                              uc_recorder := RecordSend (uc_recorder c) seq (length frame)\<rparr>)) })"

definition UDPClient_Close :: "'h UDPClient \<Rightarrow> 'h UDPClient option" where
  "UDPClient_Close c =
     (if uc_done c then Some c
      else do {
        r \<leftarrow> (case Recorder_Stop (uc_recorder c) of None \<Rightarrow> None | Some r \<Rightarrow> r);
        Some (c\<lparr>uc_done := True, uc_recorder := r\<rparr>) })"

definition UDPClient_receive ::
  "'h hdr_lib \<Rightarrow> string \<Rightarrow> bytes \<Rightarrow> i64 \<Rightarrow> 'h UDPClient \<Rightarrow> ('h UDPClient \<times> (ConnID \<times> bytes \<times> i64) list) option" where
  "UDPClient_receive lib localAddr d recvAt c = do {
     (r, called) \<leftarrow> dispatch lib (uc_recorder c) d recvAt;
     Some (c\<lparr>uc_recorder := r\<rparr>, case called of None \<Rightarrow> [] | Some b \<Rightarrow> [(''udp-'' @ localAddr, b, recvAt)]) }"

definition heartbeat_tick :: "bool \<Rightarrow> 'h UDPClient \<Rightarrow> 'h UDPClient" where
  "heartbeat_tick ok c = (if ok then c\<lparr>uc_sent := uc_sent c @ [HB]\<rparr> else c)"

section \<open>Addresses and sending\<close>

lemma ntohs_htons [simp]: "ntohs (htons v) = v"
proof (rule bit_word_eqI)
  have m: "0xff = (mask 8 :: u16)" by (simp add: mask_eq_exp_minus_1)
  fix n assume "n < LENGTH(16)"
  then show "bit (ntohs (htons v)) n = bit v n"
    unfolding htons_def ntohs_def m
    by (cases "n < 8") (auto simp: bit_or_iff bit_and_iff bit_push_bit_iff bit_drop_bit_eq bit_mask_iff)
qed

text \<open>As long as the kernel always takes some message and never blocks, every address is sent to once, in order.\<close>

definition took_all :: "send_outcome \<Rightarrow> bool" where
  "took_all x = (case x of Took r \<Rightarrow> 0 < r | _ \<Rightarrow> False)"

lemma batch_fn_took:
  assumes "list_all took_all outs" and "length addrs \<le> sent + length outs"
  shows "\<exists>outs'. batch_fn addrs sent outs = (drop sent addrs, Done, outs')"
  using assms
proof (induction addrs sent outs rule: batch_fn.induct)
  case (2 addrs sent x outs)
  then obtain r where x: "x = Took r" "0 < r" by (auto simp: took_all_def split: send_outcome.splits)
  show ?case
  proof (cases "sent < length addrs")
    case True
    have "length addrs \<le> sent + r + length outs" using 2(3) x(2) by simp
    from 2(1) [OF True x(1) _ this] 2(2) obtain outs' where "batch_fn addrs (sent + r) outs = (drop (sent + r) addrs, Done, outs')"
      by auto
    moreover have "take r (drop sent addrs) @ drop (sent + r) addrs = drop sent addrs"
      by (metis append_take_drop_id drop_drop add.commute)
    ultimately show ?thesis using True x(1) by simp
  qed simp
qed simp

lemma batchSend_once:
  assumes "list_all took_all outs" and "length addrs \<le> length outs"
  shows "batchSend addrs outs = (addrs, Some True)"
proof (cases outs)
  case (Cons x xs)
  then show ?thesis using batch_fn_took [OF assms(1), of addrs 0] assms(2) by (auto simp: batchSend_def simp del: batch_fn.simps)
qed (use assms in \<open>simp add: batchSend_def\<close>)

lemma write_loop_all: "(\<And>i. ok i) \<Longrightarrow> write_loop ok i as = (as, 0, False)"
  by (induction ok i as rule: write_loop.induct) auto

section \<open>Receiving\<close>

definition udp_wf :: "'h UDPServer \<Rightarrow> bool" where
  "udp_wf s \<longleftrightarrow> wf_registry (udp_registry s) \<and> wf_rec (udp_metrics s)"

lemma udp_wf_New: "wf_rec r \<Longrightarrow> udp_wf (NewUDPServer r addr)"
  by (simp add: udp_wf_def NewUDPServer_def wf_zero_Registry)

lemma lastSeen_seen_peer [simp]: "lastSeen (seen_peer cid a t p) = t"
  by (simp add: seen_peer_def split: option.splits)

lemma handlePacket_ok:
  assumes "udp_wf s" and "data \<noteq> []"
  shows "\<exists>s' r' called. handlePacket lib str data (Some a) t s =
       Some (s', case called of None \<Rightarrow> [] | Some b \<Rightarrow> [(peer_name str a, b, t)]) \<and> udp_wf s' \<and>
     dispatch lib (udp_metrics s) data t = Some (r', called) \<and> udp_metrics s' = r' \<and>
     Registry_Get (udp_registry s') = (Registry_Get (udp_registry s))
       (peer_name str a \<mapsto> seen_peer (peer_name str a) a t (Registry_Get (udp_registry s) (peer_name str a)))"
proof -
  let ?cid = "peer_name str a"
  let ?p = "seen_peer ?cid a t (Registry_Get (udp_registry s) ?cid)"
  have reg: "wf_registry (udp_registry s)" and r: "wf_rec (udp_metrics s)" using assms(1) by (simp_all add: udp_wf_def)
  from Registry_Add_eq [OF reg, of ?cid ?p] obtain g where g: "Registry_Add (udp_registry s) ?cid ?p = Some g" "wf_registry g"
    "Registry_Get g = (Registry_Get (udp_registry s))(?cid \<mapsto> ?p)" by metis
  obtain r' called where d: "dispatch lib (udp_metrics s) data t = Some (r', called)" "wf_rec r'"
    using dispatch_total [OF r] by blast
  show ?thesis using assms(2) g d by (simp add: handlePacket_def Let_def udp_wf_def)
qed

text \<open>What the two receive loops pass to \<open>handlePacket\<close>.\<close>

lemma receive_generic_eq:
  assumes "length d \<le> length buf"
  shows "receive_generic lib str (d, a) t buf s =
     map_option (\<lambda>(s', calls). (d @ drop (length d) buf, s', calls)) (handlePacket lib str d (Some a) t s)"
  using assms by (cases "handlePacket lib str d (Some a) t s") (simp_all add: receive_generic_def slice_ops)

lemma receive_linux_one:
  assumes "length d \<le> length (backing b)" and "toUDPAddr sa = Some a"
  shows "receive_linux lib str [(d, sa)] t (b # bufs) s =
     map_option (\<lambda>(s', calls). (map (\<lambda>b. b\<lparr>slen := length (backing b)\<rparr>) (\<lparr>backing = d @ drop (length d) (backing b), slen = 0\<rparr> # bufs), s', calls))
       (handlePacket lib str (d @ drop (length d) (backing b)) (Some a) t s)"
  using assms
  by (cases "handlePacket lib str (d @ drop (length d) (backing b)) (Some a) t s")
     (simp_all add: receive_linux_def batchRecv_def slice_ops contents_def)

lemma RecordRecv_counts:
  assumes "wf_rec r"
  shows "\<exists>r'. RecordRecv lib r q ns n t = Some r' \<and> wf_rec r' \<and> msgRecv r' = msgRecv r + 1 \<and> bytesRecv r' = bytesRecv r + of_nat n"
  using Observe_wf [OF assms, of q] by (auto simp: RecordRecv_def recordSample_def Let_def)

lemma dispatch_frame_rest:
  assumes "length p \<le> MaxPayload"
  shows "dispatch lib r (frame_bytes q ns p @ rest) t =
     map_option (\<lambda>r'. (r', Some (frame_bytes q ns p @ rest))) (RecordRecv lib r q ns (24 + length p + length rest) t)"
  using Decode_frame_bytes [OF assms, of q ns rest]
  by (cases "RecordRecv lib r q ns (24 + length p + length rest) t") (simp_all add: dispatch_def HeaderLen_def)

lemma handlePacket_frame:
  assumes "udp_wf s" and "length p \<le> MaxPayload"
  shows "\<exists>s' calls. handlePacket lib str (frame_bytes q ns p @ rest) (Some a) t s = Some (s', calls) \<and> udp_wf s' \<and>
     msgRecv (udp_metrics s') = msgRecv (udp_metrics s) + 1 \<and>
     bytesRecv (udp_metrics s') = bytesRecv (udp_metrics s) + of_nat (24 + length p + length rest)"
proof -
  have ne: "frame_bytes q ns p @ rest \<noteq> []"
    by (metis append_is_Nil_conv length_0_conv length_frame_bytes add_is_0 zero_neq_numeral)
  obtain r' where r': "RecordRecv lib (udp_metrics s) q ns (24 + length p + length rest) t = Some r'"
    "msgRecv r' = msgRecv (udp_metrics s) + 1" "bytesRecv r' = bytesRecv (udp_metrics s) + of_nat (24 + length p + length rest)"
    using RecordRecv_counts assms(1) unfolding udp_wf_def by blast
  have "dispatch lib (udp_metrics s) (frame_bytes q ns p @ rest) t = Some (r', Some (frame_bytes q ns p @ rest))"
    by (simp add: dispatch_frame_rest [OF assms(2)] r'(1))
  then show ?thesis using handlePacket_ok [OF assms(1) ne, of lib str a t] r'(2,3) by auto
qed

lemma handlePacket_short:
  assumes "udp_wf s" and "d \<noteq> []" and "length d < 24"
  shows "\<exists>s'. handlePacket lib str d (Some a) t s = Some (s', []) \<and> udp_metrics s' = udp_metrics s"
  using handlePacket_ok [OF assms(1,2), of lib str a t] assms(3) by (auto simp: dispatch_def HeaderLen_def)

section \<open>Eviction\<close>

lemma fold_Remove:
  assumes "wf_registry r"
  shows "wf_registry (fold (\<lambda>cid r. Registry_Remove r cid) cids r) \<and>
     Registry_Get (fold (\<lambda>cid r. Registry_Remove r cid) cids r) = (\<lambda>k. if k \<in> set cids then None else Registry_Get r k)"
  using assms
proof (induction cids arbitrary: r)
  case (Cons c cids)
  from Cons.IH [OF Registry_Remove_eq(1) [OF Cons.prems]] show ?case
    using Registry_Remove_eq(2) [OF Cons.prems, of c] by (auto simp: fun_eq_iff)
qed simp

lemma range_collect:
  "fst (range_shard (\<lambda>cid p st. (if is_stale now p then st @ [cid] else st, True)) es st) =
     st @ map fst (filter (\<lambda>e. is_stale now (snd e)) es)"
  by (induction es arbitrary: st) auto

lemma evict_get:
  assumes "udp_wf s" and "range_order ord"
  shows "udp_wf (evictStalePeers ord now s) \<and>
     Registry_Get (udp_registry (evictStalePeers ord now s)) cid =
       (case Registry_Get (udp_registry s) cid of None \<Rightarrow> None | Some p \<Rightarrow> if is_stale now p then None else Some p)"
proof -
  have reg: "wf_registry (udp_registry s)" using assms(1) by (simp add: udp_wf_def)
  let ?stale = "map fst (filter (\<lambda>e. is_stale now (snd e)) (all_entries ord (udp_registry s)))"
  have e: "evictStalePeers ord now s = s\<lparr>udp_registry := fold (\<lambda>cid r. Registry_Remove r cid) ?stale (udp_registry s)\<rparr>"
    by (simp add: evictStalePeers_def Range_all_entries range_collect)
  have "cid \<in> set ?stale \<longleftrightarrow> (\<exists>p. Registry_Get (udp_registry s) cid = Some p \<and> is_stale now p)"
    using all_entries_get [OF reg assms(2)] by force
  then show ?thesis using fold_Remove [OF reg, of ?stale] assms(1) unfolding e
    by (auto simp: udp_wf_def split: option.splits)
qed

section \<open>Properties\<close>

text \<open>Property C23. The Linux receive loop reads stale bytes. \<open>batchRecv\<close> extends the buffers to their capacity before it
  returns, so \<open>handlePacket\<close> is given 65536 bytes whatever the datagram: a frame followed by a datagram
  of fewer bytes than a header that repeats its beginning counts as two receptions of 65536 bytes each, while
  the generic loop counts one reception of the frame's length.\<close>

theorem udp_linux_reads_stale_bytes:
  assumes "udp_wf s" and "length (backing b) = maxUDPSize" and "length buf = maxUDPSize"
    and "24 + length p \<le> maxUDPSize" and "0 < k" and "k < 24" and "toUDPAddr sa = Some a"
  shows "\<exists>bufs1 s1 c1 bufs2 s2 c2 buf1 g1 d1 buf2 g2.
     receive_linux lib str [(frame_bytes q ns p, sa)] t (b # bufs) s = Some (bufs1, s1, c1) \<and>
     receive_linux lib str [(take k (frame_bytes q ns p), sa)] t' bufs1 s1 = Some (bufs2, s2, c2) \<and>
     msgRecv (udp_metrics s2) = msgRecv (udp_metrics s) + 2 \<and>
     bytesRecv (udp_metrics s2) = bytesRecv (udp_metrics s) + 2 * 65536 \<and>
     receive_generic lib str (frame_bytes q ns p, a) t buf s = Some (buf1, g1, d1) \<and>
     receive_generic lib str (take k (frame_bytes q ns p), a) t' buf1 g1 = Some (buf2, g2, []) \<and>
     msgRecv (udp_metrics g2) = msgRecv (udp_metrics s) + 1 \<and>
     bytesRecv (udp_metrics g2) = bytesRecv (udp_metrics s) + of_nat (24 + length p)"
proof -
  let ?f = "frame_bytes q ns p" and ?rest = "drop (24 + length p) (backing b)"
  have mp: "length p \<le> MaxPayload" using assms(4) by (simp add: maxUDPSize_def MaxPayload_def)
  have n: "24 + length p + length ?rest = 65536" using assms(2,4) by (simp add: maxUDPSize_def)
  obtain s1 c1 where s1: "handlePacket lib str (?f @ ?rest) (Some a) t s = Some (s1, c1)" "udp_wf s1"
    "msgRecv (udp_metrics s1) = msgRecv (udp_metrics s) + 1" "bytesRecv (udp_metrics s1) = bytesRecv (udp_metrics s) + 65536"
    using handlePacket_frame [OF assms(1) mp, of lib str q ns ?rest a t] unfolding n by auto
  obtain s2 c2 where s2: "handlePacket lib str (?f @ ?rest) (Some a) t' s1 = Some (s2, c2)"
    "msgRecv (udp_metrics s2) = msgRecv (udp_metrics s1) + 1" "bytesRecv (udp_metrics s2) = bytesRecv (udp_metrics s1) + 65536"
    using handlePacket_frame [OF s1(2) mp, of lib str q ns ?rest a t'] unfolding n by auto
  obtain g1 d1 where g1: "handlePacket lib str ?f (Some a) t s = Some (g1, d1)" "udp_wf g1"
    "msgRecv (udp_metrics g1) = msgRecv (udp_metrics s) + 1" "bytesRecv (udp_metrics g1) = bytesRecv (udp_metrics s) + of_nat (24 + length p)"
    using handlePacket_frame [OF assms(1) mp, of lib str q ns "[]" a t] by auto
  have sh: "take k ?f \<noteq> []" "length (take k ?f) < 24" using assms(5,6) by (auto simp flip: length_greater_0_conv)
  obtain g2 where g2: "handlePacket lib str (take k ?f) (Some a) t' g1 = Some (g2, [])" "udp_metrics g2 = udp_metrics g1"
    using handlePacket_short [OF g1(2) sh] by blast
  define b1 where "b1 = \<lparr>backing = ?f @ ?rest, slen = length (?f @ ?rest)\<rparr>"
  have again: "take k ?f @ drop k (backing b1) = ?f @ ?rest" and kb: "length (take k ?f) \<le> length (backing b1)"
    using assms(6) by (simp_all add: b1_def)
  have l1: "receive_linux lib str [(?f, sa)] t (b # bufs) s =
      Some (b1 # map (\<lambda>b. b\<lparr>slen := length (backing b)\<rparr>) bufs, s1, c1)"
    using receive_linux_one [of ?f b sa a lib str t bufs s] assms(2,4,7) s1(1) by (simp add: b1_def maxUDPSize_def)
  have l2: "\<exists>bufs2. receive_linux lib str [(take k ?f, sa)] t' (b1 # map (\<lambda>b. b\<lparr>slen := length (backing b)\<rparr>) bufs) s1 = Some (bufs2, s2, c2)"
    using receive_linux_one [OF kb assms(7), of lib str t' _ s1] s2(1) assms(6) again by (simp add: min_def)
  have e1: "\<exists>buf1. receive_generic lib str (?f, a) t buf s = Some (buf1, g1, d1) \<and> length buf1 = length buf"
    using receive_generic_eq [of ?f buf lib str a t s] assms(3,4) g1(1) by (simp add: maxUDPSize_def)
  then obtain buf1 where e1: "receive_generic lib str (?f, a) t buf s = Some (buf1, g1, d1)" "length buf1 = maxUDPSize"
    using assms(3) by auto
  have e2: "\<exists>buf2. receive_generic lib str (take k ?f, a) t' buf1 g1 = Some (buf2, g2, [])"
    using receive_generic_eq [of "take k ?f" buf1 lib str a t' g1] e1(2) assms(6) g2(1) by (simp add: maxUDPSize_def)
  show ?thesis using l1 l2 e1(1) e2 s1(3,4) s2(2,3) g1(3,4) g2(2) by (auto simp: algebra_simps)
qed

theorem udp_linux_reads_stale_bytes_witness:
  "\<exists>bufs1 s1 c1 bufs2 s2 c2.
     receive_linux count_lib (\<lambda>_. ''h'') [(frame_bytes 1 2 [], SockaddrInet4 0 [127, 0, 0, 1])] 5 fresh_buffers (NewUDPServer sample_recorder []) =
       Some (bufs1, s1, c1) \<and>
     receive_linux count_lib (\<lambda>_. ''h'') [(take 4 (frame_bytes 1 2 []), SockaddrInet4 0 [127, 0, 0, 1])] 6 bufs1 s1 = Some (bufs2, s2, c2) \<and>
     msgRecv (udp_metrics s2) = msgRecv sample_recorder + 2"
proof -
  let ?b = "\<lparr>backing = replicate maxUDPSize 0, slen = maxUDPSize\<rparr>"
  have b: "length (backing ?b) = maxUDPSize" "length (replicate maxUDPSize 0) = maxUDPSize" "24 + length ([] :: bytes) \<le> maxUDPSize"
    by (simp_all add: maxUDPSize_def)
  have a: "toUDPAddr (SockaddrInet4 0 [127, 0, 0, 1]) = Some \<lparr>ua_IP = [127, 0, 0, 1], ua_Port = ntohs 0\<rparr>"
    by (simp add: toUDPAddr_def)
  have f: "fresh_buffers = ?b # replicate 63 ?b" by (simp add: fresh_buffers_def maxBatchSize_def flip: replicate_Suc)
  have m: "udp_metrics (NewUDPServer sample_recorder []) = sample_recorder" by (simp add: NewUDPServer_def)
  from udp_linux_reads_stale_bytes [OF udp_wf_New [OF wf_sample_recorder, of "[]"] b _ _ a, of 4 count_lib "\<lambda>_. ''h''" 1 2 5 "replicate 63 ?b" 6]
  show ?thesis unfolding m f by auto
qed

text \<open>\<open>batchSend\<close> sends to every address exactly once when the kernel never reports that the socket would block,
  but when it blocks after the first \<open>r\<close> messages, the retry starts over and the first \<open>r\<close> peers receive the
  broadcast twice; the call still succeeds.\<close>

lemma udp_batch_send_resends:
  assumes "0 < r" and "r < length addrs" and "list_all took_all outs" and "length addrs \<le> length outs"
  shows "batchSend addrs outs = (addrs, Some True) \<and>
     batchSend addrs (Took r # WouldBlock # outs) = (take r addrs @ addrs, Some True)"
proof -
  have "addrs \<noteq> []" using assms(2) by auto
  then have "raw_Write addrs outs = (addrs, Some True)"
    using batchSend_once [OF assms(3,4)] by (simp add: batchSend_def)
  then show ?thesis using batchSend_once [OF assms(3,4)] assms(2) by (simp add: batchSend_def)
qed

text \<open>Eviction is exact: \<open>evictStalePeers\<close> removes precisely the peers not seen for more than 30 s and leaves the
  others as they are; any datagram refreshes its sender, so a peer that sends at least every 30 s, as the
  heartbeats do, is still registered after every eviction.\<close>

lemma udp_evicts_exactly_stale:
  assumes "udp_wf s" and "range_order ord" and "data \<noteq> []"
  shows "Registry_Get (udp_registry (evictStalePeers ord now s)) cid =
       (case Registry_Get (udp_registry s) cid of None \<Rightarrow> None | Some p \<Rightarrow> if is_stale now p then None else Some p) \<and>
     (\<exists>s' calls. handlePacket lib str data (Some a) t s = Some (s', calls) \<and>
       (sint now - sint t \<le> peerTTL \<longrightarrow>
        Registry_Get (udp_registry (evictStalePeers ord now s')) (peer_name str a) \<noteq> None))"
proof -
  obtain s' c where s': "handlePacket lib str data (Some a) t s = Some (s', c)" "udp_wf s'"
    "Registry_Get (udp_registry s') = (Registry_Get (udp_registry s))
       (peer_name str a \<mapsto> seen_peer (peer_name str a) a t (Registry_Get (udp_registry s) (peer_name str a)))"
    using handlePacket_ok [OF assms(1,3), of lib str a t] by blast
  then show ?thesis
    using evict_get [OF assms(1,2), of now cid] evict_get [OF s'(2) assms(2), of now "peer_name str a"]
    by (auto simp: is_stale_def)
qed

end
