(* ===== verification/Go_Std.thy ===== *)
theory Go_Std
  imports Containers
begin

text \<open>
  The parts of Go's standard library that the HTTP based transports use: \<open>sync.Map\<close>, the standard
  Base64 encoding, \<open>fmt.Sscanf\<close> with \<open>%d\<close> into a \<open>uint64\<close>, and \<open>bufio.Scanner\<close> splitting lines.
\<close>

named_theorems sync_map \<open>operations of a concurrent map\<close>

section \<open>Concurrent maps\<close>

text \<open>A \<open>sync.Map\<close> holds each key once; \<open>Range\<close> visits the entries in any order.\<close>

type_synonym ('k, 'v) syncmap = "('k \<times> 'v) list"

definition sm_Load :: "('k, 'v) syncmap \<Rightarrow> 'k \<Rightarrow> 'v option" where "sm_Load m k = map_of m k"
definition sm_Store :: "('k, 'v) syncmap \<Rightarrow> 'k \<Rightarrow> 'v \<Rightarrow> ('k, 'v) syncmap" where "sm_Store m k v = AList.update k v m"
definition sm_Delete :: "('k, 'v) syncmap \<Rightarrow> 'k \<Rightarrow> ('k, 'v) syncmap" where "sm_Delete m k = AList.delete k m"
definition sm_values :: "(('k \<times> 'v) list \<Rightarrow> ('k \<times> 'v) list) \<Rightarrow> ('k, 'v) syncmap \<Rightarrow> 'v list" where
  "sm_values ord m = map snd (ord m)"

abbreviation wf_sm :: "('k, 'v) syncmap \<Rightarrow> bool" where "wf_sm m \<equiv> distinct (map fst m)"

lemma sm_Load_Store [sync_map]: "sm_Load (sm_Store m k v) = (sm_Load m)(k \<mapsto> v)"
  by (auto simp: sm_Load_def sm_Store_def update_conv')

lemma sm_Load_Delete [sync_map]: "sm_Load (sm_Delete m k) = (sm_Load m)(k := None)"
  by (auto simp: sm_Load_def sm_Delete_def delete_conv')

lemma sm_Load_empty [sync_map]: "sm_Load [] = Map.empty"
  by (auto simp: sm_Load_def)

lemma wf_sm_Store [sync_map]: "wf_sm m \<Longrightarrow> wf_sm (sm_Store m k v)"
  by (simp add: sm_Store_def distinct_update)

lemma wf_sm_Delete [sync_map]: "wf_sm m \<Longrightarrow> wf_sm (sm_Delete m k)"
  by (simp add: sm_Delete_def distinct_delete)

lemma sm_Load_iff [sync_map]: "wf_sm m \<Longrightarrow> sm_Load m k = Some v \<longleftrightarrow> (k, v) \<in> set m"
  by (simp add: sm_Load_def)

lemmas sm_laws = sm_Load_Store sm_Load_Delete wf_sm_Store wf_sm_Delete sm_Load_empty

lemma set_sm_values: "wf_sm m \<Longrightarrow> range_order ord \<Longrightarrow> set (sm_values ord m) = ran (sm_Load m)"
  unfolding sm_values_def sm_Load_def ran_map_of_zip by (force simp: ran_def)

lemma length_sm_values: "wf_sm m \<Longrightarrow> range_order ord \<Longrightarrow> length (sm_values ord m) = card (dom (sm_Load m))"
proof -
  assume "wf_sm m" and o: "range_order ord"
  then have "card (fst ` set m) = length m" using distinct_card [of "map fst m"] by simp
  then show "length (sm_values ord m) = card (dom (sm_Load m))"
    using o unfolding sm_values_def sm_Load_def by (simp add: dom_map_of_conv_image_fst)
qed

text \<open>Values are visited once each when no two keys share one.\<close>

lemma distinct_sm_values:
  assumes "wf_sm m" and "range_order ord" and "\<And>k k' v. sm_Load m k = Some v \<Longrightarrow> sm_Load m k' = Some v \<Longrightarrow> k = k'"
  shows "distinct (sm_values ord m)"
proof -
  have "inj_on snd (set m)"
    using assms(1,3) by (auto intro!: inj_onI simp: sm_Load_iff [OF assms(1)])
  moreover have "distinct m" using assms(1) by (simp add: distinct_map)
  ultimately show ?thesis using assms(2) by (simp add: sm_values_def distinct_map)
qed

section \<open>Base64\<close>

definition b64_alphabet :: string where
  "b64_alphabet = ''ABCDEFGHIJKLMNOPQRSTUVWXYZabcdefghijklmnopqrstuvwxyz0123456789+/''"

definition b64_char :: "nat \<Rightarrow> char" where "b64_char n = b64_alphabet ! n"

definition b64_val :: "char \<Rightarrow> nat option" where
  "b64_val c = map_of (zip b64_alphabet [0..<64]) c"

definition sextet :: "nat \<Rightarrow> nat \<Rightarrow> nat" where "sextet i n = n div 64 ^ (3 - i) mod 64"

definition octet :: "nat \<Rightarrow> nat \<Rightarrow> u8" where "octet i n = of_nat (n div 256 ^ (2 - i) mod 256)"

fun EncodeToString :: "bytes \<Rightarrow> string" where
  "EncodeToString [] = []"
| "EncodeToString [a] = (let n = unat a * 65536 in [b64_char (sextet 0 n), b64_char (sextet 1 n)] @ ''=='')"
| "EncodeToString [a, b] = (let n = unat a * 65536 + unat b * 256 in
     [b64_char (sextet 0 n), b64_char (sextet 1 n), b64_char (sextet 2 n)] @ ''='')"
| "EncodeToString (a # b # c # r) = (let n = unat a * 65536 + unat b * 256 + unat c in
     [b64_char (sextet 0 n), b64_char (sextet 1 n), b64_char (sextet 2 n), b64_char (sextet 3 n)] @ EncodeToString r)"

fun b64_groups :: "string \<Rightarrow> bytes option" where
  "b64_groups [] = Some []"
| "b64_groups (c1 # c2 # c3 # c4 # r) =
     (if r = [] \<and> c3 = CHR ''='' \<and> c4 = CHR ''='' then do {
        v1 \<leftarrow> b64_val c1; v2 \<leftarrow> b64_val c2;
        Some [octet 0 (v1 * 262144 + v2 * 4096)] }
      else if r = [] \<and> c4 = CHR ''='' then do {
        v1 \<leftarrow> b64_val c1; v2 \<leftarrow> b64_val c2; v3 \<leftarrow> b64_val c3;
        let n = v1 * 262144 + v2 * 4096 + v3 * 64;
        Some [octet 0 n, octet 1 n] }
      else do {
        v1 \<leftarrow> b64_val c1; v2 \<leftarrow> b64_val c2; v3 \<leftarrow> b64_val c3; v4 \<leftarrow> b64_val c4;
        let n = v1 * 262144 + v2 * 4096 + v3 * 64 + v4;
        rest \<leftarrow> b64_groups r;
        Some (octet 0 n # octet 1 n # octet 2 n # rest) })"
| "b64_groups _ = None"

definition DecodeString :: "string \<Rightarrow> bytes option" where
  \<comment> \<open>line breaks are ignored; \<open>None\<close> is a \<open>CorruptInputError\<close>\<close>
  "DecodeString s = b64_groups (filter (\<lambda>c. c \<noteq> CHR 0x0A \<and> c \<noteq> CHR 0x0D) s)"

lemma sextet_less [simp]: "sextet i n < 64"
  by (simp add: sextet_def)

lemma b64_tables: "list_all (\<lambda>n. b64_val (b64_char n) = Some n \<and> b64_char n \<notin> {CHR ''='', CHR 0x0A, CHR 0x0D}) [0..<64]"
  by code_simp

lemma b64_val_char [simp]: "n < 64 \<Longrightarrow> b64_val (b64_char n) = Some n"
  and b64_char_plain [simp]: "n < 64 \<Longrightarrow> b64_char n \<noteq> CHR ''=''" "n < 64 \<Longrightarrow> b64_char n \<noteq> CHR 0x0A" "n < 64 \<Longrightarrow> b64_char n \<noteq> CHR 0x0D"
  using b64_tables by (auto simp: list_all_iff)

lemma unat_u8_less: "unat (a :: u8) < 256"
  using unsigned_less [of a] by simp

lemma sextets:
  assumes "n < 16777216"
  shows "sextet 0 n * 262144 + sextet 1 n * 4096 + sextet 2 n * 64 + sextet 3 n = n"
proof -
  have "n = n div 64 * 64 + n mod 64" by (rule div_mult_mod_eq [symmetric])
  moreover have "n div 64 = n div 4096 * 64 + n div 64 mod 64" using div_mult2_eq [of n 64 64] by simp
  moreover have "n div 4096 = n div 262144 * 64 + n div 4096 mod 64" using div_mult2_eq [of n 4096 64] by simp
  moreover have "n div 262144 mod 64 = n div 262144" using assms by simp
  ultimately have "n div 262144 mod 64 * 262144 + n div 4096 mod 64 * 4096 + n div 64 mod 64 * 64 + n mod 64 = n" by linarith
  moreover have "sextet 0 n = n div 262144 mod 64" "sextet 1 n = n div 4096 mod 64" "sextet 2 n = n div 64 mod 64" "sextet 3 n = n mod 64"
    by (simp_all add: sextet_def)
  ultimately show ?thesis by presburger
qed

lemma octets:
  assumes "n = unat a * 65536 + unat b * 256 + unat c"
  shows "octet 0 n = a" "octet 1 n = b" "octet 2 n = c"
proof -
  note l = unat_u8_less [of a] unat_u8_less [of b] unat_u8_less [of c]
  have n: "n = unat c + 256 * (unat a * 256 + unat b)" by (simp add: assms)
  have "n div 256 = unat a * 256 + unat b" "n mod 256 = unat c"
    using l(3) unfolding n div_mult_self2 [OF zero_neq_numeral [symmetric]] mod_mult_self2 by simp_all
  moreover have "n div 65536 = n div 256 div 256" using div_mult2_eq [of n 256 256] by simp
  ultimately show "octet 0 n = a" "octet 1 n = b" "octet 2 n = c"
    using l by (simp_all add: octet_def)
qed

lemma sextet_low:
  "sextet 3 (unat a * 65536) = 0" "sextet 2 (unat a * 65536) = 0" "sextet 3 (unat a * 65536 + unat b * 256) = 0" for a b :: u8
proof -
  have "unat a * 65536 = unat a * 1024 * 64" "unat a * 65536 + unat b * 256 = (unat a * 1024 + unat b * 4) * 64" by simp_all
  then show "sextet 3 (unat a * 65536) = 0" "sextet 2 (unat a * 65536) = 0" "sextet 3 (unat a * 65536 + unat b * 256) = 0"
    by (simp_all add: sextet_def)
qed

lemma b64_groups_encode: "b64_groups (EncodeToString bs) = Some bs"
proof (induction bs rule: EncodeToString.induct)
  case (2 a)
  let ?n = "unat a * 65536"
  have "?n < 16777216" using unat_u8_less [of a] by simp
  then have "sextet 0 ?n * 262144 + sextet 1 ?n * 4096 = ?n" using sextets [of ?n] by (simp add: sextet_low)
  then show ?case using octets(1) [of ?n a 0 0] by (simp add: Let_def)
next
  case (3 a b)
  let ?n = "unat a * 65536 + unat b * 256"
  have "?n < 16777216" using unat_u8_less [of a] unat_u8_less [of b] by simp
  then have "sextet 0 ?n * 262144 + sextet 1 ?n * 4096 + sextet 2 ?n * 64 = ?n" using sextets [of ?n] by (simp add: sextet_low)
  then show ?case using octets(1,2) [of ?n a b 0] by (simp add: Let_def)
next
  case (4 a b c r)
  let ?n = "unat a * 65536 + unat b * 256 + unat c"
  have "?n < 16777216" using unat_u8_less [of a] unat_u8_less [of b] unat_u8_less [of c] by simp
  then have "sextet 0 ?n * 262144 + sextet 1 ?n * 4096 + sextet 2 ?n * 64 + sextet 3 ?n = ?n" by (rule sextets)
  then show ?case using octets [of ?n a b c] 4 by (simp add: Let_def)
qed simp

lemma EncodeToString_plain: "c \<in> set (EncodeToString bs) \<Longrightarrow> c \<noteq> CHR 0x0A \<and> c \<noteq> CHR 0x0D"
  by (induction bs rule: EncodeToString.induct) (auto simp: Let_def)

lemma DecodeString_EncodeToString [simp]: "DecodeString (EncodeToString bs) = Some bs"
proof -
  have "filter (\<lambda>c. c \<noteq> CHR 0x0A \<and> c \<noteq> CHR 0x0D) (EncodeToString bs) = EncodeToString bs"
    using EncodeToString_plain by (auto intro: filter_True)
  then show ?thesis by (simp add: DecodeString_def b64_groups_encode)
qed

lemma length_EncodeToString: "length (EncodeToString bs) = 4 * ((length bs + 2) div 3)"
  by (induction bs rule: EncodeToString.induct) (auto simp: Let_def, presburger)

lemma EncodeToString_Nil [simp]: "EncodeToString bs = [] \<longleftrightarrow> bs = []"
  by (induction bs rule: EncodeToString.induct) (auto simp: Let_def)

section \<open>Scanning numbers\<close>

definition is_digit :: "char \<Rightarrow> bool" where "is_digit c \<longleftrightarrow> c \<in> set ''0123456789''"

definition digits_value :: "string \<Rightarrow> nat" where
  "digits_value s = foldl (\<lambda>n c. 10 * n + (of_char c - 48)) 0 s"

definition Sscanf_u64 :: "string \<Rightarrow> u64 option" where
  \<comment> \<open>\<open>None\<close> is an error, which leaves the target unchanged\<close>
  "Sscanf_u64 s = (let ds = takeWhile is_digit (dropWhile (\<lambda>c. c = CHR '' '' \<or> c = CHR 0x09) s) in
     if ds = [] \<or> digits_value ds \<ge> 2 ^ 64 then None else Some (of_nat (digits_value ds)))"

lemma digit_char_facts: "n < 10 \<Longrightarrow> is_digit (digit_char n) \<and> of_char (digit_char n) = (48 + n :: nat)"
proof -
  have "list_all (\<lambda>n. is_digit (digit_char n) \<and> of_char (digit_char n) = (48 + n :: nat)) [0..<10]" by code_simp
  then show "n < 10 \<Longrightarrow> is_digit (digit_char n) \<and> of_char (digit_char n) = (48 + n :: nat)" by (auto simp: list_all_iff)
qed

lemma dec_digits: "list_all is_digit (dec n)"
  by (induction n rule: dec.induct) (subst dec.simps, auto simp: digit_char_facts)

lemma digits_value_dec: "digits_value (dec n) = n"
proof (induction n rule: dec.induct)
  case (1 n)
  show ?case using 1 digit_char_facts [of n] digit_char_facts [of "n mod 10"]
    by (subst dec.simps) (auto simp: digits_value_def)
qed

lemma not_digit [simp]: "\<not> is_digit (CHR '' '')" "\<not> is_digit (CHR 0x09)" "\<not> is_digit (CHR 0x0A)" "\<not> is_digit (CHR 0x0D)"
  by (simp_all add: is_digit_def)

lemma dec_first: "\<exists>c cs. dec n = c # cs \<and> is_digit c"
  using dec_digits [of n] by (cases "dec n") auto

lemma Sscanf_dec [simp]: "Sscanf_u64 (dec (unat w)) = Some w"
proof -
  obtain c cs where c: "dec (unat w) = c # cs" "is_digit c" using dec_first by blast
  then have "c \<noteq> CHR '' ''" "c \<noteq> CHR 0x09" by auto
  then have "dropWhile (\<lambda>c. c = CHR '' '' \<or> c = CHR 0x09) (dec (unat w)) = dec (unat w)" using c by simp
  moreover have "takeWhile is_digit (dec (unat w)) = dec (unat w)"
    using dec_digits unfolding list_all_iff by (subst takeWhile_eq_all_conv) blast
  moreover have "unat w < 2 ^ 64" using unsigned_less [of w] by simp
  ultimately show ?thesis unfolding Sscanf_u64_def Let_def by (simp only: digits_value_dec) simp
qed

section \<open>Scanning lines\<close>

definition MaxScanTokenSize :: nat where "MaxScanTokenSize = 64 * 1024"

definition dropCR :: "string \<Rightarrow> string" where
  "dropCR s = (if s \<noteq> [] \<and> last s = CHR 0x0D then butlast s else s)"

text \<open>The tokens of \<open>ScanLines\<close>, and whether the scanner stopped because a line does not fit its buffer.\<close>

function scan_lines :: "string \<Rightarrow> string list \<times> bool" where
  "scan_lines s =
     (if s = [] then ([], False)
      else let l = takeWhile (\<lambda>c. c \<noteq> CHR 0x0A) s; r = dropWhile (\<lambda>c. c \<noteq> CHR 0x0A) s in
        if length l \<ge> MaxScanTokenSize then ([], True)
        else if r = [] then ([dropCR l], False)
        else case scan_lines (tl r) of (ls, e) \<Rightarrow> (dropCR l # ls, e))"
  by pat_completeness auto
termination
proof (relation "measure length", simp)
  fix s l r :: string
  assume r: "r = dropWhile (\<lambda>c. c \<noteq> CHR 0x0A) s" and n: "r \<noteq> []"
  have "length r \<le> length s" unfolding r by (rule length_dropWhile_le)
  then show "(tl r, s) \<in> measure length" using n by (cases r) auto
qed

declare scan_lines.simps [simp del]

lemma scan_lines_Nil [simp]: "scan_lines [] = ([], False)"
  by (subst scan_lines.simps) simp

definition plain_line :: "string \<Rightarrow> bool" where
  "plain_line l \<longleftrightarrow> CHR 0x0A \<notin> set l \<and> CHR 0x0D \<notin> set l \<and> length l < MaxScanTokenSize"

lemma dropCR_plain: "plain_line l \<Longrightarrow> dropCR l = l"
  unfolding dropCR_def plain_line_def by (metis last_in_set)

lemma plain_take [simp]: "plain_line l \<Longrightarrow> plain_line (take k l)"
  by (auto simp: plain_line_def dest: in_set_takeD)

lemma takeWhile_plain:
  "plain_line l \<Longrightarrow> takeWhile (\<lambda>c. c \<noteq> CHR 0x0A) (l @ CHR 0x0A # s) = l"
  "plain_line l \<Longrightarrow> dropWhile (\<lambda>c. c \<noteq> CHR 0x0A) (l @ CHR 0x0A # s) = CHR 0x0A # s"
  "plain_line l \<Longrightarrow> takeWhile (\<lambda>c. c \<noteq> CHR 0x0A) l = l"
  "plain_line l \<Longrightarrow> dropWhile (\<lambda>c. c \<noteq> CHR 0x0A) l = []"
  by (auto simp: plain_line_def takeWhile_append dropWhile_append)

lemma scan_lines_line:
  "plain_line l \<Longrightarrow> scan_lines (l @ CHR 0x0A # s) = (l # fst (scan_lines s), snd (scan_lines s))"
  by (subst scan_lines.simps) (auto simp: takeWhile_plain dropCR_plain Let_def plain_line_def not_le split: prod.splits)

lemma scan_lines_last: "plain_line l \<Longrightarrow> l \<noteq> [] \<Longrightarrow> scan_lines l = ([l], False)"
  by (subst scan_lines.simps) (auto simp: takeWhile_plain dropCR_plain Let_def plain_line_def not_le)

lemma scan_lines_too_long:
  "CHR 0x0A \<notin> set l \<Longrightarrow> MaxScanTokenSize \<le> length l \<Longrightarrow> scan_lines (l @ CHR 0x0A # s) = ([], True)"
  by (subst scan_lines.simps) (auto simp: takeWhile_append Let_def MaxScanTokenSize_def)

end
