(* ===== verification/Netem.thy ===== *)
theory Netem
  imports Go_Std
begin

text \<open>
  The network impairment profiles and their controller, \<^verbatim>\<open>pkg/network\<close>. The controller runs the
  \<^verbatim>\<open>tc\<close> program; what \<^verbatim>\<open>tc\<close> does to the kernel is the parameter \<open>tc\<close>, a function from its
  arguments and the kernel's state to its success and the new state. It may fail at any call, for a missing
  privilege, an unknown interface or any other reason. A \<open>float64\<close> is the rational it denotes.
\<close>

section \<open>Profiles\<close>

record Profile =
  pf_Name :: string
  LossPct :: rat
  DelayMs :: int
  JitterMs :: int
  DuplicatePct :: rat
  ReorderPct :: rat
  CorruptPct :: rat
  pf_Rate :: string

definition zero_Profile :: Profile where
  "zero_Profile = \<lparr>pf_Name = [], LossPct = 0, DelayMs = 0, JitterMs = 0, DuplicatePct = 0, ReorderPct = 0,
     CorruptPct = 0, pf_Rate = []\<rparr>"

definition Profiles :: "(string \<times> Profile) list" where
  "Profiles = (let z = zero_Profile in
    [(''clean'', z\<lparr>pf_Name := ''clean''\<rparr>),
     (''loss1'', z\<lparr>pf_Name := ''loss1'', LossPct := 1\<rparr>),
     (''loss5'', z\<lparr>pf_Name := ''loss5'', LossPct := 5\<rparr>),
     (''loss10'', z\<lparr>pf_Name := ''loss10'', LossPct := 10\<rparr>),
     (''loss20'', z\<lparr>pf_Name := ''loss20'', LossPct := 20\<rparr>),
     (''latency20'', z\<lparr>pf_Name := ''latency20'', DelayMs := 20, JitterMs := 2\<rparr>),
     (''latency50'', z\<lparr>pf_Name := ''latency50'', DelayMs := 50, JitterMs := 5\<rparr>),
     (''latency100'', z\<lparr>pf_Name := ''latency100'', DelayMs := 100, JitterMs := 10\<rparr>),
     (''reorder'', z\<lparr>pf_Name := ''reorder'', DelayMs := 10, ReorderPct := 25\<rparr>),
     (''duplicate'', z\<lparr>pf_Name := ''duplicate'', DuplicatePct := 1\<rparr>),
     (''jitter'', z\<lparr>pf_Name := ''jitter'', DelayMs := 20, JitterMs := 15\<rparr>),
     (''wan'', z\<lparr>pf_Name := ''wan'', DelayMs := 50, JitterMs := 10, LossPct := 1/2\<rparr>),
     (''mobile4g'', z\<lparr>pf_Name := ''mobile4g'', DelayMs := 40, JitterMs := 20, LossPct := 1\<rparr>),
     (''mobile3g'', z\<lparr>pf_Name := ''mobile3g'', DelayMs := 100, JitterMs := 30, LossPct := 2, pf_Rate := ''1mbit''\<rparr>),
     (''lossburst'', z\<lparr>pf_Name := ''lossburst'', LossPct := 1, ReorderPct := 5\<rparr>),
     (''satellite'', z\<lparr>pf_Name := ''satellite'', DelayMs := 600, JitterMs := 50, LossPct := 1/5\<rparr>)])"

section \<open>Arguments of \<open>tc\<close>\<close>

text \<open>\<open>fmt.Sprintf\<close> with \<open>%.2f%%\<close> on a non-negative number and with \<open>%dms\<close>.\<close>

definition round_even :: "rat \<Rightarrow> int" where
  "round_even q = (let n = \<lfloor>q\<rfloor>; r = q - of_int n in
     if r < 1/2 then n else if r > 1/2 then n + 1 else if even n then n else n + 1)"

definition pad2 :: "nat \<Rightarrow> string" where
  "pad2 n = (if n < 10 then CHR ''0'' # dec n else dec n)"

definition pct2 :: "rat \<Rightarrow> string" where
  "pct2 q = (let n = nat (round_even (q * 100)) in dec (n div 100) @ ''.'' @ pad2 (n mod 100) @ ''%'')"

definition ms :: "int \<Rightarrow> string" where "ms d = dec_int d @ ''ms''"

definition buildArgs :: "string \<Rightarrow> Profile \<Rightarrow> string list" where
  "buildArgs iface p =
     [''qdisc'', ''add'', ''dev'', iface, ''root'', ''netem'']
     @ (if DelayMs p > 0
        then if JitterMs p > 0 then [''delay'', ms (DelayMs p), ms (JitterMs p), ''distribution'', ''normal'']
             else [''delay'', ms (DelayMs p)]
        else [])
     @ (if LossPct p > 0 then [''loss'', pct2 (LossPct p)] else [])
     @ (if DuplicatePct p > 0 then [''duplicate'', pct2 (DuplicatePct p)] else [])
     @ (if ReorderPct p > 0
        then (if DelayMs p = 0 then [''delay'', ''10ms''] else []) @ [''reorder'', pct2 (ReorderPct p)]
        else [])
     @ (if CorruptPct p > 0 then [''corrupt'', pct2 (CorruptPct p)] else [])
     @ (if pf_Rate p \<noteq> [] then [''rate'', pf_Rate p] else [])"

section \<open>The controller\<close>

record NetemController =
  nc_iface :: string
  nc_applied :: bool

datatype netem_error = DetectFailed | NoInterface | TcFailed

definition NewNetemController :: "string \<Rightarrow> NetemController" where
  "NewNetemController iface = \<lparr>nc_iface = iface, nc_applied = False\<rparr>"

record net_iface =
  if_Name :: string
  if_Loopback :: bool
  if_Up :: bool
  if_Addrs :: nat

fun first_suitable :: "net_iface list \<Rightarrow> netem_error + string" where
  "first_suitable [] = Inl NoInterface"
| "first_suitable (i # is) =
     (if if_Loopback i then first_suitable is
      else if \<not> if_Up i then first_suitable is
      else if if_Addrs i > 0 then Inr (if_Name i)
      else first_suitable is)"

text \<open>\<open>ifaces\<close> is what \<open>net.Interfaces\<close> returns, \<open>None\<close> on an error.\<close>

definition DetectInterface :: "net_iface list option \<Rightarrow> netem_error + string" where
  "DetectInterface ifaces = (case ifaces of None \<Rightarrow> Inl DetectFailed | Some is \<Rightarrow> first_suitable is)"

type_synonym 'k tc = "string list \<Rightarrow> 'k \<Rightarrow> bool \<times> 'k"

definition Netem_Clear :: "'k tc \<Rightarrow> NetemController \<times> 'k \<Rightarrow> NetemController \<times> 'k" where
  "Netem_Clear tc = (\<lambda>(n, k).
     if nc_iface n = [] then (n, k)
     else (n\<lparr>nc_applied := False\<rparr>, snd (tc [''qdisc'', ''del'', ''dev'', nc_iface n, ''root''] k)))"

definition Netem_Apply ::
  "'k tc \<Rightarrow> net_iface list option \<Rightarrow> Profile \<Rightarrow> NetemController \<times> 'k \<Rightarrow> (netem_error + unit) \<times> NetemController \<times> 'k" where
  "Netem_Apply tc ifaces p = (\<lambda>(n, k).
     case (if nc_iface n = [] then DetectInterface ifaces else Inr (nc_iface n)) of
       Inl e \<Rightarrow> (Inl e, n, k)
     | Inr iface \<Rightarrow>
         let n1 = n\<lparr>nc_iface := iface\<rparr>;
             (n2, k2) = (if nc_applied n1 then Netem_Clear tc (n1, k) else (n1, k)) in
         if pf_Name p = ''clean'' then (Inr (), n2\<lparr>nc_applied := False\<rparr>, k2)
         else case tc (buildArgs (nc_iface n2) p) k2 of (ok, k3) \<Rightarrow>
           if \<not> ok then (Inl TcFailed, n2, k3) else (Inr (), n2\<lparr>nc_applied := True\<rparr>, k3))"

section \<open>What the arguments mean\<close>

text \<open>The values of netem options as \<^verbatim>\<open>tc-netem(8)\<close> documents them, for the units used here: a decimal number of
  milliseconds or of percent.\<close>

definition decimal_value :: "string \<Rightarrow> rat option" where
  "decimal_value s =
     (let a = takeWhile is_digit s; rest = dropWhile is_digit s in
      if a = [] then None
      else case rest of
        [] \<Rightarrow> Some (of_nat (digits_value a))
      | c # b \<Rightarrow> if c = CHR ''.'' \<and> b \<noteq> [] \<and> list_all is_digit b
                then Some (of_nat (digits_value a) + of_nat (digits_value b) / 10 ^ length b) else None)"

definition in_unit :: "string \<Rightarrow> string \<Rightarrow> rat option" where
  "in_unit u s = (if drop (length s - length u) s = u then decimal_value (take (length s - length u) s) else None)"

record netem_spec =
  ns_delay :: rat    \<comment> \<open>milliseconds\<close>
  ns_jitter :: rat
  ns_loss :: rat     \<comment> \<open>percent\<close>
  ns_duplicate :: rat
  ns_reorder :: rat
  ns_corrupt :: rat
  ns_rate :: string  \<comment> \<open>empty: unlimited\<close>

definition no_impairment :: netem_spec where
  "no_impairment = \<lparr>ns_delay = 0, ns_jitter = 0, ns_loss = 0, ns_duplicate = 0, ns_reorder = 0, ns_corrupt = 0, ns_rate = []\<rparr>"

text \<open>The options used here, each at most once, in any order.\<close>

definition percent_option :: "string \<Rightarrow> rat \<Rightarrow> netem_spec \<Rightarrow> netem_spec option" where
  "percent_option a q s =
     (if q > 100 then None
      else if a = ''loss'' then Some (s\<lparr>ns_loss := q\<rparr>)
      else if a = ''duplicate'' then Some (s\<lparr>ns_duplicate := q\<rparr>)
      else if a = ''reorder'' then Some (s\<lparr>ns_reorder := q\<rparr>)
      else if a = ''corrupt'' then Some (s\<lparr>ns_corrupt := q\<rparr>)
      else None)"

fun netem_opts :: "string list \<Rightarrow> netem_spec \<Rightarrow> string list \<Rightarrow> netem_spec option" where
  "netem_opts seen s [] = Some s"
| "netem_opts seen s [a] = None"
| "netem_opts seen s (a # b # ys) =
     (if a \<in> set seen then None
      else if a = ''delay'' then do {
        d \<leftarrow> in_unit ''ms'' b;
        (case ys of
           j # kw # kind # zs \<Rightarrow>
             if kw = ''distribution''
             then do { v \<leftarrow> in_unit ''ms'' j; netem_opts (a # seen) (s\<lparr>ns_delay := d, ns_jitter := v\<rparr>) zs }
             else netem_opts (a # seen) (s\<lparr>ns_delay := d\<rparr>) ys
         | _ \<Rightarrow> netem_opts (a # seen) (s\<lparr>ns_delay := d\<rparr>) ys) }
      else if a = ''rate'' then netem_opts (a # seen) (s\<lparr>ns_rate := b\<rparr>) ys
      else do {
        q \<leftarrow> in_unit ''%'' b;
        s \<leftarrow> percent_option a q s;
        netem_opts (a # seen) s ys })"

declare netem_opts.simps(3) [simp del]

text \<open>A discipline has the impairments of a profile: the same delay, jitter and rate, and percentages within half of the
  hundredth of a percent that the command line can express. A profile makes sense when its values are not negative, its
  percentages are at most 100, and it has a delay whenever it has a jitter or a reordering.\<close>

definition near :: "rat \<Rightarrow> rat \<Rightarrow> bool" where "near a b \<longleftrightarrow> \<bar>a - b\<bar> \<le> 1 / 200"

definition realizes :: "Profile \<Rightarrow> netem_spec \<Rightarrow> bool" where
  "realizes p s \<longleftrightarrow> ns_delay s = of_int (DelayMs p) \<and> ns_jitter s = of_int (JitterMs p) \<and> near (ns_loss s) (LossPct p) \<and>
     near (ns_duplicate s) (DuplicatePct p) \<and> near (ns_reorder s) (ReorderPct p) \<and> near (ns_corrupt s) (CorruptPct p) \<and>
     ns_rate s = pf_Rate p"

definition valid_profile :: "Profile \<Rightarrow> bool" where
  "valid_profile p \<longleftrightarrow> 0 \<le> DelayMs p \<and> 0 \<le> JitterMs p \<and> (JitterMs p > 0 \<or> ReorderPct p > 0 \<longrightarrow> DelayMs p > 0) \<and>
     list_all (\<lambda>q. 0 \<le> q \<and> q \<le> 100) [LossPct p, DuplicatePct p, ReorderPct p, CorruptPct p]"

lemma takeWhile_dec: "\<not> is_digit c \<Longrightarrow> takeWhile is_digit (dec n @ c # r) = dec n" "\<not> is_digit c \<Longrightarrow> dropWhile is_digit (dec n @ c # r) = c # r"
  using dec_digits [of n] by (simp_all add: list_all_iff takeWhile_append dropWhile_append)

lemma dot_no_digit: "\<not> is_digit (CHR ''.'')"
  by code_simp

lemma takeWhile_dec_all: "takeWhile is_digit (dec n) = dec n" "dropWhile is_digit (dec n) = []"
  using dec_digits [of n] by (simp_all add: list_all_iff takeWhile_eq_all_conv)

lemma in_unit_ms: "d \<ge> 0 \<Longrightarrow> in_unit ''ms'' (ms d) = Some (of_int d)"
  by (simp add: in_unit_def ms_def dec_int_def decimal_value_def Let_def takeWhile_dec_all digits_value_dec)

lemma pad2_facts: "n < 100 \<Longrightarrow> length (pad2 n) = 2 \<and> list_all is_digit (pad2 n) \<and> digits_value (pad2 n) = n"
proof -
  have "list_all (\<lambda>n. length (pad2 n) = 2 \<and> list_all is_digit (pad2 n) \<and> digits_value (pad2 n) = n) [0..<100]" by code_simp
  then show "n < 100 \<Longrightarrow> length (pad2 n) = 2 \<and> list_all is_digit (pad2 n) \<and> digits_value (pad2 n) = n" by (auto simp: list_all_iff)
qed

lemma round_even_near: "\<bar>of_int (round_even q) - q\<bar> \<le> 1 / 2"
  unfolding round_even_def Let_def using of_int_floor_le [of q] floor_correct [of q]
  by (auto simp: abs_le_iff field_simps)

lemma round_even_bounds: "0 \<le> q \<Longrightarrow> q \<le> 10000 \<Longrightarrow> 0 \<le> round_even q \<and> round_even q \<le> 10000"
proof -
  assume q: "0 \<le> q" "q \<le> 10000"
  have "of_int (round_even q) - q \<le> 1 / 2" "q - of_int (round_even q) \<le> 1 / 2"
    using round_even_near [of q] unfolding abs_le_iff by linarith+
  then have "of_int (round_even q) < (10001 :: rat)" "- 1 < (of_int (round_even q) :: rat)" using q by linarith+
  then show ?thesis by linarith
qed

lemma in_unit_pct:
  assumes "0 \<le> q" and "q \<le> 100"
  shows "\<exists>v. in_unit ''%'' (pct2 q) = Some v \<and> v \<le> 100 \<and> near v q"
proof -
  let ?n = "nat (round_even (q * 100))"
  have b: "0 \<le> round_even (q * 100)" "round_even (q * 100) \<le> 10000" using round_even_bounds [of "q * 100"] assms by simp_all
  have p: "length (pad2 (?n mod 100)) = 2" "list_all is_digit (pad2 (?n mod 100))" "digits_value (pad2 (?n mod 100)) = ?n mod 100"
    using pad2_facts [of "?n mod 100"] by simp_all
  have e: "pct2 q = (dec (?n div 100) @ CHR ''.'' # pad2 (?n mod 100)) @ ''%''" by (simp add: pct2_def Let_def)
  have "in_unit ''%'' (pct2 q) = decimal_value (dec (?n div 100) @ CHR ''.'' # pad2 (?n mod 100))"
    unfolding e in_unit_def by simp
  moreover have "pad2 (?n mod 100) \<noteq> []" using p(1) by auto
  ultimately have v: "in_unit ''%'' (pct2 q) = Some (of_nat (?n div 100) + of_nat (?n mod 100) / 100)"
    using p by (simp add: decimal_value_def Let_def takeWhile_dec [OF dot_no_digit] digits_value_dec)
  have "of_nat (?n div 100) + of_nat (?n mod 100) / 100 = (of_nat (100 * (?n div 100) + ?n mod 100) :: rat) / 100"
    by (simp only: of_nat_add of_nat_mult) simp
  then have w: "of_nat (?n div 100) + of_nat (?n mod 100) / 100 = (of_int (round_even (q * 100)) :: rat) / 100"
    using b(1) by simp
  have "(of_int (round_even (q * 100)) :: rat) \<le> of_int 10000" using b(2) by (simp only: of_int_le_iff)
  moreover have "near (of_int (round_even (q * 100)) / 100) q"
    using round_even_near [of "q * 100"] unfolding near_def abs_le_iff by linarith
  ultimately show ?thesis using v unfolding w by (intro exI [of _ "of_int (round_even (q * 100)) / 100"]) simp
qed


text \<open>Reading the options that \<open>buildArgs\<close> writes, one group at a time.\<close>

lemma netem_opts_percent:
  assumes "a \<notin> set seen" and "a \<in> {''loss'', ''duplicate'', ''reorder'', ''corrupt''}" and "in_unit ''%'' b = Some v" and "v \<le> 100"
  shows "netem_opts seen s (a # b # ys) = netem_opts (a # seen) (the (percent_option a v s)) ys"
  using assms by (auto simp: netem_opts.simps(3) percent_option_def)

definition no_jitter :: "string list \<Rightarrow> bool" where
  \<comment> \<open>the arguments after a delay do not look like a jitter\<close>
  "no_jitter ys \<longleftrightarrow> (case ys of j # d # m # zs \<Rightarrow> d \<noteq> ''distribution'' | _ \<Rightarrow> True)"

lemma netem_opts_delay:
  "''delay'' \<notin> set seen \<Longrightarrow> in_unit ''ms'' b = Some d \<Longrightarrow> no_jitter ys \<Longrightarrow>
     netem_opts seen s (''delay'' # b # ys) = netem_opts (''delay'' # seen) (s\<lparr>ns_delay := d\<rparr>) ys"
  "''delay'' \<notin> set seen \<Longrightarrow> in_unit ''ms'' b = Some d \<Longrightarrow> in_unit ''ms'' j = Some v \<Longrightarrow>
     netem_opts seen s (''delay'' # b # j # ''distribution'' # m # zs) =
     netem_opts (''delay'' # seen) (s\<lparr>ns_delay := d, ns_jitter := v\<rparr>) zs"
  by (simp_all add: netem_opts.simps(3) no_jitter_def split: list.splits)

lemma netem_opts_rate:
  "''rate'' \<notin> set seen \<Longrightarrow> netem_opts seen s (''rate'' # b # ys) = netem_opts (''rate'' # seen) (s\<lparr>ns_rate := b\<rparr>) ys"
  by (simp add: netem_opts.simps(3))

lemma pct2_not_distribution [simp]: "pct2 q \<noteq> ''distribution''" "''distribution'' \<noteq> pct2 q"
proof -
  have "last (pct2 q) = CHR ''%''" by (simp add: pct2_def Let_def)
  then show "pct2 q \<noteq> ''distribution''" by auto
  then show "''distribution'' \<noteq> pct2 q" by simp
qed

text \<open>The arguments say what the profile says.\<close>

lemma netem_opts_buildArgs:
  assumes "valid_profile p"
  shows "\<exists>s. netem_opts [] no_impairment (drop 6 (buildArgs iface p)) = Some s \<and> realizes p s"
proof -
  have q: "0 \<le> LossPct p" "LossPct p \<le> 100" "0 \<le> DuplicatePct p" "DuplicatePct p \<le> 100" "0 \<le> ReorderPct p" "ReorderPct p \<le> 100"
    "0 \<le> CorruptPct p" "CorruptPct p \<le> 100" and d: "0 \<le> DelayMs p" "0 \<le> JitterMs p" "JitterMs p > 0 \<Longrightarrow> DelayMs p > 0" "ReorderPct p > 0 \<Longrightarrow> DelayMs p > 0"
    using assms by (auto simp: valid_profile_def)
  obtain l where l: "in_unit ''%'' (pct2 (LossPct p)) = Some l" "l \<le> 100" "near l (LossPct p)" using in_unit_pct [OF q(1,2)] by blast
  obtain u where u: "in_unit ''%'' (pct2 (DuplicatePct p)) = Some u" "u \<le> 100" "near u (DuplicatePct p)" using in_unit_pct [OF q(3,4)] by blast
  obtain r where r: "in_unit ''%'' (pct2 (ReorderPct p)) = Some r" "r \<le> 100" "near r (ReorderPct p)" using in_unit_pct [OF q(5,6)] by blast
  obtain c where c: "in_unit ''%'' (pct2 (CorruptPct p)) = Some c" "c \<le> 100" "near c (CorruptPct p)" using in_unit_pct [OF q(7,8)] by blast
  let ?s = "\<lparr>ns_delay = of_int (DelayMs p), ns_jitter = of_int (JitterMs p), ns_loss = (if LossPct p > 0 then l else 0),
    ns_duplicate = (if DuplicatePct p > 0 then u else 0), ns_reorder = (if ReorderPct p > 0 then r else 0),
    ns_corrupt = (if CorruptPct p > 0 then c else 0), ns_rate = pf_Rate p\<rparr>"
  have z: "near 0 0" by (simp add: near_def)
  have "realizes p ?s" using l u r c q z by (auto simp: realizes_def)
  moreover have "netem_opts [] no_impairment (drop 6 (buildArgs iface p)) = Some ?s"
    using d q l(1,2) u(1,2) r(1,2) c(1,2)
    by (auto simp: buildArgs_def no_impairment_def netem_opts_percent netem_opts_delay netem_opts_rate no_jitter_def in_unit_ms percent_option_def)
  ultimately show ?thesis by blast
qed

section \<open>The controller and the kernel\<close>

text \<open>What is relied on of \<^verbatim>\<open>tc\<close>, \<open>qd k i\<close> being the netem discipline at the root of interface \<open>i\<close>: a command that fails
  changes no discipline; \<open>del\<close>, when it succeeds, removes the discipline; \<open>add\<close>, when it succeeds on options as above,
  found none and installs what the options say. Nothing is said of when a command succeeds.\<close>

definition tc_del :: "string \<Rightarrow> string list" where "tc_del i = [''qdisc'', ''del'', ''dev'', i, ''root'']"
definition tc_add :: "string \<Rightarrow> string list" where "tc_add i = [''qdisc'', ''add'', ''dev'', i, ''root'', ''netem'']"

definition tc_ok :: "'k tc \<Rightarrow> ('k \<Rightarrow> string \<Rightarrow> netem_spec option) \<Rightarrow> bool" where
  "tc_ok tc qd \<longleftrightarrow>
     (\<forall>args k. \<not> fst (tc args k) \<longrightarrow> qd (snd (tc args k)) = qd k) \<and>
     (\<forall>k i. fst (tc (tc_del i) k) \<longrightarrow> qd (snd (tc (tc_del i) k)) = (qd k)(i := None)) \<and>
     (\<forall>k i opts s. fst (tc (tc_add i @ opts) k) \<and> netem_opts [] no_impairment opts = Some s \<longrightarrow>
        qd k i = None \<and> qd (snd (tc (tc_add i @ opts) k)) = (qd k)(i \<mapsto> s))"

lemma tc_failed: "tc_ok tc qd \<Longrightarrow> \<not> fst (tc args k) \<Longrightarrow> qd (snd (tc args k)) = qd k"
  by (simp add: tc_ok_def)


lemma tc_added:
  assumes "tc_ok tc qd" and "valid_profile p" and "fst (tc (buildArgs i p) k)"
  shows "qd k i = None \<and> (\<exists>s. qd (snd (tc (buildArgs i p) k)) = (qd k)(i \<mapsto> s) \<and> realizes p s)"
proof -
  have "take 6 (buildArgs i p) = tc_add i" by (simp add: buildArgs_def tc_add_def)
  then have b: "buildArgs i p = tc_add i @ drop 6 (buildArgs i p)" by (metis append_take_drop_id)
  obtain s where s: "netem_opts [] no_impairment (drop 6 (buildArgs i p)) = Some s" "realizes p s"
    using netem_opts_buildArgs [OF assms(2)] by blast
  have "fst (tc (tc_add i @ drop 6 (buildArgs i p)) k)" using assms(3) b by simp
  then have "qd k i = None \<and> qd (snd (tc (tc_add i @ drop 6 (buildArgs i p)) k)) = (qd k)(i \<mapsto> s)"
    using assms(1) s(1) unfolding tc_ok_def by blast
  then show ?thesis using s(2) b by metis
qed







definition has_profile :: "Profile option \<Rightarrow> netem_spec option \<Rightarrow> bool" where
  "has_profile h d = (case h of None \<Rightarrow> d = None | Some p \<Rightarrow> (\<exists>s. d = Some s \<and> realizes p s))"

lemma has_profile_None [simp]: "has_profile None d \<longleftrightarrow> d = None" "has_profile (Some p) (Some s) \<longleftrightarrow> realizes p s"
  by (simp_all add: has_profile_def)








section \<open>Properties\<close>






text \<open>Clearing is not checked: when \<open>tc qdisc del\<close> fails, the profile \<open>clean\<close> reports success and the impairment stays.\<close>

lemma netem_clean_hides_failure:
  assumes "tc_ok tc qd" and "nc_iface n \<noteq> []" and "nc_applied n" and "pf_Name p = ''clean''" and "\<not> fst (tc (tc_del (nc_iface n)) k)"
  shows "\<exists>n' k'. Netem_Apply tc ifaces p (n, k) = (Inr (), n', k') \<and> qd k' = qd k \<and> \<not> nc_applied n'"
  using assms tc_failed [OF assms(1,5)] by (auto simp: Netem_Apply_def Netem_Clear_def tc_del_def)

text \<open>A discipline that another process left on the interface stays: a fresh controller does not clear it, so the
  profile \<open>clean\<close> keeps the impairment and any other is refused.\<close>

lemma netem_keeps_foreign_qdisc:
  assumes "tc_ok tc qd" and "i \<noteq> []" and "qd k i = Some s"
  shows "pf_Name p = ''clean'' \<Longrightarrow> Netem_Apply tc ifaces p (NewNetemController i, k) = (Inr (), NewNetemController i, k)"
    and "pf_Name p \<noteq> ''clean'' \<Longrightarrow> valid_profile p \<Longrightarrow> fst (Netem_Apply tc ifaces p (NewNetemController i, k)) = Inl TcFailed"
proof -
  show "pf_Name p = ''clean'' \<Longrightarrow> Netem_Apply tc ifaces p (NewNetemController i, k) = (Inr (), NewNetemController i, k)"
    using assms(2) by (simp add: Netem_Apply_def NewNetemController_def)
  assume p: "pf_Name p \<noteq> ''clean''" "valid_profile p"
  have "\<not> fst (tc (buildArgs i p) k)" using tc_added [OF assms(1) p(2), of i k] assms(3) by auto
  then show "fst (Netem_Apply tc ifaces p (NewNetemController i, k)) = Inl TcFailed"
    using assms(2) p(1) by (auto simp: Netem_Apply_def NewNetemController_def Let_def split: prod.splits)
qed

text \<open>All named profiles make sense but \<open>lossburst\<close>, which reorders without a delay: for it the command line adds a delay
  of 10 milliseconds that the profile does not have.\<close>

lemma named_profiles: "list_all (\<lambda>(name, p). valid_profile p \<longleftrightarrow> name \<noteq> ''lossburst'') Profiles"
  by (simp add: Profiles_def Let_def zero_Profile_def valid_profile_def)

lemma lossburst_delays:
  "\<exists>s. netem_opts [] no_impairment (drop 6 (buildArgs i (snd (Profiles ! 14)))) = Some s \<and> ns_delay s = 10"
proof -
  obtain l r where v: "in_unit ''%'' (pct2 1) = Some l" "l \<le> 100" "in_unit ''%'' (pct2 5) = Some r" "r \<le> 100"
    using in_unit_pct [of 1] in_unit_pct [of 5] by auto
  have "in_unit ''ms'' ''10ms'' = Some 10" using in_unit_ms [of 10] by (simp add: ms_def dec_int_def dec.simps digit_char_def)
  with v show ?thesis
    by (simp add: Profiles_def Let_def zero_Profile_def buildArgs_def no_impairment_def netem_opts_percent netem_opts_delay no_jitter_def
        percent_option_def)
qed

end
