(* ===== verification/Fanout.thy ===== *)
theory Fanout
  imports Channels
begin

text \<open>
  What one connection of a broadcasting server sees of a run. A server owns, for each connection, a
  bounded channel and the list of messages its writer has put on the wire; every step of the server
  leaves them alone, offers a message to the channel or lets the writer take the next one. The locale
  \<open>fanout\<close> states this for one connection and proves, through the laws of \<open>send_queue\<close>, that what is
  written is in order, that nothing is written that was not offered, that nothing is lost as long as the
  channel has room and that the writer gets everything out.
\<close>

section \<open>A channel and its wire\<close>

type_synonym 'm lane = "'m list \<times> 'm list"   \<comment> \<open>pending and written\<close>

definition lane_offer :: "nat \<Rightarrow> 'm lane \<Rightarrow> 'm \<Rightarrow> 'm lane \<times> bool" where
  "lane_offer cp c m = (case try_send cp (fst c) m of (ch, ok) \<Rightarrow> ((ch, snd c), ok))"

definition lane_drain :: "'m lane \<Rightarrow> ('m \<times> 'm lane) option" where
  "lane_drain c = (case try_recv (fst c) of None \<Rightarrow> None | Some (m, ch) \<Rightarrow> Some (m, ch, snd c @ [m]))"

interpretation lane: send_queue fst cp "lane_offer cp" lane_drain for cp
  by unfold_locales
     (auto simp: lane_offer_def lane_drain_def try_send_def try_recv_def split: list.splits prod.splits if_splits)

lemma lane_offer_eq:
  "lane_offer cp (ch, w) m = (if length ch < cp then ((ch @ [m], w), True) else ((ch, w), False))"
  by (simp add: lane_offer_def try_send_def)

lemma lane_drain_eq: "lane_drain (ch, w) = (case ch of [] \<Rightarrow> None | m # ms \<Rightarrow> Some (m, ms, w @ [m]))"
  by (simp add: lane_drain_def try_recv_def split: list.splits)

lemma lane_written: "lane.qrun cp c es = (c', acc, out) \<Longrightarrow> snd c' = snd c @ out"
proof (induction c es arbitrary: acc out rule: lane.qrun.induct [where cp = cp])
  case (2 c m es)
  then show ?case by (cases c) (auto simp: lane_offer_eq split: prod.splits if_splits)
next
  case (3 c es)
  then show ?case by (cases c) (fastforce simp: lane_drain_eq split: option.splits prod.splits list.splits)
qed simp

definition lane_act :: "nat \<Rightarrow> 'm queue_event option \<Rightarrow> 'm lane \<Rightarrow> 'm lane" where
  "lane_act cp a c = (case a of
       None \<Rightarrow> c
     | Some (Offer m) \<Rightarrow> fst (lane_offer cp c m)
     | Some Drain \<Rightarrow> (case lane_drain c of None \<Rightarrow> c | Some (m, c') \<Rightarrow> c'))"

lemma lane_act_simps [simp]:
  "lane_act cp None c = c"
  "lane_act cp (Some (Offer m)) (ch, w) = (if length ch < cp then (ch @ [m], w) else (ch, w))"
  "lane_act cp (Some Drain) ([], w) = ([], w)"
  "lane_act cp (Some Drain) (m # ms, w) = (ms, w @ [m])"
  by (simp_all add: lane_act_def lane_offer_eq lane_drain_eq)

section \<open>Servers\<close>

fun opt_list :: "'a option \<Rightarrow> 'a list" where
  "opt_list None = []" | "opt_list (Some x) = [x]"

locale fanout =
  fixes cp :: nat
    and inv :: "'s \<Rightarrow> bool" and ok :: "'s \<Rightarrow> 'e \<Rightarrow> bool"
    and view :: "'s \<Rightarrow> 'm lane"
    and step :: "'s \<Rightarrow> 'e \<Rightarrow> 's option"
    and act :: "'s \<Rightarrow> 'e \<Rightarrow> 'm queue_event option"
  assumes step_ok: "inv s \<Longrightarrow> ok s e \<Longrightarrow> \<exists>s'. step s e = Some s'"
    and step_inv: "inv s \<Longrightarrow> ok s e \<Longrightarrow> step s e = Some s' \<Longrightarrow> inv s'"
    and step_view: "inv s \<Longrightarrow> ok s e \<Longrightarrow> step s e = Some s' \<Longrightarrow> view s' = lane_act cp (act s e) (view s)"
begin

fun oks :: "'s \<Rightarrow> 'e list \<Rightarrow> bool" where
  "oks s [] = True"
| "oks s (e # es) = (ok s e \<and> (case step s e of None \<Rightarrow> False | Some s' \<Rightarrow> oks s' es))"

fun trace :: "'s \<Rightarrow> 'e list \<Rightarrow> 'm queue_event list" where
  "trace s [] = []"
| "trace s (e # es) = opt_list (act s e) @ (case step s e of None \<Rightarrow> [] | Some s' \<Rightarrow> trace s' es)"

lemma run_view:
  "inv s \<Longrightarrow> oks s es \<Longrightarrow>
   \<exists>s'. run_opt step s es = Some s' \<and> inv s' \<and> view s' = fst (lane.qrun cp (view s) (trace s es))"
proof (induction es arbitrary: s)
  case (Cons e es)
  obtain s1 where s1: "step s e = Some s1" using Cons.prems by (auto split: option.splits)
  have ok: "ok s e" "oks s1 es" using Cons.prems(2) s1 by simp_all
  have v: "view s1 = lane_act cp (act s e) (view s)" using step_view [OF Cons.prems(1) ok(1) s1] .
  have "fst (lane.qrun cp (view s) (opt_list (act s e) @ ts)) = fst (lane.qrun cp (view s1) ts)" for ts
    unfolding v lane_act_def lane.qrun_append
    by (cases "act s e") (auto split: queue_event.splits prod.splits option.splits)
  then show ?case using Cons.IH [OF step_inv [OF Cons.prems(1) ok(1) s1] ok(2)] s1 by simp
qed simp

text \<open>What is written is, in order, part of what was pending and offered; all of it when the channel has room.\<close>

lemma run_written:
  assumes "inv s" and "oks s es" and "run_opt step s es = Some s'"
  shows "\<exists>acc. snd (view s') @ fst (view s') = snd (view s) @ fst (view s) @ acc \<and> subseq acc (offers (trace s es)) \<and>
     (length (fst (view s)) + length (offers (trace s es)) \<le> cp \<longrightarrow> acc = offers (trace s es))"
proof -
  obtain c' acc out where q: "lane.qrun cp (view s) (trace s es) = (c', acc, out)" by (metis prod_cases3)
  have "view s' = c'" using run_view [OF assms(1,2)] assms(3) q by simp
  then show ?thesis
    using lane.qrun_fifo [OF q] lane.qrun_accepted [OF q] lane.qrun_no_drop [OF q] lane_written [OF q]
    by (intro exI [of _ acc]) auto
qed

lemma run_bounded:
  assumes "inv s" and "oks s es" and "run_opt step s es = Some s'" and "length (fst (view s)) \<le> cp"
  shows "length (fst (view s')) \<le> cp"
proof -
  obtain c' acc out where q: "lane.qrun cp (view s) (trace s es) = (c', acc, out)" by (metis prod_cases3)
  have "view s' = c'" using run_view [OF assms(1,2)] assms(3) q by simp
  then show ?thesis using lane.qrun_bounded [OF q assms(4)] by simp
qed

text \<open>The writer's own turns empty the channel.\<close>

lemma oks_append: "oks s (xs @ ys) \<longleftrightarrow> oks s xs \<and> (\<forall>s'. run_opt step s xs = Some s' \<longrightarrow> oks s' ys)"
proof (induction xs arbitrary: s)
  case (Cons x xs)
  then show ?case by (cases "step s x") auto
qed simp

lemma trace_append: "run_opt step s xs = Some s' \<Longrightarrow> trace s (xs @ ys) = trace s xs @ trace s' ys"
proof (induction xs arbitrary: s)
  case (Cons x xs)
  then show ?case by (cases "step s x") auto
qed simp

lemma drain_oks:
  assumes "\<And>s. inv s \<Longrightarrow> ok s e \<and> act s e = Some Drain" and "inv s"
  shows "oks s (replicate n e)"
  using assms(2)
proof (induction n arbitrary: s)
  case (Suc n)
  have e: "ok s e" using assms(1) [OF Suc.prems] by simp
  obtain s1 where s1: "step s e = Some s1" using step_ok [OF Suc.prems e] by blast
  then show ?case using Suc.IH [OF step_inv [OF Suc.prems e s1]] e by simp
qed simp

lemma drains:
  assumes "\<And>s. inv s \<Longrightarrow> ok s e \<and> act s e = Some Drain" and "inv s" and "length (fst (view s)) \<le> n"
  shows "\<exists>s'. run_opt step s (replicate n e) = Some s' \<and> inv s' \<and> view s' = ([], snd (view s) @ fst (view s)) \<and>
     offers (trace s (replicate n e)) = []"
  using assms(2,3)
proof (induction n arbitrary: s)
  case 0
  then show ?case by (cases "view s") simp
next
  case (Suc n)
  have e: "ok s e" "act s e = Some Drain" using assms(1) [OF Suc.prems(1)] by auto
  obtain s1 where s1: "step s e = Some s1" using step_ok [OF Suc.prems(1) e(1)] by blast
  have i: "inv s1" and v: "view s1 = lane_act cp (Some Drain) (view s)"
    using step_inv [OF Suc.prems(1) e(1) s1] step_view [OF Suc.prems(1) e(1) s1] e(2) by simp_all
  have l: "length (fst (view s1)) \<le> n" "snd (view s1) @ fst (view s1) = snd (view s) @ fst (view s)"
    using Suc.prems(2) unfolding v by (cases "view s"; cases "fst (view s)"; simp)+
  from Suc.IH [OF i l(1)] s1 e(2) l(2) show ?case by auto
qed

end

end
