(* ===== verification/Sse.thy ===== *)
theory Sse
  imports Reception Transport_Base Fanout Go_Std
begin

text \<open>
  The server-sent events transport of \<^verbatim>\<open>internal/sse\<close>: the server with its streams, its replay ring
  for reconnecting clients and the text of its event stream, and the client that parses that text.

  Streams are allocated in a store (a list) and the concurrent map of the server holds indices of it,
  as the code's map holds pointers. In the runs of \<open>sse_step\<close> a broadcast and the opening of a stream are
  single steps; their halves, and what happens when another goroutine comes in between, are stated separately.
  What the server writes to a response is text; what the network
  delivers of it is an argument of the client. \<open>None\<close> is a panic.
\<close>

section \<open>The server\<close>

definition replayBufSize :: nat where "replayBufSize = 1000"
definition sseChanCap :: nat where "sseChanCap = 256"

record sseEvent =
  ev_id :: u64
  ev_data :: string

record sseStream =
  ss_id :: ConnID
  ss_ch :: "sseEvent list"
  ss_cancelled :: bool
  ss_returned :: bool      \<comment> \<open>whether its handler has returned\<close>
  ss_replayed :: string            \<comment> \<open>the replay written to its response\<close>
  ss_events :: "sseEvent list"     \<comment> \<open>the events its loop has written since\<close>

record replay =
  replayBuf :: "sseEvent list"
  replayIdx :: nat
  replayLen :: nat

record SSEServer =
  sse_addr :: string
  sse_streams :: "(ConnID, nat) syncmap"
  sse_replay :: replay
  sse_seq :: u64
  sse_sentBytes :: u64
  sse_recvBytes :: u64
  sse_sent :: u64
  sse_recv :: u64
  sse_lost :: u64
  sse_started :: bool
  sse_shutdown :: bool     \<comment> \<open>whether \<open>shutdownCh\<close> is closed\<close>
  sse_serving :: bool      \<comment> \<open>whether the HTTP server accepts requests\<close>
  sse_store :: "sseStream list"

datatype sse_error = SSEAlreadyStarted | SSEListen string | SSEUnknownConn ConnID

definition zero_event :: sseEvent where "zero_event = \<lparr>ev_id = 0, ev_data = []\<rparr>"

definition zero_replay :: replay where
  "zero_replay = \<lparr>replayBuf = replicate replayBufSize zero_event, replayIdx = 0, replayLen = 0\<rparr>"

definition NewSSEServer :: "string \<Rightarrow> SSEServer" where
  "NewSSEServer addr =
     \<lparr>sse_addr = addr, sse_streams = [], sse_replay = zero_replay, sse_seq = 0, sse_sentBytes = 0, sse_recvBytes = 0,
      sse_sent = 0, sse_recv = 0, sse_lost = 0, sse_started = False, sse_shutdown = False, sse_serving = False, sse_store = []\<rparr>"

text \<open>\<open>listens\<close>: whether \<open>Listen\<close> succeeds.\<close>

definition SSE_Start :: "bool \<Rightarrow> SSEServer \<Rightarrow> (sse_error + unit) \<times> SSEServer" where
  "SSE_Start listens s =
     (if sse_started s then (Inl SSEAlreadyStarted, s)
      else let s = s\<lparr>sse_started := True\<rparr> in
        if \<not> listens then (Inl (SSEListen (sse_addr s)), s)
        else (Inr (), s\<lparr>sse_serving := True\<rparr>))"

text \<open>Closing a closed channel panics.\<close>

definition SSE_Stop :: "SSEServer \<Rightarrow> SSEServer option" where
  "SSE_Stop s = (if sse_shutdown s then None else Some (s\<lparr>sse_shutdown := True, sse_serving := False\<rparr>))"

definition SSE_handleRegister :: "SSEServer \<Rightarrow> string \<times> SSEServer" where
  "SSE_handleRegister s = (let n = sse_seq s + 1 in (''sse-'' @ dec (unat n), s\<lparr>sse_seq := n\<rparr>))"

definition event_text :: "sseEvent \<Rightarrow> string" where
  "event_text ev = ''id: '' @ dec (unat (ev_id ev)) @ [CHR 0x0A] @ ''data: '' @ ev_data ev @ [CHR 0x0A, CHR 0x0A]"

definition stream_text :: "sseStream \<Rightarrow> string" where
  "stream_text st = ss_replayed st @ concat (map event_text (ss_events st))"

text \<open>The index is computed on signed integers, with Go's remainder.\<close>

definition go_rem :: "int \<Rightarrow> int \<Rightarrow> int" where
  "go_rem a b = (if a < 0 then - ((- a) mod b) else a mod b)"

definition replay_at :: "replay \<Rightarrow> nat \<Rightarrow> sseEvent option" where
  "replay_at rb i =
     (let k = go_rem (int (replayIdx rb) - int (replayLen rb) + int i + int replayBufSize) (int replayBufSize) in
      if 0 \<le> k \<and> nat k < length (replayBuf rb) then Some (replayBuf rb ! nat k) else None)"

fun replay_loop :: "replay \<Rightarrow> u64 \<Rightarrow> nat list \<Rightarrow> string option" where
  "replay_loop rb afterSeq [] = Some []"
| "replay_loop rb afterSeq (i # is) = do {
     ev \<leftarrow> replay_at rb i;
     rest \<leftarrow> replay_loop rb afterSeq is;
     Some ((if ev_id ev > afterSeq then event_text ev else []) @ rest) }"

definition replayFrom :: "replay \<Rightarrow> u64 \<Rightarrow> string option" where
  "replayFrom rb afterSeq = replay_loop rb afterSeq [0..<replayLen rb]"

definition addToReplay :: "sseEvent \<Rightarrow> replay \<Rightarrow> replay option" where
  "addToReplay ev rb =
     (if replayIdx rb < length (replayBuf rb)
      then Some (rb\<lparr>replayBuf := (replayBuf rb)[replayIdx rb := ev],
                    replayIdx := (replayIdx rb + 1) mod replayBufSize,
                    replayLen := (if replayLen rb < replayBufSize then replayLen rb + 1 else replayLen rb)\<rparr>)
      else None)"

text \<open>\<open>handleEvents\<close> up to its loop, in two parts. The first ends before \<open>streams.Store\<close>: the response status and,
  unless the response cannot be flushed (\<open>flusher\<close>), the identifier and the replay written to the response; \<open>qid\<close> is
  the query parameter and \<open>lastID\<close> the header, both empty when absent. The second stores the stream. Other
  goroutines may come in between; \<open>SSE_handleEvents\<close> puts the parts together for the runs in which none does.\<close>

definition handleEvents_replay :: "bool \<Rightarrow> ConnID \<Rightarrow> string \<Rightarrow> SSEServer \<Rightarrow> (nat \<times> (ConnID \<times> string) option \<times> SSEServer) option" where
  "handleEvents_replay flusher qid lastID s =
     (if \<not> flusher then Some (500, None, s)
      else do {
        let (cid, s) = (if qid = [] then let n = sse_seq s + 1 in (''sse-auto-'' @ dec (unat n), s\<lparr>sse_seq := n\<rparr>) else (qid, s));
        body \<leftarrow> (if lastID \<noteq> []
                 then replayFrom (sse_replay s) (case Sscanf_u64 lastID of None \<Rightarrow> 0 | Some n \<Rightarrow> n)
                 else Some []);
        Some (200, Some (cid, body), s) })"

definition handleEvents_store :: "ConnID \<Rightarrow> string \<Rightarrow> SSEServer \<Rightarrow> SSEServer" where
  "handleEvents_store cid body s =
     (let st = \<lparr>ss_id = cid, ss_ch = [], ss_cancelled = False, ss_returned = False, ss_replayed = body, ss_events = []\<rparr> in
      s\<lparr>sse_streams := sm_Store (sse_streams s) cid (length (sse_store s)), sse_store := sse_store s @ [st]\<rparr>)"

definition SSE_handleEvents :: "bool \<Rightarrow> ConnID \<Rightarrow> string \<Rightarrow> SSEServer \<Rightarrow> (nat \<times> SSEServer) option" where
  "SSE_handleEvents flusher qid lastID s = do {
     (status, opened, s) \<leftarrow> handleEvents_replay flusher qid lastID s;
     Some (case opened of None \<Rightarrow> (status, s) | Some (cid, body) \<Rightarrow> (status, handleEvents_store cid body s)) }"

text \<open>A turn of the handler's loop: what its \<open>select\<close> picks. When it returns, the deferred function deletes the map
  entry under its identifier.\<close>

datatype sse_pick = SeesCancel | SeesShutdown | TakesEvent

definition handler_return :: "nat \<Rightarrow> SSEServer \<Rightarrow> SSEServer" where
  "handler_return p s =
     (let st = sse_store s ! p in
      s\<lparr>sse_streams := sm_Delete (sse_streams s) (ss_id st), sse_store := (sse_store s)[p := st\<lparr>ss_cancelled := True, ss_returned := True\<rparr>]\<rparr>)"

definition SSE_handler_turn :: "sse_pick \<Rightarrow> nat \<Rightarrow> SSEServer \<Rightarrow> SSEServer option" where
  "SSE_handler_turn pk p s =
     (if p < length (sse_store s) then
        let st = sse_store s ! p in
        if ss_returned st then Some s
        else case pk of
          SeesCancel \<Rightarrow> Some (if ss_cancelled st then handler_return p s else s)
        | SeesShutdown \<Rightarrow> Some (if sse_shutdown s then handler_return p s else s)
        | TakesEvent \<Rightarrow> (case try_recv (ss_ch st) of
            None \<Rightarrow> Some s
          | Some (ev, ch) \<Rightarrow> Some (s\<lparr>sse_store := (sse_store s)[p := st\<lparr>ss_ch := ch, ss_events := ss_events st @ [ev]\<rparr>],
                                    sse_recv := sse_recv s + 1\<rparr>))
      else None)"

text \<open>The peer goes away: the request's context is cancelled.\<close>

definition peer_gone :: "nat \<Rightarrow> SSEServer \<Rightarrow> SSEServer" where
  "peer_gone p s = s\<lparr>sse_store := (sse_store s)[p := (sse_store s ! p)\<lparr>ss_cancelled := True\<rparr>]\<rparr>"

definition stream_offer :: "sseStream \<Rightarrow> sseEvent \<Rightarrow> sseStream \<times> bool" where
  "stream_offer st ev = (case try_send sseChanCap (ss_ch st) ev of (ch, ok) \<Rightarrow> (st\<lparr>ss_ch := ch\<rparr>, ok))"

fun sse_offer_all :: "sseEvent \<Rightarrow> nat list \<Rightarrow> SSEServer \<Rightarrow> SSEServer option" where
  "sse_offer_all ev [] s = Some s"
| "sse_offer_all ev (p # ps) s =
     (if p < length (sse_store s) then
        case stream_offer (sse_store s ! p) ev of (st, ok) \<Rightarrow>
          sse_offer_all ev ps (if ok then s\<lparr>sse_store := (sse_store s)[p := st]\<rparr> else s\<lparr>sse_lost := sse_lost s + 1\<rparr>)
      else None)"

type_synonym sse_order = "(ConnID \<times> nat) list \<Rightarrow> (ConnID \<times> nat) list"

text \<open>A broadcast is first recorded, with its number, in the ring, and then offered to the streams of the map; other
  goroutines may come in between. \<open>SSE_Broadcast\<close> is the two parts together; its error is always nil.\<close>

definition Broadcast_record :: "i64 \<Rightarrow> bytes \<Rightarrow> SSEServer \<Rightarrow> (sseEvent \<times> SSEServer) option" where
  "Broadcast_record now data s = do {
     let seq = sse_seq s + 1;
     wireFrame \<leftarrow> Encode seq now data;
     let ev = \<lparr>ev_id = seq, ev_data = EncodeToString wireFrame\<rparr>;
     rb \<leftarrow> addToReplay ev (sse_replay s);
     Some (ev, s\<lparr>sse_seq := seq, sse_replay := rb, sse_sent := sse_sent s + 1,
                 sse_sentBytes := sse_sentBytes s + of_nat (length data)\<rparr>) }"

definition Broadcast_range :: "sse_order \<Rightarrow> sseEvent \<Rightarrow> SSEServer \<Rightarrow> SSEServer option" where
  "Broadcast_range ord ev s = sse_offer_all ev (sm_values ord (sse_streams s)) s"

definition SSE_Broadcast :: "sse_order \<Rightarrow> i64 \<Rightarrow> bytes \<Rightarrow> SSEServer \<Rightarrow> SSEServer option" where
  "SSE_Broadcast ord now data s = do { (ev, s) \<leftarrow> Broadcast_record now data s; Broadcast_range ord ev s }"

definition SSE_Send :: "ConnID \<Rightarrow> bytes \<Rightarrow> SSEServer \<Rightarrow> ((sse_error + unit) \<times> SSEServer) option" where
  "SSE_Send cid data s =
     (case sm_Load (sse_streams s) cid of
        None \<Rightarrow> Some (Inl (SSEUnknownConn cid), s)
      | Some p \<Rightarrow>
          if p < length (sse_store s) then
            let seq = sse_seq s + 1; ev = \<lparr>ev_id = seq, ev_data = EncodeToString data\<rparr>; s = s\<lparr>sse_seq := seq\<rparr> in
            case stream_offer (sse_store s ! p) ev of (st, ok) \<Rightarrow>
              Some (Inr (), if ok then s\<lparr>sse_store := (sse_store s)[p := st], sse_sent := sse_sent s + 1\<rparr>
                            else s\<lparr>sse_lost := sse_lost s + 1\<rparr>)
          else None)"

definition SSE_Connections :: "sse_order \<Rightarrow> SSEServer \<Rightarrow> nat" where
  "SSE_Connections ord s = length (ord (sse_streams s))"

definition SSE_Stats :: "sse_order \<Rightarrow> i64 \<Rightarrow> SSEServer \<Rightarrow> Stats" where
  "SSE_Stats ord now s =
     \<lparr>st_Protocol = ''sse'', st_Connections = int (SSE_Connections ord s), st_Sent = sse_sent s, st_Received = sse_recv s,
      st_Lost = sse_lost s, st_Duplicated = 0, st_Reordered = 0, st_BytesSent = sse_sentBytes s, st_BytesRecv = sse_recvBytes s,
      st_Uptime = 0, st_SnapshotAt = now\<rparr>"

section \<open>The client\<close>

record 'h SSEClient =
  cs_connID :: ConnID
  cs_recorder :: "'h Recorder option"
  cs_handler :: bool
  cs_lastEventID :: u64
  cs_received :: u64
  cs_recvBytes :: u64
  cs_calls :: "(ConnID \<times> bytes \<times> i64) list"

definition NewSSEClient :: "bool \<Rightarrow> 'h Recorder option \<Rightarrow> 'h SSEClient" where
  "NewSSEClient handler rec =
     \<lparr>cs_connID = [], cs_recorder = rec, cs_handler = handler, cs_lastEventID = 0, cs_received = 0, cs_recvBytes = 0, cs_calls = []\<rparr>"

text \<open>\<open>reply\<close> is the body of the registration as one read returns it, \<open>None\<close> when the request fails.\<close>

definition SSE_Connect :: "string option \<Rightarrow> 'h SSEClient \<Rightarrow> 'h SSEClient option" where
  "SSE_Connect reply c = map_option (\<lambda>body. c\<lparr>cs_connID := take 64 body\<rparr>) reply"

definition processEvent :: "'h hdr_lib \<Rightarrow> i64 \<Rightarrow> string \<Rightarrow> 'h SSEClient \<Rightarrow> 'h SSEClient option" where
  "processEvent lib now data c =
     (case DecodeString data of
        None \<Rightarrow> Some c
      | Some raw \<Rightarrow> do {
          let c = c\<lparr>cs_received := cs_received c + 1, cs_recvBytes := cs_recvBytes c + of_nat (length raw)\<rparr>;
          d \<leftarrow> Decode raw;
          c \<leftarrow> (case (d, cs_recorder c) of
                 (Inr (frame, _), Some r) \<Rightarrow> do {
                   r' \<leftarrow> RecordRecv lib r (SeqNum frame) (SendNs frame) (length raw) now;
                   Some (c\<lparr>cs_recorder := Some r'\<rparr>) }
               | _ \<Rightarrow> Some c);
          Some (if cs_handler c then c\<lparr>cs_calls := cs_calls c @ [(cs_connID c, raw, now)]\<rparr> else c) })"

text \<open>The loop over the lines of one response; \<open>clock\<close> is read once per event.\<close>

fun stream_lines ::
  "'h hdr_lib \<Rightarrow> (nat \<Rightarrow> i64) \<Rightarrow> nat \<Rightarrow> u64 \<Rightarrow> string \<Rightarrow> string list \<Rightarrow> 'h SSEClient \<Rightarrow> 'h SSEClient option" where
  "stream_lines lib clock i currentID currentData [] c = Some c"
| "stream_lines lib clock i currentID currentData (line # ls) c =
     (if line = [] then
        if currentData \<noteq> [] \<and> currentID > 0
        then do { c' \<leftarrow> processEvent lib (clock i) currentData c; stream_lines lib clock (Suc i) 0 [] ls c' }
        else stream_lines lib clock i currentID currentData ls c
      else if take 4 line = ''id: '' then
        let cur = (case Sscanf_u64 (drop 4 line) of None \<Rightarrow> currentID | Some n \<Rightarrow> n) in
        stream_lines lib clock i cur currentData ls (c\<lparr>cs_lastEventID := cur\<rparr>)
      else if take 6 line = ''data: '' then stream_lines lib clock i currentID (drop 6 line) ls c
      else stream_lines lib clock i currentID currentData ls c)"


definition connectStream :: "'h hdr_lib \<Rightarrow> (nat \<Rightarrow> i64) \<Rightarrow> nat \<Rightarrow> string \<Rightarrow> 'h SSEClient \<Rightarrow> ('h SSEClient \<times> bool) option" where
  "connectStream lib clock stop body c =
     (case scan_lines body of (ls, err) \<Rightarrow> do {
        c' \<leftarrow> stream_lines lib clock 0 0 [] (take stop ls) c;
        Some (c', if stop < length ls then False else err) })"

text \<open>\<open>receiveLoop\<close> on the outcomes of its requests until the context is cancelled: \<open>Inl ()\<close> when the request fails, else
  the clock and the body. It yields the client and the back-offs it waited, in milliseconds.\<close>

fun receiveLoop ::
  "'h hdr_lib \<Rightarrow> nat \<Rightarrow> (unit + (nat \<Rightarrow> i64) \<times> string) list \<Rightarrow> 'h SSEClient \<Rightarrow> ('h SSEClient \<times> nat list) option" where
  "receiveLoop lib backoff [] c = Some (c, [])"
| "receiveLoop lib backoff (x # xs) c = do {
     (c, err) \<leftarrow> (case x of Inl _ \<Rightarrow> Some (c, True) | Inr (clock, body) \<Rightarrow> connectStream lib clock (length body) body c);
     if err then do {
       (c', ws) \<leftarrow> receiveLoop lib (if backoff < 10000 then 2 * backoff else backoff) xs c;
       Some (c', backoff # ws) }
     else receiveLoop lib 100 xs c }"

section \<open>The replay ring\<close>

definition wf_replay :: "replay \<Rightarrow> bool" where
  "wf_replay rb \<longleftrightarrow> length (replayBuf rb) = replayBufSize \<and> replayIdx rb < replayBufSize \<and>
     (replayLen rb = replayBufSize \<or> replayLen rb = replayIdx rb)"

text \<open>The events of the ring, oldest first.\<close>

definition replay_list :: "replay \<Rightarrow> sseEvent list" where
  "replay_list rb = (if replayLen rb = replayBufSize then drop (replayIdx rb) (replayBuf rb) @ take (replayIdx rb) (replayBuf rb)
                     else take (replayIdx rb) (replayBuf rb))"

definition last_n :: "nat \<Rightarrow> 'a list \<Rightarrow> 'a list" where "last_n n xs = drop (length xs - n) xs"


lemma length_replay_list: "wf_replay rb \<Longrightarrow> length (replay_list rb) = replayLen rb"
  by (auto simp: wf_replay_def replay_list_def)

lemma replay_at_eq:
  assumes "wf_replay rb" and "i < replayLen rb"
  shows "replay_at rb i = Some (replay_list rb ! i)"
proof -
  have k: "go_rem (int (replayIdx rb) - int (replayLen rb) + int i + int replayBufSize) (int replayBufSize) =
      int ((replayIdx rb + replayBufSize - replayLen rb + i) mod replayBufSize)"
  proof -
    have "int (replayIdx rb) - int (replayLen rb) + int i + int replayBufSize = int (replayIdx rb + replayBufSize - replayLen rb + i)"
      using assms by (auto simp: wf_replay_def)
    then show ?thesis unfolding go_rem_def by (simp only: zmod_int) simp
  qed
  have n: "(replayIdx rb + replayBufSize - replayLen rb + i) mod replayBufSize < length (replayBuf rb)"
    using assms(1) by (simp add: wf_replay_def replayBufSize_def)
  have "replayBuf rb ! ((replayIdx rb + replayBufSize - replayLen rb + i) mod replayBufSize) = replay_list rb ! i"
  proof (cases "replayLen rb = replayBufSize")
    case True
    then show ?thesis using assms
      by (cases "replayIdx rb + i < replayBufSize") (auto simp: wf_replay_def replay_list_def nth_append not_less mod_if add.commute [of i])
  next
    case False
    then show ?thesis using assms by (auto simp: wf_replay_def replay_list_def)
  qed
  then show ?thesis using n by (simp add: replay_at_def k del: of_nat_mod)
qed

lemma replayFrom_eq:
  assumes "wf_replay rb"
  shows "replayFrom rb k = Some (concat (map event_text (filter (\<lambda>ev. ev_id ev > k) (replay_list rb))))"
proof -
  have "replay_loop rb k is = Some (concat (map event_text (filter (\<lambda>ev. ev_id ev > k) (map ((!) (replay_list rb)) is))))"
    if "\<forall>i \<in> set is. i < replayLen rb" for "is"
    using that by (induction "is") (auto simp: replay_at_eq [OF assms])
  moreover have "map ((!) (replay_list rb)) [0..<replayLen rb] = replay_list rb"
    using map_nth [of "replay_list rb"] by (simp add: length_replay_list [OF assms])
  ultimately show ?thesis by (simp add: replayFrom_def)
qed

lemma wf_zero_replay: "wf_replay zero_replay" "replay_list zero_replay = []"
  by (simp_all add: wf_replay_def zero_replay_def replay_list_def replayBufSize_def)


lemma addToReplay_list:
  assumes "wf_replay rb"
  shows "\<exists>rb'. addToReplay ev rb = Some rb' \<and> wf_replay rb' \<and> replay_list rb' = last_n replayBufSize (replay_list rb @ [ev])"
proof -
  let ?b = "replayBuf rb" and ?i = "replayIdx rb" and ?n = replayBufSize
  have w: "length ?b = ?n" "?i < ?n" "replayLen rb = ?n \<or> replayLen rb = ?i" using assms by (simp_all add: wf_replay_def)
  have p: "0 < ?n" by (simp add: replayBufSize_def)
  have t: "take (Suc ?i) (?b[?i := ev]) = take ?i ?b @ [ev]" using w by (simp add: take_Suc_conv_app_nth)
  have full: "?b[?i := ev] = take ?i ?b @ [ev]" if "Suc ?i = ?n" using t that w by simp
  have d: "drop ?i ?b = ?b ! ?i # drop (Suc ?i) ?b" using w by (simp add: Cons_nth_drop_Suc)
  show ?thesis
  proof (cases "Suc ?i = ?n")
    case True
    then show ?thesis using w p d full [OF True]
      by (auto simp: addToReplay_def wf_replay_def replay_list_def last_n_def)
  next
    case False
    then have "Suc ?i < ?n" using w by simp
    then show ?thesis using w p t d
      by (auto simp: addToReplay_def wf_replay_def replay_list_def last_n_def)
  qed
qed


section \<open>Reading the event stream\<close>

definition good_event :: "sseEvent \<Rightarrow> bool" where
  "good_event ev \<longleftrightarrow> ev_id ev > 0 \<and> ev_data ev \<noteq> [] \<and> plain_line (''data: '' @ ev_data ev)"

definition id_line :: "sseEvent \<Rightarrow> string" where "id_line ev = ''id: '' @ dec (unat (ev_id ev))"
definition data_line :: "sseEvent \<Rightarrow> string" where "data_line ev = ''data: '' @ ev_data ev"

lemma event_text_lines: "event_text ev = id_line ev @ CHR 0x0A # data_line ev @ CHR 0x0A # [] @ CHR 0x0A # []"
  by (simp add: event_text_def id_line_def data_line_def)

lemma length_dec: "n < 10 ^ k \<Longrightarrow> 0 < k \<Longrightarrow> length (dec n) \<le> k"
proof (induction n arbitrary: k rule: dec.induct)
  case (1 n)
  show ?case
  proof (cases "n < 10")
    case True
    then show ?thesis using 1(3) by (subst dec.simps) simp
  next
    case False
    then obtain j where k: "k = Suc j" "0 < j" using 1(2,3) by (cases k; cases "k - 1") auto
    then have "length (dec (n div 10)) \<le> j" using 1(1) [OF False, of j] 1(2) by simp
    then show ?thesis using False k by (subst dec.simps) simp
  qed
qed

lemma plain_id_line: "plain_line (id_line ev)"
proof -
  have "unat (ev_id ev) < 2 ^ 64" by (rule order_less_le_trans [OF unsigned_less]) simp
  then have "unat (ev_id ev) < 10 ^ 20" by simp
  then have "length (dec (unat (ev_id ev))) \<le> 20" by (rule length_dec) simp
  moreover have "CHR 0x0A \<notin> set (dec (unat (ev_id ev)))" "CHR 0x0D \<notin> set (dec (unat (ev_id ev)))"
    using dec_digits [of "unat (ev_id ev)"] by (auto simp: list_all_iff)
  ultimately show ?thesis by (simp add: plain_line_def id_line_def MaxScanTokenSize_def)
qed

lemma plain_Nil: "plain_line []"
  by (simp add: plain_line_def MaxScanTokenSize_def)

lemma scan_event:
  assumes "good_event ev"
  shows "scan_lines (event_text ev @ s) = (id_line ev # data_line ev # [] # fst (scan_lines s), snd (scan_lines s))"
proof -
  have e: "event_text ev @ s = id_line ev @ CHR 0x0A # (data_line ev @ CHR 0x0A # ([] @ CHR 0x0A # s))"
    by (simp add: event_text_lines)
  have "plain_line (data_line ev)" using assms by (simp add: good_event_def data_line_def)
  then show ?thesis unfolding e using plain_id_line plain_Nil by (simp only: scan_lines_line) simp
qed

declare stream_lines.simps(2) [simp del]

text \<open>The effect of one event on the client.\<close>

definition client_event :: "'h hdr_lib \<Rightarrow> (nat \<Rightarrow> i64) \<Rightarrow> 'h SSEClient \<Rightarrow> nat \<times> sseEvent \<Rightarrow> 'h SSEClient option" where
  "client_event lib clock c = (\<lambda>(i, ev). processEvent lib (clock i) (ev_data ev) (c\<lparr>cs_lastEventID := ev_id ev\<rparr>))"

lemma stream_id_line:
  "stream_lines lib clock i cur dat (id_line ev # ls) c =
     stream_lines lib clock i (ev_id ev) dat ls (c\<lparr>cs_lastEventID := ev_id ev\<rparr>)"
  by (simp add: id_line_def stream_lines.simps(2) Let_def)

lemma stream_data_line: "stream_lines lib clock i cur dat (data_line ev # ls) c = stream_lines lib clock i cur (ev_data ev) ls c"
  by (simp add: data_line_def stream_lines.simps(2))

lemma stream_event:
  assumes "good_event ev"
  shows "stream_lines lib clock i cur dat (id_line ev # data_line ev # [] # ls) c =
     client_event lib clock c (i, ev) \<bind> (\<lambda>c'. stream_lines lib clock (Suc i) 0 [] ls c')"
  using assms by (simp add: stream_id_line stream_data_line good_event_def client_event_def stream_lines.simps(2) [of _ _ _ _ _ "[]"])

lemma stream_events:
  assumes "list_all good_event evs"
  shows "stream_lines lib clock i 0 [] (fst (scan_lines (concat (map event_text evs) @ s))) c =
     run_opt (client_event lib clock) c (enumerate i evs) \<bind>
       (\<lambda>c'. stream_lines lib clock (i + length evs) 0 [] (fst (scan_lines s)) c')"
    and "snd (scan_lines (concat (map event_text evs) @ s)) = snd (scan_lines s)"
  using assms by (induction evs arbitrary: i c) (simp_all add: scan_event stream_event)

lemma length_scan_lines: "length (fst (scan_lines s)) \<le> length s"
proof (induction s rule: scan_lines.induct)
  case (1 s)
  let ?l = "takeWhile (\<lambda>c. c \<noteq> CHR 0x0A) s" and ?r = "dropWhile (\<lambda>c. c \<noteq> CHR 0x0A) s"
  show ?case
  proof (cases "s = [] \<or> length ?l \<ge> MaxScanTokenSize \<or> ?r = []")
    case True
    then show ?thesis by (subst scan_lines.simps) (cases s; auto simp: Let_def)
  next
    case False
    then have "length (fst (scan_lines (tl ?r))) \<le> length (tl ?r)" using 1 by simp
    moreover have "length (tl ?r) < length s"
      using False length_dropWhile_le [of "\<lambda>c. c \<noteq> CHR 0x0A" s] by (cases ?r) auto
    ultimately show ?thesis using False by (subst scan_lines.simps) (auto simp: Let_def split: prod.splits)
  qed
qed

text \<open>A body of whole events, then any cut text.\<close>

lemma connectStream_events:
  assumes "list_all good_event evs" and "body = concat (map event_text evs) @ s" and "length body \<le> n"
  shows "connectStream lib clock n body c =
     run_opt (client_event lib clock) c (enumerate 0 evs) \<bind>
       (\<lambda>c'. stream_lines lib clock (length evs) 0 [] (fst (scan_lines s)) c' \<bind> (\<lambda>c''. Some (c'', snd (scan_lines s))))"
proof -
  have l: "length (fst (scan_lines body)) \<le> n" using length_scan_lines [of body] assms(3) by simp
  have "stream_lines lib clock 0 0 [] (fst (scan_lines body)) c =
     run_opt (client_event lib clock) c (enumerate 0 evs) \<bind> (\<lambda>c'. stream_lines lib clock (length evs) 0 [] (fst (scan_lines s)) c')"
    using stream_events(1) [OF assms(1), of lib clock 0 s c] unfolding assms(2) by simp
  moreover have "snd (scan_lines body) = snd (scan_lines s)" using stream_events(2) [OF assms(1), of s] by (simp add: assms(2))
  ultimately show ?thesis using l by (auto simp: connectStream_def split: prod.splits)
qed

text \<open>The events of broadcasts.\<close>

type_synonym sse_msg = "u64 \<times> i64 \<times> bytes"

definition bc_event :: "sse_msg \<Rightarrow> sseEvent" where
  "bc_event = (\<lambda>(q, now, d). \<lparr>ev_id = q, ev_data = EncodeToString (frame_bytes q now d)\<rparr>)"

definition sse_max_payload :: nat where "sse_max_payload = 49122"

lemma good_bc_event:
  assumes "q > 0" and "length d \<le> sse_max_payload"
  shows "good_event (bc_event (q, now, d))"
proof -
  have "frame_bytes q now d \<noteq> []" using length_frame_bytes [of q now d] by (metis add_is_0 list.size(3) zero_neq_numeral)
  moreover have "CHR 0x0A \<notin> set (EncodeToString (frame_bytes q now d))" "CHR 0x0D \<notin> set (EncodeToString (frame_bytes q now d))"
    using EncodeToString_plain by blast+
  moreover have "(26 + length d) div 3 \<le> 49148 div 3" using assms(2) by (intro div_le_mono) (simp add: sse_max_payload_def)
  ultimately show ?thesis using assms
    by (simp add: good_event_def bc_event_def plain_line_def length_EncodeToString MaxScanTokenSize_def)
qed

definition sse_call :: "ConnID \<Rightarrow> (nat \<Rightarrow> i64) \<Rightarrow> nat \<times> sse_msg \<Rightarrow> ConnID \<times> bytes \<times> i64" where
  "sse_call cid clock = (\<lambda>(i, q, now, d). (cid, frame_bytes q now d, clock i))"

definition wf_client :: "'h SSEClient \<Rightarrow> bool" where
  "wf_client c \<longleftrightarrow> cs_handler c \<and> (case cs_recorder c of None \<Rightarrow> True | Some r \<Rightarrow> wf_rec r)"

lemma client_bc_event:
  assumes "wf_client c"
  shows "\<exists>c'. client_event lib clock c (i, bc_event m) = Some c' \<and> wf_client c' \<and> cs_connID c' = cs_connID c \<and>
     cs_lastEventID c' = fst m \<and> cs_calls c' = cs_calls c @ [sse_call (cs_connID c) clock (i, m)]"
proof -
  obtain q now d where m: "m = (q, now, d)" by (cases m)
  let ?raw = "frame_bytes q now d"
  obtain x where x: "Decode ?raw = Some x" using Decode_total by blast
  show ?thesis
  proof (cases "cs_recorder c")
    case None
    then show ?thesis using assms x
      by (simp add: client_event_def bc_event_def m processEvent_def Let_def wf_client_def sse_call_def split: sum.splits)
  next
    case (Some r)
    then have r: "wf_rec r" using assms by (simp add: wf_client_def)
    show ?thesis
    proof (cases x)
      case (Inl e)
      then show ?thesis using assms x Some
        by (simp add: client_event_def bc_event_def m processEvent_def Let_def wf_client_def sse_call_def)
    next
      case (Inr y)
      obtain f k where y: "y = (f, k)" by fastforce
      obtain r' where "RecordRecv lib r (SeqNum f) (SendNs f) (length ?raw) (clock i) = Some r'" "wf_rec r'"
        using RecordRecv_total [OF r] by blast
      then show ?thesis using assms x Some Inr y
        by (simp add: client_event_def bc_event_def m processEvent_def Let_def wf_client_def sse_call_def)
    qed
  qed
qed

lemma client_bc_events:
  assumes "wf_client c"
  shows "\<exists>c'. run_opt (client_event lib clock) c (enumerate i (map bc_event ms)) = Some c' \<and> wf_client c' \<and>
     cs_connID c' = cs_connID c \<and> cs_lastEventID c' = (if ms = [] then cs_lastEventID c else fst (List.last ms)) \<and>
     cs_calls c' = cs_calls c @ map (sse_call (cs_connID c) clock) (enumerate i ms)"
  using assms
proof (induction ms arbitrary: i c)
  case (Cons m ms)
  obtain c1 where c1: "client_event lib clock c (i, bc_event m) = Some c1" "wf_client c1" "cs_connID c1 = cs_connID c"
     "cs_lastEventID c1 = fst m" "cs_calls c1 = cs_calls c @ [sse_call (cs_connID c) clock (i, m)]"
    using client_bc_event [OF Cons.prems] by blast
  from Cons.IH [OF c1(2), of "Suc i"] c1 show ?case by auto
qed simp

text \<open>A client that reads the text of broadcasts hands exactly their frames to its handler.\<close>

definition fit_msg :: "sse_msg \<Rightarrow> bool" where
  "fit_msg = (\<lambda>(q, now, d). q > 0 \<and> length d \<le> sse_max_payload)"

lemma good_fit: "fit_msg m \<Longrightarrow> good_event (bc_event m)"
  by (cases m) (auto simp: fit_msg_def intro: good_bc_event)

lemma client_reads_broadcasts:
  assumes "wf_client c" and "list_all fit_msg ms"
  shows "\<exists>c'. connectStream lib clock (length (concat (map (event_text \<circ> bc_event) ms))) (concat (map (event_text \<circ> bc_event) ms)) c =
       Some (c', False) \<and> wf_client c' \<and> cs_lastEventID c' = (if ms = [] then cs_lastEventID c else fst (List.last ms)) \<and>
     cs_calls c' = cs_calls c @ map (sse_call (cs_connID c) clock) (enumerate 0 ms)"
proof -
  have "list_all good_event (map bc_event ms)" using assms(2) good_fit by (auto simp: list_all_iff)
  from connectStream_events [OF this, of "concat (map (event_text \<circ> bc_event) ms)" "[]"
      "length (concat (map (event_text \<circ> bc_event) ms))" lib clock c] client_bc_events [OF assms(1), of lib clock 0 ms]
  show ?thesis by auto
qed

section \<open>Server runs\<close>

datatype sse_action =
    Registers
  | Opens ConnID string
  | Leaves nat
  | Turns sse_pick nat
  | Casts i64 bytes
  | SendsTo ConnID bytes

fun sse_step :: "sse_order \<Rightarrow> SSEServer \<Rightarrow> sse_action \<Rightarrow> SSEServer option" where
  "sse_step ord s Registers = Some (snd (SSE_handleRegister s))"
| "sse_step ord s (Opens qid lastID) = map_option snd (SSE_handleEvents True qid lastID s)"
| "sse_step ord s (Leaves p) = Some (peer_gone p s)"
| "sse_step ord s (Turns pk p) = SSE_handler_turn pk p s"
| "sse_step ord s (Casts now data) = SSE_Broadcast ord now data s"
| "sse_step ord s (SendsTo cid data) = map_option snd (SSE_Send cid data s)"

text \<open>The messages broadcast in a run, with the sequence numbers they get.\<close>

fun sse_log :: "sse_order \<Rightarrow> SSEServer \<Rightarrow> sse_action list \<Rightarrow> sse_msg list" where
  "sse_log ord s [] = []"
| "sse_log ord s (e # es) =
     (case e of Casts now d \<Rightarrow> [(sse_seq s + 1, now, d)] | _ \<Rightarrow> []) @
     (case sse_step ord s e of None \<Rightarrow> [] | Some s' \<Rightarrow> sse_log ord s' es)"

definition sse_wf :: "SSEServer \<Rightarrow> bool" where
  "sse_wf s \<longleftrightarrow> wf_replay (sse_replay s) \<and> wf_sm (sse_streams s) \<and>
     (\<forall>cid p. sm_Load (sse_streams s) cid = Some p \<longrightarrow> p < length (sse_store s) \<and> ss_id (sse_store s ! p) = cid \<and> \<not> ss_returned (sse_store s ! p))"

definition sse_exists :: "SSEServer \<Rightarrow> sse_action \<Rightarrow> bool" where
  "sse_exists s e = (case e of Turns pk p \<Rightarrow> p < length (sse_store s) | Leaves p \<Rightarrow> p < length (sse_store s) | _ \<Rightarrow> True)"

lemma sse_wf_New: "sse_wf (NewSSEServer addr)"
  by (simp add: sse_wf_def NewSSEServer_def wf_zero_replay sync_map)

lemma sse_wf_registered:
  assumes "sse_wf s" and "sm_Load (sse_streams s) cid = Some p"
  shows "p < length (sse_store s)" "ss_id (sse_store s ! p) = cid" "\<not> ss_returned (sse_store s ! p)"
  using assms by (auto simp: sse_wf_def)

lemma sse_wf_update:
  assumes "sse_wf s" and "sse_streams s' = sse_streams s" and "wf_replay (sse_replay s')"
    and "length (sse_store s') = length (sse_store s)"
    and "\<And>r. r < length (sse_store s) \<Longrightarrow> ss_id (sse_store s' ! r) = ss_id (sse_store s ! r) \<and> ss_returned (sse_store s' ! r) = ss_returned (sse_store s ! r)"
  shows "sse_wf s'"
  using assms unfolding sse_wf_def by metis

lemma sse_values:
  assumes "sse_wf s" and "range_order ord"
  shows "set (sm_values ord (sse_streams s)) = {p. p < length (sse_store s) \<and> sm_Load (sse_streams s) (ss_id (sse_store s ! p)) = Some p}"
    and "distinct (sm_values ord (sse_streams s))"
proof -
  have w: "wf_sm (sse_streams s)" using assms(1) by (simp add: sse_wf_def)
  show "set (sm_values ord (sse_streams s)) = {p. p < length (sse_store s) \<and> sm_Load (sse_streams s) (ss_id (sse_store s ! p)) = Some p}"
    unfolding set_sm_values [OF w assms(2)] ran_def using sse_wf_registered [OF assms(1)] by blast
  show "distinct (sm_values ord (sse_streams s))"
    using sse_wf_registered(2) [OF assms(1)] by (intro distinct_sm_values w assms(2)) metis
qed

lemma stream_offer_eq:
  "stream_offer st ev = (if length (ss_ch st) < sseChanCap then (st\<lparr>ss_ch := ss_ch st @ [ev]\<rparr>, True) else (st, False))"
  by (simp add: stream_offer_def try_send_def)

lemma sse_offer_all_ok:
  assumes "\<forall>p \<in> set ps. p < length (sse_store s)" and "distinct ps"
  shows "\<exists>s'. sse_offer_all ev ps s = Some s' \<and> length (sse_store s') = length (sse_store s) \<and>
     sse_streams s' = sse_streams s \<and> sse_replay s' = sse_replay s \<and> sse_seq s' = sse_seq s \<and> sse_shutdown s' = sse_shutdown s \<and>
     (\<forall>r. sse_store s' ! r = (if r \<in> set ps then fst (stream_offer (sse_store s ! r) ev) else sse_store s ! r))"
  using assms
proof (induction ps arbitrary: s)
  case (Cons p ps)
  let ?s = "if snd (stream_offer (sse_store s ! p) ev) then s\<lparr>sse_store := (sse_store s)[p := fst (stream_offer (sse_store s ! p) ev)]\<rparr>
    else s\<lparr>sse_lost := sse_lost s + 1\<rparr>"
  have st: "sse_offer_all ev (p # ps) s = sse_offer_all ev ps ?s" using Cons.prems by (simp add: split_beta)
  have n: "sse_store ?s ! r = (if r = p then fst (stream_offer (sse_store s ! p) ev) else sse_store s ! r)" for r
    using Cons.prems(1) by (auto simp: stream_offer_eq)
  have l: "length (sse_store ?s) = length (sse_store s)" by simp
  obtain s' where s': "sse_offer_all ev ps ?s = Some s'" "length (sse_store s') = length (sse_store ?s)"
     "sse_streams s' = sse_streams ?s" "sse_replay s' = sse_replay ?s" "sse_seq s' = sse_seq ?s" "sse_shutdown s' = sse_shutdown ?s"
     "\<And>r. sse_store s' ! r = (if r \<in> set ps then fst (stream_offer (sse_store ?s ! r) ev) else sse_store ?s ! r)"
    using Cons.IH [of ?s] Cons.prems l by (metis distinct.simps(2) list.set_intros(2))
  have "sse_store s' ! r = (if r \<in> set (p # ps) then fst (stream_offer (sse_store s ! r) ev) else sse_store s ! r)" for r
    unfolding s'(7) n using Cons.prems(2) by auto
  then show ?case using s' st l by (auto split: if_splits)
qed simp

definition bc_of :: "SSEServer \<Rightarrow> i64 \<Rightarrow> bytes \<Rightarrow> sseEvent" where
  "bc_of s now d = bc_event (sse_seq s + 1, now, d)"

lemma SSE_Broadcast_ok:
  assumes "sse_wf s" and "range_order ord"
  shows "\<exists>s' rb. SSE_Broadcast ord now d s = Some s' \<and> sse_wf s' \<and> length (sse_store s') = length (sse_store s) \<and>
     sse_streams s' = sse_streams s \<and> addToReplay (bc_of s now d) (sse_replay s) = Some rb \<and> sse_replay s' = rb \<and>
     sse_seq s' = sse_seq s + 1 \<and> sse_shutdown s' = sse_shutdown s \<and>
     (\<forall>r < length (sse_store s). sse_store s' ! r = (if sm_Load (sse_streams s) (ss_id (sse_store s ! r)) = Some r
        then fst (stream_offer (sse_store s ! r) (bc_of s now d)) else sse_store s ! r))"
proof -
  let ?ev = "bc_of s now d" and ?ps = "sm_values ord (sse_streams s)"
  have "wf_replay (sse_replay s)" using assms(1) by (simp add: sse_wf_def)
  then obtain rb where rb: "addToReplay ?ev (sse_replay s) = Some rb" "wf_replay rb" using addToReplay_list by blast
  let ?s = "s\<lparr>sse_seq := sse_seq s + 1, sse_replay := rb, sse_sent := sse_sent s + 1, sse_sentBytes := sse_sentBytes s + of_nat (length d)\<rparr>"
  have b: "SSE_Broadcast ord now d s = sse_offer_all ?ev ?ps ?s"
    using rb(1) by (simp add: SSE_Broadcast_def Broadcast_record_def Broadcast_range_def Let_def bc_of_def bc_event_def)
  obtain s' where s': "sse_offer_all ?ev ?ps ?s = Some s'" "length (sse_store s') = length (sse_store s)"
     "sse_streams s' = sse_streams s" "sse_replay s' = rb" "sse_seq s' = sse_seq s + 1" "sse_shutdown s' = sse_shutdown s"
     "\<And>r. sse_store s' ! r = (if r \<in> set ?ps then fst (stream_offer (sse_store s ! r) ?ev) else sse_store s ! r)"
    using sse_offer_all_ok [of ?ps ?s ?ev] sse_values [OF assms] by auto
  have "sse_wf s'" using s' rb(2) by (intro sse_wf_update [OF assms(1)]) (auto simp: stream_offer_eq)
  then show ?thesis using b rb(1) s' sse_values(1) [OF assms] by auto
qed

lemma SSE_Send_ok:
  assumes "sse_wf s"
  shows "\<exists>s' rs. SSE_Send cid d s = Some (rs, s') \<and> sse_wf s' \<and> length (sse_store s') = length (sse_store s) \<and>
     sse_streams s' = sse_streams s \<and> sse_replay s' = sse_replay s \<and> sse_seq s' \<in> {sse_seq s, sse_seq s + 1} \<and>
     (\<forall>r < length (sse_store s). sse_store s' ! r = (if sm_Load (sse_streams s) cid = Some r
        then fst (stream_offer (sse_store s ! r) \<lparr>ev_id = sse_seq s + 1, ev_data = EncodeToString d\<rparr>) else sse_store s ! r))"
proof (cases "sm_Load (sse_streams s) cid")
  case None
  then show ?thesis using assms by (simp add: SSE_Send_def)
next
  case (Some p)
  let ?ev = "\<lparr>ev_id = sse_seq s + 1, ev_data = EncodeToString d\<rparr>"
  let ?s = "if snd (stream_offer (sse_store s ! p) ?ev)
    then s\<lparr>sse_seq := sse_seq s + 1, sse_store := (sse_store s)[p := fst (stream_offer (sse_store s ! p) ?ev)], sse_sent := sse_sent s + 1\<rparr>
    else s\<lparr>sse_seq := sse_seq s + 1, sse_lost := sse_lost s + 1\<rparr>"
  have p: "p < length (sse_store s)" using sse_wf_registered [OF assms Some] by simp
  have "SSE_Send cid d s = Some (Inr (), ?s)" using Some p by (simp add: SSE_Send_def Let_def split_beta)
  moreover have n: "sse_store ?s ! r = (if r = p then fst (stream_offer (sse_store s ! p) ?ev) else sse_store s ! r)" for r
    using p by (auto simp: stream_offer_eq)
  moreover have "sse_wf ?s" using assms n by (intro sse_wf_update [OF assms]) (auto simp: stream_offer_eq sse_wf_def)
  ultimately show ?thesis using Some by auto
qed

lemma sse_wf_return:
  assumes "sse_wf s" and "p < length (sse_store s)"
  shows "sse_wf (handler_return p s)"
proof -
  let ?s = "handler_return p s"
  have "r < length (sse_store ?s) \<and> ss_id (sse_store ?s ! r) = cid \<and> \<not> ss_returned (sse_store ?s ! r)"
    if "sm_Load (sse_streams ?s) cid = Some r" for cid r
  proof -
    have "cid \<noteq> ss_id (sse_store s ! p)" "sm_Load (sse_streams s) cid = Some r"
      using that by (auto simp: handler_return_def Let_def sync_map split: if_splits)
    then show ?thesis using sse_wf_registered [OF assms(1)] by (cases "r = p") (auto simp: handler_return_def Let_def)
  qed
  then show ?thesis using assms(1) by (auto simp: sse_wf_def handler_return_def Let_def sync_map)
qed

lemma SSE_handler_turn_ok:
  assumes "sse_wf s" and "p < length (sse_store s)"
  shows "\<exists>s'. SSE_handler_turn pk p s = Some s' \<and> sse_wf s' \<and> length (sse_store s') = length (sse_store s) \<and>
     sse_replay s' = sse_replay s \<and> sse_seq s' = sse_seq s"
proof -
  have "sse_wf (s\<lparr>sse_store := (sse_store s)[p := st], sse_recv := k\<rparr>)"
    if "ss_id st = ss_id (sse_store s ! p)" "ss_returned st = ss_returned (sse_store s ! p)" for st k
    using that assms by (intro sse_wf_update [OF assms(1)]) (auto simp: nth_list_update sse_wf_def)
  then show ?thesis using assms sse_wf_return [OF assms]
    by (cases pk) (auto simp: SSE_handler_turn_def Let_def handler_return_def split: option.splits)
qed

lemma SSE_handleEvents_ok:
  assumes "sse_wf s"
  shows "\<exists>s' cid seq. SSE_handleEvents True qid lastID s = Some (200, s') \<and> sse_wf s' \<and> sse_replay s' = sse_replay s \<and>
     sse_seq s' = seq \<and> seq \<in> {sse_seq s, sse_seq s + 1} \<and> (qid \<noteq> [] \<longrightarrow> cid = qid) \<and>
     sse_streams s' = sm_Store (sse_streams s) cid (length (sse_store s)) \<and>
     sse_store s' = sse_store s @ [\<lparr>ss_id = cid, ss_ch = [], ss_cancelled = False, ss_returned = False,
       ss_replayed = (if lastID = [] then [] else concat (map event_text (filter (\<lambda>ev. ev_id ev > (case Sscanf_u64 lastID of None \<Rightarrow> 0 | Some n \<Rightarrow> n)) (replay_list (sse_replay s))))),
       ss_events = []\<rparr>]"
proof -
  have wr: "wf_replay (sse_replay s)" using assms by (simp add: sse_wf_def)
  have w: "sse_wf (s\<lparr>sse_seq := q, sse_streams := sm_Store (sse_streams s) cid (length (sse_store s)), sse_store := sse_store s @ [st]\<rparr>)"
    if "ss_id st = cid" "\<not> ss_returned st" for cid st q
    using assms that by (auto simp: sse_wf_def sync_map nth_append intro: less_SucI split: if_splits)
  have w': "sse_wf (s\<lparr>sse_streams := sm_Store (sse_streams s) cid (length (sse_store s)), sse_store := sse_store s @ [st]\<rparr>)"
    if "ss_id st = cid" "\<not> ss_returned st" for cid st
    using w [OF that, of "sse_seq s"] by simp
  show ?thesis
    using replayFrom_eq [OF wr]
    by (cases "qid = []"; cases "lastID = []") (simp_all add: SSE_handleEvents_def handleEvents_replay_def handleEvents_store_def Let_def w w')
qed

lemma sse_step_ok:
  assumes "sse_wf s" and "range_order ord" and "sse_exists s e"
  shows "\<exists>s'. sse_step ord s e = Some s' \<and> sse_wf s' \<and> sse_seq s' \<in> {sse_seq s, sse_seq s + 1} \<and>
     (case e of Casts now d \<Rightarrow> sse_seq s' = sse_seq s + 1 \<and> addToReplay (bc_of s now d) (sse_replay s) = Some (sse_replay s')
      | _ \<Rightarrow> sse_replay s' = sse_replay s)"
proof (cases e)
  case Registers
  then show ?thesis using sse_wf_update [OF assms(1), of "snd (SSE_handleRegister s)"] assms(1)
    by (simp add: SSE_handleRegister_def Let_def sse_wf_def)
next
  case (Opens qid lastID)
  then show ?thesis using SSE_handleEvents_ok [OF assms(1), of qid lastID] by auto
next
  case (Leaves p)
  then have "sse_wf (peer_gone p s)" using assms
    by (intro sse_wf_update [OF assms(1)]) (auto simp: peer_gone_def nth_update_if sse_wf_def)
  then show ?thesis using Leaves by (simp add: peer_gone_def)
next
  case (Turns pk p)
  then show ?thesis using SSE_handler_turn_ok [OF assms(1), of p pk] assms(3) by (auto simp: sse_exists_def)
next
  case (Casts now d)
  then show ?thesis using SSE_Broadcast_ok [OF assms(1,2), of now d] by auto
next
  case (SendsTo cid d)
  then show ?thesis using SSE_Send_ok [OF assms(1), of cid d] by auto
qed

text \<open>The ring holds the last broadcasts of every run, and sequence numbers grow until they wrap.\<close>

fun sse_existing :: "sse_order \<Rightarrow> SSEServer \<Rightarrow> sse_action list \<Rightarrow> bool" where
  "sse_existing ord s [] = True"
| "sse_existing ord s (e # es) = (sse_exists s e \<and> (case sse_step ord s e of None \<Rightarrow> True | Some s' \<Rightarrow> sse_existing ord s' es))"




lemma sse_log_fit:
  assumes "sse_wf s" and "range_order ord" and "sse_existing ord s es" and "unat (sse_seq s) + length es < 2 ^ 64"
  shows "sorted_wrt (<) (map fst (sse_log ord s es)) \<and> (\<forall>m \<in> set (sse_log ord s es). sse_seq s < fst m)"
  using assms(1,3,4)
proof (induction es arbitrary: s)
  case (Cons e es)
  have ex: "sse_exists s e" using Cons.prems(2) by simp
  obtain s1 where s1: "sse_step ord s e = Some s1" "sse_wf s1" "sse_seq s1 \<in> {sse_seq s, sse_seq s + 1}"
    "(case e of Casts now d \<Rightarrow> sse_seq s1 = sse_seq s + 1 \<and> addToReplay (bc_of s now d) (sse_replay s) = Some (sse_replay s1)
      | _ \<Rightarrow> sse_replay s1 = sse_replay s)"
    using sse_step_ok [OF Cons.prems(1) assms(2) ex] by blast
  have "sse_seq s \<noteq> - 1"
  proof
    assume "sse_seq s = - 1"
    then have "unat (sse_seq s) = 2 ^ 64 - 1" by (simp add: unsigned_minus_1_eq_mask mask_eq_exp_minus_1)
    then show False using Cons.prems(3) by simp
  qed
  then have u: "unat (sse_seq s + 1) = Suc (unat (sse_seq s))" by (rule unat_add_one)
  then have lt: "sse_seq s < sse_seq s + 1" by (simp add: word_less_nat_alt)
  have ge: "sse_seq s \<le> sse_seq s1" using s1(3) order_less_imp_le [OF lt] by auto
  have b: "unat (sse_seq s1) + length es < 2 ^ 64" using s1(3) u Cons.prems(3) by auto
  have ih: "sorted_wrt (<) (map fst (sse_log ord s1 es))" "\<And>m. m \<in> set (sse_log ord s1 es) \<Longrightarrow> sse_seq s1 < fst m"
    using Cons.IH [OF s1(2) _ b] Cons.prems(2) s1(1) by auto
  then have all: "\<And>m. m \<in> set (sse_log ord s1 es) \<Longrightarrow> sse_seq s < fst m" using ge by (meson order_le_less_trans)
  show ?case
  proof (cases e)
    case (Casts now d)
    then have q: "sse_seq s1 = sse_seq s + 1" using s1(4) by simp
    show ?thesis using ih all lt s1(1) unfolding Casts by (auto simp: q [symmetric])
  qed (use ih(1) all s1(1) in \<open>simp_all del: sse_step.simps\<close>)
qed simp

section \<open>One stream of a run\<close>

text \<open>Stream \<open>p\<close> is registered, and the steps are those that leave it registered: nobody opens a stream with its
  identifier, its peer stays, and no other handler with its identifier returns.\<close>

definition sse_live :: "nat \<Rightarrow> SSEServer \<Rightarrow> bool" where
  "sse_live p s \<longleftrightarrow> sse_wf s \<and> p < length (sse_store s) \<and> sm_Load (sse_streams s) (ss_id (sse_store s ! p)) = Some p"

definition sse_ok :: "nat \<Rightarrow> SSEServer \<Rightarrow> sse_action \<Rightarrow> bool" where
  "sse_ok p s e = (case e of
     Registers \<Rightarrow> True
   | Opens qid lastID \<Rightarrow> qid \<noteq> [] \<and> qid \<noteq> ss_id (sse_store s ! p)
   | Leaves r \<Rightarrow> r < length (sse_store s)
   | Turns pk r \<Rightarrow> r < length (sse_store s) \<and> (pk = TakesEvent \<or> ss_id (sse_store s ! r) \<noteq> ss_id (sse_store s ! p))
   | Casts now d \<Rightarrow> True
   | SendsTo cid d \<Rightarrow> cid \<noteq> ss_id (sse_store s ! p))"

definition sse_view :: "nat \<Rightarrow> SSEServer \<Rightarrow> sseEvent lane" where
  "sse_view p s = (ss_ch (sse_store s ! p), ss_events (sse_store s ! p))"

definition sse_act :: "nat \<Rightarrow> SSEServer \<Rightarrow> sse_action \<Rightarrow> sseEvent queue_event option" where
  "sse_act p s e = (case e of
     Casts now d \<Rightarrow> Some (Offer (bc_of s now d))
   | Turns pk r \<Rightarrow> if pk = TakesEvent \<and> r = p then Some Drain else None
   | _ \<Rightarrow> None)"

lemma sse_live_keep:
  assumes "sse_wf s'" and "sse_live p s" and "length (sse_store s) \<le> length (sse_store s')"
    and "ss_id (sse_store s' ! p) = ss_id (sse_store s ! p)" and "sm_Load (sse_streams s') (ss_id (sse_store s ! p)) = Some p"
  shows "sse_live p s'"
  using assms by (simp add: sse_live_def)

lemma sse_one_step:
  assumes "range_order ord" and "sse_live p s" and "sse_ok p s e"
  shows "\<exists>s'. sse_step ord s e = Some s' \<and> sse_live p s' \<and> sse_view p s' = lane_act sseChanCap (sse_act p s e) (sse_view p s) \<and>
     ss_replayed (sse_store s' ! p) = ss_replayed (sse_store s ! p) \<and> ss_id (sse_store s' ! p) = ss_id (sse_store s ! p)"
proof -
  have w: "sse_wf s" and p: "p < length (sse_store s)" and reg: "sm_Load (sse_streams s) (ss_id (sse_store s ! p)) = Some p"
    using assms(2) by (simp_all add: sse_live_def)
  show ?thesis
  proof (cases e)
    case Registers
    then show ?thesis using sse_step_ok [OF w assms(1), of e] assms(2)
      by (auto simp: sse_exists_def sse_act_def sse_view_def SSE_handleRegister_def Let_def intro!: sse_live_keep [of _ p s] reg)
  next
    case (Opens qid lastID)
    then have q: "qid \<noteq> []" "qid \<noteq> ss_id (sse_store s ! p)" using assms(3) by (simp_all add: sse_ok_def)
    then show ?thesis using Opens SSE_handleEvents_ok [OF w, of qid lastID] p reg
      by (auto simp: sse_act_def sse_view_def nth_append sync_map sse_live_def)
  next
    case (Leaves r)
    have "sse_wf (peer_gone r s)" using sse_step_ok [OF w assms(1), of e] assms(3) Leaves by (auto simp: sse_exists_def sse_ok_def)
    then show ?thesis using Leaves p reg
      by (auto simp: sse_act_def sse_view_def peer_gone_def nth_update_if sse_live_def)
  next
    case (Turns pk r)
    have r: "r < length (sse_store s)" and k: "pk = TakesEvent \<or> ss_id (sse_store s ! r) \<noteq> ss_id (sse_store s ! p)"
      using assms(3) Turns by (simp_all add: sse_ok_def)
    obtain s' where s': "SSE_handler_turn pk r s = Some s'" "sse_wf s'" using SSE_handler_turn_ok [OF w r, of pk] by blast
    have nr: "\<not> ss_returned (sse_store s ! p)" using sse_wf_registered(3) [OF w reg] .
    show ?thesis
    proof (cases "pk = TakesEvent")
      case True
      then show ?thesis using Turns s' r p reg nr
        by (cases "ss_ch (sse_store s ! r)")
           (auto simp: SSE_handler_turn_def Let_def try_recv_def sse_act_def sse_view_def sse_live_def nth_update_if split: if_splits)
    next
      case False
      then have "r \<noteq> p" using k by auto
      with False show ?thesis using Turns s' r p reg k
        by (cases pk) (auto simp: SSE_handler_turn_def handler_return_def Let_def sse_act_def sse_view_def sse_live_def sync_map split: if_splits)
    qed
  next
    case (Casts now d)
    obtain s' where s': "SSE_Broadcast ord now d s = Some s'" "sse_wf s'" "length (sse_store s') = length (sse_store s)"
      "sse_streams s' = sse_streams s" "sse_store s' ! p = fst (stream_offer (sse_store s ! p) (bc_of s now d))"
      using SSE_Broadcast_ok [OF w assms(1), of now d] p reg by auto
    then show ?thesis using Casts p reg
      by (auto simp: sse_act_def sse_view_def sse_live_def stream_offer_eq)
  next
    case (SendsTo cid d)
    then have c: "cid \<noteq> ss_id (sse_store s ! p)" using assms(3) by (simp add: sse_ok_def)
    then have "sm_Load (sse_streams s) cid \<noteq> Some p" using sse_wf_registered(2) [OF w, of cid p] by auto
    then show ?thesis using SendsTo SSE_Send_ok [OF w, of cid d] p reg
      by (auto simp: sse_act_def sse_view_def sse_live_def)
  qed
qed

text \<open>The locale is interpreted for each order in which the run time may range over the map.\<close>

interpretation sse_fan: fanout sseChanCap "sse_live p" "sse_ok p" "sse_view p" "sse_step (some_order ord)" "sse_act p" for p ord
  by unfold_locales (use sse_one_step [of "some_order ord" p] in \<open>fastforce+\<close>)

lemma sse_trace: "offers (sse_fan.trace ord p s es) = map bc_event (sse_log (some_order ord) s es)"
proof (induction es arbitrary: s)
  case (Cons e es)
  have "offers (opt_list (sse_act p s e)) = map bc_event (case e of Casts now d \<Rightarrow> [(sse_seq s + 1, now, d)] | _ \<Rightarrow> [])"
    by (cases e) (simp_all add: sse_act_def bc_of_def)
  then show ?case
    by (cases "sse_step (some_order ord) s e") (simp_all add: Cons offers_append)
qed simp

lemma sse_run_replayed:
  assumes "sse_live p s" and "sse_fan.oks p ord s es" and "run_opt (sse_step (some_order ord)) s es = Some s'"
  shows "ss_replayed (sse_store s' ! p) = ss_replayed (sse_store s ! p)"
  using assms
proof (induction es arbitrary: s)
  case (Cons e es)
  obtain s1 where s1: "sse_step (some_order ord) s e = Some s1" "sse_live p s1" "ss_replayed (sse_store s1 ! p) = ss_replayed (sse_store s ! p)"
    using sse_one_step [OF range_some_order Cons.prems(1), of e] Cons.prems(2) by auto
  then show ?case using Cons.IH [OF s1(2)] Cons.prems(2,3) by simp
qed simp

text \<open>Steps that disturb no stream with the identifier \<open>cid\<close>, among \<open>n\<close> streams.\<close>

definition steady :: "nat \<Rightarrow> ConnID \<Rightarrow> sse_action \<Rightarrow> bool" where
  "steady n cid e = (case e of
     Registers \<Rightarrow> True
   | Opens qid lastID \<Rightarrow> qid \<noteq> [] \<and> qid \<noteq> cid
   | Leaves r \<Rightarrow> False
   | Turns pk r \<Rightarrow> pk = TakesEvent \<and> r < n
   | Casts now d \<Rightarrow> length d \<le> sse_max_payload
   | SendsTo qid d \<Rightarrow> qid \<noteq> cid)"

lemma sse_step_grows:
  assumes "sse_step ord s e = Some s'" and "range_order ord" and "sse_wf s"
  shows "length (sse_store s) \<le> length (sse_store s')"
proof (cases e)
  case (Opens qid lastID)
  then show ?thesis using assms(1) SSE_handleEvents_ok [OF assms(3), of qid lastID] by auto
next
  case (Turns pk r)
  then show ?thesis using assms(1)
    by (cases pk) (auto simp: SSE_handler_turn_def handler_return_def Let_def split: if_splits option.splits)
next
  case (Casts now d)
  then show ?thesis using assms(1) SSE_Broadcast_ok [OF assms(3,2), of now d] by auto
next
  case (SendsTo cid d)
  then show ?thesis using assms(1) SSE_Send_ok [OF assms(3), of cid d] by auto
qed (use assms(1) in \<open>auto simp: SSE_handleRegister_def peer_gone_def Let_def\<close>)

lemma steady_oks:
  assumes "sse_live p s" and "ss_id (sse_store s ! p) = cid" and "n \<le> length (sse_store s)"
    and "list_all (steady n cid) es"
  shows "sse_fan.oks p ord s es \<and> sse_existing (some_order ord) s es"
  using assms
proof (induction es arbitrary: s)
  case (Cons e es)
  have ok: "sse_ok p s e" using Cons.prems by (cases e) (auto simp: sse_ok_def steady_def)
  then have ex: "sse_exists s e" by (cases e) (simp_all add: sse_ok_def sse_exists_def)
  obtain s' where s': "sse_step (some_order ord) s e = Some s'" "sse_live p s'" "ss_id (sse_store s' ! p) = cid"
    using sse_one_step [OF range_some_order Cons.prems(1) ok, of ord] Cons.prems(2) by auto
  have "n \<le> length (sse_store s')" using sse_step_grows [OF s'(1) range_some_order] Cons.prems(1,3) by (auto simp: sse_live_def)
  with Cons.IH [OF s'(2,3)] Cons.prems(4) ok ex s'(1) show ?case by simp
qed simp

lemma sse_log_small:
  "list_all (\<lambda>e. case e of Casts now d \<Rightarrow> length d \<le> k | _ \<Rightarrow> True) es \<Longrightarrow>
   (q, now, d) \<in> set (sse_log ord s es) \<Longrightarrow> length d \<le> k"
proof (induction es arbitrary: s)
  case (Cons e es)
  then show ?case by (cases "sse_step ord s e"; cases e) (auto simp del: sse_step.simps)
qed simp

lemma sse_log_fits:
  assumes "sse_wf s" and "range_order ord" and "sse_existing ord s es" and "unat (sse_seq s) + length es < 2 ^ 64"
    and "list_all (\<lambda>e. case e of Casts now d \<Rightarrow> length d \<le> sse_max_payload | _ \<Rightarrow> True) es"
  shows "\<forall>m \<in> set (sse_log ord s es). fit_msg m"
proof
  fix m assume m: "m \<in> set (sse_log ord s es)"
  obtain q now d where qd: "m = (q, now, d)" by (cases m)
  have "sse_seq s < fst m" using sse_log_fit [OF assms(1-4)] m by blast
  then have "q > 0" unfolding qd fst_conv by (rule order_le_less_trans [OF word_zero_le])
  moreover have "length d \<le> sse_max_payload" using sse_log_small [OF assms(5)] m unfolding qd by blast
  ultimately show "fit_msg m" by (simp add: qd fit_msg_def)
qed

lemma subseq_all: "subseq xs ys \<Longrightarrow> \<forall>y \<in> set ys. P y \<Longrightarrow> list_all P xs"
  by (auto simp: list_all_iff dest: list_emb_set)

text \<open>Text that stops inside an event, after its identifier.\<close>

lemma stream_stray_line:
  "l \<noteq> [] \<Longrightarrow> take 4 l \<noteq> ''id: '' \<Longrightarrow> stream_lines lib clock i cur dat [l] c = Some c"
  by (simp add: stream_lines.simps(2))

lemma data_prefix: "l = take k (data_line ev) \<Longrightarrow> take 4 l \<noteq> ''id: ''"
  by (cases k) (auto simp: data_line_def)

lemma stream_cut_data:
  assumes "good_event ev" and "k < length (data_line ev) + 2"
  shows "scan_lines (take k (data_line ev @ [CHR 0x0A, CHR 0x0A])) = (fst (scan_lines (take k (data_line ev @ [CHR 0x0A, CHR 0x0A]))), False)"
    and "stream_lines lib clock i cur dat (fst (scan_lines (take k (data_line ev @ [CHR 0x0A, CHR 0x0A])))) c = Some c"
proof -
  have pl: "plain_line (data_line ev)" using assms(1) by (simp add: good_event_def data_line_def)
  have ne: "data_line ev \<noteq> []" by (simp add: data_line_def)
  consider (inside) "k \<le> length (data_line ev)" | (line) "k = length (data_line ev) + 1" using assms(2) by linarith
  then have "scan_lines (take k (data_line ev @ [CHR 0x0A, CHR 0x0A])) = ((if k = 0 then [] else [take k (data_line ev)]), False)"
  proof cases
    case inside
    then have t: "take k (data_line ev @ [CHR 0x0A, CHR 0x0A]) = take k (data_line ev)" by simp
    show ?thesis unfolding t using scan_lines_last [OF plain_take [OF pl, of k]] ne by (cases "k = 0") auto
  next
    case line
    then show ?thesis using scan_lines_line [OF pl, of "[]"] by simp
  qed
  then show "scan_lines (take k (data_line ev @ [CHR 0x0A, CHR 0x0A])) = (fst (scan_lines (take k (data_line ev @ [CHR 0x0A, CHR 0x0A]))), False)"
    and "stream_lines lib clock i cur dat (fst (scan_lines (take k (data_line ev @ [CHR 0x0A, CHR 0x0A])))) c = Some c"
    using stream_stray_line [OF _ data_prefix [OF refl], of k ev lib clock i cur dat c] ne by (auto split: if_splits)
qed

lemma large_data_line:
  assumes "sse_max_payload < length d"
  shows "scan_lines (data_line (bc_event (q, now, d)) @ CHR 0x0A # s) = ([], True)"
proof (rule scan_lines_too_long)
  let ?e = "EncodeToString (frame_bytes q now d)"
  show "CHR 0x0A \<notin> set (data_line (bc_event (q, now, d)))"
    using EncodeToString_plain [of "CHR 0x0A" "frame_bytes q now d"] by (auto simp: data_line_def bc_event_def)
  have "49149 div 3 \<le> (26 + length d) div 3" using assms by (intro div_le_mono) (simp add: sse_max_payload_def)
  then show "MaxScanTokenSize \<le> length (data_line (bc_event (q, now, d)))"
    by (simp add: data_line_def bc_event_def length_EncodeToString MaxScanTokenSize_def)
qed

text \<open>What the client does on whole events followed by an event of which only the identifier can be used.\<close>

lemma client_misses_event:
  assumes "wf_client c" and "list_all fit_msg ms"
    and "body = concat (map (event_text \<circ> bc_event) ms) @ id_line (bc_event m) @ CHR 0x0A # rest"
    and "\<And>c i cur dat. stream_lines lib clock i cur dat (fst (scan_lines rest)) c = Some c"
  shows "\<exists>c'. connectStream lib clock (length body) body c = Some (c', snd (scan_lines rest)) \<and>
     cs_lastEventID c' = fst m \<and> cs_calls c' = cs_calls c @ map (sse_call (cs_connID c) clock) (enumerate 0 ms)"
proof -
  let ?s = "id_line (bc_event m) @ CHR 0x0A # rest"
  have g: "list_all good_event (map bc_event ms)" using assms(2) good_fit by (auto simp: list_all_iff)
  have sc: "scan_lines ?s = (id_line (bc_event m) # fst (scan_lines rest), snd (scan_lines rest))"
    by (rule scan_lines_line [OF plain_id_line])
  have id: "ev_id (bc_event m) = fst m" by (simp add: bc_event_def split_beta)
  obtain c1 where c1: "run_opt (client_event lib clock) c (enumerate 0 (map bc_event ms)) = Some c1"
     "cs_calls c1 = cs_calls c @ map (sse_call (cs_connID c) clock) (enumerate 0 ms)"
    using client_bc_events [OF assms(1), of lib clock 0 ms] by blast
  have "connectStream lib clock (length body) body c = Some (c1\<lparr>cs_lastEventID := fst m\<rparr>, snd (scan_lines rest))"
    using connectStream_events [OF g, of body ?s "length body" lib clock c] assms(3) c1(1)
    by (simp add: sc stream_id_line assms(4) id)
  then show ?thesis using c1(2) by auto
qed

section \<open>Properties\<close>

text \<open>Property C24. Every broadcast that finds room in a stream's channel reaches the client, once and in order: after any
  interleaving of broadcasts (of at most 49122 bytes each), registrations, new streams of other clients, messages
  to them and turns of the handlers of the streams open at the start (no client leaves meanwhile, and the handlers of
  streams opened later take no turn), 256 more turns of the stream's handler have written everything, and the client that
  reads the response hands its handler exactly the frames of the accepted broadcasts, in the order of the
  broadcasts; all of them when there were no more than 256.\<close>

theorem sse_broadcast_reaches_client:
  assumes "range_order ord" and "sse_wf s" and "cid \<noteq> []" and "SSE_handleEvents True cid [] s = Some (200, s1)"
    and "p = length (sse_store s)" and "list_all (steady (Suc p) cid) es" and "unat (sse_seq s1) + length es < 2 ^ 64"
    and "wf_client c"
  shows "\<exists>s' ms c'. run_opt (sse_step ord) s1 (es @ replicate sseChanCap (Turns TakesEvent p)) = Some s' \<and>
     subseq ms (sse_log ord s1 es) \<and> (length (sse_log ord s1 es) \<le> sseChanCap \<longrightarrow> ms = sse_log ord s1 es) \<and>
     connectStream lib clock (length (stream_text (sse_store s' ! p))) (stream_text (sse_store s' ! p)) c = Some (c', False) \<and>
     cs_calls c' = cs_calls c @ map (sse_call (cs_connID c) clock) (enumerate 0 ms)"
proof -
  have o: "some_order ord = ord" using assms(1) by (rule some_order)
  have s1: "sse_wf s1" "sse_streams s1 = sm_Store (sse_streams s) cid p"
    "sse_store s1 = sse_store s @ [\<lparr>ss_id = cid, ss_ch = [], ss_cancelled = False, ss_returned = False, ss_replayed = [], ss_events = []\<rparr>]"
    using SSE_handleEvents_ok [OF assms(2), of cid "[]"] assms(3-5) by auto
  have live: "sse_live p s1" and id: "ss_id (sse_store s1 ! p) = cid" and v1: "sse_view p s1 = ([], [])"
    using s1 assms(5) by (auto simp: sse_live_def sync_map sse_view_def)
  have ok: "sse_fan.oks p ord s1 es" "sse_existing ord s1 es"
    using steady_oks [OF live id _ assms(6), of ord] s1(3) assms(5) o by auto
  obtain s2 where s2: "run_opt (sse_step (some_order ord)) s1 es = Some s2" "sse_live p s2"
    using sse_fan.run_view [OF live ok(1)] by blast
  obtain acc where acc: "snd (sse_view p s2) @ fst (sse_view p s2) = acc" "subseq acc (map bc_event (sse_log ord s1 es))"
      "length (sse_log ord s1 es) \<le> sseChanCap \<longrightarrow> acc = map bc_event (sse_log ord s1 es)"
    using sse_fan.run_written [OF live ok(1) s2(1)] v1 unfolding sse_trace unfolding o by auto
  have "length (fst (sse_view p s2)) \<le> sseChanCap" using sse_fan.run_bounded [OF live ok(1) s2(1)] v1 by simp
  moreover have tk: "\<And>s. sse_live p s \<Longrightarrow> sse_ok p s (Turns TakesEvent p) \<and> sse_act p s (Turns TakesEvent p) = Some Drain"
    by (auto simp: sse_ok_def sse_act_def sse_live_def)
  ultimately obtain s' where s': "run_opt (sse_step (some_order ord)) s2 (replicate sseChanCap (Turns TakesEvent p)) = Some s'"
      "sse_view p s' = ([], acc)"
    using sse_fan.drains [of p "Turns TakesEvent p" s2 sseChanCap ord] s2(2) acc(1) by auto
  obtain ms where ms: "subseq ms (sse_log ord s1 es)" "acc = map bc_event ms" "length (sse_log ord s1 es) \<le> sseChanCap \<longrightarrow> ms = sse_log ord s1 es"
    using acc(2,3) subseq_map_D [OF acc(2)] by (metis subseq_order.order_refl)
  have "list_all (\<lambda>e. case e of Casts now d \<Rightarrow> length d \<le> sse_max_payload | _ \<Rightarrow> True) es"
    using assms(6) by (auto simp: list_all_iff steady_def split: sse_action.splits)
  then have fit: "list_all fit_msg ms" using sse_log_fits [OF s1(1) assms(1) ok(2) assms(7)] ms(1) by (auto intro: subseq_all)
  have run: "run_opt (sse_step ord) s1 (es @ replicate sseChanCap (Turns TakesEvent p)) = Some s'"
    using s2(1) s'(1) o by (simp add: run_opt_append)
  have "sse_fan.oks p ord s2 (replicate sseChanCap (Turns TakesEvent p))" using sse_fan.drain_oks [OF tk s2(2)] .
  then have rep: "ss_replayed (sse_store s' ! p) = []"
    using sse_run_replayed [OF s2(2) _ s'(1)] sse_run_replayed [OF live ok(1) s2(1)] s1(3) assms(5) by simp
  have "stream_text (sse_store s' ! p) = concat (map (event_text \<circ> bc_event) ms)"
    using s'(2) ms(2) rep by (simp add: stream_text_def sse_view_def)
  then show ?thesis using client_reads_broadcasts [OF assms(8) fit, of lib clock] run ms(1,3) by auto
qed

definition sample_client :: "nat SSEClient" where
  "sample_client = (NewSSEClient True None)\<lparr>cs_connID := ''sse-1''\<rparr>"

theorem sse_broadcast_reaches_client_witness:
  "\<exists>s1 s' c'. SSE_handleEvents True ''sse-1'' [] (NewSSEServer ''a'') = Some (200, s1) \<and>
     run_opt (sse_step rev) s1 ([Casts 5 [1], Registers, Turns TakesEvent 0, Casts 6 [2]] @ replicate sseChanCap (Turns TakesEvent 0)) = Some s' \<and>
     connectStream count_lib (\<lambda>i. 9) (length (stream_text (sse_store s' ! 0))) (stream_text (sse_store s' ! 0)) sample_client = Some (c', False) \<and>
     cs_calls c' = [(''sse-1'', frame_bytes 1 5 [1], 9), (''sse-1'', frame_bytes 3 6 [2], 9)]"
proof -
  let ?s = "NewSSEServer ''a''" and ?es = "[Casts 5 [1], Registers, Turns TakesEvent 0, Casts 6 [2]]"
  obtain s1 where s1: "SSE_handleEvents True ''sse-1'' [] ?s = Some (200, s1)" "sse_seq s1 = 0" "length (sse_store s1) = 1" "sse_wf s1"
    using SSE_handleEvents_ok [OF sse_wf_New [of "''a''"], of "''sse-1''" "[]"] by (auto simp: SSE_handleEvents_def handleEvents_replay_def handleEvents_store_def NewSSEServer_def Let_def)
  have st: "list_all (steady (Suc 0) ''sse-1'') ?es" by (simp add: steady_def sse_max_payload_def)
  have wc: "wf_client sample_client" by (simp add: wf_client_def sample_client_def NewSSEClient_def)
  obtain s2 where s2: "SSE_Broadcast rev 5 [1] s1 = Some s2" "sse_wf s2" "sse_seq s2 = 1" "length (sse_store s2) = 1"
    using SSE_Broadcast_ok [OF s1(4) range_order_rev, of 5 "[1]"] s1(2,3) by auto
  let ?s3 = "snd (SSE_handleRegister s2)"
  have s3: "sse_wf ?s3" "sse_seq ?s3 = 2" "length (sse_store ?s3) = 1"
    using sse_step_ok [OF s2(2) range_order_rev, of Registers] s2(3,4) by (simp_all add: sse_exists_def SSE_handleRegister_def Let_def)
  obtain s4 where s4: "SSE_handler_turn TakesEvent 0 ?s3 = Some s4" "sse_wf s4" "sse_seq s4 = 2"
    using SSE_handler_turn_ok [OF s3(1), of 0 TakesEvent] s3 by auto
  have "sse_log rev s1 ?es = [(1, 5, [1]), (3, 6, [2])]"
    using s1(2) s2(1) s4 by (auto split: option.splits)
  then show ?thesis
    using sse_broadcast_reaches_client [OF range_order_rev sse_wf_New _ s1(1) _ st _ wc, where lib = count_lib and clock = "\<lambda>i. 9"] s1(1,2)
    by (auto simp: NewSSEServer_def sseChanCap_def sample_client_def NewSSEClient_def sse_call_def)
qed



text \<open>A broadcast that is recorded before the replay and offered after the registration reaches the client twice: it
  is in the replay and in the channel.\<close>

lemma sse_broadcast_delivered_twice:
  assumes "range_order ord" and "sse_wf s" and "cid \<noteq> []" and "lastID \<noteq> []" and "Sscanf_u64 lastID = Some k"
    and "k < sse_seq s + 1" and "p = length (sse_store s)"
  shows "\<exists>ev s1 body s2. Broadcast_record now d s = Some (ev, s1) \<and>
     handleEvents_replay True cid lastID s1 = Some (200, Some (cid, body), s1) \<and>
     Broadcast_range ord ev (handleEvents_store cid body s1) = Some s2 \<and>
     (\<exists>before. body = before @ event_text ev) \<and> ss_ch (sse_store s2 ! p) = [ev]"
proof -
  let ?ev = "bc_of s now d"
  have "wf_replay (sse_replay s)" using assms(2) by (simp add: sse_wf_def)
  then obtain rb where rb: "addToReplay ?ev (sse_replay s) = Some rb" "wf_replay rb"
      "replay_list rb = last_n replayBufSize (replay_list (sse_replay s) @ [?ev])" using addToReplay_list by blast
  let ?s1 = "s\<lparr>sse_seq := sse_seq s + 1, sse_replay := rb, sse_sent := sse_sent s + 1, sse_sentBytes := sse_sentBytes s + of_nat (length d)\<rparr>"
  have r: "Broadcast_record now d s = Some (?ev, ?s1)"
    using rb(1) by (simp add: Broadcast_record_def Let_def bc_of_def bc_event_def)
  have "\<exists>zs. replay_list rb = zs @ [?ev]" by (auto simp: rb(3) last_n_def replayBufSize_def)
  then obtain zs where zs: "replay_list rb = zs @ [?ev]" by blast
  let ?body = "concat (map event_text (filter (\<lambda>ev. ev_id ev > k) zs)) @ event_text ?ev"
  have h: "handleEvents_replay True cid lastID ?s1 = Some (200, Some (cid, ?body), ?s1)"
    using assms(3-6) by (simp add: handleEvents_replay_def replayFrom_eq [OF rb(2)] zs bc_of_def bc_event_def)
  let ?s2 = "handleEvents_store cid ?body ?s1"
  have w1: "sse_wf ?s1" using assms(2) rb(2) by (simp add: sse_wf_def)
  have w2: "sse_wf ?s2"
    using w1 by (auto simp: sse_wf_def handleEvents_store_def sync_map nth_append intro: less_SucI split: if_splits)
  have reg: "p \<in> set (sm_values ord (sse_streams ?s2))"
    unfolding sse_values(1) [OF w2 assms(1)] using assms(7) by (simp add: handleEvents_store_def sync_map)
  obtain s3 where s3: "sse_offer_all ?ev (sm_values ord (sse_streams ?s2)) ?s2 = Some s3"
      "sse_store s3 ! p = fst (stream_offer (sse_store ?s2 ! p) ?ev)"
    using sse_offer_all_ok [of "sm_values ord (sse_streams ?s2)" ?s2 ?ev] sse_values [OF w2 assms(1)] reg by auto
  have "ss_ch (sse_store s3 ! p) = [?ev]"
    unfolding s3(2) using assms(7) by (simp add: handleEvents_store_def stream_offer_eq sseChanCap_def)
  then show ?thesis using r h s3(1) by (intro exI conjI) (assumption, assumption, simp add: Broadcast_range_def, simp_all)
qed

text \<open>Property C26. A broadcast of more than 49122 bytes never reaches a client of this transport: its line exceeds the line
  buffer of the client's scanner, reading ends with an error after the frames before it, and because the client has
  already noted the identifier, the replay of the reconnect does not contain it either, whatever the ring holds.\<close>

theorem sse_large_broadcast_lost:
  assumes "wf_client c" and "list_all fit_msg ms" and "sse_max_payload < length d"
    and "body = concat (map (event_text \<circ> bc_event) ms) @ event_text (bc_event (q, now, d)) @ after"
    and "wf_replay rb"
  shows "\<exists>c'. connectStream lib clock (length body) body c = Some (c', True) \<and>
     cs_calls c' = cs_calls c @ map (sse_call (cs_connID c) clock) (enumerate 0 ms) \<and>
     replayFrom rb (cs_lastEventID c') = Some (concat (map event_text (filter (\<lambda>ev. ev_id ev > q) (replay_list rb))))"
proof -
  let ?rest = "data_line (bc_event (q, now, d)) @ CHR 0x0A # CHR 0x0A # after"
  have sc: "scan_lines ?rest = ([], True)" by (rule large_data_line [OF assms(3)])
  have "body = concat (map (event_text \<circ> bc_event) ms) @ id_line (bc_event (q, now, d)) @ CHR 0x0A # ?rest"
    unfolding assms(4) event_text_lines by simp
  from client_misses_event [OF assms(1,2) this, of lib clock] replayFrom_eq [OF assms(5)] show ?thesis
    by (auto simp: sc)
qed

theorem sse_large_broadcast_lost_witness:
  "\<exists>c'. connectStream count_lib (\<lambda>i. 9) (length (event_text (bc_event (1, 5, replicate 50000 0)))) (event_text (bc_event (1, 5, replicate 50000 0))) sample_client
     = Some (c', True) \<and> cs_calls c' = [] \<and> replayFrom zero_replay (cs_lastEventID c') = Some []"
proof -
  have wc: "wf_client sample_client" by (simp add: wf_client_def sample_client_def NewSSEClient_def)
  have "sse_max_payload < length (replicate 50000 (0 :: u8))" by (simp add: sse_max_payload_def)
  from sse_large_broadcast_lost [OF wc, of "[]", OF _ this _ wf_zero_replay(1), where after = "[]" and q = 1 and now = 5 and lib = count_lib and clock = "\<lambda>i. 9"]
  show ?thesis using wf_zero_replay(2) by (auto simp: sample_client_def NewSSEClient_def)
qed

text \<open>A connection that breaks inside an event, after its identifier line, loses the event for good: the client
  has stored the identifier before the event is complete, so nothing is handed to the handler for it and the reconnect
  asks only for later events, although the ring still holds it.\<close>

lemma sse_cut_event_lost:
  assumes "wf_client c" and "list_all fit_msg ms" and "fit_msg m"
    and "length (id_line (bc_event m)) < k" and "k < length (event_text (bc_event m))"
    and "body = concat (map (event_text \<circ> bc_event) ms) @ take k (event_text (bc_event m))"
    and "wf_replay rb"
  shows "\<exists>c'. connectStream lib clock (length body) body c = Some (c', False) \<and>
     cs_calls c' = cs_calls c @ map (sse_call (cs_connID c) clock) (enumerate 0 ms) \<and>
     replayFrom rb (cs_lastEventID c') = Some (concat (map event_text (filter (\<lambda>ev. ev_id ev > fst m) (replay_list rb))))"
proof -
  let ?ev = "bc_event m" and ?j = "k - length (id_line (bc_event m)) - 1"
  let ?rest = "take ?j (data_line ?ev @ [CHR 0x0A, CHR 0x0A])"
  have j: "?j < length (data_line ?ev) + 2" using assms(4,5) by (simp add: event_text_lines)
  have g: "good_event ?ev" using assms(3) by (rule good_fit)
  obtain n where n: "k = length (id_line ?ev) + Suc n" using assms(4) less_imp_Suc_add by fastforce
  have "take k (event_text ?ev) = id_line ?ev @ CHR 0x0A # ?rest"
    unfolding event_text_lines n by simp
  then have b: "body = concat (map (event_text \<circ> bc_event) ms) @ id_line ?ev @ CHR 0x0A # ?rest" unfolding assms(6) by (rule arg_cong)
  have "snd (scan_lines ?rest) = False" using stream_cut_data(1) [OF g j] by (metis snd_conv)
  with client_misses_event [OF assms(1,2) b, of lib clock, OF stream_cut_data(2) [OF g j]] obtain c' where
    "connectStream lib clock (length body) body c = Some (c', False)" "cs_lastEventID c' = fst m"
    "cs_calls c' = cs_calls c @ map (sse_call (cs_connID c) clock) (enumerate 0 ms)" by metis
  then show ?thesis using replayFrom_eq [OF assms(7), of "fst m"] by (intro exI [of _ c']) simp
qed

text \<open>Property C27. A client that reconnects before the handler of its broken connection has returned loses its stream: the old
  handler deletes the entry of the new stream, which keeps its open connection but is no longer counted and gets
  none of the broadcasts that follow.\<close>

theorem sse_reconnect_race:
  assumes "range_order ord" and "sse_wf s" and "sm_Load (sse_streams s) cid = Some p" and "cid \<noteq> []"
    and "q = length (sse_store s)"
  shows "\<exists>s'. run_opt (sse_step ord) s [Leaves p, Opens cid [], Turns SeesCancel p, Casts now d] = Some s' \<and>
     \<not> ss_returned (sse_store s' ! q) \<and> \<not> ss_cancelled (sse_store s' ! q) \<and>
     sm_Load (sse_streams s') cid = None \<and> ss_ch (sse_store s' ! q) = [] \<and> ss_events (sse_store s' ! q) = []"
proof -
  have p: "p < length (sse_store s)" "ss_id (sse_store s ! p) = cid" "\<not> ss_returned (sse_store s ! p)"
    using sse_wf_registered [OF assms(2,3)] by auto
  let ?s1 = "peer_gone p s"
  have s1: "sse_wf ?s1" using sse_step_ok [OF assms(2,1), of "Leaves p"] p(1) by (auto simp: sse_exists_def)
  obtain s2 where s2: "SSE_handleEvents True cid [] ?s1 = Some (200, s2)" "sse_wf s2"
     "sse_streams s2 = sm_Store (sse_streams s) cid q"
     "sse_store s2 = sse_store ?s1 @ [\<lparr>ss_id = cid, ss_ch = [], ss_cancelled = False, ss_returned = False, ss_replayed = [], ss_events = []\<rparr>]"
    using SSE_handleEvents_ok [OF s1, of cid "[]"] assms(4,5) by (auto simp: peer_gone_def)
  let ?s3 = "handler_return p s2"
  have l: "length (sse_store ?s1) = length (sse_store s)" by (simp add: peer_gone_def)
  have n2: "sse_store s2 ! p = (sse_store s ! p)\<lparr>ss_cancelled := True\<rparr>" "p < length (sse_store s2)"
    using s2(4) p(1) l by (simp_all add: nth_append peer_gone_def)
  have t: "SSE_handler_turn SeesCancel p s2 = Some ?s3" using n2 p(3) by (simp add: SSE_handler_turn_def Let_def)
  have s3: "sse_wf ?s3" by (rule sse_wf_return [OF s2(2) n2(2)])
  have q3: "sse_store ?s3 ! q = \<lparr>ss_id = cid, ss_ch = [], ss_cancelled = False, ss_returned = False, ss_replayed = [], ss_events = []\<rparr>"
    "q < length (sse_store ?s3)" "sm_Load (sse_streams ?s3) cid = None"
    using s2(3,4) p l assms(5) n2 by (simp_all add: handler_return_def Let_def nth_append sync_map)
  obtain s4 where s4: "SSE_Broadcast ord now d ?s3 = Some s4" "sse_streams s4 = sse_streams ?s3" "sse_store s4 ! q = sse_store ?s3 ! q"
    using SSE_Broadcast_ok [OF s3 assms(1), of now d] q3 by auto
  show ?thesis using s2(1) t s4 q3 by simp
qed

theorem sse_reconnect_race_witness:
  "\<exists>s s'. SSE_handleEvents True ''sse-1'' [] (NewSSEServer ''a'') = Some (200, s) \<and>
     run_opt (sse_step rev) s [Leaves 0, Opens ''sse-1'' [], Turns SeesCancel 0, Casts 5 [1]] = Some s' \<and>
     sm_Load (sse_streams s') ''sse-1'' = None \<and> ss_ch (sse_store s' ! 1) = []"
proof -
  obtain s where s: "SSE_handleEvents True ''sse-1'' [] (NewSSEServer ''a'') = Some (200, s)" "sse_wf s"
      "sm_Load (sse_streams s) ''sse-1'' = Some 0" "length (sse_store s) = 1"
    using SSE_handleEvents_ok [OF sse_wf_New [of "''a''"], of "''sse-1''" "[]"] by (auto simp: NewSSEServer_def sync_map)
  then show ?thesis using sse_reconnect_race [OF range_order_rev s(2,3) _ refl, of 5 "[1]"] by auto
qed

text \<open>Registrations take sequence numbers from the counter of the broadcasts: a client that registers between two
  broadcasts makes every other client see a gap of one.\<close>

lemma sse_registration_makes_gap:
  assumes "range_order ord" and "sse_wf s"
  shows "sse_log ord s [Casts t d, Registers, Casts t' d'] = [(sse_seq s + 1, t, d), (sse_seq s + 3, t', d')]"
proof -
  obtain s1 where s1: "SSE_Broadcast ord t d s = Some s1" "sse_seq s1 = sse_seq s + 1"
    using SSE_Broadcast_ok [OF assms(2,1), of t d] by blast
  then show ?thesis by (auto simp: SSE_handleRegister_def Let_def algebra_simps split: option.splits)
qed

text \<open>A failed \<open>Start\<close> leaves the server marked as started, and a second \<open>Stop\<close> panics.\<close>

lemma sse_failed_start_is_final:
  assumes "\<not> sse_started s"
  shows "fst (SSE_Start False s) = Inl (SSEListen (sse_addr s))"
    and "fst (SSE_Start True (snd (SSE_Start False s))) = Inl SSEAlreadyStarted"
  using assms by (simp_all add: SSE_Start_def Let_def)

lemma sse_stop_twice: "SSE_Stop s = Some s' \<Longrightarrow> SSE_Stop s' = None"
  by (auto simp: SSE_Stop_def split: if_splits)

text \<open>The back-off doubles up to 12.8 seconds.\<close>

lemma receiveLoop_backoff:
  "receiveLoop lib b xs c = Some (c', ws) \<Longrightarrow> \<exists>k. b = 100 * 2 ^ k \<and> k \<le> 7 \<Longrightarrow> \<forall>w \<in> set ws. \<exists>k. w = 100 * 2 ^ k \<and> k \<le> 7"
proof (induction lib b xs c arbitrary: ws rule: receiveLoop.induct)
  case (2 lib b x xs c)
  obtain k where k: "b = 100 * 2 ^ k" "k \<le> 7" using 2(4) by blast
  have nb: "\<exists>k. (if b < 10000 then 2 * b else b) = 100 * 2 ^ k \<and> k \<le> 7"
  proof (cases "b < 10000")
    case True
    then have "k \<noteq> 7" using k by auto
    then show ?thesis using k True by (intro exI [of _ "Suc k"]) auto
  qed (use k in auto)
  have hundred: "\<exists>k. (100 :: nat) = 100 * 2 ^ k \<and> k \<le> 7" by (intro exI [of _ 0]) simp
  obtain c1 err where c1: "(case x of Inl _ \<Rightarrow> Some (c, True) | Inr (clock, body) \<Rightarrow> connectStream lib clock (length body) body c) = Some (c1, err)"
    using 2(3) by (auto simp: bind_eq_Some_conv)
  show ?case
  proof (cases err)
    case True
    then obtain ws' where "receiveLoop lib (if b < 10000 then 2 * b else b) xs c1 = Some (c', ws')" "ws = b # ws'"
      using 2(3) c1 by (auto simp: bind_eq_Some_conv)
    then show ?thesis using 2(1) [OF c1 refl True _ nb] k by auto
  next
    case False
    then have "receiveLoop lib 100 xs c1 = Some (c', ws)" using 2(3) c1 by simp
    then show ?thesis using 2(2) [OF c1 refl False _ hundred] by simp
  qed
qed simp

end
