(* ===== verification/Ws_Base.thy ===== *)
theory Ws_Base
  imports Wire Registry Transport_Base Fanout
begin

text \<open>
  What the three WebSocket servers of \<^verbatim>\<open>internal/websocket\<close> have in common: the state of a server and of
  its connections, and the operations whose code is the same in the three packages up to names and
  constants. The packages' own operations, in \<open>Ws_Servers\<close>, are instances of these; only their read pumps
  differ, and what the rest relies on of a read pump is the locale \<open>ws_reader\<close>.

  Connections live in a store (a list), the registry holds indices of it. A connection's output is the list
  of WebSocket frames written to it. Goroutines are turns: of the writer, whose \<open>select\<close> picks a case, and of
  the reader. A turn is one step, the network write together with the counters updated after it, and so is a
  broadcast: what is stated about a run holds between steps, and two broadcasts that overlap in time, whose
  frames may be queued in the opposite order of their numbers, are not covered. \<open>None\<close> is a panic.
\<close>

section \<open>State\<close>

datatype ws_frame = BinaryFrame bytes | TextFrame bytes | PingFrame bytes | PongFrame bytes | CloseFrame

datatype ws_phase = AtCheck | AtRead | Returned

record ws_conn =
  wc_id :: ConnID
  wc_ch :: "bytes list"
  wc_cancelled :: bool
  wc_closed :: bool
  wc_writer :: bool        \<comment> \<open>whether the write pump runs\<close>
  wc_reader :: ws_phase
  wc_out :: "ws_frame list"

record ws_server =
  ws_base :: BaseTransport
  ws_addr :: string
  ws_cfg :: TransportConfig
  ws_bufs :: "(int \<times> int) option"   \<comment> \<open>buffer sizes of the upgrader\<close>
  ws_registry :: "nat Registry"
  ws_serving :: bool      \<comment> \<open>whether the HTTP server accepts connections\<close>
  ws_seq :: u64
  ws_sent :: u64
  ws_recv :: u64
  ws_bytesSent :: u64
  ws_bytesRecv :: u64
  ws_calls :: "handler_call list"
  ws_conns :: "ws_conn list"

datatype ws_error = WsErr transportError | ShutdownErr

section \<open>Operations\<close>

definition ws_New :: "string \<Rightarrow> (int \<times> int) option \<Rightarrow> TransportConfig \<Rightarrow> ws_server" where
  "ws_New protocol bufs cfg =
     \<lparr>ws_base = SetProtocol zero_BaseTransport protocol, ws_addr = cfg_ListenAddr cfg, ws_cfg = cfg, ws_bufs = bufs,
      ws_registry = zero_Registry, ws_serving = False, ws_seq = 0, ws_sent = 0, ws_recv = 0, ws_bytesSent = 0,
      ws_bytesRecv = 0, ws_calls = [], ws_conns = []\<rparr>"

text \<open>\<open>Start\<close> listens in a goroutine that only logs an error; \<open>listens\<close> says whether it succeeds.\<close>

definition ws_Start :: "i64 \<Rightarrow> bool \<Rightarrow> ws_server \<Rightarrow> (ws_error + unit) \<times> ws_server" where
  "ws_Start now listens s =
     (if IsStarted (ws_base s) then (Inl (WsErr ErrAlreadyStarted), s)
      else (Inr (), s\<lparr>ws_base := MarkStarted (ws_base s) now, ws_serving := listens\<rparr>))"

text \<open>\<open>http.Server.Shutdown\<close> stops accepting and neither closes nor waits for hijacked connections, which WebSocket
  connections are; \<open>ok\<close> says whether it returns nil.\<close>

definition ws_Stop :: "bool \<Rightarrow> ws_server \<Rightarrow> (ws_error + unit) \<times> ws_server" where
  "ws_Stop ok s =
     (if \<not> IsStarted (ws_base s) then (Inl (WsErr ErrNotStarted), s)
      else (if ok then Inr () else Inl ShutdownErr, s\<lparr>ws_base := MarkStopped (ws_base s), ws_serving := False\<rparr>))"

text \<open>\<open>serveWS\<close> up to its read pump: \<open>upgraded\<close> says whether the handshake succeeds, \<open>cid\<close> is the new UUID and \<open>ph\<close> where the
  read pump begins.\<close>

definition ws_serve :: "ws_phase \<Rightarrow> bool \<Rightarrow> ConnID \<Rightarrow> ws_server \<Rightarrow> ws_server option" where
  "ws_serve ph upgraded cid s =
     (if \<not> upgraded then Some s
      else do {
        let gc = \<lparr>wc_id = cid, wc_ch = [], wc_cancelled = False, wc_closed = False, wc_writer = True, wc_reader = ph, wc_out = []\<rparr>;
        reg \<leftarrow> Registry_Add (ws_registry s) cid (length (ws_conns s));
        Some (s\<lparr>ws_registry := reg, ws_calls := ws_calls s @ calls_if (cfg_OnConnect (ws_cfg s)) (CallConnect cid),
                ws_conns := ws_conns s @ [gc]\<rparr>) })"

text \<open>The end of \<open>serveWS\<close>, once the read pump has returned.\<close>

definition ws_leave :: "nat \<Rightarrow> ws_server \<Rightarrow> ws_server" where
  "ws_leave p s =
     (let gc = ws_conns s ! p in
      s\<lparr>ws_conns := (ws_conns s)[p := gc\<lparr>wc_cancelled := True, wc_closed := True, wc_reader := Returned\<rparr>],
        ws_registry := Registry_Remove (ws_registry s) (wc_id gc),
        ws_calls := ws_calls s @ calls_if (cfg_OnDisconnect (ws_cfg s)) (CallDisconnect (wc_id gc))\<rparr>)"

definition ws_received :: "nat \<Rightarrow> bytes \<Rightarrow> i64 \<Rightarrow> ws_server \<Rightarrow> ws_server" where
  "ws_received p data recvAt s =
     s\<lparr>ws_recv := ws_recv s + 1, ws_bytesRecv := ws_bytesRecv s + of_nat (length data),
       ws_calls := ws_calls s @ calls_if (cfg_OnRecv (ws_cfg s)) (CallRecv (wc_id (ws_conns s ! p)) data recvAt)\<rparr>"

definition set_reader :: "ws_phase \<Rightarrow> nat \<Rightarrow> ws_server \<Rightarrow> ws_server" where
  "set_reader ph p s = s\<lparr>ws_conns := (ws_conns s)[p := (ws_conns s ! p)\<lparr>wc_reader := ph\<rparr>]\<rparr>"

text \<open>A turn of the write pump.\<close>

definition ws_write_turn :: "pick \<Rightarrow> nat \<Rightarrow> ws_server \<Rightarrow> ws_server option" where
  "ws_write_turn pk p s =
     (if p < length (ws_conns s) then
        let gc = ws_conns s ! p; put = (\<lambda>gc. (ws_conns s)[p := gc]) in
        if \<not> wc_writer gc then Some s
        else case pk of
          PickDone \<Rightarrow> Some (if wc_cancelled gc then s\<lparr>ws_conns := put (gc\<lparr>wc_writer := False\<rparr>)\<rparr> else s)
        | PickData ok \<Rightarrow> (case try_recv (wc_ch gc) of
            None \<Rightarrow> Some s
          | Some (data, ch) \<Rightarrow>
              Some (if ok
                    then s\<lparr>ws_conns := put (gc\<lparr>wc_ch := ch, wc_out := wc_out gc @ [BinaryFrame data]\<rparr>),
                           ws_sent := ws_sent s + 1, ws_bytesSent := ws_bytesSent s + of_nat (length data)\<rparr>
                    else s\<lparr>ws_conns := put (gc\<lparr>wc_ch := ch, wc_cancelled := True, wc_writer := False\<rparr>)\<rparr>))
        | PickTick ok \<Rightarrow>
              Some (if ok then s\<lparr>ws_conns := put (gc\<lparr>wc_out := wc_out gc @ [PingFrame []]\<rparr>)\<rparr>
                    else s\<lparr>ws_conns := put (gc\<lparr>wc_cancelled := True, wc_writer := False\<rparr>)\<rparr>)
      else None)"

definition wsc_offer :: "nat \<Rightarrow> ws_conn \<Rightarrow> bytes \<Rightarrow> ws_conn \<times> bool" where
  "wsc_offer cp gc m = (case try_send cp (wc_ch gc) m of (ch, ok) \<Rightarrow> (gc\<lparr>wc_ch := ch\<rparr>, ok))"

fun ws_offer_all :: "nat \<Rightarrow> bytes \<Rightarrow> nat list \<Rightarrow> ws_server \<Rightarrow> ws_server option" where
  "ws_offer_all cp m [] s = Some s"
| "ws_offer_all cp m (p # ps) s =
     (if p < length (ws_conns s)
      then ws_offer_all cp m ps (s\<lparr>ws_conns := (ws_conns s)[p := fst (wsc_offer cp (ws_conns s ! p) m)]\<rparr>)
      else None)"

type_synonym ws_order = "(ConnID \<times> nat) list \<Rightarrow> (ConnID \<times> nat) list"

definition ws_Broadcast :: "nat \<Rightarrow> ws_order \<Rightarrow> i64 \<Rightarrow> bytes \<Rightarrow> ws_server \<Rightarrow> ((ws_error + unit) \<times> ws_server) option" where
  "ws_Broadcast cp ord now data s =
     (if \<not> IsStarted (ws_base s) then Some (Inl (WsErr ErrNotStarted), s)
      else do {
        let s = s\<lparr>ws_seq := ws_seq s + 1\<rparr>;
        frame \<leftarrow> Encode (ws_seq s) now data;
        s \<leftarrow> ws_offer_all cp frame (Registry_Snapshot ord (ws_registry s)) s;
        Some (Inr (), s) })"

definition ws_Send :: "nat \<Rightarrow> ConnID \<Rightarrow> bytes \<Rightarrow> ws_server \<Rightarrow> ((ws_error + unit) \<times> ws_server) option" where
  "ws_Send cp cid data s =
     (case Registry_Get (ws_registry s) cid of
        None \<Rightarrow> Some (Inl (WsErr ErrClientNotFound), s)
      | Some p \<Rightarrow>
          if p < length (ws_conns s) then
            case wsc_offer cp (ws_conns s ! p) data of (gc, ok) \<Rightarrow>
              Some (if ok then Inr () else Inl (WsErr ErrBroadcastFailed), s\<lparr>ws_conns := (ws_conns s)[p := gc]\<rparr>)
          else None)"

definition ws_Connections :: "ws_server \<Rightarrow> nat" where
  "ws_Connections s = Registry_Len (ws_registry s)"

definition ws_Stats :: "i64 \<Rightarrow> ws_server \<Rightarrow> Stats" where
  "ws_Stats now s =
     (BaseStats (ws_base s) now)\<lparr>st_Connections := int (Registry_Len (ws_registry s)), st_Sent := ws_sent s,
        st_Received := ws_recv s, st_BytesSent := ws_bytesSent s, st_BytesRecv := ws_bytesRecv s\<rparr>"

section \<open>Invariant\<close>

definition ws_wf :: "ws_server \<Rightarrow> bool" where
  "ws_wf s \<longleftrightarrow> wf_registry (ws_registry s) \<and> distinct (map wc_id (ws_conns s)) \<and>
     (\<forall>cid p. Registry_Get (ws_registry s) cid = Some p \<longrightarrow> p < length (ws_conns s) \<and> wc_id (ws_conns s ! p) = cid)"

lemma ws_wf_New: "ws_wf (ws_New protocol bufs cfg)"
  using wf_zero_Registry
  by (auto simp: ws_wf_def ws_New_def Registry_Get_def zero_Registry_def gomap_get_def entries_def)

lemma ws_wf_get:
  assumes "ws_wf s" and "Registry_Get (ws_registry s) cid = Some p"
  shows "p < length (ws_conns s)" "wc_id (ws_conns s ! p) = cid"
  using assms by (auto simp: ws_wf_def)

lemma ws_wf_update:
  assumes "ws_wf s" and "ws_registry s' = ws_registry s" and "length (ws_conns s') = length (ws_conns s)"
    and "\<And>r. r < length (ws_conns s) \<Longrightarrow> wc_id (ws_conns s' ! r) = wc_id (ws_conns s ! r)"
  shows "ws_wf s'"
proof -
  have "map wc_id (ws_conns s') = map wc_id (ws_conns s)" using assms(3,4) by (intro nth_equalityI) auto
  then show ?thesis using assms unfolding ws_wf_def by metis
qed

lemma ws_ids: "ws_wf s \<Longrightarrow> p < length (ws_conns s) \<Longrightarrow> q < length (ws_conns s) \<Longrightarrow> wc_id (ws_conns s ! p) = wc_id (ws_conns s ! q) \<Longrightarrow> p = q"
  by (auto simp: ws_wf_def distinct_conv_nth)

lemma ws_wf_leave:
  assumes "ws_wf s" and "p < length (ws_conns s)"
  shows "ws_wf (ws_leave p s)"
    and "Registry_Get (ws_registry (ws_leave p s)) = (Registry_Get (ws_registry s))(wc_id (ws_conns s ! p) := None)"
proof -
  have reg: "wf_registry (ws_registry s)" using assms(1) by (simp add: ws_wf_def)
  show "Registry_Get (ws_registry (ws_leave p s)) = (Registry_Get (ws_registry s))(wc_id (ws_conns s ! p) := None)"
    using Registry_Remove_eq [OF reg] by (simp add: ws_leave_def Let_def)
  moreover have "map wc_id (ws_conns (ws_leave p s)) = map wc_id (ws_conns s)"
    by (intro nth_equalityI) (auto simp: ws_leave_def Let_def nth_update_if)
  ultimately show "ws_wf (ws_leave p s)"
    using assms(1) Registry_Remove_eq [OF reg, of "wc_id (ws_conns s ! p)"]
    by (auto simp: ws_wf_def ws_leave_def Let_def nth_update_if split: if_splits)
qed

lemma ws_peers:
  assumes "ws_wf s" and "range_order ord"
  shows "set (Registry_Snapshot ord (ws_registry s)) =
       {p. p < length (ws_conns s) \<and> Registry_Get (ws_registry s) (wc_id (ws_conns s ! p)) = Some p}"
    and "distinct (Registry_Snapshot ord (ws_registry s))"
proof -
  let ?es = "all_entries ord (ws_registry s)"
  have reg: "wf_registry (ws_registry s)" using assms(1) by (simp add: ws_wf_def)
  have in_es: "(cid, p) \<in> set ?es \<longleftrightarrow> Registry_Get (ws_registry s) cid = Some p" for cid p
    by (rule all_entries_get [OF reg assms(2)])
  then show "set (Registry_Snapshot ord (ws_registry s)) =
       {p. p < length (ws_conns s) \<and> Registry_Get (ws_registry s) (wc_id (ws_conns s ! p)) = Some p}"
    using ws_wf_get [OF assms(1)] by (force simp: Snapshot_all_entries)
  have "inj_on snd (set ?es)"
  proof (rule inj_onI)
    fix x y assume "x \<in> set ?es" "y \<in> set ?es" "snd x = snd y"
    then show "x = y" using in_es ws_wf_get(2) [OF assms(1)] by (metis prod.collapse)
  qed
  moreover have "distinct ?es" using distinct_all_entries [OF reg assms(2)] by (simp add: distinct_map)
  ultimately show "distinct (Registry_Snapshot ord (ws_registry s))" by (simp add: Snapshot_all_entries distinct_map)
qed

text \<open>The data frames of an output, and what is on all wires together.\<close>

fun data_of :: "ws_frame list \<Rightarrow> bytes list" where
  "data_of [] = []"
| "data_of (BinaryFrame d # fs) = d # data_of fs"
| "data_of (f # fs) = data_of fs"

lemma data_of_append [simp]: "data_of (xs @ ys) = data_of xs @ data_of ys"
  by (induction xs rule: data_of.induct) auto

definition on_wires :: "ws_server \<Rightarrow> nat" where
  "on_wires s = (\<Sum>gc\<leftarrow>ws_conns s. length (data_of (wc_out gc)))"

definition bytes_on_wires :: "ws_server \<Rightarrow> nat" where
  "bytes_on_wires s = (\<Sum>gc\<leftarrow>ws_conns s. sum_list (map length (data_of (wc_out gc))))"

definition recv_calls :: "handler_call list \<Rightarrow> bytes list" where
  "recv_calls cs = concat (map (\<lambda>c. case c of CallRecv cid d t \<Rightarrow> [d] | _ \<Rightarrow> []) cs)"

text \<open>The counters are exact modulo \<open>2 ^ 64\<close>.\<close>

definition ws_counts :: "ws_server \<Rightarrow> bool" where
  "ws_counts s \<longleftrightarrow> ws_sent s = of_nat (on_wires s) \<and> ws_bytesSent s = of_nat (bytes_on_wires s) \<and>
     (cfg_OnRecv (ws_cfg s) \<longrightarrow> ws_recv s = of_nat (length (recv_calls (ws_calls s))) \<and>
        ws_bytesRecv s = of_nat (sum_list (map length (recv_calls (ws_calls s)))))"

lemma sum_update_nat:
  fixes f :: "'a \<Rightarrow> nat"
  assumes "p < length xs" and "f y = f (xs ! p) + k"
  shows "(\<Sum>x\<leftarrow>xs[p := y]. f x) = (\<Sum>x\<leftarrow>xs. f x) + k"
proof -
  have "f (xs ! p) \<le> (\<Sum>x\<leftarrow>xs. f x)" using assms(1) by (intro member_le_sum_list) auto
  then show ?thesis using assms by (simp add: map_update sum_list_update)
qed

lemma wires_update:
  assumes "p < length (ws_conns s)" and "data_of (wc_out gc) = data_of (wc_out (ws_conns s ! p)) @ ds"
    and "ws_conns s' = (ws_conns s)[p := gc]"
  shows "on_wires s' = on_wires s + length ds" "bytes_on_wires s' = bytes_on_wires s + sum_list (map length ds)"
  using assms by (auto simp: on_wires_def bytes_on_wires_def intro!: sum_update_nat)

lemma recv_calls_append [simp]: "recv_calls (xs @ ys) = recv_calls xs @ recv_calls ys"
  by (simp add: recv_calls_def)

lemma recv_calls_if [simp]:
  "recv_calls (calls_if b (CallConnect cid)) = []" "recv_calls (calls_if b (CallDisconnect cid)) = []"
  "recv_calls (calls_if b (CallRecv cid d t)) = (if b then [d] else [])"
  by (simp_all add: recv_calls_def calls_if_def)

section \<open>The operations on the invariant\<close>

lemma wsc_offer_eq:
  "wsc_offer cp gc m = (if length (wc_ch gc) < cp then (gc\<lparr>wc_ch := wc_ch gc @ [m]\<rparr>, True) else (gc, False))"
  by (simp add: wsc_offer_def try_send_def)

text \<open>What offering a message to some connections keeps.\<close>

definition only_queues :: "ws_server \<Rightarrow> ws_server \<Rightarrow> bool" where
  "only_queues s s' \<longleftrightarrow> (\<exists>cs q. s' = s\<lparr>ws_conns := cs, ws_seq := q\<rparr>) \<and> length (ws_conns s') = length (ws_conns s) \<and>
     (\<forall>r < length (ws_conns s). \<exists>ch. ws_conns s' ! r = (ws_conns s ! r)\<lparr>wc_ch := ch\<rparr>)"

lemma only_queues_refl: "only_queues s s"
proof -
  have "\<exists>ch. ws_conns s ! r = (ws_conns s ! r)\<lparr>wc_ch := ch\<rparr>" for r by (rule exI [of _ "wc_ch (ws_conns s ! r)"]) simp
  moreover have "s = s\<lparr>ws_conns := ws_conns s, ws_seq := ws_seq s\<rparr>" by simp
  ultimately show ?thesis unfolding only_queues_def by blast
qed

lemma only_queues_length: "only_queues s s' \<Longrightarrow> length (ws_conns s') = length (ws_conns s)"
  by (simp add: only_queues_def)

lemma only_queues_keeps:
  assumes "only_queues s s'"
  shows "ws_registry s' = ws_registry s" "ws_base s' = ws_base s" "ws_cfg s' = ws_cfg s" "ws_calls s' = ws_calls s"
    "ws_wf s \<Longrightarrow> ws_wf s'" "ws_counts s \<Longrightarrow> ws_counts s'"
proof -
  obtain cs q where s': "s' = s\<lparr>ws_conns := cs, ws_seq := q\<rparr>" and l: "length cs = length (ws_conns s)"
    and c: "\<And>r. r < length (ws_conns s) \<Longrightarrow> \<exists>ch. cs ! r = (ws_conns s ! r)\<lparr>wc_ch := ch\<rparr>"
    using assms by (auto simp: only_queues_def)
  show "ws_registry s' = ws_registry s" "ws_base s' = ws_base s" "ws_cfg s' = ws_cfg s" "ws_calls s' = ws_calls s"
    by (simp_all add: s')
  have ids: "wc_id (cs ! r) = wc_id (ws_conns s ! r)" "wc_out (cs ! r) = wc_out (ws_conns s ! r)" if "r < length (ws_conns s)" for r
    using c [OF that] by auto
  then show "ws_wf s \<Longrightarrow> ws_wf s'" by (rule_tac ws_wf_update) (auto simp: s' l)
  have "map wc_out cs = map wc_out (ws_conns s)" using ids(2) l by (intro nth_equalityI) auto
  then have "map (f \<circ> wc_out) cs = map (f \<circ> wc_out) (ws_conns s)" for f :: "ws_frame list \<Rightarrow> nat"
    by (metis map_map)
  from this [of "length \<circ> data_of"] this [of "\<lambda>fs. sum_list (map length (data_of fs))"]
  have "on_wires s' = on_wires s" "bytes_on_wires s' = bytes_on_wires s"
    by (simp_all add: on_wires_def bytes_on_wires_def s' comp_def)
  then show "ws_counts s \<Longrightarrow> ws_counts s'" by (simp add: ws_counts_def s')
qed

lemma ws_offer_all_ok:
  assumes "\<forall>p \<in> set ps. p < length (ws_conns s)" and "distinct ps"
  shows "\<exists>s'. ws_offer_all cp m ps s = Some s' \<and> only_queues s s' \<and> ws_seq s' = ws_seq s \<and>
     (\<forall>r < length (ws_conns s). ws_conns s' ! r = (if r \<in> set ps then fst (wsc_offer cp (ws_conns s ! r) m) else ws_conns s ! r))"
  using assms
proof (induction ps arbitrary: s)
  case Nil
  then show ?case by (simp add: only_queues_refl)
next
  case (Cons p ps)
  let ?s = "s\<lparr>ws_conns := (ws_conns s)[p := fst (wsc_offer cp (ws_conns s ! p) m)]\<rparr>"
  have p: "p < length (ws_conns s)" using Cons.prems(1) by simp
  obtain s' where s': "ws_offer_all cp m ps ?s = Some s'" "only_queues ?s s'" "ws_seq s' = ws_seq s"
     "\<And>r. r < length (ws_conns s) \<Longrightarrow> ws_conns s' ! r = (if r \<in> set ps then fst (wsc_offer cp (ws_conns ?s ! r) m) else ws_conns ?s ! r)"
    using Cons.IH [of ?s] Cons.prems by auto
  have n: "ws_conns s' ! r = (if r \<in> set (p # ps) then fst (wsc_offer cp (ws_conns s ! r) m) else ws_conns s ! r)"
    if "r < length (ws_conns s)" for r
    using s'(4) [OF that] Cons.prems(2) p by (auto simp: nth_update_if)
  have "\<exists>ch. ws_conns s' ! r = (ws_conns s ! r)\<lparr>wc_ch := ch\<rparr>" if "r < length (ws_conns s)" for r
  proof (cases "r \<in> set (p # ps) \<and> length (wc_ch (ws_conns s ! r)) < cp")
    case True
    then show ?thesis using n [OF that] by (auto simp: wsc_offer_eq)
  next
    case False
    then show ?thesis using n [OF that] by (intro exI [of _ "wc_ch (ws_conns s ! r)"]) (auto simp: wsc_offer_eq)
  qed
  moreover have "\<exists>cs q. s' = s\<lparr>ws_conns := cs, ws_seq := q\<rparr>" using s'(2) by (auto simp: only_queues_def)
  moreover have "length (ws_conns s') = length (ws_conns s)" using s'(2) by (simp add: only_queues_def)
  ultimately have "only_queues s s'" by (simp add: only_queues_def)
  then show ?case using s'(1,3) n p by simp
qed

lemma ws_Broadcast_ok:
  assumes "ws_wf s" and "range_order ord" and "IsStarted (ws_base s)"
  shows "\<exists>s'. ws_Broadcast cp ord now d s = Some (Inr (), s') \<and> only_queues s s' \<and> ws_seq s' = ws_seq s + 1 \<and>
     (\<forall>r < length (ws_conns s). ws_conns s' ! r = (if Registry_Get (ws_registry s) (wc_id (ws_conns s ! r)) = Some r
        then fst (wsc_offer cp (ws_conns s ! r) (frame_bytes (ws_seq s + 1) now d)) else ws_conns s ! r))"
proof -
  let ?s = "s\<lparr>ws_seq := ws_seq s + 1\<rparr>" and ?m = "frame_bytes (ws_seq s + 1) now d" and ?ps = "Registry_Snapshot ord (ws_registry s)"
  obtain s' where s': "ws_offer_all cp ?m ?ps ?s = Some s'" "only_queues ?s s'" "ws_seq s' = ws_seq s + 1"
     "\<And>r. r < length (ws_conns s) \<Longrightarrow> ws_conns s' ! r = (if r \<in> set ?ps then fst (wsc_offer cp (ws_conns s ! r) ?m) else ws_conns s ! r)"
    using ws_offer_all_ok [of ?ps ?s cp ?m] ws_peers [OF assms(1,2)] by auto
  have "only_queues s s'" using s'(2) by (auto simp: only_queues_def)
  then show ?thesis using s' assms(3) ws_peers(1) [OF assms(1,2)] by (auto simp: ws_Broadcast_def Let_def)
qed

lemma ws_Send_ok:
  assumes "ws_wf s"
  shows "\<exists>r s'. ws_Send cp cid d s = Some (r, s') \<and> only_queues s s' \<and> ws_seq s' = ws_seq s \<and>
     (\<forall>r < length (ws_conns s). ws_conns s' ! r = (if Registry_Get (ws_registry s) cid = Some r
        then fst (wsc_offer cp (ws_conns s ! r) d) else ws_conns s ! r))"
proof (cases "Registry_Get (ws_registry s) cid")
  case None
  then show ?thesis by (simp add: ws_Send_def only_queues_refl)
next
  case (Some p)
  then have p: "p < length (ws_conns s)" using ws_wf_get [OF assms] by simp
  obtain s' where s': "ws_offer_all cp d [p] s = Some s'" "only_queues s s'" "ws_seq s' = ws_seq s"
     "\<And>r. r < length (ws_conns s) \<Longrightarrow> ws_conns s' ! r = (if r \<in> set [p] then fst (wsc_offer cp (ws_conns s ! r) d) else ws_conns s ! r)"
    using ws_offer_all_ok [of "[p]" s cp d] p by auto
  then show ?thesis using Some p by (auto simp: ws_Send_def split_beta)
qed

lemma ws_serve_ok:
  assumes "ws_wf s" and "\<forall>gc \<in> set (ws_conns s). wc_id gc \<noteq> cid"
  shows "\<exists>s'. ws_serve ph True cid s = Some s' \<and> ws_wf s' \<and> (ws_counts s \<longrightarrow> ws_counts s') \<and> ws_seq s' = ws_seq s \<and> ws_base s' = ws_base s \<and>
     Registry_Get (ws_registry s') = (Registry_Get (ws_registry s))(cid \<mapsto> length (ws_conns s)) \<and>
     ws_conns s' = ws_conns s @ [\<lparr>wc_id = cid, wc_ch = [], wc_cancelled = False, wc_closed = False, wc_writer = True, wc_reader = ph, wc_out = []\<rparr>]"
proof -
  have reg: "wf_registry (ws_registry s)" using assms(1) by (simp add: ws_wf_def)
  from Registry_Add_eq [OF reg, of cid "length (ws_conns s)"] obtain r' where
    r': "Registry_Add (ws_registry s) cid (length (ws_conns s)) = Some r'" "wf_registry r'"
      "Registry_Get r' = (Registry_Get (ws_registry s))(cid \<mapsto> length (ws_conns s))" by metis
  let ?gc = "\<lparr>wc_id = cid, wc_ch = [], wc_cancelled = False, wc_closed = False, wc_writer = True, wc_reader = ph, wc_out = []\<rparr>"
  let ?s = "s\<lparr>ws_registry := r', ws_calls := ws_calls s @ calls_if (cfg_OnConnect (ws_cfg s)) (CallConnect cid), ws_conns := ws_conns s @ [?gc]\<rparr>"
  have "ws_serve ph True cid s = Some ?s" using r'(1) by (simp add: ws_serve_def Let_def)
  moreover have "ws_wf ?s" using assms r'(2,3)
    by (auto simp: ws_wf_def nth_append intro: less_SucI split: if_splits)
  moreover have "ws_counts s \<longrightarrow> ws_counts ?s" by (simp add: ws_counts_def on_wires_def bytes_on_wires_def)
  ultimately show ?thesis using r'(3) by simp
qed

lemma ws_write_turn_ok:
  assumes "ws_wf s" and "p < length (ws_conns s)"
  shows "\<exists>s'. ws_write_turn pk p s = Some s' \<and> ws_wf s' \<and> (ws_counts s \<longrightarrow> ws_counts s') \<and> ws_seq s' = ws_seq s \<and> ws_base s' = ws_base s \<and>
     ws_registry s' = ws_registry s \<and> length (ws_conns s') = length (ws_conns s) \<and> (\<forall>q. q \<noteq> p \<longrightarrow> ws_conns s' ! q = ws_conns s ! q) \<and>
     wc_id (ws_conns s' ! p) = wc_id (ws_conns s ! p)"
proof -
  let ?gc = "ws_conns s ! p"
  have quiet: "ws_wf (s\<lparr>ws_conns := (ws_conns s)[p := gc]\<rparr>) \<and> (ws_counts s \<longrightarrow> ws_counts (s\<lparr>ws_conns := (ws_conns s)[p := gc]\<rparr>))"
    if "wc_id gc = wc_id ?gc" "data_of (wc_out gc) = data_of (wc_out ?gc)" for gc
    using that assms wires_update [of p s gc "[]" "s\<lparr>ws_conns := (ws_conns s)[p := gc]\<rparr>"]
    by (auto simp: ws_counts_def nth_update_if intro!: ws_wf_update [OF assms(1)])
  have writes: "ws_wf (s\<lparr>ws_conns := (ws_conns s)[p := gc], ws_sent := ws_sent s + 1, ws_bytesSent := ws_bytesSent s + of_nat (length d)\<rparr>) \<and>
     (ws_counts s \<longrightarrow> ws_counts (s\<lparr>ws_conns := (ws_conns s)[p := gc], ws_sent := ws_sent s + 1, ws_bytesSent := ws_bytesSent s + of_nat (length d)\<rparr>))"
    if "wc_id gc = wc_id ?gc" "data_of (wc_out gc) = data_of (wc_out ?gc) @ [d]" for gc d
    using that assms
      wires_update [of p s gc "[d]" "s\<lparr>ws_conns := (ws_conns s)[p := gc], ws_sent := ws_sent s + 1, ws_bytesSent := ws_bytesSent s + of_nat (length d)\<rparr>"]
    by (auto simp: ws_counts_def nth_update_if intro!: ws_wf_update [OF assms(1)])
  show ?thesis
    using assms quiet writes by (cases pk) (auto simp: ws_write_turn_def Let_def try_recv_def split: list.splits)
qed

section \<open>Servers with a read pump\<close>

text \<open>What the rest of a server relies on of a turn of the read pump of connection \<open>p\<close>: it neither panics nor touches another
  connection, and at its own it neither touches the channel nor writes data.\<close>

definition read_effect :: "nat \<Rightarrow> ws_server \<Rightarrow> ws_server \<Rightarrow> bool" where
  "read_effect p s s' \<longleftrightarrow> ws_wf s' \<and> (ws_counts s \<longrightarrow> ws_counts s') \<and> ws_seq s' = ws_seq s \<and> ws_base s' = ws_base s \<and>
     length (ws_conns s') = length (ws_conns s) \<and> (\<forall>q. q \<noteq> p \<longrightarrow> ws_conns s' ! q = ws_conns s ! q) \<and>
     wc_id (ws_conns s' ! p) = wc_id (ws_conns s ! p) \<and> wc_ch (ws_conns s' ! p) = wc_ch (ws_conns s ! p) \<and>
     wc_writer (ws_conns s' ! p) = wc_writer (ws_conns s ! p) \<and> data_of (wc_out (ws_conns s' ! p)) = data_of (wc_out (ws_conns s ! p)) \<and>
     (ws_registry s' = ws_registry s \<or> wc_reader (ws_conns s' ! p) = Returned \<and>
        Registry_Get (ws_registry s') = (Registry_Get (ws_registry s))(wc_id (ws_conns s ! p) := None))"

lemma read_effect_set_reader:
  "ws_wf s \<Longrightarrow> p < length (ws_conns s) \<Longrightarrow> read_effect p s (set_reader ph p s)"
  using wires_update [of p s "(ws_conns s ! p)\<lparr>wc_reader := ph\<rparr>" "[]" "set_reader ph p s"]
  by (auto simp: read_effect_def set_reader_def ws_counts_def nth_update_if intro!: ws_wf_update [of s])

lemma read_effect_refl: "ws_wf s \<Longrightarrow> read_effect p s s"
  by (simp add: read_effect_def)

lemma read_effect_leave:
  assumes "ws_wf s" and "p < length (ws_conns s)"
  shows "read_effect p s (ws_leave p s)"
  using wires_update [of p s "(ws_conns s ! p)\<lparr>wc_cancelled := True, wc_closed := True, wc_reader := Returned\<rparr>" "[]" "ws_leave p s"]
    ws_wf_leave [OF assms] assms
  by (auto simp: read_effect_def ws_leave_def Let_def ws_counts_def)

lemma read_effect_received:
  assumes "ws_wf s" and "p < length (ws_conns s)"
  shows "read_effect p s (ws_received p d t s)"
  using assms
  by (auto simp: read_effect_def ws_received_def ws_counts_def on_wires_def bytes_on_wires_def intro!: ws_wf_update [OF assms(1)])

lemma read_effect_out:
  assumes "ws_wf s" and "p < length (ws_conns s)" and "data_of fs = []"
  shows "read_effect p s (s\<lparr>ws_conns := (ws_conns s)[p := (ws_conns s ! p)\<lparr>wc_out := wc_out (ws_conns s ! p) @ fs\<rparr>]\<rparr>)"
  using assms wires_update [of p s "(ws_conns s ! p)\<lparr>wc_out := wc_out (ws_conns s ! p) @ fs\<rparr>" "[]"
      "s\<lparr>ws_conns := (ws_conns s)[p := (ws_conns s ! p)\<lparr>wc_out := wc_out (ws_conns s ! p) @ fs\<rparr>]\<rparr>"]
  by (auto simp: read_effect_def ws_counts_def nth_update_if intro!: ws_wf_update [OF assms(1)])

text \<open>Turns compose as long as the registry is untouched before the last.\<close>

lemma read_effect_trans:
  assumes "read_effect p s s1" and "ws_registry s1 = ws_registry s" and "read_effect p s1 s2"
  shows "read_effect p s s2"
  using assms unfolding read_effect_def by simp

datatype 'r ws_action =
    Starts i64 bool
  | Stops bool
  | Accepts ConnID
  | Writes pick nat
  | Reads 'r nat
  | Casts i64 bytes
  | SendsTo ConnID bytes

fun ws_step ::
  "('r \<Rightarrow> nat \<Rightarrow> ws_server \<Rightarrow> ws_server option) \<Rightarrow> ws_phase \<Rightarrow> nat \<Rightarrow> ws_order \<Rightarrow> ws_server \<Rightarrow> 'r ws_action \<Rightarrow> ws_server option" where
  "ws_step rd ph cp ord s (Starts now listens) = Some (snd (ws_Start now listens s))"
| "ws_step rd ph cp ord s (Stops ok) = Some (snd (ws_Stop ok s))"
| "ws_step rd ph cp ord s (Accepts cid) = ws_serve ph True cid s"
| "ws_step rd ph cp ord s (Writes pk p) = ws_write_turn pk p s"
| "ws_step rd ph cp ord s (Reads r p) = rd r p s"
| "ws_step rd ph cp ord s (Casts now d) = map_option snd (ws_Broadcast cp ord now d s)"
| "ws_step rd ph cp ord s (SendsTo cid d) = map_option snd (ws_Send cp cid d s)"

text \<open>Goroutines of connections that exist, and UUIDs that are new.\<close>

definition ws_exists :: "ws_server \<Rightarrow> 'r ws_action \<Rightarrow> bool" where
  "ws_exists s e = (case e of
     Accepts cid \<Rightarrow> (\<forall>gc \<in> set (ws_conns s). wc_id gc \<noteq> cid)
   | Writes pk p \<Rightarrow> p < length (ws_conns s)
   | Reads r p \<Rightarrow> p < length (ws_conns s)
   | _ \<Rightarrow> True)"

definition ws_live :: "nat \<Rightarrow> ws_server \<Rightarrow> bool" where
  "ws_live p s \<longleftrightarrow> ws_wf s \<and> p < length (ws_conns s) \<and> wc_writer (ws_conns s ! p) \<and>
     Registry_Get (ws_registry s) (wc_id (ws_conns s ! p)) = Some p"

text \<open>Steps in which the writer of connection \<open>p\<close> goes on and its reader does not return.\<close>

definition ws_ok :: "('r \<Rightarrow> nat \<Rightarrow> ws_server \<Rightarrow> ws_server option) \<Rightarrow> nat \<Rightarrow> ws_server \<Rightarrow> 'r ws_action \<Rightarrow> bool" where
  "ws_ok rd p s e \<longleftrightarrow> ws_exists s e \<and> (case e of
     Writes pk q \<Rightarrow> q = p \<longrightarrow> pk = PickData True \<or> pk = PickTick True \<or> pk = PickDone \<and> \<not> wc_cancelled (ws_conns s ! p)
   | Reads r q \<Rightarrow> q = p \<longrightarrow> (case rd r p s of None \<Rightarrow> False | Some s' \<Rightarrow> wc_reader (ws_conns s' ! p) \<noteq> Returned)
   | _ \<Rightarrow> True)"

definition ws_view :: "nat \<Rightarrow> ws_server \<Rightarrow> bytes lane" where
  "ws_view p s = (wc_ch (ws_conns s ! p), data_of (wc_out (ws_conns s ! p)))"

definition ws_act :: "nat \<Rightarrow> ws_server \<Rightarrow> 'r ws_action \<Rightarrow> bytes queue_event option" where
  "ws_act p s e = (case e of
     Writes pk q \<Rightarrow> if q = p \<and> pk = PickData True then Some Drain else None
   | Casts now d \<Rightarrow> if IsStarted (ws_base s) then Some (Offer (frame_bytes (ws_seq s + 1) now d)) else None
   | SendsTo cid d \<Rightarrow> if cid = wc_id (ws_conns s ! p) then Some (Offer d) else None
   | _ \<Rightarrow> None)"

locale ws_reader =
  fixes rd :: "'r \<Rightarrow> nat \<Rightarrow> ws_server \<Rightarrow> ws_server option" and ph :: ws_phase and cp :: nat
  assumes rd_effect: "ws_wf s \<Longrightarrow> p < length (ws_conns s) \<Longrightarrow> \<exists>s'. rd r p s = Some s' \<and> read_effect p s s'"
begin

lemma step_keeps:
  assumes "ws_wf s" and "range_order ord" and "ws_exists s e"
  shows "\<exists>s'. ws_step rd ph cp ord s e = Some s' \<and> ws_wf s' \<and> (ws_counts s \<longrightarrow> ws_counts s')"
proof (cases e)
  case (Starts now l)
  then show ?thesis using assms(1) ws_wf_update [OF assms(1), of "snd (ws_Start now l s)"]
    by (auto simp: ws_Start_def ws_counts_def on_wires_def bytes_on_wires_def)
next
  case (Stops ok)
  then show ?thesis using assms(1) ws_wf_update [OF assms(1), of "snd (ws_Stop ok s)"]
    by (auto simp: ws_Stop_def ws_counts_def on_wires_def bytes_on_wires_def)
next
  case (Accepts cid)
  then show ?thesis using ws_serve_ok [OF assms(1), of cid ph] assms(3) by (auto simp: ws_exists_def)
next
  case (Writes pk p)
  then show ?thesis using ws_write_turn_ok [OF assms(1), of p pk] assms(3) by (auto simp: ws_exists_def)
next
  case (Reads r p)
  then show ?thesis using rd_effect [OF assms(1), of p r] assms(3) by (auto simp: ws_exists_def read_effect_def)
next
  case (Casts now d)
  show ?thesis
  proof (cases "IsStarted (ws_base s)")
    case True
    then show ?thesis using Casts ws_Broadcast_ok [OF assms(1,2) True, of cp now d] only_queues_keeps(5,6) [of s] assms(1) by auto
  next
    case False
    then show ?thesis using Casts assms(1) by (simp add: ws_Broadcast_def)
  qed
next
  case (SendsTo cid d)
  then show ?thesis using ws_Send_ok [OF assms(1), of cp cid d] only_queues_keeps(5,6) [of s] assms(1) by auto
qed

lemma step_lane:
  assumes "range_order ord" and "ws_live p s" and "ws_ok rd p s e"
  shows "\<exists>s'. ws_step rd ph cp ord s e = Some s' \<and> ws_live p s' \<and> ws_view p s' = lane_act cp (ws_act p s e) (ws_view p s)"
proof -
  have w: "ws_wf s" and p: "p < length (ws_conns s)" and wr: "wc_writer (ws_conns s ! p)"
    and reg: "Registry_Get (ws_registry s) (wc_id (ws_conns s ! p)) = Some p"
    using assms(2) by (simp_all add: ws_live_def)
  have ex: "ws_exists s e" using assms(3) by (simp add: ws_ok_def)
  obtain s' where s': "ws_step rd ph cp ord s e = Some s'" "ws_wf s'" using step_keeps [OF w assms(1) ex] by blast
  have "ws_live p s' \<and> ws_view p s' = lane_act cp (ws_act p s e) (ws_view p s)"
  proof (cases e)
    case (Starts now l)
    then show ?thesis using s' p wr reg by (auto simp: ws_Start_def ws_live_def ws_view_def ws_act_def)
  next
    case (Stops ok)
    then show ?thesis using s' p wr reg by (auto simp: ws_Stop_def ws_live_def ws_view_def ws_act_def)
  next
    case (Accepts cid)
    then have "wc_id (ws_conns s ! p) \<noteq> cid" using ex p by (auto simp: ws_exists_def)
    moreover obtain t where t: "ws_serve ph True cid s = Some t" "Registry_Get (ws_registry t) = (Registry_Get (ws_registry s))(cid \<mapsto> length (ws_conns s))"
      "ws_conns t = ws_conns s @ [\<lparr>wc_id = cid, wc_ch = [], wc_cancelled = False, wc_closed = False, wc_writer = True, wc_reader = ph, wc_out = []\<rparr>]"
      using ws_serve_ok [OF w, of cid ph] ex Accepts by (auto simp: ws_exists_def)
    moreover have "s' = t" using s'(1) Accepts t(1) by simp
    ultimately show ?thesis using s'(2) p wr reg
      by (simp add: Accepts ws_live_def ws_view_def ws_act_def nth_append)
  next
    case (Writes pk q)
    then have q: "q < length (ws_conns s)" using ex by (simp add: ws_exists_def)
    obtain t where t: "ws_write_turn pk q s = Some t" "ws_registry t = ws_registry s" "length (ws_conns t) = length (ws_conns s)"
      "\<And>r. r \<noteq> q \<Longrightarrow> ws_conns t ! r = ws_conns s ! r" using ws_write_turn_ok [OF w q, of pk] by blast
    show ?thesis
    proof (cases "q = p")
      case False
      then show ?thesis using Writes s' t p wr reg by (simp add: ws_live_def ws_view_def ws_act_def)
    next
      case True
      then have "pk = PickData True \<or> pk = PickTick True \<or> pk = PickDone \<and> \<not> wc_cancelled (ws_conns s ! p)"
        using assms(3) Writes by (simp add: ws_ok_def)
      then show ?thesis using True Writes s' p wr reg
        by (cases "wc_ch (ws_conns s ! p)")
           (auto simp: ws_write_turn_def Let_def try_recv_def ws_live_def ws_view_def ws_act_def)
    qed
  next
    case (Reads r q)
    then have q: "q < length (ws_conns s)" using ex by (simp add: ws_exists_def)
    have t: "rd r q s = Some s'" "read_effect q s s'" using rd_effect [OF w q, of r] s' Reads by auto
    show ?thesis
    proof (cases "q = p")
      case True
      then have "wc_reader (ws_conns s' ! p) \<noteq> Returned" using assms(3) Reads t(1) by (simp add: ws_ok_def)
      then show ?thesis using True t(2) p wr reg Reads by (auto simp: read_effect_def ws_live_def ws_view_def ws_act_def)
    next
      case False
      then have "wc_id (ws_conns s ! q) \<noteq> wc_id (ws_conns s ! p)" using ws_ids [OF w q p] by blast
      then show ?thesis using False t(2) p wr reg Reads by (auto simp: read_effect_def ws_live_def ws_view_def ws_act_def)
    qed
  next
    case (Casts now d)
    show ?thesis
    proof (cases "IsStarted (ws_base s)")
      case True
      obtain t where t: "ws_Broadcast cp ord now d s = Some (Inr (), t)" "only_queues s t"
        "ws_conns t ! p = fst (wsc_offer cp (ws_conns s ! p) (frame_bytes (ws_seq s + 1) now d))"
        using ws_Broadcast_ok [OF w assms(1) True, of cp now d] p reg by auto
      then have "s' = t" using s'(1) Casts by simp
      then show ?thesis using s'(2) True p wr reg t(3) only_queues_keeps(1) [OF t(2)] only_queues_length [OF t(2)]
        by (simp add: Casts ws_live_def ws_view_def ws_act_def wsc_offer_eq)
    next
      case False
      then show ?thesis using s' Casts p wr reg by (auto simp: ws_Broadcast_def ws_live_def ws_view_def ws_act_def)
    qed
  next
    case (SendsTo cid d)
    obtain rs t where t: "ws_Send cp cid d s = Some (rs, t)" "only_queues s t"
      "ws_conns t ! p = (if Registry_Get (ws_registry s) cid = Some p then fst (wsc_offer cp (ws_conns s ! p) d) else ws_conns s ! p)"
      using ws_Send_ok [OF w, of cp cid d] p by auto
    have st: "s' = t" using s'(1) SendsTo t(1) by simp
    have live: "ws_live p s'"
      using s'(2) p wr reg t(3) only_queues_keeps(1) [OF t(2)] only_queues_length [OF t(2)]
      by (simp add: st ws_live_def wsc_offer_eq)
    show ?thesis
    proof (cases "cid = wc_id (ws_conns s ! p)")
      case True
      then show ?thesis using live reg t(3) by (simp add: st SendsTo ws_view_def ws_act_def wsc_offer_eq)
    next
      case False
      then have "Registry_Get (ws_registry s) cid \<noteq> Some p" using ws_wf_get(2) [OF w, of cid p] by blast
      then show ?thesis using False live t(3) by (simp add: st SendsTo ws_view_def ws_act_def)
    qed
  qed
  then show ?thesis using s'(1) by blast
qed

end

sublocale ws_reader < lane: fanout cp "ws_live p" "ws_ok rd p" "ws_view p" "ws_step rd ph cp (some_order ord)" "ws_act p" for p ord
  by unfold_locales (use step_lane [of "some_order ord" p] in \<open>fastforce+\<close>)

section \<open>Runs\<close>

text \<open>A run in which connection \<open>p\<close> stays alive, and the messages it is offered.\<close>

fun ws_run_ok ::
  "('r \<Rightarrow> nat \<Rightarrow> ws_server \<Rightarrow> ws_server option) \<Rightarrow> (ws_server \<Rightarrow> 'r ws_action \<Rightarrow> ws_server option) \<Rightarrow> nat \<Rightarrow> ws_server \<Rightarrow> 'r ws_action list \<Rightarrow> bool" where
  "ws_run_ok rd step p s [] = True"
| "ws_run_ok rd step p s (e # es) = (ws_ok rd p s e \<and> (case step s e of None \<Rightarrow> False | Some s' \<Rightarrow> ws_run_ok rd step p s' es))"

fun ws_offered :: "(ws_server \<Rightarrow> 'r ws_action \<Rightarrow> ws_server option) \<Rightarrow> nat \<Rightarrow> ws_server \<Rightarrow> 'r ws_action list \<Rightarrow> bytes list" where
  "ws_offered step p s [] = []"
| "ws_offered step p s (e # es) =
     (case ws_act p s e of Some (Offer m) \<Rightarrow> [m] | _ \<Rightarrow> []) @ (case step s e of None \<Rightarrow> [] | Some s' \<Rightarrow> ws_offered step p s' es)"

text \<open>A run of goroutines whose connections exist. Nothing is asked of the outcome of the steps.\<close>

fun ws_existing :: "(ws_server \<Rightarrow> 'r ws_action \<Rightarrow> ws_server option) \<Rightarrow> ws_server \<Rightarrow> 'r ws_action list \<Rightarrow> bool" where
  "ws_existing step s [] = True"
| "ws_existing step s (e # es) = (ws_exists s e \<and> (case step s e of None \<Rightarrow> True | Some s' \<Rightarrow> ws_existing step s' es))"

context ws_reader
begin

lemma run_ok_oks: "ws_run_ok rd (ws_step rd ph cp (some_order ord)) p s es = lane.oks p ord s es"
  by (induction es arbitrary: s) (simp_all split: option.splits)

lemma offered_trace: "ws_offered (ws_step rd ph cp (some_order ord)) p s es = offers (lane.trace ord p s es)"
proof (induction es arbitrary: s)
  case (Cons e es)
  have "offers (opt_list (ws_act p s e)) = (case ws_act p s e of Some (Offer m) \<Rightarrow> [m] | _ \<Rightarrow> [])"
    by (auto split: option.splits queue_event.splits)
  then show ?case using Cons by (cases "ws_step rd ph cp (some_order ord) s e") (simp_all add: offers_append)
qed simp

lemma run_delivers:
  assumes "range_order ord" and "ws_live p s" and "wc_ch (ws_conns s ! p) = []" and "ws_run_ok rd (ws_step rd ph cp ord) p s es"
  shows "\<exists>s' ms. run_opt (ws_step rd ph cp ord) s (es @ replicate cp (Writes (PickData True) p)) = Some s' \<and>
     wc_ch (ws_conns s' ! p) = [] \<and> data_of (wc_out (ws_conns s' ! p)) = data_of (wc_out (ws_conns s ! p)) @ ms \<and>
     subseq ms (ws_offered (ws_step rd ph cp ord) p s es) \<and>
     (length (ws_offered (ws_step rd ph cp ord) p s es) \<le> cp \<longrightarrow> ms = ws_offered (ws_step rd ph cp ord) p s es)"
proof -
  have o: "some_order ord = ord" by (rule some_order [OF assms(1)])
  let ?step = "ws_step rd ph cp (some_order ord)" and ?w = "Writes (PickData True) p :: 'r ws_action"
  have ok: "lane.oks p ord s es" using assms(4) run_ok_oks [of ord p s es] unfolding o by simp
  have v: "fst (ws_view p s) = []" using assms(3) by (simp add: ws_view_def)
  obtain s1 where s1: "run_opt ?step s es = Some s1" "ws_live p s1" using lane.run_view [OF assms(2) ok] by blast
  obtain acc where acc: "snd (ws_view p s1) @ fst (ws_view p s1) = snd (ws_view p s) @ acc" "subseq acc (ws_offered ?step p s es)"
      "length (ws_offered ?step p s es) \<le> cp \<longrightarrow> acc = ws_offered ?step p s es"
    using lane.run_written [OF assms(2) ok s1(1)] v unfolding offered_trace by auto
  have "length (fst (ws_view p s1)) \<le> cp" using lane.run_bounded [OF assms(2) ok s1(1)] v by simp
  moreover have "\<And>t. ws_live p t \<Longrightarrow> ws_ok rd p t ?w \<and> ws_act p t ?w = Some Drain"
    by (auto simp: ws_ok_def ws_exists_def ws_live_def ws_act_def)
  ultimately obtain s' where s': "run_opt ?step s1 (replicate cp ?w) = Some s'" "ws_view p s' = ([], snd (ws_view p s) @ acc)"
    using lane.drains [of p ?w s1 cp ord] s1(2) acc(1) by auto
  have "run_opt ?step s (es @ replicate cp ?w) = Some s'" using s1(1) s'(1) by (simp add: run_opt_append)
  then show ?thesis using s'(2) acc(2,3) unfolding o by (intro exI [of _ s'] exI [of _ acc]) (auto simp: ws_view_def)
qed

lemma run_keeps:
  assumes "range_order ord" and "ws_wf s" and "ws_counts s" and "ws_existing (ws_step rd ph cp ord) s es"
  shows "\<exists>s'. run_opt (ws_step rd ph cp ord) s es = Some s' \<and> ws_wf s' \<and> ws_counts s'"
  using assms(2-)
proof (induction es arbitrary: s)
  case (Cons e es)
  obtain s1 where s1: "ws_step rd ph cp ord s e = Some s1" "ws_wf s1" "ws_counts s1"
    using step_keeps [OF Cons.prems(1) assms(1), of e] Cons.prems(2,3) by auto
  then show ?case using Cons.IH [OF s1(2,3)] Cons.prems(3) by simp
qed simp

end

lemma ws_counts_New: "ws_counts (ws_New protocol bufs cfg)"
  by (simp add: ws_counts_def ws_New_def on_wires_def bytes_on_wires_def recv_calls_def)

text \<open>\<open>Stop\<close> is documented to close all connections; it closes none: they stay registered and their pumps run on. \<open>Start\<close>
  reports success although listening may fail.\<close>

lemma ws_stop_keeps_connections:
  "ws_conns (snd (ws_Stop ok s)) = ws_conns s \<and> ws_registry (snd (ws_Stop ok s)) = ws_registry s \<and> ws_Connections (snd (ws_Stop ok s)) = ws_Connections s"
  by (simp add: ws_Stop_def ws_Connections_def)

lemma ws_start_hides_listen_error:
  assumes "\<not> IsStarted (ws_base s)"
  shows "fst (ws_Start now False s) = Inr () \<and> IsStarted (ws_base (snd (ws_Start now False s))) \<and> \<not> ws_serving (snd (ws_Start now False s))"
  using assms by (simp add: ws_Start_def)

text \<open>\<open>Send\<close> puts the bare payload on the wire where \<open>Broadcast\<close> puts a frame: a receiver cannot decode a short one.\<close>

lemma ws_send_is_not_framed:
  assumes "ws_wf s" and "Registry_Get (ws_registry s) cid = Some p" and "length (wc_ch (ws_conns s ! p)) < cp" and "length d < 24"
  shows "\<exists>s'. ws_Send cp cid d s = Some (Inr (), s') \<and> wc_ch (ws_conns s' ! p) = wc_ch (ws_conns s ! p) @ [d] \<and>
     Decode d = Some (Inl (ErrBufferTooShort 24 (length d)))"
  using assms ws_wf_get [OF assms(1,2)] by (simp add: ws_Send_def wsc_offer_eq Decode_cases)

end
