(* ===== verification/Ws_Servers.thy ===== *)
theory Ws_Servers
  imports Ws_Base
begin

text \<open>
  The servers of \<^verbatim>\<open>internal/websocket/gorilla\<close>, \<^verbatim>\<open>coder\<close> and \<^verbatim>\<open>gobwas\<close>. Their constructors, life cycle, broadcasts
  and write pumps are the operations of \<open>Ws_Base\<close> at the packages' constants; each package's read pump
  is its own and interprets the locale \<open>ws_reader\<close>.
\<close>

section \<open>gorilla\<close>

definition writeChanCap :: nat where "writeChanCap = 256"
definition maxMessageSize :: nat where "maxMessageSize = 2 ^ 20"

text \<open>A message as the libraries of the first two packages deliver it; control frames they handle themselves.\<close>

datatype ws_msg = Msg bool bytes | ReadFails   \<comment> \<open>the flag: a binary message\<close>

text \<open>A message above the read limit is an error.\<close>

definition limited :: "nat \<Rightarrow> ws_msg \<Rightarrow> ws_msg" where
  "limited n m = (case m of Msg binary d \<Rightarrow> if length d > n then ReadFails else m | ReadFails \<Rightarrow> ReadFails)"

definition NewGorillaServer :: "TransportConfig \<Rightarrow> ws_server" where
  "NewGorillaServer cfg =
     (let readBuf = (if cfg_ReadBufSize cfg = 0 then 65536 else cfg_ReadBufSize cfg);
          writeBuf = (if cfg_WriteBufSize cfg = 0 then 65536 else cfg_WriteBufSize cfg)
      in ws_New ''websocket/gorilla'' (Some (readBuf, writeBuf)) cfg)"

definition Gorilla_Start :: "i64 \<Rightarrow> bool \<Rightarrow> ws_server \<Rightarrow> (ws_error + unit) \<times> ws_server" where "Gorilla_Start = ws_Start"
definition Gorilla_Stop :: "bool \<Rightarrow> ws_server \<Rightarrow> (ws_error + unit) \<times> ws_server" where "Gorilla_Stop = ws_Stop"
definition Gorilla_serveWS :: "bool \<Rightarrow> ConnID \<Rightarrow> ws_server \<Rightarrow> ws_server option" where "Gorilla_serveWS = ws_serve AtCheck"
definition Gorilla_writePump_turn :: "pick \<Rightarrow> nat \<Rightarrow> ws_server \<Rightarrow> ws_server option" where "Gorilla_writePump_turn = ws_write_turn"
definition Gorilla_Broadcast :: "ws_order \<Rightarrow> i64 \<Rightarrow> bytes \<Rightarrow> ws_server \<Rightarrow> ((ws_error + unit) \<times> ws_server) option" where
  "Gorilla_Broadcast = ws_Broadcast writeChanCap"
definition Gorilla_Send :: "ConnID \<Rightarrow> bytes \<Rightarrow> ws_server \<Rightarrow> ((ws_error + unit) \<times> ws_server) option" where
  "Gorilla_Send = ws_Send writeChanCap"
definition Gorilla_Connections :: "ws_server \<Rightarrow> nat" where "Gorilla_Connections = ws_Connections"
definition Gorilla_Stats :: "i64 \<Rightarrow> ws_server \<Rightarrow> Stats" where "Gorilla_Stats = ws_Stats"

text \<open>A turn of the read pump: the check of the context, or a read that returns \<open>m\<close> at \<open>recvAt\<close>. When the pump returns,
  \<open>serveWS\<close> cleans up.\<close>

definition Gorilla_readPump_turn :: "i64 \<times> ws_msg \<Rightarrow> nat \<Rightarrow> ws_server \<Rightarrow> ws_server option" where
  "Gorilla_readPump_turn = (\<lambda>(recvAt, m) p s.
     if p < length (ws_conns s) then
       case wc_reader (ws_conns s ! p) of
         Returned \<Rightarrow> Some s
       | AtCheck \<Rightarrow> Some (if wc_cancelled (ws_conns s ! p) then ws_leave p s else set_reader AtRead p s)
       | AtRead \<Rightarrow> (case limited maxMessageSize m of
           ReadFails \<Rightarrow> Some (ws_leave p s)
         | Msg binary data \<Rightarrow>
             let s = set_reader AtCheck p s in
             Some (if binary then ws_received p data recvAt s else s))
     else None)"

fun Gorilla_step :: "ws_order \<Rightarrow> ws_server \<Rightarrow> (i64 \<times> ws_msg) ws_action \<Rightarrow> ws_server option" where
  "Gorilla_step ord s (Starts now listens) = Some (snd (Gorilla_Start now listens s))"
| "Gorilla_step ord s (Stops ok) = Some (snd (Gorilla_Stop ok s))"
| "Gorilla_step ord s (Accepts cid) = Gorilla_serveWS True cid s"
| "Gorilla_step ord s (Writes pk p) = Gorilla_writePump_turn pk p s"
| "Gorilla_step ord s (Reads r p) = Gorilla_readPump_turn r p s"
| "Gorilla_step ord s (Casts now d) = map_option snd (Gorilla_Broadcast ord now d s)"
| "Gorilla_step ord s (SendsTo cid d) = map_option snd (Gorilla_Send cid d s)"

section \<open>coder\<close>

definition coderWriteChanCap :: nat where "coderWriteChanCap = 256"
definition coderReadTimeout :: nat where "coderReadTimeout = 60 * 10 ^ 9"

definition NewCoderServer :: "TransportConfig \<Rightarrow> ws_server" where "NewCoderServer = ws_New ''websocket/coder'' None"
definition Coder_Start :: "i64 \<Rightarrow> bool \<Rightarrow> ws_server \<Rightarrow> (ws_error + unit) \<times> ws_server" where "Coder_Start = ws_Start"
definition Coder_Stop :: "bool \<Rightarrow> ws_server \<Rightarrow> (ws_error + unit) \<times> ws_server" where "Coder_Stop = ws_Stop"
definition Coder_serveWS :: "bool \<Rightarrow> ConnID \<Rightarrow> ws_server \<Rightarrow> ws_server option" where "Coder_serveWS = ws_serve AtRead"
definition Coder_writePump_turn :: "pick \<Rightarrow> nat \<Rightarrow> ws_server \<Rightarrow> ws_server option" where "Coder_writePump_turn = ws_write_turn"
definition Coder_Broadcast :: "ws_order \<Rightarrow> i64 \<Rightarrow> bytes \<Rightarrow> ws_server \<Rightarrow> ((ws_error + unit) \<times> ws_server) option" where
  "Coder_Broadcast = ws_Broadcast coderWriteChanCap"
definition Coder_Send :: "ConnID \<Rightarrow> bytes \<Rightarrow> ws_server \<Rightarrow> ((ws_error + unit) \<times> ws_server) option" where
  "Coder_Send = ws_Send coderWriteChanCap"
definition Coder_Connections :: "ws_server \<Rightarrow> nat" where "Coder_Connections = ws_Connections"
definition Coder_Stats :: "i64 \<Rightarrow> ws_server \<Rightarrow> Stats" where "Coder_Stats = ws_Stats"

text \<open>Each read has a context of its own that expires after the read timeout; \<open>wait\<close> is how long the peer has been silent, in
  nanoseconds.\<close>

definition Coder_readPump_turn :: "nat \<times> i64 \<times> ws_msg \<Rightarrow> nat \<Rightarrow> ws_server \<Rightarrow> ws_server option" where
  "Coder_readPump_turn = (\<lambda>(wait, recvAt, m) p s.
     if p < length (ws_conns s) then
       if wc_reader (ws_conns s ! p) = Returned then Some s
       else case (if wait \<ge> coderReadTimeout then ReadFails else limited (2 ^ 20) m) of
         ReadFails \<Rightarrow> Some (ws_leave p s)
       | Msg binary data \<Rightarrow> Some (if binary then ws_received p data recvAt s else s)
     else None)"

section \<open>gobwas\<close>

definition gobwasWriteChanCap :: nat where "gobwasWriteChanCap = 256"

datatype ws_opcode = OpContinuation | OpText | OpBinary | OpClose | OpPing | OpPong

record gobwas_frame =
  gf_op :: ws_opcode
  gf_masked :: bool
  gf_mask :: bytes
  gf_payload :: bytes

definition NewGobwasServer :: "TransportConfig \<Rightarrow> ws_server" where "NewGobwasServer = ws_New ''websocket/gobwas'' None"
definition Gobwas_Start :: "i64 \<Rightarrow> bool \<Rightarrow> ws_server \<Rightarrow> (ws_error + unit) \<times> ws_server" where "Gobwas_Start = ws_Start"
definition Gobwas_Stop :: "bool \<Rightarrow> ws_server \<Rightarrow> (ws_error + unit) \<times> ws_server" where "Gobwas_Stop = ws_Stop"
definition Gobwas_serveWS :: "bool \<Rightarrow> ConnID \<Rightarrow> ws_server \<Rightarrow> ws_server option" where "Gobwas_serveWS = ws_serve AtCheck"
definition Gobwas_writePump_turn :: "pick \<Rightarrow> nat \<Rightarrow> ws_server \<Rightarrow> ws_server option" where "Gobwas_writePump_turn = ws_write_turn"
definition Gobwas_Broadcast :: "ws_order \<Rightarrow> i64 \<Rightarrow> bytes \<Rightarrow> ws_server \<Rightarrow> ((ws_error + unit) \<times> ws_server) option" where
  "Gobwas_Broadcast = ws_Broadcast gobwasWriteChanCap"
definition Gobwas_Send :: "ConnID \<Rightarrow> bytes \<Rightarrow> ws_server \<Rightarrow> ((ws_error + unit) \<times> ws_server) option" where
  "Gobwas_Send = ws_Send gobwasWriteChanCap"
definition Gobwas_Connections :: "ws_server \<Rightarrow> nat" where "Gobwas_Connections = ws_Connections"
definition Gobwas_Stats :: "i64 \<Rightarrow> ws_server \<Rightarrow> Stats" where "Gobwas_Stats = ws_Stats"

definition reply_frame :: "bool \<Rightarrow> ws_frame \<Rightarrow> nat \<Rightarrow> ws_server \<Rightarrow> ws_server" where
  "reply_frame ok f p s =
     s\<lparr>ws_conns := (ws_conns s)[p := (ws_conns s ! p)\<lparr>wc_out := wc_out (ws_conns s ! p) @ (if ok then [f] else [])\<rparr>]\<rparr>"

text \<open>\<open>cipher\<close> is the library's \<open>ws.Cipher\<close>; \<open>None\<close> is a failed read, and the flag says whether a reply can be written.\<close>

definition Gobwas_readPump_turn ::
  "(bytes \<Rightarrow> bytes \<Rightarrow> bytes) \<Rightarrow> i64 \<times> bool \<times> gobwas_frame option \<Rightarrow> nat \<Rightarrow> ws_server \<Rightarrow> ws_server option" where
  "Gobwas_readPump_turn cipher = (\<lambda>(recvAt, ok, fr) p s.
     if p < length (ws_conns s) then
       case wc_reader (ws_conns s ! p) of
         Returned \<Rightarrow> Some s
       | AtCheck \<Rightarrow> Some (if wc_cancelled (ws_conns s ! p) then ws_leave p s else set_reader AtRead p s)
       | AtRead \<Rightarrow> (case fr of
           None \<Rightarrow> Some (ws_leave p s)
         | Some f \<Rightarrow> Some (case gf_op f of
             OpClose \<Rightarrow> ws_leave p (reply_frame ok CloseFrame p s)
           | OpPing \<Rightarrow> set_reader AtCheck p (reply_frame ok (PongFrame (gf_payload f)) p s)
           | OpPong \<Rightarrow> set_reader AtCheck p s
           | OpBinary \<Rightarrow> ws_received p (if gf_masked f then cipher (gf_payload f) (gf_mask f) else gf_payload f) recvAt (set_reader AtCheck p s)
           | OpText \<Rightarrow> ws_received p (if gf_masked f then cipher (gf_payload f) (gf_mask f) else gf_payload f) recvAt (set_reader AtCheck p s)
           | OpContinuation \<Rightarrow> set_reader AtCheck p s))
     else None)"

fun Gobwas_step ::
  "(bytes \<Rightarrow> bytes \<Rightarrow> bytes) \<Rightarrow> ws_order \<Rightarrow> ws_server \<Rightarrow> (i64 \<times> bool \<times> gobwas_frame option) ws_action \<Rightarrow> ws_server option" where
  "Gobwas_step cipher ord s (Starts now listens) = Some (snd (Gobwas_Start now listens s))"
| "Gobwas_step cipher ord s (Stops ok) = Some (snd (Gobwas_Stop ok s))"
| "Gobwas_step cipher ord s (Accepts cid) = Gobwas_serveWS True cid s"
| "Gobwas_step cipher ord s (Writes pk p) = Gobwas_writePump_turn pk p s"
| "Gobwas_step cipher ord s (Reads r p) = Gobwas_readPump_turn cipher r p s"
| "Gobwas_step cipher ord s (Casts now d) = map_option snd (Gobwas_Broadcast ord now d s)"
| "Gobwas_step cipher ord s (SendsTo cid d) = map_option snd (Gobwas_Send cid d s)"

fun Coder_step :: "ws_order \<Rightarrow> ws_server \<Rightarrow> (nat \<times> i64 \<times> ws_msg) ws_action \<Rightarrow> ws_server option" where
  "Coder_step ord s (Starts now listens) = Some (snd (Coder_Start now listens s))"
| "Coder_step ord s (Stops ok) = Some (snd (Coder_Stop ok s))"
| "Coder_step ord s (Accepts cid) = Coder_serveWS True cid s"
| "Coder_step ord s (Writes pk p) = Coder_writePump_turn pk p s"
| "Coder_step ord s (Reads r p) = Coder_readPump_turn r p s"
| "Coder_step ord s (Casts now d) = map_option snd (Coder_Broadcast ord now d s)"
| "Coder_step ord s (SendsTo cid d) = map_option snd (Coder_Send cid d s)"

section \<open>The read pumps keep to the interface\<close>

lemma registry_set_reader [simp]:
  "ws_registry (set_reader ph p s) = ws_registry s" "length (ws_conns (set_reader ph p s)) = length (ws_conns s)"
  by (simp_all add: set_reader_def)

lemma read_effect_read:
  assumes "ws_wf s" and "p < length (ws_conns s)"
  shows "read_effect p s (ws_received p d t (set_reader ph p s))"
proof (rule read_effect_trans [OF read_effect_set_reader [OF assms]])
  have "ws_wf (set_reader ph p s)" using read_effect_set_reader [OF assms] by (simp add: read_effect_def)
  then show "read_effect p (set_reader ph p s) (ws_received p d t (set_reader ph p s))"
    using assms(2) by (intro read_effect_received) simp_all
qed simp

lemma read_effect_reply:
  assumes "ws_wf s" and "p < length (ws_conns s)" and "data_of [f] = []"
  shows "read_effect p s (ws_leave p (reply_frame ok f p s))" "read_effect p s (set_reader ph p (reply_frame ok f p s))"
proof -
  have e: "read_effect p s (reply_frame ok f p s)"
    unfolding reply_frame_def using assms by (intro read_effect_out) auto
  have w: "ws_wf (reply_frame ok f p s)" and l: "p < length (ws_conns (reply_frame ok f p s))" and r: "ws_registry (reply_frame ok f p s) = ws_registry s"
    using e assms(2) by (auto simp: read_effect_def reply_frame_def)
  show "read_effect p s (ws_leave p (reply_frame ok f p s))" by (rule read_effect_trans [OF e r read_effect_leave [OF w l]])
  show "read_effect p s (set_reader ph p (reply_frame ok f p s))" by (rule read_effect_trans [OF e r read_effect_set_reader [OF w l]])
qed

lemmas read_effects = read_effect_refl read_effect_set_reader read_effect_leave read_effect_received read_effect_read read_effect_reply

interpretation gorilla: ws_reader Gorilla_readPump_turn AtCheck writeChanCap
  by unfold_locales
     (auto simp: Gorilla_readPump_turn_def Let_def read_effects split: ws_phase.splits ws_msg.splits prod.splits)

interpretation coder: ws_reader Coder_readPump_turn AtRead coderWriteChanCap
  by unfold_locales
     (auto simp: Coder_readPump_turn_def read_effects split: ws_msg.splits prod.splits)

interpretation gobwas: ws_reader "Gobwas_readPump_turn cipher" AtCheck gobwasWriteChanCap for cipher
  by unfold_locales
     (auto simp: Gobwas_readPump_turn_def read_effects split: ws_phase.splits option.splits ws_opcode.splits prod.splits)

lemma Gorilla_step_eq: "Gorilla_step ord = ws_step Gorilla_readPump_turn AtCheck writeChanCap ord"
proof (intro ext)
  show "Gorilla_step ord s e = ws_step Gorilla_readPump_turn AtCheck writeChanCap ord s e" for s e
    by (cases e) (simp_all add: Gorilla_Start_def Gorilla_Stop_def Gorilla_serveWS_def Gorilla_writePump_turn_def Gorilla_Broadcast_def Gorilla_Send_def)
qed

lemma Coder_step_eq: "Coder_step ord = ws_step Coder_readPump_turn AtRead coderWriteChanCap ord"
proof (intro ext)
  show "Coder_step ord s e = ws_step Coder_readPump_turn AtRead coderWriteChanCap ord s e" for s e
    by (cases e) (simp_all add: Coder_Start_def Coder_Stop_def Coder_serveWS_def Coder_writePump_turn_def Coder_Broadcast_def Coder_Send_def)
qed

lemma Gobwas_step_eq: "Gobwas_step cipher ord = ws_step (Gobwas_readPump_turn cipher) AtCheck gobwasWriteChanCap ord"
proof (intro ext)
  show "Gobwas_step cipher ord s e = ws_step (Gobwas_readPump_turn cipher) AtCheck gobwasWriteChanCap ord s e" for s e
    by (cases e) (simp_all add: Gobwas_Start_def Gobwas_Stop_def Gobwas_serveWS_def Gobwas_writePump_turn_def Gobwas_Broadcast_def Gobwas_Send_def)
qed

section \<open>Delivery and counters\<close>

text \<open>However the goroutines of a gorilla server interleave, a connection whose write pump meets no write error and
  whose read pump does not return gets, in the order offered, frames that were broadcast or sent to it, each at most once; all of them
  when there are at most 256, the capacity of its channel. The server does not panic, and 256 more turns of the
  write pump empty the channel.\<close>

lemma gorilla_delivers_in_order:
  assumes "range_order ord" and "ws_live p s" and "wc_ch (ws_conns s ! p) = []"
    and "ws_run_ok Gorilla_readPump_turn (Gorilla_step ord) p s es"
  shows "\<exists>s' ms. run_opt (Gorilla_step ord) s (es @ replicate writeChanCap (Writes (PickData True) p)) = Some s' \<and>
     wc_ch (ws_conns s' ! p) = [] \<and> data_of (wc_out (ws_conns s' ! p)) = data_of (wc_out (ws_conns s ! p)) @ ms \<and>
     subseq ms (ws_offered (Gorilla_step ord) p s es) \<and>
     (length (ws_offered (Gorilla_step ord) p s es) \<le> writeChanCap \<longrightarrow> ms = ws_offered (Gorilla_step ord) p s es)"
  using gorilla.run_delivers [OF assms(1-3)] assms(4) unfolding Gorilla_step_eq by blast

definition ws_sample_cfg :: TransportConfig where
  "ws_sample_cfg = \<lparr>cfg_ListenAddr = '':1'', cfg_TLSCertDir = [], cfg_MaxConnections = 0, cfg_ReadBufSize = 0, cfg_WriteBufSize = 0,
     cfg_WriteTimeout = 0, cfg_ReadTimeout = 0, cfg_OnRecv = True, cfg_OnConnect = True, cfg_OnDisconnect = True\<rparr>"

text \<open>A new server with one connection, and what a broadcast does to it.\<close>

definition ws_one :: "ws_phase \<Rightarrow> u64 \<Rightarrow> bytes list \<Rightarrow> ws_server \<Rightarrow> bool" where
  "ws_one ph n ch s \<longleftrightarrow> ws_wf s \<and> ws_counts s \<and> IsStarted (ws_base s) \<and> ws_seq s = n \<and> cfg_OnRecv (ws_cfg s) \<and>
     Registry_Get (ws_registry s) ''a'' = Some 0 \<and>
     ws_conns s = [\<lparr>wc_id = ''a'', wc_ch = ch, wc_cancelled = False, wc_closed = False, wc_writer = True, wc_reader = ph, wc_out = []\<rparr>]"

lemma ws_one_New:
  assumes "cfg_OnRecv cfg"
  shows "\<exists>s. run_opt (ws_step rd ph cp ord) (ws_New protocol bufs cfg) [Starts now l, Accepts ''a''] = Some s \<and> ws_one ph 0 [] s"
proof -
  let ?s = "snd (ws_Start now l (ws_New protocol bufs cfg))"
  have w: "ws_wf ?s" "ws_counts ?s"
    using ws_wf_New [of protocol bufs cfg] ws_counts_New [of protocol bufs cfg]
    by (simp_all add: ws_Start_def ws_wf_def ws_counts_def on_wires_def bytes_on_wires_def)
  have "ws_conns ?s = []" "ws_seq ?s = 0" "IsStarted (ws_base ?s)" "cfg_OnRecv (ws_cfg ?s)"
    using assms by (simp_all add: ws_Start_def ws_New_def IsStarted_def MarkStarted_def zero_BaseTransport_def SetProtocol_def)
  moreover have "ws_cfg s' = ws_cfg ?s" if "ws_serve ph True ''a'' ?s = Some s'" for s'
    using that by (auto simp: ws_serve_def Let_def split: bind_splits)
  ultimately show ?thesis using ws_serve_ok [OF w(1), of "''a''" ph] w(2) by (auto simp: ws_one_def)
qed

lemma ws_one_cast:
  assumes "ws_one ph n [] s" and "range_order ord" and "0 < cp"
  shows "\<exists>s'. ws_Broadcast cp ord now d s = Some (Inr (), s') \<and> ws_one ph (n + 1) [frame_bytes (n + 1) now d] s'"
proof -
  have s: "ws_wf s" "IsStarted (ws_base s)" using assms(1) by (simp_all add: ws_one_def)
  obtain s' where s': "ws_Broadcast cp ord now d s = Some (Inr (), s')" "only_queues s s'" "ws_seq s' = n + 1"
      "length (ws_conns s') = 1" "ws_conns s' ! 0 = fst (wsc_offer cp (ws_conns s ! 0) (frame_bytes (n + 1) now d))"
    using ws_Broadcast_ok [OF s(1) assms(2) s(2), of cp now d] assms(1) by (auto simp: ws_one_def only_queues_length)
  have "ws_conns s' = [ws_conns s' ! 0]" using s'(4) by (simp add: length_Suc_conv) auto
  then show ?thesis using s' assms(1,3) only_queues_keeps [OF s'(2)] by (auto simp: ws_one_def wsc_offer_eq)
qed

lemma ws_one_live: "ws_one ph n ch s \<Longrightarrow> ws_live 0 s"
  by (simp add: ws_one_def ws_live_def)

text \<open>The other two servers deliver alike.\<close>

lemma coder_delivers_in_order:
  assumes "range_order ord" and "ws_live p s" and "wc_ch (ws_conns s ! p) = []"
    and "ws_run_ok Coder_readPump_turn (Coder_step ord) p s es"
  shows "\<exists>s' ms. run_opt (Coder_step ord) s (es @ replicate coderWriteChanCap (Writes (PickData True) p)) = Some s' \<and>
     wc_ch (ws_conns s' ! p) = [] \<and> data_of (wc_out (ws_conns s' ! p)) = data_of (wc_out (ws_conns s ! p)) @ ms \<and>
     subseq ms (ws_offered (Coder_step ord) p s es) \<and>
     (length (ws_offered (Coder_step ord) p s es) \<le> coderWriteChanCap \<longrightarrow> ms = ws_offered (Coder_step ord) p s es)"
  using coder.run_delivers [OF assms(1-3)] assms(4) unfolding Coder_step_eq by blast

lemma gobwas_delivers_in_order:
  assumes "range_order ord" and "ws_live p s" and "wc_ch (ws_conns s ! p) = []"
    and "ws_run_ok (Gobwas_readPump_turn cipher) (Gobwas_step cipher ord) p s es"
  shows "\<exists>s' ms. run_opt (Gobwas_step cipher ord) s (es @ replicate gobwasWriteChanCap (Writes (PickData True) p)) = Some s' \<and>
     wc_ch (ws_conns s' ! p) = [] \<and> data_of (wc_out (ws_conns s' ! p)) = data_of (wc_out (ws_conns s ! p)) @ ms \<and>
     subseq ms (ws_offered (Gobwas_step cipher ord) p s es) \<and>
     (length (ws_offered (Gobwas_step cipher ord) p s es) \<le> gobwasWriteChanCap \<longrightarrow> ms = ws_offered (Gobwas_step cipher ord) p s es)"
  using gobwas.run_delivers [OF assms(1-3)] assms(4) unfolding Gobwas_step_eq by blast

text \<open>Property C30. Whatever a gobwas server goes through (starts, stops, connections with new identifiers, turns of the write and
  read pumps of its connections on any frames, broadcasts and sends), no step panics, and between any two turns its statistics are exact,
  modulo \<open>2 ^ 64\<close>: the messages and bytes sent are the data frames and their bytes on all wires, and, with a receive handler, the messages
  and bytes received are what the handler was given. (A turn of a write pump writes the frame and updates the two counters.)\<close>

theorem gobwas_counters_exact:
  assumes "range_order ord" and "ws_existing (Gobwas_step cipher ord) (NewGobwasServer cfg) es"
  shows "\<exists>s. run_opt (Gobwas_step cipher ord) (NewGobwasServer cfg) es = Some s \<and> ws_wf s \<and>
     st_Sent (Gobwas_Stats now s) = of_nat (on_wires s) \<and> st_BytesSent (Gobwas_Stats now s) = of_nat (bytes_on_wires s) \<and>
     (cfg_OnRecv (ws_cfg s) \<longrightarrow> st_Received (Gobwas_Stats now s) = of_nat (length (recv_calls (ws_calls s))) \<and>
        st_BytesRecv (Gobwas_Stats now s) = of_nat (sum_list (map length (recv_calls (ws_calls s)))))"
proof -
  have "\<exists>s. run_opt (Gobwas_step cipher ord) (NewGobwasServer cfg) es = Some s \<and> ws_wf s \<and> ws_counts s"
    using gobwas.run_keeps [OF assms(1) ws_wf_New ws_counts_New] assms(2) unfolding Gobwas_step_eq NewGobwasServer_def .
  then show ?thesis by (auto simp: Gobwas_Stats_def ws_Stats_def ws_counts_def)
qed

definition xor_cipher :: "bytes \<Rightarrow> bytes \<Rightarrow> bytes" where
  "xor_cipher d k = map (\<lambda>(i, b). Bit_Operations.xor b (k ! (i mod 4))) (enumerate 0 d)"

definition gobwas_sample_run :: "(i64 \<times> bool \<times> gobwas_frame option) ws_action list" where
  "gobwas_sample_run = [Starts 1 True, Accepts ''a'', Casts 5 [1], Writes (PickData True) 0, Reads (6, True, None) 0,
     Reads (7, True, Some \<lparr>gf_op = OpBinary, gf_masked = True, gf_mask = [1, 2, 3, 4], gf_payload = [9, 8, 7]\<rparr>) 0]"

theorem gobwas_counters_exact_witness:
  "\<exists>s. run_opt (Gobwas_step xor_cipher rev) (NewGobwasServer ws_sample_cfg) gobwas_sample_run = Some s \<and>
     st_Sent (Gobwas_Stats 9 s) = 1 \<and> st_BytesSent (Gobwas_Stats 9 s) = 25 \<and>
     st_Received (Gobwas_Stats 9 s) = 1 \<and> st_BytesRecv (Gobwas_Stats 9 s) = 3"
proof -
  have ex: "ws_existing (Gobwas_step xor_cipher rev) (NewGobwasServer ws_sample_cfg) gobwas_sample_run" by code_simp
  have v: "case run_opt (Gobwas_step xor_cipher rev) (NewGobwasServer ws_sample_cfg) gobwas_sample_run of None \<Rightarrow> False
    | Some s \<Rightarrow> on_wires s = 1 \<and> bytes_on_wires s = 25 \<and> cfg_OnRecv (ws_cfg s) \<and> map length (recv_calls (ws_calls s)) = [3]" by code_simp
  obtain s where s: "run_opt (Gobwas_step xor_cipher rev) (NewGobwasServer ws_sample_cfg) gobwas_sample_run = Some s"
     "st_Sent (Gobwas_Stats 9 s) = of_nat (on_wires s)" "st_BytesSent (Gobwas_Stats 9 s) = of_nat (bytes_on_wires s)"
     "cfg_OnRecv (ws_cfg s) \<longrightarrow> st_Received (Gobwas_Stats 9 s) = of_nat (length (recv_calls (ws_calls s))) \<and>
        st_BytesRecv (Gobwas_Stats 9 s) = of_nat (sum_list (map length (recv_calls (ws_calls s))))"
    using gobwas_counters_exact [OF range_order_rev ex, of 9] by blast
  have n: "map length (recv_calls (ws_calls s)) = [3]" using v s(1) by simp
  then have "length (recv_calls (ws_calls s)) = 1" by (metis One_nat_def length_Cons length_map list.size(3))
  then show ?thesis using s v n by simp
qed

text \<open>A silent client of the coder server is dropped after 60 s however its pongs answer the server's pings: only a message ends a
  read. And a pong of the gobwas server carries the ping's payload as received, still masked, where RFC 6455 asks for the application data.\<close>

lemma coder_silent_client_dropped:
  assumes "p < length (ws_conns s)" and "wc_reader (ws_conns s ! p) = AtRead" and "coderReadTimeout \<le> wait"
  shows "Coder_readPump_turn (wait, t, m) p s = Some (ws_leave p s)"
  using assms by (simp add: Coder_readPump_turn_def)

lemma gobwas_pong_is_masked:
  assumes "p < length (ws_conns s)" and "wc_reader (ws_conns s ! p) = AtRead" and "gf_op f = OpPing"
  shows "\<exists>s'. Gobwas_readPump_turn cipher (t, True, Some f) p s = Some s' \<and>
     wc_out (ws_conns s' ! p) = wc_out (ws_conns s ! p) @ [PongFrame (gf_payload f)]"
  using assms by (simp add: Gobwas_readPump_turn_def reply_frame_def set_reader_def)

lemma gobwas_unmasks:
  assumes "p < length (ws_conns s)" and "wc_reader (ws_conns s ! p) = AtRead" and "cfg_OnRecv (ws_cfg s)"
    and "gf_op f = OpBinary" and "gf_masked f" and "gf_payload f = cipher d (gf_mask f)" and "\<And>d k. cipher (cipher d k) k = d"
  shows "\<exists>s'. Gobwas_readPump_turn cipher (t, ok, Some f) p s = Some s' \<and>
     ws_calls s' = ws_calls s @ [CallRecv (wc_id (ws_conns s ! p)) d t]"
  using assms by (simp add: Gobwas_readPump_turn_def ws_received_def set_reader_def calls_if_def)

end
