(* ===== verification/Ws_Clients.thy ===== *)
theory Ws_Clients
  imports Ws_Servers
begin

text \<open>
  The clients of \<^verbatim>\<open>internal/websocket/gorilla\<close>, \<^verbatim>\<open>coder\<close> and \<^verbatim>\<open>gobwas\<close>: dialling with exponential
  backoff and jitter, the two pumps and \<open>Close\<close>. What the three packages share is defined once, with the names
  \<open>wcl_\<close>; the packages' operations are instances of it and read pumps of their own. A client's
  connections live in a store, in the order of their dialling. \<open>Connect\<close> is called once per client.
\<close>

section \<open>The delay between attempts\<close>

text \<open>\<open>float64\<close> values that are whole multiples of a power of two are kept as that multiple: \<open>round53\<close> rounds a natural number to 53
  significant bits, ties to even, as \<open>float64\<close> conversion and multiplication do. \<open>rand.Float64()\<close> is \<open>round53 i / 2 ^ 63\<close> for a random
  63-bit \<open>i\<close> (drawn again when this is 1).\<close>

fun bitlen :: "nat \<Rightarrow> nat" where
  "bitlen n = (if n = 0 then 0 else Suc (bitlen (n div 2)))"

declare bitlen.simps [simp del]

definition half_even :: "nat \<Rightarrow> nat \<Rightarrow> nat" where
  "half_even n d = (let q = n div d; r = n mod d in if 2 * r < d then q else if 2 * r > d then q + 1 else if even q then q else q + 1)"

definition round53 :: "nat \<Rightarrow> nat" where
  "round53 n = (let k = bitlen n - 53 in half_even n (2 ^ k) * 2 ^ k)"

definition reconnectBaseDelay :: nat where "reconnectBaseDelay = 100 * 10 ^ 6"
definition reconnectMaxDelay :: nat where "reconnectMaxDelay = 10 * 10 ^ 9"
definition maxReconnectAttempts :: nat where "maxReconnectAttempts = 10"

definition reconnectDelay :: "nat \<Rightarrow> nat \<Rightarrow> nat" where
  "reconnectDelay i attempt = (let e = min reconnectMaxDelay (reconnectBaseDelay * 2 ^ attempt) in round53 (round53 i * e) div 2 ^ 63)"

definition coderReconnectDelay :: "nat \<Rightarrow> nat \<Rightarrow> nat" where "coderReconnectDelay = reconnectDelay"
definition gobwasReconnectDelay :: "nat \<Rightarrow> nat \<Rightarrow> nat" where "gobwasReconnectDelay = reconnectDelay"

lemma bitlen_bounds: "n \<noteq> 0 \<Longrightarrow> 2 ^ (bitlen n - 1) \<le> n \<and> n < 2 ^ bitlen n"
proof (induction n rule: bitlen.induct)
  case (1 n)
  then show ?case
  proof (cases "n div 2 = 0")
    case True
    then have "n = 1" using 1(2) by (simp add: div_eq_0_iff)
    then show ?thesis by (simp add: bitlen.simps)
  next
    case False
    then have ih: "2 ^ (bitlen (n div 2) - 1) \<le> n div 2" "n div 2 < 2 ^ bitlen (n div 2)" using 1 by auto
    have b: "bitlen n = Suc (bitlen (n div 2))" "bitlen (n div 2) \<noteq> 0" using 1(2) False by (auto simp: bitlen.simps [of n] bitlen.simps [of "n div 2"])
    then obtain m where m: "bitlen (n div 2) = Suc m" by (cases "bitlen (n div 2)") auto
    show ?thesis using ih unfolding b(1) m by auto
  qed
qed

lemma bitlen_le:
  assumes "n < 2 ^ b"
  shows "bitlen n \<le> b"
proof (cases "n = 0")
  case False
  then have "2 ^ (bitlen n - 1) \<le> n" using bitlen_bounds by blast
  then have "2 ^ (bitlen n - 1) < (2::nat) ^ b" using assms by (rule le_less_trans)
  then have "bitlen n - 1 < b" by (rule power_less_imp_less_exp [rotated]) simp
  then show ?thesis by simp
qed (simp add: bitlen.simps)

text \<open>Rounding does not pass a bound with few significant bits.\<close>

lemma half_even_le: "0 < d \<Longrightarrow> n \<le> q * d \<Longrightarrow> half_even n d \<le> q"
proof -
  assume d: "0 < d" and n: "n \<le> q * d"
  have "n div d \<le> q" using div_le_mono [OF n, of d] d by simp
  moreover have "n mod d = 0" if "n div d = q" using that n div_mult_mod_eq [of n d] by simp
  ultimately show ?thesis using d by (cases "n div d = q") (simp_all add: half_even_def Let_def)
qed

lemma round53_le:
  assumes "n \<le> q * 2 ^ k" and "n < 2 ^ b" and "b \<le> k + 53"
  shows "round53 n \<le> q * 2 ^ k"
proof -
  let ?j = "bitlen n - 53"
  have j: "?j \<le> k" using bitlen_le [OF assms(2)] assms(3) by simp
  then have split: "q * 2 ^ k = (q * 2 ^ (k - ?j)) * 2 ^ ?j" by (simp flip: power_add)
  then have "half_even n (2 ^ ?j) \<le> q * 2 ^ (k - ?j)" using assms(1) by (intro half_even_le) auto
  then have "half_even n (2 ^ ?j) * 2 ^ ?j \<le> q * 2 ^ (k - ?j) * 2 ^ ?j" by (rule mult_le_mono1)
  then show ?thesis by (simp only: split round53_def Let_def)
qed

lemma round53_exact: "n < 2 ^ 53 \<Longrightarrow> round53 n = n"
  using bitlen_le [of n 53] by (simp add: round53_def half_even_def)

lemma reconnectDelay_le:
  assumes "i < 2 ^ 63"
  shows "reconnectDelay i attempt \<le> min reconnectMaxDelay (reconnectBaseDelay * 2 ^ attempt)"
proof -
  let ?e = "min reconnectMaxDelay (reconnectBaseDelay * 2 ^ attempt)"
  have e: "?e < 2 ^ 34" by (simp add: reconnectMaxDelay_def min_def)
  have r: "round53 i \<le> 2 ^ 63" using round53_le [of i 1 63 63] assms by simp
  then have n: "round53 i * ?e \<le> ?e * 2 ^ 63" by (simp only: mult.commute [of _ ?e] mult_le_mono2)
  also have "\<dots> < 2 ^ 34 * 2 ^ 63" using e by simp
  finally have "round53 i * ?e < 2 ^ 97" by simp
  then have "round53 (round53 i * ?e) \<le> ?e * 2 ^ 63" using n by (rule_tac round53_le [where b = 97]) auto
  then have "round53 (round53 i * ?e) div 2 ^ 63 \<le> ?e * 2 ^ 63 div 2 ^ 63" by (rule div_le_mono)
  then show ?thesis unfolding reconnectDelay_def Let_def by simp
qed

section \<open>Dialling\<close>

text \<open>What a dial of the library returns: a connection, with or without a buffered reader (gobwas only), or an error. An attempt is the random
  63-bit number, whether the timer fires before the context is done, and the outcome of the dial.\<close>

datatype dial_out = DialOk bool | DialErr string

type_synonym attempt = "nat \<times> bool \<times> dial_out"

datatype dial_state =
    Trying nat "string option" nat   \<comment> \<open>attempt, last error, nanoseconds waited\<close>
  | Got bool nat
  | CtxDone nat
  | Exhausted "string option" nat

definition dial_turn :: "nat \<Rightarrow> attempt \<Rightarrow> nat \<Rightarrow> string option \<Rightarrow> nat \<Rightarrow> dial_state" where
  "dial_turn maxAttempts = (\<lambda>(i, timer, out) attempt lastErr waited.
     if attempt < maxAttempts then
       if attempt > 0 \<and> \<not> timer then CtxDone (waited + reconnectDelay i attempt)
       else let waited = (if attempt > 0 then waited + reconnectDelay i attempt else waited) in
            case out of DialOk br \<Rightarrow> Got br waited | DialErr e \<Rightarrow> Trying (attempt + 1) (Some e) waited
     else Exhausted lastErr waited)"

function dial_loop :: "nat \<Rightarrow> (nat \<Rightarrow> attempt) \<Rightarrow> nat \<Rightarrow> string option \<Rightarrow> nat \<Rightarrow> dial_state" where
  "dial_loop maxAttempts env attempt lastErr waited =
     (case dial_turn maxAttempts (env attempt) attempt lastErr waited of
        Trying a e w \<Rightarrow> if a = attempt + 1 \<and> attempt < maxAttempts then dial_loop maxAttempts env a e w else Trying a e w
      | r \<Rightarrow> r)"
  by pat_completeness auto
termination by (relation "measure (\<lambda>(m, env, a, e, w). m - a)") auto

declare dial_loop.simps [simp del]

definition dialWithRetry :: "nat \<Rightarrow> (nat \<Rightarrow> attempt) \<Rightarrow> dial_state" where
  "dialWithRetry maxAttempts env = dial_loop maxAttempts env 0 None 0"

lemma dial_loop_step:
  "dial_loop m env a e w =
     (if a < m then
        if a > 0 \<and> \<not> fst (snd (env a)) then CtxDone (w + reconnectDelay (fst (env a)) a)
        else let w = (if a > 0 then w + reconnectDelay (fst (env a)) a else w) in
             case snd (snd (env a)) of DialOk br \<Rightarrow> Got br w | DialErr x \<Rightarrow> dial_loop m env (a + 1) (Some x) w
      else Exhausted e w)"
  by (subst dial_loop.simps) (simp add: dial_turn_def split_beta Let_def split: dial_out.splits)

text \<open>The most that attempts \<open>1\<close> to \<open>n\<close> wait.\<close>

definition max_wait :: "nat \<Rightarrow> nat" where
  "max_wait n = (\<Sum>a\<leftarrow>[1..<Suc n]. min reconnectMaxDelay (reconnectBaseDelay * 2 ^ a))"

fun dial_waited :: "dial_state \<Rightarrow> nat" where
  "dial_waited (Trying a e w) = w"
| "dial_waited (Got br w) = w"
| "dial_waited (CtxDone w) = w"
| "dial_waited (Exhausted e w) = w"

lemma max_wait_Suc: "max_wait (Suc n) = max_wait n + min reconnectMaxDelay (reconnectBaseDelay * 2 ^ Suc n)"
  by (simp add: max_wait_def)

lemma max_wait_mono: "a \<le> b \<Longrightarrow> max_wait a \<le> max_wait b"
  by (rule lift_Suc_mono_le [of max_wait]) (simp_all add: max_wait_Suc)

lemma dial_loop_waited:
  assumes "\<And>a. fst (env a) < 2 ^ 63" and "w \<le> max_wait (a - 1)" and "a \<le> m"
  shows "dial_waited (dial_loop m env a e w) \<le> max_wait (m - 1)"
  using assms(2,3)
proof (induction "m - a" arbitrary: a e w)
  case 0
  then show ?case by (simp add: dial_loop_step)
next
  case (Suc n)
  let ?w = "if a > 0 then w + reconnectDelay (fst (env a)) a else w"
  have "?w \<le> max_wait a"
    using Suc.prems(1) reconnectDelay_le [OF assms(1), of a a] max_wait_Suc [of "a - 1"] by (cases a) auto
  moreover have "max_wait a \<le> max_wait (m - 1)" using Suc.hyps(2) by (intro max_wait_mono) simp
  moreover have "dial_waited (dial_loop m env (a + 1) x ?w) \<le> max_wait (m - 1)" for x
    using Suc.hyps(2) \<open>?w \<le> max_wait a\<close> by (intro Suc.hyps(1)) auto
  ultimately show ?case using Suc.hyps(2)
    by (subst dial_loop_step) (auto simp: Let_def split: dial_out.splits)
qed

text \<open>Which attempt decides.\<close>

lemma dial_loop_first:
  assumes "a \<le> k" and "k < m" and "\<And>j. a \<le> j \<Longrightarrow> j < k \<Longrightarrow> (0 < j \<longrightarrow> fst (snd (env j))) \<and> (\<exists>x. snd (snd (env j)) = DialErr x)"
    and "0 < k \<longrightarrow> fst (snd (env k))" and "snd (snd (env k)) = DialOk br"
  shows "\<exists>w'. dial_loop m env a e w = Got br w'"
  using assms(1,3)
proof (induction "k - a" arbitrary: a e w)
  case 0
  then have "a = k" by simp
  then show ?case using assms(2,4,5) by (subst dial_loop_step) (auto simp: Let_def)
next
  case (Suc n)
  then have "a < k" by simp
  then obtain x where x: "snd (snd (env a)) = DialErr x" "0 < a \<longrightarrow> fst (snd (env a))" using Suc.prems(2) [of a] by blast
  have "\<exists>w'. dial_loop m env (a + 1) (Some x) w1 = Got br w'" for w1
    using Suc.hyps(2) Suc.prems by (intro Suc.hyps(1)) auto
  then show ?case using x assms(2) Suc.hyps(2) by (subst dial_loop_step) (auto simp: Let_def)
qed

lemma dial_loop_exhausted:
  assumes "a \<le> m" and "\<And>j. a \<le> j \<Longrightarrow> j < m \<Longrightarrow> (0 < j \<longrightarrow> fst (snd (env j))) \<and> snd (snd (env j)) = DialErr (x j)"
  shows "\<exists>w'. dial_loop m env a e w = Exhausted (if a = m then e else Some (x (m - 1))) w'"
  using assms
proof (induction "m - a" arbitrary: a e w)
  case 0
  then show ?case by (subst dial_loop_step) simp
next
  case (Suc n)
  then have a: "a < m" by simp
  have "\<exists>w'. dial_loop m env (a + 1) (Some (x a)) w1 = Exhausted (if a + 1 = m then Some (x a) else Some (x (m - 1))) w'" for w1
    using Suc.hyps(2) Suc.prems by (intro Suc.hyps(1)) auto
  then have "\<exists>w'. dial_loop m env (a + 1) (Some (x a)) w1 = Exhausted (Some (x (m - 1))) w'" for w1
    by (cases "a + 1 = m") auto
  then show ?case using Suc.prems(2) [of a] a by (subst dial_loop_step) (auto simp: Let_def)
qed

text \<open>Property C31. A client's dial ends: it returns the first connection a dial yields, or, when all ten attempts fail, the last
  attempt's error, and it never spends more than 42.6 seconds between attempts, whatever the jitter. (The context is not cancelled during a wait.)\<close>

theorem dial_with_retry_bounded:
  assumes "\<And>a. fst (env a) < 2 ^ 63" and "\<And>a. 0 < a \<Longrightarrow> fst (snd (env a))"
  shows "dial_waited (dialWithRetry maxReconnectAttempts env) \<le> 42600000000 \<and>
     ((\<exists>k < maxReconnectAttempts. \<exists>br w. snd (snd (env k)) = DialOk br \<and> (\<forall>j < k. \<exists>x. snd (snd (env j)) = DialErr x) \<and>
         dialWithRetry maxReconnectAttempts env = Got br w) \<or>
      (\<exists>x w. (\<forall>j < maxReconnectAttempts. \<exists>y. snd (snd (env j)) = DialErr y) \<and> snd (snd (env 9)) = DialErr x \<and>
         dialWithRetry maxReconnectAttempts env = Exhausted (Some x) w))"
proof (intro conjI)
  have "[1..<10] = [1, 2, 3, 4, 5, 6, 7, 8, 9::nat]" by (simp add: upt_rec)
  then have "max_wait 9 = 42600000000" by (simp add: max_wait_def reconnectMaxDelay_def reconnectBaseDelay_def)
  then show "dial_waited (dialWithRetry maxReconnectAttempts env) \<le> 42600000000"
    using dial_loop_waited [of env 0 0 maxReconnectAttempts None] assms(1) by (simp add: dialWithRetry_def maxReconnectAttempts_def)
next
  let ?ok = "\<lambda>k. k < maxReconnectAttempts \<and> (\<exists>br. snd (snd (env k)) = DialOk br)"
  have err: "\<not> (\<exists>br. d = DialOk br) \<Longrightarrow> \<exists>x. d = DialErr x" for d by (cases d) auto
  show "(\<exists>k < maxReconnectAttempts. \<exists>br w. snd (snd (env k)) = DialOk br \<and> (\<forall>j < k. \<exists>x. snd (snd (env j)) = DialErr x) \<and>
         dialWithRetry maxReconnectAttempts env = Got br w) \<or>
      (\<exists>x w. (\<forall>j < maxReconnectAttempts. \<exists>y. snd (snd (env j)) = DialErr y) \<and> snd (snd (env 9)) = DialErr x \<and>
         dialWithRetry maxReconnectAttempts env = Exhausted (Some x) w)"
  proof (cases "\<exists>k. ?ok k")
    case True
    define k where "k = (LEAST k. ?ok k)"
    have k: "?ok k" unfolding k_def using True by (rule LeastI_ex)
    have "\<forall>j < k. \<exists>x. snd (snd (env j)) = DialErr x"
      using not_less_Least [of _ ?ok] k err unfolding k_def [symmetric] by (metis order.strict_trans)
    moreover from this obtain br w where "snd (snd (env k)) = DialOk br" "dialWithRetry maxReconnectAttempts env = Got br w"
      using dial_loop_first [of 0 k maxReconnectAttempts env _ None 0] k assms(2) unfolding dialWithRetry_def by blast
    ultimately show ?thesis using k by blast
  next
    case False
    then have e: "\<forall>j < maxReconnectAttempts. \<exists>y. snd (snd (env j)) = DialErr y" using err by blast
    then obtain x where x: "\<And>j. j < maxReconnectAttempts \<Longrightarrow> snd (snd (env j)) = DialErr (x j)" by metis
    then show ?thesis using e dial_loop_exhausted [of 0 maxReconnectAttempts env x None 0] assms(2)
      by (auto simp: dialWithRetry_def maxReconnectAttempts_def)
  qed
qed

theorem dial_with_retry_bounded_witness:
  "dialWithRetry maxReconnectAttempts (\<lambda>a. (7, True, if a = 2 then DialOk True else DialErr ''refused'')) = Got True 0 \<and>
   dial_waited (dialWithRetry maxReconnectAttempts (\<lambda>a. (7, True, if a = 2 then DialOk True else DialErr ''refused''))) \<le> 42600000000"
proof -
  have "reconnectDelay 7 1 = 0" "reconnectDelay 7 2 = 0"
    by (simp_all add: reconnectDelay_def round53_exact reconnectBaseDelay_def reconnectMaxDelay_def Let_def)
  then show ?thesis
    using dial_with_retry_bounded [of "\<lambda>a. (7, True, if a = 2 then DialOk True else DialErr ''refused'')"]
    by (simp add: dialWithRetry_def maxReconnectAttempts_def dial_loop_step Let_def numeral_2_eq_2)
qed

definition coder_dialWithRetry :: "nat \<Rightarrow> (nat \<Rightarrow> attempt) \<Rightarrow> dial_state" where "coder_dialWithRetry = dialWithRetry"
definition gobwas_dialWithRetry :: "nat \<Rightarrow> (nat \<Rightarrow> attempt) \<Rightarrow> dial_state" where "gobwas_dialWithRetry = dialWithRetry"

section \<open>State and shared operations\<close>

record ws_cconn =
  cc_br :: bool          \<comment> \<open>gobwas: the buffered reader is not nil\<close>
  cc_closed :: bool
  cc_out :: "ws_frame list"

text \<open>Where a read pump is: at the top of its loop, reading a connection, after a lost connection, dialling again, or returned. A pump that has
  not been started counts as returned.\<close>

datatype cl_phase = RTop | RRead nat | RLost | RDial nat "string option" nat | RReturned

record ws_client =
  cl_addr :: string
  cl_id :: ConnID
  cl_handler :: bool
  cl_conn :: "nat option"
  cl_ch :: "bytes list"
  cl_ctx :: "bool option"   \<comment> \<open>the context, once set: whether it is done\<close>
  cl_writer :: bool
  cl_reader :: cl_phase
  cl_calls :: "handler_call list"
  cl_conns :: "ws_cconn list"

datatype client_error = CtxErr | DialFailed string | QueueFull

definition wcl_New :: "string \<Rightarrow> ConnID \<Rightarrow> bool \<Rightarrow> ws_client" where
  "wcl_New addr cid handler =
     \<lparr>cl_addr = addr, cl_id = cid, cl_handler = handler, cl_conn = None, cl_ch = [], cl_ctx = None, cl_writer = False,
      cl_reader = RReturned, cl_calls = [], cl_conns = []\<rparr>"

definition wcl_use :: "bool \<Rightarrow> ws_client \<Rightarrow> ws_client" where
  "wcl_use br c = c\<lparr>cl_conns := cl_conns c @ [\<lparr>cc_br = br, cc_closed = False, cc_out = []\<rparr>], cl_conn := Some (length (cl_conns c))\<rparr>"

text \<open>With no attempt at all the code's dial returns neither a connection nor an error.\<close>

definition wcl_Connect :: "dial_state \<Rightarrow> ws_client \<Rightarrow> client_error option \<times> ws_client" where
  "wcl_Connect dialled c =
     (let c = c\<lparr>cl_ctx := Some False\<rparr> in
      case dialled of
        Got br w \<Rightarrow> (None, (wcl_use br c)\<lparr>cl_writer := True, cl_reader := RTop\<rparr>)
      | Exhausted None w \<Rightarrow> (None, c\<lparr>cl_conn := None, cl_writer := True, cl_reader := RTop\<rparr>)
      | Exhausted (Some e) w \<Rightarrow> (Some (DialFailed e), c)
      | CtxDone w \<Rightarrow> (Some CtxErr, c\<lparr>cl_ctx := Some True\<rparr>)
      | Trying a e w \<Rightarrow> (None, c))"

text \<open>An iteration of the dialling loop of a read pump; a wait ends by the context only when the context is done.\<close>

definition wcl_redial :: "nat \<Rightarrow> attempt \<Rightarrow> nat \<Rightarrow> string option \<Rightarrow> nat \<Rightarrow> ws_client \<Rightarrow> ws_client" where
  "wcl_redial m att a e w c =
     (if a > 0 \<and> \<not> fst (snd att) \<and> cl_ctx c \<noteq> Some True then c
      else case dial_turn m att a e w of
        Trying a e w \<Rightarrow> c\<lparr>cl_reader := RDial a e w\<rparr>
      | Got br w \<Rightarrow> (wcl_use br c)\<lparr>cl_reader := RTop\<rparr>
      | Exhausted None w \<Rightarrow> c\<lparr>cl_conn := None, cl_reader := RTop\<rparr>
      | Exhausted (Some e) w \<Rightarrow> c\<lparr>cl_reader := RReturned\<rparr>
      | CtxDone w \<Rightarrow> c\<lparr>cl_reader := RReturned\<rparr>)"

text \<open>A turn of a read pump; \<open>rd\<close> is the package's turn while it reads a connection. \<open>None\<close> is a panic.\<close>

definition wcl_read_turn ::
  "nat \<Rightarrow> ('e \<Rightarrow> nat \<Rightarrow> ws_client \<Rightarrow> ws_client option) \<Rightarrow> 'e \<times> attempt \<Rightarrow> ws_client \<Rightarrow> ws_client option" where
  "wcl_read_turn m rd = (\<lambda>(e, att) c. case cl_reader c of
     RTop \<Rightarrow> Some (c\<lparr>cl_reader := (case cl_conn c of None \<Rightarrow> RReturned | Some p \<Rightarrow> RRead p)\<rparr>)
   | RRead p \<Rightarrow> if p < length (cl_conns c) then rd e p c else None
   | RLost \<Rightarrow> Some (c\<lparr>cl_reader := (if cl_ctx c = Some True then RReturned else RDial 0 None 0)\<rparr>)
   | RDial a lastErr w \<Rightarrow> Some (wcl_redial m att a lastErr w c)
   | RReturned \<Rightarrow> Some c)"

definition wcl_handle :: "bytes \<Rightarrow> i64 \<Rightarrow> ws_client \<Rightarrow> ws_client" where
  "wcl_handle data recvAt c = c\<lparr>cl_calls := cl_calls c @ calls_if (cl_handler c) (CallRecv (cl_id c) data recvAt)\<rparr>"

text \<open>A frame written to connection \<open>p\<close>; \<open>ok\<close> says whether the network takes it.\<close>

definition wcl_emit :: "bool \<Rightarrow> ws_frame \<Rightarrow> nat \<Rightarrow> ws_client \<Rightarrow> ws_client" where
  "wcl_emit ok f p c =
     (if p < length (cl_conns c) \<and> ok \<and> \<not> cc_closed (cl_conns c ! p)
      then c\<lparr>cl_conns := (cl_conns c)[p := (cl_conns c ! p)\<lparr>cc_out := cc_out (cl_conns c ! p) @ [f]\<rparr>]\<rparr> else c)"

definition wcl_write_turn :: "pick \<Rightarrow> ws_client \<Rightarrow> ws_client" where
  "wcl_write_turn pk c =
     (if \<not> cl_writer c then c
      else case pk of
        PickDone \<Rightarrow> if cl_ctx c = Some True then c\<lparr>cl_writer := False\<rparr> else c
      | PickData ok \<Rightarrow> (case try_recv (cl_ch c) of
          None \<Rightarrow> c
        | Some (data, ch) \<Rightarrow>
            let c = c\<lparr>cl_ch := ch\<rparr> in
            case cl_conn c of None \<Rightarrow> c | Some p \<Rightarrow> wcl_emit ok (BinaryFrame data) p c)
      | PickTick ok \<Rightarrow> (case cl_conn c of None \<Rightarrow> c | Some p \<Rightarrow> wcl_emit ok (PingFrame []) p c))"

definition wcl_Send :: "nat \<Rightarrow> bytes \<Rightarrow> ws_client \<Rightarrow> client_error option \<times> ws_client" where
  "wcl_Send cp data c = (case try_send cp (cl_ch c) data of (ch, ok) \<Rightarrow> (if ok then None else Some QueueFull, c\<lparr>cl_ch := ch\<rparr>))"

definition wcl_Close :: "bool \<Rightarrow> ws_client \<Rightarrow> ws_client" where
  "wcl_Close ok c =
     (let c = c\<lparr>cl_ctx := (case cl_ctx c of None \<Rightarrow> None | Some b \<Rightarrow> Some True)\<rparr> in
      case cl_conn c of
        None \<Rightarrow> c
      | Some p \<Rightarrow>
          let c = wcl_emit ok CloseFrame p c in
          c\<lparr>cl_conns := (cl_conns c)[p := (cl_conns c ! p)\<lparr>cc_closed := True\<rparr>]\<rparr>)"

section \<open>The packages\<close>

definition NewGorillaClient :: "string \<Rightarrow> ConnID \<Rightarrow> bool \<Rightarrow> ws_client" where "NewGorillaClient = wcl_New"
definition GorillaClient_Connect :: "(nat \<Rightarrow> attempt) \<Rightarrow> ws_client \<Rightarrow> client_error option \<times> ws_client" where
  "GorillaClient_Connect env = wcl_Connect (dialWithRetry maxReconnectAttempts env)"

text \<open>A closed connection may still yield messages the library has buffered.\<close>

definition GorillaClient_readPump_turn :: "(i64 \<times> ws_msg) \<times> attempt \<Rightarrow> ws_client \<Rightarrow> ws_client option" where
  "GorillaClient_readPump_turn = wcl_read_turn maxReconnectAttempts (\<lambda>(recvAt, m) p c.
     case limited maxMessageSize m of
       ReadFails \<Rightarrow> Some (c\<lparr>cl_reader := RLost\<rparr>)
     | Msg binary data \<Rightarrow> Some (if binary then wcl_handle data recvAt c else c))"

definition GorillaClient_writePump_turn :: "pick \<Rightarrow> ws_client \<Rightarrow> ws_client" where "GorillaClient_writePump_turn = wcl_write_turn"
definition GorillaClient_Send :: "bytes \<Rightarrow> ws_client \<Rightarrow> client_error option \<times> ws_client" where "GorillaClient_Send = wcl_Send writeChanCap"
definition GorillaClient_Close :: "bool \<Rightarrow> ws_client \<Rightarrow> ws_client" where "GorillaClient_Close = wcl_Close"

definition coderMaxReconnectAttempts :: nat where "coderMaxReconnectAttempts = 10"
definition NewCoderClient :: "string \<Rightarrow> ConnID \<Rightarrow> bool \<Rightarrow> ws_client" where "NewCoderClient = wcl_New"
definition CoderClient_Connect :: "(nat \<Rightarrow> attempt) \<Rightarrow> ws_client \<Rightarrow> client_error option \<times> ws_client" where
  "CoderClient_Connect env = wcl_Connect (coder_dialWithRetry coderMaxReconnectAttempts env)"

text \<open>As in the server, \<open>wait\<close> is how long the peer has been silent; the read's context also ends with the client's.\<close>

definition CoderClient_readPump_turn :: "(nat \<times> i64 \<times> ws_msg) \<times> attempt \<Rightarrow> ws_client \<Rightarrow> ws_client option" where
  "CoderClient_readPump_turn = wcl_read_turn coderMaxReconnectAttempts (\<lambda>(wait, recvAt, m) p c.
     case (if cc_closed (cl_conns c ! p) \<or> cl_ctx c = Some True \<or> wait \<ge> coderReadTimeout then ReadFails else limited (2 ^ 20) m) of
       ReadFails \<Rightarrow> Some (c\<lparr>cl_reader := RLost\<rparr>)
     | Msg binary data \<Rightarrow> Some (if binary then wcl_handle data recvAt c else c))"

definition CoderClient_writePump_turn :: "pick \<Rightarrow> ws_client \<Rightarrow> ws_client" where "CoderClient_writePump_turn = wcl_write_turn"
definition CoderClient_Send :: "bytes \<Rightarrow> ws_client \<Rightarrow> client_error option \<times> ws_client" where "CoderClient_Send = wcl_Send coderWriteChanCap"
definition CoderClient_Close :: "bool \<Rightarrow> ws_client \<Rightarrow> ws_client" where "CoderClient_Close = wcl_Close"

definition gobwasMaxReconnectAttempts :: nat where "gobwasMaxReconnectAttempts = 10"
definition NewGobwasClient :: "string \<Rightarrow> ConnID \<Rightarrow> bool \<Rightarrow> ws_client" where "NewGobwasClient = wcl_New"
definition GobwasClient_Connect :: "(nat \<Rightarrow> attempt) \<Rightarrow> ws_client \<Rightarrow> client_error option \<times> ws_client" where
  "GobwasClient_Connect env = wcl_Connect (gobwas_dialWithRetry gobwasMaxReconnectAttempts env)"

text \<open>Frames are read from the buffered reader of the dial: reading from a nil \<open>*bufio.Reader\<close> dereferences it. \<open>None\<close> for the frame is a failed read.\<close>

definition GobwasClient_readPump_turn :: "(i64 \<times> bool \<times> gobwas_frame option) \<times> attempt \<Rightarrow> ws_client \<Rightarrow> ws_client option" where
  "GobwasClient_readPump_turn = wcl_read_turn gobwasMaxReconnectAttempts (\<lambda>(recvAt, ok, fr) p c.
     if \<not> cc_br (cl_conns c ! p) then None
     else case fr of
       None \<Rightarrow> Some (c\<lparr>cl_reader := RLost\<rparr>)
     | Some f \<Rightarrow> Some (case gf_op f of
         OpClose \<Rightarrow> c\<lparr>cl_reader := RReturned\<rparr>
       | OpPing \<Rightarrow> wcl_emit ok (PongFrame (gf_payload f)) p c
       | OpPong \<Rightarrow> c
       | OpBinary \<Rightarrow> wcl_handle (gf_payload f) recvAt c
       | OpText \<Rightarrow> wcl_handle (gf_payload f) recvAt c
       | OpContinuation \<Rightarrow> c))"

definition GobwasClient_writePump_turn :: "pick \<Rightarrow> ws_client \<Rightarrow> ws_client" where "GobwasClient_writePump_turn = wcl_write_turn"
definition GobwasClient_Send :: "bytes \<Rightarrow> ws_client \<Rightarrow> client_error option \<times> ws_client" where "GobwasClient_Send = wcl_Send gobwasWriteChanCap"
definition GobwasClient_Close :: "bool \<Rightarrow> ws_client \<Rightarrow> ws_client" where "GobwasClient_Close = wcl_Close"

section \<open>Properties\<close>

text \<open>A client that reads a connection hands its handler the binary messages of at most a mebibyte, in the order read.\<close>

definition gorilla_reads :: "(nat \<Rightarrow> i64) \<Rightarrow> attempt \<Rightarrow> nat \<Rightarrow> bytes list \<Rightarrow> ((i64 \<times> ws_msg) \<times> attempt) list" where
  "gorilla_reads clock att n ds = map (\<lambda>(i, d). ((clock i, Msg True d), att)) (enumerate n ds)"

lemma gorilla_client_reads:
  assumes "cl_reader c = RRead q" and "q < length (cl_conns c)" and "\<forall>d \<in> set ds. length d \<le> maxMessageSize" and "cl_handler c"
  shows "run_opt (\<lambda>c e. GorillaClient_readPump_turn e c) c (gorilla_reads clock att n ds) =
     Some (c\<lparr>cl_calls := cl_calls c @ map (\<lambda>(i, d). CallRecv (cl_id c) d (clock i)) (enumerate n ds)\<rparr>)"
  using assms
proof (induction ds arbitrary: c n)
  case (Cons d ds)
  let ?c = "wcl_handle d (clock n) c"
  have "GorillaClient_readPump_turn ((clock n, Msg True d), att) c = Some ?c"
    using Cons.prems by (simp add: GorillaClient_readPump_turn_def wcl_read_turn_def limited_def)
  moreover have "run_opt (\<lambda>c e. GorillaClient_readPump_turn e c) ?c (gorilla_reads clock att (Suc n) ds) =
     Some (?c\<lparr>cl_calls := cl_calls ?c @ map (\<lambda>(i, d). CallRecv (cl_id ?c) d (clock i)) (enumerate (Suc n) ds)\<rparr>)"
    using Cons.prems by (intro Cons.IH) (simp_all add: wcl_handle_def)
  ultimately show ?case using Cons.prems(4) by (simp add: gorilla_reads_def wcl_handle_def calls_if_def)
qed (simp add: gorilla_reads_def)

text \<open>Property C29. Broadcasts of a gorilla server reach a gorilla client, whatever the server's goroutines do meanwhile: over a
  connection on which nothing was written yet, whose pumps meet no error, the client's handler is given, each once and in order, frames
  that were broadcast or sent to the connection, all of them when there are no more than 256, provided none is longer than the client's limit of a mebibyte.\<close>

theorem gorilla_broadcasts_reach_client:
  assumes "range_order ord" and "ws_live p s" and "wc_ch (ws_conns s ! p) = []" and "wc_out (ws_conns s ! p) = []"
    and "ws_run_ok Gorilla_readPump_turn (Gorilla_step ord) p s es"
    and "\<forall>m \<in> set (ws_offered (Gorilla_step ord) p s es). length m \<le> maxMessageSize"
    and "cl_reader c = RRead q" and "q < length (cl_conns c)" and "cl_handler c"
  shows "\<exists>s' ms c'. run_opt (Gorilla_step ord) s (es @ replicate writeChanCap (Writes (PickData True) p)) = Some s' \<and>
     subseq ms (ws_offered (Gorilla_step ord) p s es) \<and>
     (length (ws_offered (Gorilla_step ord) p s es) \<le> writeChanCap \<longrightarrow> ms = ws_offered (Gorilla_step ord) p s es) \<and>
     run_opt (\<lambda>c e. GorillaClient_readPump_turn e c) c (gorilla_reads clock att 0 (data_of (wc_out (ws_conns s' ! p)))) = Some c' \<and>
     cl_calls c' = cl_calls c @ map (\<lambda>(i, m). CallRecv (cl_id c) m (clock i)) (enumerate 0 ms)"
proof -
  let ?off = "ws_offered (Gorilla_step ord) p s es" and ?run = "run_opt (Gorilla_step ord) s (es @ replicate writeChanCap (Writes (PickData True) p))"
  obtain s' ms where s': "?run = Some s'" "data_of (wc_out (ws_conns s' ! p)) = data_of [] @ ms" "subseq ms ?off"
      "length ?off \<le> writeChanCap \<longrightarrow> ms = ?off"
    using gorilla_delivers_in_order [OF assms(1-3,5)] unfolding assms(4) by blast
  have "set ms \<subseteq> set ?off" using s'(3) by (rule subseq_subset)
  then have "\<forall>m \<in> set ms. length m \<le> maxMessageSize" using assms(6) by blast
  note calls = gorilla_client_reads [OF assms(7,8) this assms(9), of clock att 0]
  let ?c = "c\<lparr>cl_calls := cl_calls c @ map (\<lambda>(i, d). CallRecv (cl_id c) d (clock i)) (enumerate 0 ms)\<rparr>"
  have "run_opt (\<lambda>c e. GorillaClient_readPump_turn e c) c (gorilla_reads clock att 0 (data_of (wc_out (ws_conns s' ! p)))) = Some ?c"
    unfolding s'(2) data_of.simps append_Nil by (rule calls)
  moreover have "cl_calls ?c = cl_calls c @ map (\<lambda>(i, d). CallRecv (cl_id c) d (clock i)) (enumerate 0 ms)" by simp
  ultimately show ?thesis using s'(1,3,4) by (intro exI conjI)
qed

text \<open>The client once its read pump has begun to read.\<close>

definition sample_reading :: ws_client where
  "sample_reading = (the (GorillaClient_readPump_turn ((0, ReadFails), 0, True, DialOk True)
     (snd (GorillaClient_Connect (\<lambda>a. (0, True, DialOk True)) (NewGorillaClient ''h'' ''c'' True)))))"

lemma sample_reading: "cl_reader sample_reading = RRead 0 \<and> length (cl_conns sample_reading) = 1 \<and> cl_handler sample_reading \<and>
   cl_calls sample_reading = [] \<and> cl_id sample_reading = ''c''"
  by (simp add: sample_reading_def GorillaClient_readPump_turn_def wcl_read_turn_def GorillaClient_Connect_def wcl_Connect_def NewGorillaClient_def
      wcl_New_def wcl_use_def dialWithRetry_def dial_loop_step maxReconnectAttempts_def)

theorem gorilla_broadcasts_reach_client_witness:
  "\<exists>s1 s' c'. run_opt (Gorilla_step rev) (NewGorillaServer ws_sample_cfg) [Starts 1 True, Accepts ''a''] = Some s1 \<and>
     run_opt (Gorilla_step rev) s1 ([Reads (7, ReadFails) 0, Casts 5 [1], Reads (7, Msg True [9]) 0] @ replicate writeChanCap (Writes (PickData True) 0)) = Some s' \<and>
     run_opt (\<lambda>c e. GorillaClient_readPump_turn e c) sample_reading (gorilla_reads (\<lambda>i. 8) (0, True, DialErr []) 0 (data_of (wc_out (ws_conns s' ! 0)))) = Some c' \<and>
     cl_calls c' = [CallRecv ''c'' (frame_bytes 1 5 [1]) 8]"
proof -
  let ?es = "[Reads (7, ReadFails) 0, Casts 5 [1], Reads (7, Msg True [9]) 0] :: (i64 \<times> ws_msg) ws_action list"
  obtain s1 where s1: "run_opt (Gorilla_step rev) (NewGorillaServer ws_sample_cfg) [Starts 1 True, Accepts ''a''] = Some s1" "ws_one AtCheck 0 [] s1"
    using ws_one_New [of ws_sample_cfg Gorilla_readPump_turn AtCheck writeChanCap rev "''websocket/gorilla''" "Some (65536, 65536)" 1 True]
    unfolding Gorilla_step_eq NewGorillaServer_def by (auto simp: Let_def ws_sample_cfg_def)
  let ?s2 = "set_reader AtRead 0 s1"
  have s2: "ws_one AtRead 0 [] ?s2"
    using s1(2) read_effect_set_reader [of s1 0 AtRead] by (auto simp: ws_one_def set_reader_def read_effect_def)
  obtain s3 where s3: "ws_Broadcast writeChanCap rev 5 [1] ?s2 = Some (Inr (), s3)" "ws_one AtRead 1 [frame_bytes 1 5 [1]] s3"
    using ws_one_cast [OF s2, of rev writeChanCap 5 "[1]"] by (auto simp: writeChanCap_def)
  have run: "ws_run_ok Gorilla_readPump_turn (Gorilla_step rev) 0 s1 ?es" "ws_offered (Gorilla_step rev) 0 s1 ?es = [frame_bytes 1 5 [1]]"
    using s1(2) s2 s3
    by (simp_all add: ws_one_def ws_ok_def ws_exists_def Gorilla_readPump_turn_def Gorilla_Broadcast_def ws_act_def limited_def maxMessageSize_def
        ws_received_def set_reader_def Let_def)
  have "\<forall>m \<in> set (ws_offered (Gorilla_step rev) 0 s1 ?es). length m \<le> maxMessageSize" unfolding run(2) by (simp add: maxMessageSize_def)
  from gorilla_broadcasts_reach_client [OF range_order_rev ws_one_live [OF s1(2)] _ _ run(1) this, of sample_reading 0 "\<lambda>i. 8" "(0, True, DialErr [])"]
  show ?thesis using s1 sample_reading unfolding run(2) by (auto simp: ws_one_def writeChanCap_def)
qed

text \<open>The server puts no limit on a broadcast: a frame above the client's limit costs the client its connection and is not delivered.\<close>

lemma gorilla_oversize_frame_loses_connection:
  assumes "cl_reader c = RRead q" and "q < length (cl_conns c)" and "length d + 24 > maxMessageSize"
  shows "GorillaClient_readPump_turn ((t, Msg True (frame_bytes n now d)), att) c = Some (c\<lparr>cl_reader := RLost\<rparr>)"
  using assms by (simp add: GorillaClient_readPump_turn_def wcl_read_turn_def limited_def)

text \<open>A message whose turn comes while the connection is down leaves the queue and is lost, although \<open>Send\<close> had reported success.\<close>

lemma client_send_lost_when_down:
  assumes "cl_writer c" and "cl_ch c = []"
  shows "fst (GorillaClient_Send d c) = None \<and>
     GorillaClient_writePump_turn (PickData False) (snd (GorillaClient_Send d c)) = c"
  using assms by (simp add: GorillaClient_Send_def wcl_Send_def GorillaClient_writePump_turn_def wcl_write_turn_def try_send_def try_recv_def
      writeChanCap_def wcl_emit_def Let_def split: option.splits)

text \<open>The gobwas library documents that a dial returns a buffered reader only when the server sent frames together with
  its handshake response, and nil otherwise. The client reads frames from that reader alone: whenever \<open>Connect\<close> succeeds without such early
  frames, the client's read pump panics at its first read.\<close>

lemma gobwas_client_panics:
  assumes "\<And>a. 0 < a \<Longrightarrow> fst (snd (env a))" and "k < gobwasMaxReconnectAttempts" and "snd (snd (env k)) = DialOk False"
    and "\<And>j. j < k \<Longrightarrow> \<exists>x. snd (snd (env j)) = DialErr x"
  shows "\<exists>c'. GobwasClient_Connect env (NewGobwasClient addr cid handler) = (None, c') \<and>
     run_opt (\<lambda>c e. GobwasClient_readPump_turn e c) c' [e1, e2] = None"
proof -
  obtain w where "gobwas_dialWithRetry gobwasMaxReconnectAttempts env = Got False w"
    using dial_loop_first [of 0 k gobwasMaxReconnectAttempts env False None 0] assms by (auto simp: gobwas_dialWithRetry_def dialWithRetry_def)
  then show ?thesis
    by (simp add: GobwasClient_Connect_def wcl_Connect_def NewGobwasClient_def wcl_New_def wcl_use_def GobwasClient_readPump_turn_def wcl_read_turn_def split_beta)
qed

text \<open>\<open>Close\<close> closes the connection it finds. When the read pump is dialling at that moment and the dial succeeds, the pump uses the new
  connection: nothing closes it, and messages read from it still reach the handler.\<close>

lemma close_during_redial_leaks:
  assumes "cl_reader c = RDial 0 None 0" and "cl_conn c = Some q" and "q < length (cl_conns c)" and "cl_ctx c = Some False" and "cl_handler c"
    and "length d \<le> maxMessageSize"
  shows "\<exists>c'. run_opt (\<lambda>c e. GorillaClient_readPump_turn e c) (GorillaClient_Close ok c)
       [(x, i, timer, DialOk br), y, ((t, Msg True d), z)] = Some c' \<and>
     cl_conn c' = Some (length (cl_conns c)) \<and> \<not> cc_closed (cl_conns c' ! length (cl_conns c)) \<and> cl_calls c' = cl_calls c @ [CallRecv (cl_id c) d t]"
proof -
  let ?c = "GorillaClient_Close ok c"
  have c: "cl_reader ?c = RDial 0 None 0" "length (cl_conns ?c) = length (cl_conns c)" "cl_calls ?c = cl_calls c" "cl_id ?c = cl_id c" "cl_handler ?c"
    using assms by (auto simp: GorillaClient_Close_def wcl_Close_def wcl_emit_def Let_def)
  then show ?thesis using assms(6)
    by (simp add: GorillaClient_readPump_turn_def wcl_read_turn_def wcl_redial_def dial_turn_def maxReconnectAttempts_def wcl_use_def limited_def
        wcl_handle_def calls_if_def split_beta nth_append)
qed

end
