(* ===== verification/Hub.thy ===== *)
theory Hub
  imports Fanout Go_Std
begin

text \<open>
  The streams of a streaming HTTP server: a concurrent map from connection identifiers to stream
  entries, each with a bounded channel that its request handler drains into the response. The servers of
  \<^verbatim>\<open>internal/http1\<close>, \<^verbatim>\<open>http2\<close> and \<^verbatim>\<open>http3\<close> use their maps alike; they are
  modelled on this one and connected to it by the locale \<open>hub_server\<close>.

  Entries live in a store (a list), the map holds indices of it, as the code's maps hold pointers. An entry
  records the messages its handler has written and, when a write failed, the message and how many of
  its bytes got out. A broadcast over the map, the opening of a stream and a turn of a handler are one step each.
\<close>

section \<open>Streams\<close>

record hstream =
  hs_id :: ConnID
  hs_ch :: "bytes list"
  hs_cancelled :: bool
  hs_returned :: bool
  hs_msgs :: "bytes list"
  hs_cut :: "(bytes \<times> nat) option"

record hub =
  hub_streams :: "(ConnID, nat) syncmap"
  hub_store :: "hstream list"

type_synonym hub_order = "(ConnID \<times> nat) list \<Rightarrow> (ConnID \<times> nat) list"

definition empty_hub :: hub where "empty_hub = \<lparr>hub_streams = [], hub_store = []\<rparr>"

definition new_stream :: "ConnID \<Rightarrow> hstream" where
  "new_stream cid = \<lparr>hs_id = cid, hs_ch = [], hs_cancelled = False, hs_returned = False, hs_msgs = [], hs_cut = None\<rparr>"

definition hub_open :: "ConnID \<Rightarrow> hub \<Rightarrow> hub" where
  "hub_open cid h = \<lparr>hub_streams = sm_Store (hub_streams h) cid (length (hub_store h)), hub_store = hub_store h @ [new_stream cid]\<rparr>"

definition hub_put :: "nat \<Rightarrow> hstream \<Rightarrow> hub \<Rightarrow> hub" where
  "hub_put p st h = h\<lparr>hub_store := (hub_store h)[p := st]\<rparr>"

text \<open>The deferred function of a handler: the entry under the handler's identifier is deleted, whichever stream it is of.\<close>

definition hub_leave :: "nat \<Rightarrow> hub \<Rightarrow> hub" where
  "hub_leave p h =
     (let st = hub_store h ! p in
      hub_put p (st\<lparr>hs_cancelled := True, hs_returned := True\<rparr>) (h\<lparr>hub_streams := sm_Delete (hub_streams h) (hs_id st)\<rparr>))"

definition hub_gone :: "nat \<Rightarrow> hub \<Rightarrow> hub" where
  "hub_gone p h = hub_put p ((hub_store h ! p)\<lparr>hs_cancelled := True\<rparr>) h"

definition hub_cancel_all :: "hub_order \<Rightarrow> hub \<Rightarrow> hub" where
  "hub_cancel_all ord h = fold hub_gone (sm_values ord (hub_streams h)) h"

text \<open>The handler takes a message and writes it, completely or up to \<open>k\<close> bytes.\<close>

definition hub_write :: "nat option \<Rightarrow> nat \<Rightarrow> hub \<Rightarrow> (bytes \<times> hub) option" where
  "hub_write r p h =
     (let st = hub_store h ! p in
      case try_recv (hs_ch st) of
        None \<Rightarrow> None
      | Some (data, ch) \<Rightarrow>
          Some (data, case r of
            None \<Rightarrow> hub_put p (st\<lparr>hs_ch := ch, hs_msgs := hs_msgs st @ [data]\<rparr>) h
          | Some k \<Rightarrow> hub_leave p (hub_put p (st\<lparr>hs_ch := ch, hs_cut := Some (data, k)\<rparr>) h)))"

text \<open>A message offered to one stream, and to the streams that a range over the map visits; with what became of it.\<close>

definition hub_offer :: "nat \<Rightarrow> bytes \<Rightarrow> nat \<Rightarrow> hub \<Rightarrow> hub \<times> bool" where
  "hub_offer cp m p h =
     (let st = hub_store h ! p in
      case try_send cp (hs_ch st) m of (ch, ok) \<Rightarrow> (hub_put p (st\<lparr>hs_ch := ch\<rparr>) h, ok))"

fun hub_offer_all :: "nat \<Rightarrow> bytes \<Rightarrow> nat list \<Rightarrow> hub \<Rightarrow> hub \<times> bool list" where
  "hub_offer_all cp m [] h = (h, [])"
| "hub_offer_all cp m (p # ps) h =
     (case hub_offer cp m p h of (h1, ok) \<Rightarrow> case hub_offer_all cp m ps h1 of (h2, oks) \<Rightarrow> (h2, ok # oks))"

definition hub_running :: "hub \<Rightarrow> nat" where
  "hub_running h = length (filter (\<lambda>st. \<not> hs_returned st) (hub_store h))"

section \<open>Invariant\<close>

definition hub_wf :: "hub \<Rightarrow> bool" where
  "hub_wf h \<longleftrightarrow> wf_sm (hub_streams h) \<and>
     (\<forall>cid p. sm_Load (hub_streams h) cid = Some p \<longrightarrow>
        p < length (hub_store h) \<and> hs_id (hub_store h ! p) = cid \<and> \<not> hs_returned (hub_store h ! p) \<and> hs_cut (hub_store h ! p) = None)"

lemma hub_wf_empty: "hub_wf empty_hub"
  by (simp add: hub_wf_def empty_hub_def sync_map)

lemma hub_wf_get:
  assumes "hub_wf h" and "sm_Load (hub_streams h) cid = Some p"
  shows "p < length (hub_store h)" "hs_id (hub_store h ! p) = cid" "\<not> hs_returned (hub_store h ! p)" "hs_cut (hub_store h ! p) = None"
  using assms by (auto simp: hub_wf_def)

lemma hub_wf_open: "hub_wf h \<Longrightarrow> hub_wf (hub_open cid h)"
  by (auto simp: hub_wf_def hub_open_def sync_map nth_append new_stream_def split: if_splits intro: less_SucI)

lemma hub_wf_leave: "hub_wf h \<Longrightarrow> hub_wf (hub_leave p h)"
  by (auto simp: hub_wf_def hub_leave_def hub_put_def Let_def sync_map nth_update_if split: if_splits)

lemma hub_put_simps [simp]:
  "hub_streams (hub_put p st h) = hub_streams h" "length (hub_store (hub_put p st h)) = length (hub_store h)"
  "hub_store (hub_put p st h) ! q = (if p = q \<and> q < length (hub_store h) then st else hub_store h ! q)"
  by (simp_all add: hub_put_def nth_update_if)

lemma hub_leave_simps:
  "hub_streams (hub_leave p h) = sm_Delete (hub_streams h) (hs_id (hub_store h ! p))" "length (hub_store (hub_leave p h)) = length (hub_store h)"
  "q \<noteq> p \<Longrightarrow> hub_store (hub_leave p h) ! q = hub_store h ! q"
  by (simp_all add: hub_leave_def hub_put_def Let_def)

lemma hub_wf_leave_put:
  "hub_wf h \<Longrightarrow> p < length (hub_store h) \<Longrightarrow> hs_id st = hs_id (hub_store h ! p) \<Longrightarrow> hub_wf (hub_leave p (hub_put p st h))"
  by (auto simp: hub_wf_def hub_leave_simps hub_leave_def Let_def sync_map nth_update_if split: if_splits)

lemma hub_cancel_all_store:
  "hub_streams (hub_cancel_all ord h) = hub_streams h \<and> length (hub_store (hub_cancel_all ord h)) = length (hub_store h) \<and>
   (\<forall>q. \<exists>b. hub_store (hub_cancel_all ord h) ! q = (hub_store h ! q)\<lparr>hs_cancelled := b\<rparr>)"
proof -
  have same: "\<exists>b. (st :: hstream) = st\<lparr>hs_cancelled := b\<rparr>" for st by (rule exI [of _ "hs_cancelled st"]) simp
  have "hub_streams (fold hub_gone ps h) = hub_streams h \<and> length (hub_store (fold hub_gone ps h)) = length (hub_store h) \<and>
     (\<forall>q. \<exists>b. hub_store (fold hub_gone ps h) ! q = (hub_store h ! q)\<lparr>hs_cancelled := b\<rparr>)" for ps
  proof (induction ps arbitrary: h)
    case Nil
    then show ?case using same by simp
  next
    case (Cons p ps)
    have "\<exists>b. hub_store (hub_gone p h) ! q = (hub_store h ! q)\<lparr>hs_cancelled := b\<rparr>" for q
      using same by (auto simp: hub_gone_def)
    moreover have "\<exists>b. hub_store (fold hub_gone ps (hub_gone p h)) ! q = (hub_store (hub_gone p h) ! q)\<lparr>hs_cancelled := b\<rparr>" for q
      using Cons.IH [of "hub_gone p h"] by blast
    ultimately have "\<exists>b. hub_store (fold hub_gone ps (hub_gone p h)) ! q = (hub_store h ! q)\<lparr>hs_cancelled := b\<rparr>" for q
      by (metis (no_types) hstream.surjective hstream.update_convs(3))
    moreover have "hub_streams (hub_gone p h) = hub_streams h" "length (hub_store (hub_gone p h)) = length (hub_store h)"
      by (simp_all add: hub_gone_def)
    ultimately show ?case using Cons.IH [of "hub_gone p h"] by simp
  qed
  then show ?thesis by (simp add: hub_cancel_all_def)
qed

section \<open>Steps\<close>

datatype hub_action =
    HOpen ConnID
  | HLeave nat
  | HWrite "nat option" nat
  | HOffer bytes
  | HOfferTo ConnID bytes
  | HCancelAll
  | HGone nat

fun hub_step :: "nat \<Rightarrow> hub_order \<Rightarrow> hub \<Rightarrow> hub_action \<Rightarrow> hub" where
  "hub_step cp ord h (HOpen cid) = hub_open cid h"
| "hub_step cp ord h (HLeave p) = hub_leave p h"
| "hub_step cp ord h (HWrite r p) = (case hub_write r p h of None \<Rightarrow> h | Some (d, h') \<Rightarrow> h')"
| "hub_step cp ord h (HOffer m) = fst (hub_offer_all cp m (sm_values ord (hub_streams h)) h)"
| "hub_step cp ord h (HOfferTo cid m) = (case sm_Load (hub_streams h) cid of None \<Rightarrow> h | Some p \<Rightarrow> fst (hub_offer cp m p h))"
| "hub_step cp ord h HCancelAll = hub_cancel_all ord h"
| "hub_step cp ord h (HGone p) = hub_gone p h"

lemma hub_offer_eq:
  "hub_offer cp m p h =
     (if length (hs_ch (hub_store h ! p)) < cp
      then (hub_put p ((hub_store h ! p)\<lparr>hs_ch := hs_ch (hub_store h ! p) @ [m]\<rparr>) h, True) else (hub_put p (hub_store h ! p) h, False))"
  by (simp add: hub_offer_def try_send_def Let_def)

lemma hub_offer_all_eq:
  assumes "distinct ps"
  shows "hub_streams (fst (hub_offer_all cp m ps h)) = hub_streams h \<and> length (hub_store (fst (hub_offer_all cp m ps h))) = length (hub_store h) \<and>
     (\<forall>q < length (hub_store h). hub_store (fst (hub_offer_all cp m ps h)) ! q =
        (if q \<in> set ps \<and> length (hs_ch (hub_store h ! q)) < cp
         then (hub_store h ! q)\<lparr>hs_ch := hs_ch (hub_store h ! q) @ [m]\<rparr> else hub_store h ! q))"
  using assms
proof (induction ps arbitrary: h)
  case (Cons p ps)
  let ?h = "fst (hub_offer cp m p h)"
  have "fst (hub_offer_all cp m (p # ps) h) = fst (hub_offer_all cp m ps ?h)" by (simp split: prod.splits)
  moreover have "hub_streams ?h = hub_streams h" "length (hub_store ?h) = length (hub_store h)" by (simp_all add: hub_offer_eq)
  moreover have "hub_store ?h ! q = (if q = p \<and> length (hs_ch (hub_store h ! q)) < cp
      then (hub_store h ! q)\<lparr>hs_ch := hs_ch (hub_store h ! q) @ [m]\<rparr> else hub_store h ! q)" if "q < length (hub_store h)" for q
    using that by (auto simp: hub_offer_eq)
  ultimately show ?case using Cons.IH [of ?h] Cons.prems by auto
qed simp

lemma hub_values:
  assumes "hub_wf h" and "range_order ord"
  shows "set (sm_values ord (hub_streams h)) = {p. p < length (hub_store h) \<and> sm_Load (hub_streams h) (hs_id (hub_store h ! p)) = Some p}"
    and "distinct (sm_values ord (hub_streams h))"
proof -
  have wf: "wf_sm (hub_streams h)" using assms(1) by (simp add: hub_wf_def)
  show "set (sm_values ord (hub_streams h)) = {p. p < length (hub_store h) \<and> sm_Load (hub_streams h) (hs_id (hub_store h ! p)) = Some p}"
    using hub_wf_get [OF assms(1)] by (auto simp: set_sm_values [OF wf assms(2)] ran_def)
  show "distinct (sm_values ord (hub_streams h))"
    using hub_wf_get(2) [OF assms(1)] by (intro distinct_sm_values [OF wf assms(2)]) metis
qed

text \<open>What a step leaves of the streams' identities and life.\<close>

definition hub_same :: "hub \<Rightarrow> hub \<Rightarrow> bool" where
  "hub_same h h' \<longleftrightarrow> hub_streams h' = hub_streams h \<and> length (hub_store h') = length (hub_store h) \<and>
     (\<forall>q < length (hub_store h). hs_id (hub_store h' ! q) = hs_id (hub_store h ! q) \<and> hs_returned (hub_store h' ! q) = hs_returned (hub_store h ! q) \<and>
        hs_cut (hub_store h' ! q) = hs_cut (hub_store h ! q))"

lemma hub_same_wf: "hub_wf h \<Longrightarrow> hub_same h h' \<Longrightarrow> hub_wf h'"
  unfolding hub_same_def hub_wf_def by metis

lemma hub_same_running: "hub_same h h' \<Longrightarrow> hub_running h' = hub_running h"
proof -
  assume "hub_same h h'"
  then have "map hs_returned (hub_store h') = map hs_returned (hub_store h)" by (intro nth_equalityI) (auto simp: hub_same_def)
  then have "filter Not (map hs_returned (hub_store h')) = filter Not (map hs_returned (hub_store h))" by simp
  then have "length (filter (Not \<circ> hs_returned) (hub_store h')) = length (filter (Not \<circ> hs_returned) (hub_store h))"
    by (simp add: filter_map) (metis length_map)
  then show ?thesis by (simp add: hub_running_def comp_def)
qed

lemma hub_same_steps:
  assumes "hub_wf h" and "range_order ord"
  shows "hub_same h (hub_step cp ord h (HOffer m))" "hub_same h (hub_step cp ord h (HOfferTo cid m))" "hub_same h (hub_step cp ord h HCancelAll)"
    "hub_same h (hub_step cp ord h (HGone p))" "hub_same h (hub_step cp ord h (HWrite None p))"
proof -
  have put: "hub_same h (hub_put p st h)" if "hs_id st = hs_id (hub_store h ! p)" "hs_returned st = hs_returned (hub_store h ! p)" "hs_cut st = hs_cut (hub_store h ! p)" for p st
    using that by (auto simp: hub_same_def)
  show "hub_same h (hub_step cp ord h (HOffer m))"
    using hub_offer_all_eq [OF hub_values(2) [OF assms], of cp m h] by (auto simp: hub_same_def)
  show "hub_same h (hub_step cp ord h (HOfferTo cid m))"
    using put by (auto simp: hub_offer_eq hub_same_def split: option.splits)
  have "\<exists>b. hub_store (hub_cancel_all ord h) ! q = (hub_store h ! q)\<lparr>hs_cancelled := b\<rparr>" for q
    using hub_cancel_all_store [of ord h] by blast
  then have "hs_id (hub_store (hub_cancel_all ord h) ! q) = hs_id (hub_store h ! q) \<and>
     hs_returned (hub_store (hub_cancel_all ord h) ! q) = hs_returned (hub_store h ! q) \<and>
     hs_cut (hub_store (hub_cancel_all ord h) ! q) = hs_cut (hub_store h ! q)" for q
    by (metis hstream.select_convs(1,4,6) hstream.surjective hstream.update_convs(3))
  then show "hub_same h (hub_step cp ord h HCancelAll)"
    using hub_cancel_all_store [of ord h] by (simp add: hub_same_def)
  show "hub_same h (hub_step cp ord h (HGone p))" using put by (simp add: hub_gone_def)
  show "hub_same h (hub_step cp ord h (HWrite None p))"
    using put [of _ p] by (auto simp: hub_write_def Let_def hub_same_def split: option.splits)
qed

lemma hub_step_wf:
  assumes "hub_wf h" and "range_order ord"
  shows "hub_wf (hub_step cp ord h a)"
proof (cases a)
  case (HWrite r p)
  show ?thesis
  proof (cases r)
    case (Some k)
    show ?thesis
    proof (cases "p < length (hub_store h)")
      case True
      then show ?thesis using assms(1) HWrite Some
        by (auto simp: hub_write_def Let_def intro!: hub_wf_leave_put split: option.splits)
    next
      case False
      then show ?thesis using hub_wf_leave [OF assms(1), of p] assms(1) HWrite Some
        by (auto simp: hub_write_def hub_leave_def hub_put_def Let_def list_update_beyond split: option.splits)
    qed
  qed (use HWrite hub_same_wf [OF assms(1) hub_same_steps(5) [OF assms]] in simp)
qed (use assms hub_wf_open hub_wf_leave hub_same_wf [OF assms(1)] hub_same_steps [OF assms] in simp_all)

section \<open>One stream\<close>

definition hub_live :: "nat \<Rightarrow> hub \<Rightarrow> bool" where
  "hub_live p h \<longleftrightarrow> hub_wf h \<and> p < length (hub_store h) \<and> sm_Load (hub_streams h) (hs_id (hub_store h ! p)) = Some p"

text \<open>Steps that neither end the stream's handler nor take its place in the map.\<close>

definition hub_ok :: "nat \<Rightarrow> hub \<Rightarrow> hub_action \<Rightarrow> bool" where
  "hub_ok p h a = (case a of
     HOpen cid \<Rightarrow> cid \<noteq> hs_id (hub_store h ! p)
   | HLeave q \<Rightarrow> hs_id (hub_store h ! q) \<noteq> hs_id (hub_store h ! p)
   | HWrite r q \<Rightarrow> if q = p then r = None else hs_id (hub_store h ! q) \<noteq> hs_id (hub_store h ! p)
   | _ \<Rightarrow> True)"

definition hub_view :: "nat \<Rightarrow> hub \<Rightarrow> bytes lane" where
  "hub_view p h = (hs_ch (hub_store h ! p), hs_msgs (hub_store h ! p))"

definition hub_act :: "nat \<Rightarrow> hub \<Rightarrow> hub_action \<Rightarrow> bytes queue_event option" where
  "hub_act p h a = (case a of
     HWrite r q \<Rightarrow> if q = p then Some Drain else None
   | HOffer m \<Rightarrow> Some (Offer m)
   | HOfferTo cid m \<Rightarrow> if cid = hs_id (hub_store h ! p) then Some (Offer m) else None
   | _ \<Rightarrow> None)"

lemma hub_step_lane:
  assumes "range_order ord" and "hub_live p h" and "hub_ok p h a"
  shows "hub_live p (hub_step cp ord h a) \<and> hub_view p (hub_step cp ord h a) = lane_act cp (hub_act p h a) (hub_view p h)"
proof -
  have w: "hub_wf h" and p: "p < length (hub_store h)" and l: "sm_Load (hub_streams h) (hs_id (hub_store h ! p)) = Some p"
    using assms(2) by (simp_all add: hub_live_def)
  have w': "hub_wf (hub_step cp ord h a)" by (rule hub_step_wf [OF w assms(1)])
  show ?thesis
  proof (cases a)
    case (HOpen cid)
    then show ?thesis using w' p l assms(3)
      by (simp add: hub_live_def hub_view_def hub_act_def hub_ok_def hub_open_def nth_append sync_map)
  next
    case (HLeave q)
    then have "q \<noteq> p" using assms(3) by (auto simp: hub_ok_def)
    then show ?thesis using w' p l assms(3) HLeave
      by (auto simp: hub_live_def hub_view_def hub_act_def hub_ok_def hub_leave_simps sync_map)
  next
    case (HWrite r q)
    show ?thesis
    proof (cases "q = p")
      case True
      then show ?thesis using w' p l assms(3) HWrite
        by (cases "hs_ch (hub_store h ! p)") (auto simp: hub_live_def hub_view_def hub_act_def hub_ok_def hub_write_def Let_def try_recv_def)
    next
      case False
      then show ?thesis using w' p l assms(3) HWrite
        by (cases "hs_ch (hub_store h ! q)"; cases r)
           (auto simp: hub_live_def hub_view_def hub_act_def hub_ok_def hub_write_def Let_def try_recv_def hub_leave_simps sync_map split: if_splits)
    qed
  next
    case (HOffer m)
    have "p \<in> set (sm_values ord (hub_streams h))" using hub_values(1) [OF w assms(1)] p l by simp
    then show ?thesis using w' p l HOffer hub_offer_all_eq [OF hub_values(2) [OF w assms(1)], of cp m h]
      by (auto simp: hub_live_def hub_view_def hub_act_def)
  next
    case (HOfferTo cid m)
    show ?thesis
    proof (cases "cid = hs_id (hub_store h ! p)")
      case True
      then show ?thesis using w' p l HOfferTo by (simp add: hub_live_def hub_view_def hub_act_def hub_offer_eq)
    next
      case False
      then have "sm_Load (hub_streams h) cid \<noteq> Some p" using hub_wf_get(2) [OF w, of cid p] by blast
      then show ?thesis using False w' p l HOfferTo
        by (cases "sm_Load (hub_streams h) cid") (simp_all add: hub_live_def hub_view_def hub_act_def hub_offer_eq)
    qed
  next
    case HCancelAll
    obtain b where "hub_store (hub_cancel_all ord h) ! p = (hub_store h ! p)\<lparr>hs_cancelled := b\<rparr>"
      using hub_cancel_all_store [of ord h] by blast
    then show ?thesis using w' p l HCancelAll hub_cancel_all_store [of ord h]
      by (simp add: hub_live_def hub_view_def hub_act_def)
  next
    case (HGone q)
    then show ?thesis using w' p l by (simp add: hub_live_def hub_view_def hub_act_def hub_gone_def)
  qed
qed

section \<open>Servers with a hub\<close>

text \<open>A server whose streams are a hub: every step of it is at most one step of the hub, and the server never panics while its hub is
  well-formed and the step names handlers that exist.\<close>

locale hub_server =
  fixes cp :: nat and hub_of :: "'s \<Rightarrow> hub" and step :: "hub_order \<Rightarrow> 's \<Rightarrow> 'e \<Rightarrow> 's option" and acts :: "'s \<Rightarrow> 'e \<Rightarrow> hub_action option"
    and exists :: "'s \<Rightarrow> 'e \<Rightarrow> bool"
  assumes step_total: "hub_wf (hub_of s) \<Longrightarrow> range_order ord \<Longrightarrow> exists s e \<Longrightarrow> \<exists>s'. step ord s e = Some s'"
    and step_hub: "hub_wf (hub_of s) \<Longrightarrow> range_order ord \<Longrightarrow> exists s e \<Longrightarrow> step ord s e = Some s' \<Longrightarrow>
      hub_of s' = (case acts s e of None \<Rightarrow> hub_of s | Some a \<Rightarrow> hub_step cp ord (hub_of s) a)"

begin

fun run_exists :: "hub_order \<Rightarrow> 's \<Rightarrow> 'e list \<Rightarrow> bool" where
  "run_exists ord s [] = True"
| "run_exists ord s (e # es) = (exists s e \<and> (case step ord s e of None \<Rightarrow> False | Some s' \<Rightarrow> run_exists ord s' es))"

lemma step_keeps:
  assumes "hub_wf (hub_of s)" and "range_order ord" and "exists s e" and "step ord s e = Some s'"
  shows "hub_wf (hub_of s')"
  using step_hub [OF assms] hub_step_wf [OF assms(1,2)] assms(1) by (simp split: option.splits)

definition stream_ok :: "nat \<Rightarrow> 's \<Rightarrow> 'e \<Rightarrow> bool" where
  "stream_ok p s e \<longleftrightarrow> exists s e \<and> (case acts s e of None \<Rightarrow> True | Some a \<Rightarrow> hub_ok p (hub_of s) a)"

definition stream_act :: "nat \<Rightarrow> 's \<Rightarrow> 'e \<Rightarrow> bytes queue_event option" where
  "stream_act p s e = (case acts s e of None \<Rightarrow> None | Some a \<Rightarrow> hub_act p (hub_of s) a)"

end

sublocale hub_server < lane: fanout cp "\<lambda>s. hub_live p (hub_of s)" "stream_ok p" "\<lambda>s. hub_view p (hub_of s)" "step (some_order ord)" "stream_act p" for p ord
proof unfold_locales
  fix s e assume inv: "hub_live p (hub_of s)" and ok: "stream_ok p s e"
  have ex: "exists s e" and w: "hub_wf (hub_of s)" using inv ok by (simp_all add: stream_ok_def hub_live_def)
  show "\<exists>s'. step (some_order ord) s e = Some s'" using step_total [OF w _ ex] by simp
  fix s' assume "step (some_order ord) s e = Some s'"
  then have "hub_of s' = (case acts s e of None \<Rightarrow> hub_of s | Some a \<Rightarrow> hub_step cp (some_order ord) (hub_of s) a)"
    using step_hub [OF w _ ex] by simp
  then show "hub_live p (hub_of s')" "hub_view p (hub_of s') = lane_act cp (stream_act p s e) (hub_view p (hub_of s))"
    using inv ok hub_step_lane [of "some_order ord" p "hub_of s" _ cp] by (auto simp: stream_ok_def stream_act_def split: option.splits)
qed

text \<open>Runs in which stream \<open>p\<close> goes on, and the messages it is offered, for a server's step and its actions.\<close>

fun hub_run_ok :: "('s \<Rightarrow> 'e \<Rightarrow> 's option) \<Rightarrow> ('s \<Rightarrow> 'e \<Rightarrow> bool) \<Rightarrow> 's \<Rightarrow> 'e list \<Rightarrow> bool" where
  "hub_run_ok step ok s [] = True"
| "hub_run_ok step ok s (e # es) = (ok s e \<and> (case step s e of None \<Rightarrow> False | Some s' \<Rightarrow> hub_run_ok step ok s' es))"

fun hub_offered :: "('s \<Rightarrow> 'e \<Rightarrow> 's option) \<Rightarrow> ('s \<Rightarrow> 'e \<Rightarrow> bytes queue_event option) \<Rightarrow> 's \<Rightarrow> 'e list \<Rightarrow> bytes list" where
  "hub_offered step act s [] = []"
| "hub_offered step act s (e # es) =
     (case act s e of Some (Offer m) \<Rightarrow> [m] | _ \<Rightarrow> []) @ (case step s e of None \<Rightarrow> [] | Some s' \<Rightarrow> hub_offered step act s' es)"

context hub_server
begin

lemma run_ok_oks: "hub_run_ok (step (some_order ord)) (stream_ok p) s es = lane.oks p ord s es"
  by (induction es arbitrary: s) (simp_all split: option.splits)

lemma offered_trace: "hub_offered (step (some_order ord)) (stream_act p) s es = offers (lane.trace ord p s es)"
proof (induction es arbitrary: s)
  case (Cons e es)
  have "offers (opt_list (stream_act p s e)) = (case stream_act p s e of Some (Offer m) \<Rightarrow> [m] | _ \<Rightarrow> [])"
    by (auto split: option.splits queue_event.splits)
  then show ?case using Cons by (cases "step (some_order ord) s e") (simp_all add: offers_append)
qed simp

text \<open>Delivery on a stream that was drained at the start, by \<open>n\<close> more turns \<open>w\<close> of its handler.\<close>

lemma run_delivers:
  assumes "range_order ord" and "hub_live p (hub_of s)" and "hs_ch (hub_store (hub_of s) ! p) = []"
    and "hub_run_ok (step ord) (stream_ok p) s es" and "\<And>s. hub_live p (hub_of s) \<Longrightarrow> exists s w \<and> acts s w = Some (HWrite None p)"
  shows "\<exists>s' ms. run_opt (step ord) s (es @ replicate cp w) = Some s' \<and> hub_live p (hub_of s') \<and> hs_ch (hub_store (hub_of s') ! p) = [] \<and>
     hs_msgs (hub_store (hub_of s') ! p) = hs_msgs (hub_store (hub_of s) ! p) @ ms \<and>
     subseq ms (hub_offered (step ord) (stream_act p) s es) \<and>
     (length (hub_offered (step ord) (stream_act p) s es) \<le> cp \<longrightarrow> ms = hub_offered (step ord) (stream_act p) s es)"
proof -
  have o: "some_order ord = ord" by (rule some_order [OF assms(1)])
  let ?step = "step (some_order ord)" and ?off = "hub_offered (step (some_order ord)) (stream_act p) s es"
  have ok: "lane.oks p ord s es" using assms(4) run_ok_oks [of ord p s es] unfolding o by simp
  have v: "fst (hub_view p (hub_of s)) = []" using assms(3) by (simp add: hub_view_def)
  obtain s1 where s1: "run_opt ?step s es = Some s1" "hub_live p (hub_of s1)" using lane.run_view [OF assms(2) ok] by blast
  obtain acc where acc: "snd (hub_view p (hub_of s1)) @ fst (hub_view p (hub_of s1)) = snd (hub_view p (hub_of s)) @ acc" "subseq acc ?off"
      "length ?off \<le> cp \<longrightarrow> acc = ?off"
    using lane.run_written [OF assms(2) ok s1(1)] v unfolding offered_trace by auto
  have "length (fst (hub_view p (hub_of s1))) \<le> cp" using lane.run_bounded [OF assms(2) ok s1(1)] v by simp
  moreover have "\<And>t. hub_live p (hub_of t) \<Longrightarrow> stream_ok p t w \<and> stream_act p t w = Some Drain"
    using assms(5) by (auto simp: stream_ok_def stream_act_def hub_ok_def hub_act_def)
  ultimately obtain s' where s': "run_opt ?step s1 (replicate cp w) = Some s'" "hub_live p (hub_of s')" "hub_view p (hub_of s') = ([], snd (hub_view p (hub_of s)) @ acc)"
    using lane.drains [of p w s1 cp ord] s1(2) acc(1) by auto
  have "run_opt ?step s (es @ replicate cp w) = Some s'" using s1(1) s'(1) by (simp add: run_opt_append)
  then show ?thesis using s'(2,3) acc(2,3) unfolding o by (intro exI [of _ s'] exI [of _ acc]) (auto simp: hub_view_def)
qed

end

end
