(* ===== verification/Http.thy ===== *)
theory Http
  imports Hub Wire Transport_Base
begin

text \<open>
  The streaming transports of \<^verbatim>\<open>internal/http1\<close> and \<^verbatim>\<open>internal/http2\<close>. Their servers and clients differ only in
  the protocol versions they configure and in what they log; the operations are defined once, with the prefix
  \<open>http_\<close>, and the packages' operations are instances. A server's streams are a hub.

  What the HTTP layer does is the environment: whether listening and shutting down succeed, how many bytes of a
  write get out, when a request's context is cancelled, what a client's requests return. A response body is
  a list of bytes, of which the client may see any prefix.
\<close>

section \<open>Framing\<close>

definition len_prefixed :: "bytes \<Rightarrow> bytes" where
  "len_prefixed data = be_bytes 4 (of_nat (length data) :: u32) @ data"

text \<open>The body of a stream's response: its messages and the part of the last one that a failed write let out.\<close>

definition stream_body :: "hstream \<Rightarrow> bytes" where
  "stream_body st = concat (map len_prefixed (hs_msgs st)) @ (case hs_cut st of None \<Rightarrow> [] | Some (data, k) \<Rightarrow> take k (len_prefixed data))"

section \<open>The server\<close>

definition http1StreamChanCap :: nat where "http1StreamChanCap = 256"
definition http2StreamChanCap :: nat where "http2StreamChanCap = 256"

record http_server =
  hp_base :: BaseTransport
  hp_addr :: string
  hp_cfg :: TransportConfig
  hp_hub :: hub
  hp_serving :: bool
  hp_seq :: u64
  hp_sent :: u64
  hp_recv :: u64
  hp_bytesSent :: u64
  hp_bytesRecv :: u64
  hp_connCount :: i64
  hp_calls :: "handler_call list"

datatype http_error = HttpErr transportError | HttpShutdown

definition http_New :: "string \<Rightarrow> TransportConfig \<Rightarrow> http_server" where
  "http_New protocol cfg =
     \<lparr>hp_base = SetProtocol zero_BaseTransport protocol, hp_addr = cfg_ListenAddr cfg, hp_cfg = cfg, hp_hub = empty_hub, hp_serving = False,
      hp_seq = 0, hp_sent = 0, hp_recv = 0, hp_bytesSent = 0, hp_bytesRecv = 0, hp_connCount = 0, hp_calls = []\<rparr>"

text \<open>\<open>Start\<close> listens in a goroutine that only logs an error.\<close>

definition http_Start :: "i64 \<Rightarrow> bool \<Rightarrow> http_server \<Rightarrow> (http_error + unit) \<times> http_server" where
  "http_Start now listens s =
     (if IsStarted (hp_base s) then (Inl (HttpErr ErrAlreadyStarted), s)
      else (Inr (), s\<lparr>hp_base := MarkStarted (hp_base s) now, hp_serving := listens\<rparr>))"

text \<open>\<open>Stop\<close> cancels the contexts of all streams; \<open>ok\<close> says whether the shutdown ends within its five seconds.\<close>

definition http_Stop :: "hub_order \<Rightarrow> bool \<Rightarrow> http_server \<Rightarrow> (http_error + unit) \<times> http_server" where
  "http_Stop ord ok s =
     (if \<not> IsStarted (hp_base s) then (Inl (HttpErr ErrNotStarted), s)
      else (if ok then Inr () else Inl HttpShutdown,
            s\<lparr>hp_hub := hub_cancel_all ord (hp_hub s), hp_base := MarkStopped (hp_base s), hp_serving := False\<rparr>))"

text \<open>\<open>handleRegister\<close>: the status and the body, for a new UUID.\<close>

definition http_handleRegister :: "bool \<Rightarrow> ConnID \<Rightarrow> nat \<times> string" where
  "http_handleRegister post cid = (if \<not> post then (405, ''method not allowed'' @ [CHR 0x0A]) else (200, cid))"

text \<open>\<open>handleStream\<close> up to its loop.\<close>

definition http_handleStream :: "bool \<Rightarrow> ConnID \<Rightarrow> bool \<Rightarrow> http_server \<Rightarrow> nat \<times> http_server" where
  "http_handleStream get cid flusher s =
     (if \<not> get then (405, s)
      else if cid = [] then (400, s)
      else if \<not> flusher then (500, s)
      else (200, s\<lparr>hp_hub := hub_open cid (hp_hub s), hp_connCount := hp_connCount s + 1,
                   hp_calls := hp_calls s @ calls_if (cfg_OnConnect (hp_cfg s)) (CallConnect cid)\<rparr>))"

text \<open>The deferred function, apart from what it does to the hub.\<close>

definition http_left :: "nat \<Rightarrow> http_server \<Rightarrow> http_server" where
  "http_left p s = s\<lparr>hp_connCount := hp_connCount s - 1,
     hp_calls := hp_calls s @ calls_if (cfg_OnDisconnect (hp_cfg s)) (CallDisconnect (hs_id (hub_store (hp_hub s) ! p)))\<rparr>"

text \<open>A turn of the handler's loop: \<open>None\<close> when its \<open>select\<close> sees the context done, else how the writes of the next message end: \<open>None\<close>
  when both succeed, \<open>Some k\<close> when \<open>k\<close> bytes of prefix and message got out before one failed.\<close>

definition http_handler_turn :: "nat option option \<Rightarrow> nat \<Rightarrow> http_server \<Rightarrow> http_server option" where
  "http_handler_turn pk p s =
     (if p < length (hub_store (hp_hub s)) then
        let st = hub_store (hp_hub s) ! p in
        if hs_returned st then Some s
        else case pk of
          None \<Rightarrow> Some (if hs_cancelled st then (http_left p s)\<lparr>hp_hub := hub_leave p (hp_hub s)\<rparr> else s)
        | Some r \<Rightarrow> (case hub_write r p (hp_hub s) of
            None \<Rightarrow> Some s
          | Some (data, h) \<Rightarrow> Some (case r of
              None \<Rightarrow> s\<lparr>hp_hub := h, hp_sent := hp_sent s + 1, hp_bytesSent := hp_bytesSent s + (4 + of_nat (length data))\<rparr>
            | Some k \<Rightarrow> (http_left p s)\<lparr>hp_hub := h\<rparr>))
      else None)"

definition http_gone :: "nat \<Rightarrow> http_server \<Rightarrow> http_server" where
  "http_gone p s = s\<lparr>hp_hub := hub_gone p (hp_hub s)\<rparr>"

definition http_Broadcast :: "nat \<Rightarrow> hub_order \<Rightarrow> i64 \<Rightarrow> bytes \<Rightarrow> http_server \<Rightarrow> ((http_error + unit) \<times> http_server) option" where
  "http_Broadcast cp ord now data s =
     (if \<not> IsStarted (hp_base s) then Some (Inl (HttpErr ErrNotStarted), s)
      else do {
        let s = s\<lparr>hp_seq := hp_seq s + 1\<rparr>;
        frame \<leftarrow> Encode (hp_seq s) now data;
        Some (Inr (), s\<lparr>hp_hub := fst (hub_offer_all cp frame (sm_values ord (hub_streams (hp_hub s))) (hp_hub s))\<rparr>) })"

definition http_Send :: "nat \<Rightarrow> ConnID \<Rightarrow> bytes \<Rightarrow> http_server \<Rightarrow> (http_error + unit) \<times> http_server" where
  "http_Send cp cid data s =
     (case sm_Load (hub_streams (hp_hub s)) cid of
        None \<Rightarrow> (Inl (HttpErr ErrClientNotFound), s)
      | Some p \<Rightarrow> (case hub_offer cp data p (hp_hub s) of (h, ok) \<Rightarrow>
          (if ok then Inr () else Inl (HttpErr ErrBroadcastFailed), s\<lparr>hp_hub := h\<rparr>)))"

definition http_Connections :: "http_server \<Rightarrow> int" where
  "http_Connections s = sint (hp_connCount s)"

definition http_Stats :: "i64 \<Rightarrow> http_server \<Rightarrow> Stats" where
  "http_Stats now s =
     (BaseStats (hp_base s) now)\<lparr>st_Connections := http_Connections s, st_Sent := hp_sent s, st_Received := hp_recv s,
        st_BytesSent := hp_bytesSent s, st_BytesRecv := hp_bytesRecv s\<rparr>"

text \<open>\<open>handleInbound\<close>, which no route reaches: a body, \<open>None\<close> when reading it fails, is cut at a mebibyte.\<close>

definition http_handleInbound :: "ConnID \<Rightarrow> i64 \<Rightarrow> bytes option \<Rightarrow> http_server \<Rightarrow> nat \<times> http_server" where
  "http_handleInbound cid recvAt body s =
     (case body of
        None \<Rightarrow> (400, s)
      | Some b \<Rightarrow>
          let data = take (2 ^ 20) b in
          (204, s\<lparr>hp_recv := hp_recv s + 1, hp_bytesRecv := hp_bytesRecv s + of_nat (length data),
                  hp_calls := hp_calls s @ calls_if (cfg_OnRecv (hp_cfg s)) (CallRecv cid data recvAt)\<rparr>))"

datatype http_action =
    Starts i64 bool
  | Stops bool
  | Opens bool ConnID bool
  | Turns "nat option option" nat
  | Goes nat
  | Casts i64 bytes
  | SendsTo ConnID bytes
  | Posts ConnID i64 "bytes option"

fun http_step :: "nat \<Rightarrow> hub_order \<Rightarrow> http_server \<Rightarrow> http_action \<Rightarrow> http_server option" where
  "http_step cp ord s (Starts now listens) = Some (snd (http_Start now listens s))"
| "http_step cp ord s (Stops ok) = Some (snd (http_Stop ord ok s))"
| "http_step cp ord s (Opens get cid flusher) = Some (snd (http_handleStream get cid flusher s))"
| "http_step cp ord s (Turns pk p) = http_handler_turn pk p s"
| "http_step cp ord s (Goes p) = Some (http_gone p s)"
| "http_step cp ord s (Casts now d) = map_option snd (http_Broadcast cp ord now d s)"
| "http_step cp ord s (SendsTo cid d) = Some (snd (http_Send cp cid d s))"
| "http_step cp ord s (Posts cid t body) = Some (snd (http_handleInbound cid t body s))"

text \<open>The packages.\<close>

definition NewHTTP1Server :: "TransportConfig \<Rightarrow> http_server" where "NewHTTP1Server = http_New ''http/1.1''"
definition HTTP1_Start :: "i64 \<Rightarrow> bool \<Rightarrow> http_server \<Rightarrow> (http_error + unit) \<times> http_server" where "HTTP1_Start = http_Start"
definition HTTP1_Stop :: "hub_order \<Rightarrow> bool \<Rightarrow> http_server \<Rightarrow> (http_error + unit) \<times> http_server" where "HTTP1_Stop = http_Stop"
definition HTTP1_handleRegister :: "bool \<Rightarrow> ConnID \<Rightarrow> nat \<times> string" where "HTTP1_handleRegister = http_handleRegister"
definition HTTP1_handleStream :: "bool \<Rightarrow> ConnID \<Rightarrow> bool \<Rightarrow> http_server \<Rightarrow> nat \<times> http_server" where "HTTP1_handleStream = http_handleStream"
definition HTTP1_handler_turn :: "nat option option \<Rightarrow> nat \<Rightarrow> http_server \<Rightarrow> http_server option" where "HTTP1_handler_turn = http_handler_turn"
definition HTTP1_Broadcast :: "hub_order \<Rightarrow> i64 \<Rightarrow> bytes \<Rightarrow> http_server \<Rightarrow> ((http_error + unit) \<times> http_server) option" where
  "HTTP1_Broadcast = http_Broadcast http1StreamChanCap"
definition HTTP1_Send :: "ConnID \<Rightarrow> bytes \<Rightarrow> http_server \<Rightarrow> (http_error + unit) \<times> http_server" where "HTTP1_Send = http_Send http1StreamChanCap"
definition HTTP1_Connections :: "http_server \<Rightarrow> int" where "HTTP1_Connections = http_Connections"
definition HTTP1_Stats :: "i64 \<Rightarrow> http_server \<Rightarrow> Stats" where "HTTP1_Stats = http_Stats"
definition HTTP1_handleInbound :: "ConnID \<Rightarrow> i64 \<Rightarrow> bytes option \<Rightarrow> http_server \<Rightarrow> nat \<times> http_server" where "HTTP1_handleInbound = http_handleInbound"

definition NewHTTP2Server :: "TransportConfig \<Rightarrow> http_server" where "NewHTTP2Server = http_New ''http/2''"
definition HTTP2_Start :: "i64 \<Rightarrow> bool \<Rightarrow> http_server \<Rightarrow> (http_error + unit) \<times> http_server" where "HTTP2_Start = http_Start"
definition HTTP2_Stop :: "hub_order \<Rightarrow> bool \<Rightarrow> http_server \<Rightarrow> (http_error + unit) \<times> http_server" where "HTTP2_Stop = http_Stop"
definition HTTP2_handleRegister :: "bool \<Rightarrow> ConnID \<Rightarrow> nat \<times> string" where "HTTP2_handleRegister = http_handleRegister"
definition HTTP2_handleStream :: "bool \<Rightarrow> ConnID \<Rightarrow> bool \<Rightarrow> http_server \<Rightarrow> nat \<times> http_server" where "HTTP2_handleStream = http_handleStream"
definition HTTP2_handler_turn :: "nat option option \<Rightarrow> nat \<Rightarrow> http_server \<Rightarrow> http_server option" where "HTTP2_handler_turn = http_handler_turn"
definition HTTP2_Broadcast :: "hub_order \<Rightarrow> i64 \<Rightarrow> bytes \<Rightarrow> http_server \<Rightarrow> ((http_error + unit) \<times> http_server) option" where
  "HTTP2_Broadcast = http_Broadcast http2StreamChanCap"
definition HTTP2_Send :: "ConnID \<Rightarrow> bytes \<Rightarrow> http_server \<Rightarrow> (http_error + unit) \<times> http_server" where "HTTP2_Send = http_Send http2StreamChanCap"
definition HTTP2_Connections :: "http_server \<Rightarrow> int" where "HTTP2_Connections = http_Connections"
definition HTTP2_Stats :: "i64 \<Rightarrow> http_server \<Rightarrow> Stats" where "HTTP2_Stats = http_Stats"
definition HTTP2_handleInbound :: "ConnID \<Rightarrow> i64 \<Rightarrow> bytes option \<Rightarrow> http_server \<Rightarrow> nat \<times> http_server" where "HTTP2_handleInbound = http_handleInbound"

section \<open>The client\<close>

datatype http_client_error = BuildRegister | RegisterFails | RegisterStatus nat | RegisterBody

datatype request_result = NotBuilt | NotDone | Response nat "string option"   \<comment> \<open>\<open>None\<close>: reading the body fails\<close>

record http_client =
  hc_addr :: string
  hc_connID :: ConnID
  hc_handler :: bool
  hc_reading :: bool                   \<comment> \<open>whether \<open>readStream\<close> was started\<close>
  hc_cancelled :: "bool option"        \<comment> \<open>the stream's context, once \<open>cancel\<close> is set\<close>
  hc_calls :: "handler_call list"

definition http_NewClient :: "string \<Rightarrow> bool \<Rightarrow> http_client" where
  "http_NewClient addr handler =
     \<lparr>hc_addr = addr, hc_connID = [], hc_handler = handler, hc_reading = False, hc_cancelled = None, hc_calls = []\<rparr>"

definition http_Connect :: "request_result \<Rightarrow> http_client \<Rightarrow> http_client_error option \<times> http_client" where
  "http_Connect res c = (case res of
     NotBuilt \<Rightarrow> (Some BuildRegister, c)
   | NotDone \<Rightarrow> (Some RegisterFails, c)
   | Response status body \<Rightarrow>
       if status \<noteq> 200 then (Some (RegisterStatus status), c)
       else case body of
         None \<Rightarrow> (Some RegisterBody, c)
       | Some b \<Rightarrow> (None, c\<lparr>hc_connID := b, hc_cancelled := Some False, hc_reading := True\<rparr>))"

text \<open>The loop of \<open>readStream\<close> over the bytes of the body up to its end or the first read error: the messages and why it returned.\<close>

datatype stream_end = EndOfLength | BadLength nat | EndOfPayload

function read_messages :: "bytes \<Rightarrow> bytes list \<times> stream_end" where
  "read_messages body =
     (if length body < 4 then ([], EndOfLength)
      else let msgLen = unat (be_word (take 4 body) :: u32); rest = drop 4 body in
        if msgLen = 0 \<or> msgLen > 2 ^ 20 then ([], BadLength msgLen)
        else if length rest < msgLen then ([], EndOfPayload)
        else case read_messages (drop msgLen rest) of (ms, why) \<Rightarrow> (take msgLen rest # ms, why))"
  by pat_completeness auto
termination by (relation "measure length") auto

declare read_messages.simps [simp del]

text \<open>\<open>readStream\<close> on the result of its request; a response that is not 200 is not read. The clock is read once per message.\<close>

definition http_readStream :: "(nat \<Rightarrow> i64) \<Rightarrow> (nat \<times> bytes) option \<Rightarrow> http_client \<Rightarrow> http_client" where
  "http_readStream clock resp c = (case resp of
     None \<Rightarrow> c
   | Some (status, body) \<Rightarrow>
       if status \<noteq> 200 then c
       else c\<lparr>hc_calls := hc_calls c @ concat (map (\<lambda>(i, d). calls_if (hc_handler c) (CallRecv (hc_connID c) d (clock i)))
                                               (enumerate 0 (fst (read_messages body))))\<rparr>)"

definition http_Close :: "http_client \<Rightarrow> http_client" where
  "http_Close c = c\<lparr>hc_cancelled := (case hc_cancelled c of None \<Rightarrow> None | Some b \<Rightarrow> Some True)\<rparr>"

definition NewHTTP1Client :: "string \<Rightarrow> bool \<Rightarrow> http_client" where "NewHTTP1Client = http_NewClient"
definition HTTP1Client_Connect :: "request_result \<Rightarrow> http_client \<Rightarrow> http_client_error option \<times> http_client" where "HTTP1Client_Connect = http_Connect"
definition HTTP1Client_readStream :: "(nat \<Rightarrow> i64) \<Rightarrow> (nat \<times> bytes) option \<Rightarrow> http_client \<Rightarrow> http_client" where "HTTP1Client_readStream = http_readStream"
definition HTTP1Client_Close :: "http_client \<Rightarrow> http_client" where "HTTP1Client_Close = http_Close"
definition HTTP1Client_ConnID :: "http_client \<Rightarrow> ConnID" where "HTTP1Client_ConnID = hc_connID"

definition NewHTTP2Client :: "string \<Rightarrow> bool \<Rightarrow> http_client" where "NewHTTP2Client = http_NewClient"
definition HTTP2Client_Connect :: "request_result \<Rightarrow> http_client \<Rightarrow> http_client_error option \<times> http_client" where "HTTP2Client_Connect = http_Connect"
definition HTTP2Client_readStream :: "(nat \<Rightarrow> i64) \<Rightarrow> (nat \<times> bytes) option \<Rightarrow> http_client \<Rightarrow> http_client" where "HTTP2Client_readStream = http_readStream"
definition HTTP2Client_Close :: "http_client \<Rightarrow> http_client" where "HTTP2Client_Close = http_Close"
definition HTTP2Client_ConnID :: "http_client \<Rightarrow> ConnID" where "HTTP2Client_ConnID = hc_connID"

section \<open>Streams of a server are a hub\<close>

definition http_acts :: "http_server \<Rightarrow> http_action \<Rightarrow> hub_action option" where
  "http_acts s e = (case e of
     Stops ok \<Rightarrow> if IsStarted (hp_base s) then Some HCancelAll else None
   | Opens get cid flusher \<Rightarrow> if get \<and> cid \<noteq> [] \<and> flusher then Some (HOpen cid) else None
   | Turns pk p \<Rightarrow>
       if hs_returned (hub_store (hp_hub s) ! p) then None
       else (case pk of None \<Rightarrow> if hs_cancelled (hub_store (hp_hub s) ! p) then Some (HLeave p) else None | Some r \<Rightarrow> Some (HWrite r p))
   | Goes p \<Rightarrow> Some (HGone p)
   | Casts now d \<Rightarrow> if IsStarted (hp_base s) then Some (HOffer (frame_bytes (hp_seq s + 1) now d)) else None
   | SendsTo cid d \<Rightarrow> Some (HOfferTo cid d)
   | _ \<Rightarrow> None)"

definition http_exists :: "http_server \<Rightarrow> http_action \<Rightarrow> bool" where
  "http_exists s e = (case e of Turns pk p \<Rightarrow> p < length (hub_store (hp_hub s)) | _ \<Rightarrow> True)"

interpretation http: hub_server cp hp_hub "http_step cp" http_acts http_exists for cp
proof unfold_locales
  fix s ord e assume w: "hub_wf (hp_hub s)" and ex: "http_exists s e"
  show "\<exists>s'. http_step cp ord s e = Some s'"
    using ex by (cases e) (auto simp: http_exists_def http_handler_turn_def http_Broadcast_def Let_def split: option.splits)
  fix s' assume "http_step cp ord s e = Some s'"
  then show "hp_hub s' = (case http_acts s e of None \<Rightarrow> hp_hub s | Some a \<Rightarrow> hub_step cp ord (hp_hub s) a)"
    using ex by (cases e)
      (auto simp: http_acts_def http_exists_def http_Start_def http_Stop_def http_handleStream_def http_handler_turn_def http_left_def http_gone_def
         http_Broadcast_def http_Send_def http_handleInbound_def Let_def split: option.splits prod.splits if_splits)
qed

section \<open>Reading a body\<close>

definition fits :: "bytes \<Rightarrow> bool" where
  "fits m \<longleftrightarrow> m \<noteq> [] \<and> length m \<le> 2 ^ 20"

lemma length_len_prefixed [simp]: "length (len_prefixed m) = 4 + length m"
  by (simp add: len_prefixed_def)

lemma prefix_value: "fits m \<Longrightarrow> unat (be_word (be_bytes 4 (of_nat (length m) :: u32)) :: u32) = length m"
  by (simp add: fits_def unat_of_nat)

lemma read_message: "fits m \<Longrightarrow> read_messages (len_prefixed m @ rest) = (m # fst (read_messages rest), snd (read_messages rest))"
  using prefix_value [of m]
  by (subst read_messages.simps) (simp add: len_prefixed_def fits_def Let_def case_prod_beta)

lemma read_cut_message:
  assumes "fits m" and "n < length (len_prefixed m)"
  shows "fst (read_messages (take n (len_prefixed m))) = []"
proof (cases "n < 4")
  case False
  then have "take 4 (take n (len_prefixed m)) = be_bytes 4 (of_nat (length m) :: u32)" by (simp add: len_prefixed_def min_def)
  then show ?thesis using False assms prefix_value [OF assms(1)]
    by (subst read_messages.simps) (simp add: len_prefixed_def fits_def Let_def)
qed (simp add: read_messages.simps)

text \<open>A prefix of a body yields a prefix of its messages, the whole body all of them.\<close>

lemma read_prefix:
  assumes "\<forall>m \<in> set ms. fits m"
  shows "\<exists>j. fst (read_messages (take n (concat (map len_prefixed ms)))) = take j ms \<and>
     (length (concat (map len_prefixed ms)) \<le> n \<longrightarrow> j = length ms)"
  using assms
proof (induction ms arbitrary: n)
  case Nil
  then show ?case by (simp add: read_messages.simps)
next
  case (Cons m ms)
  show ?case
  proof (cases "n < length (len_prefixed m)")
    case True
    then show ?thesis using read_cut_message [of m n] Cons.prems by (intro exI [of _ 0]) simp
  next
    case False
    let ?k = "n - length (len_prefixed m)"
    obtain j where j: "fst (read_messages (take ?k (concat (map len_prefixed ms)))) = take j ms"
        "length (concat (map len_prefixed ms)) \<le> ?k \<longrightarrow> j = length ms" using Cons.IH [of ?k] Cons.prems by auto
    have "take n (concat (map len_prefixed (m # ms))) = len_prefixed m @ take ?k (concat (map len_prefixed ms))"
      using False by simp
    then show ?thesis using j False Cons.prems read_message [of m]
      by (intro exI [of _ "Suc j"]) auto
  qed
qed

section \<open>Properties\<close>

definition http_stream_ok :: "nat \<Rightarrow> http_server \<Rightarrow> http_action \<Rightarrow> bool" where
  "http_stream_ok p s e \<longleftrightarrow> http_exists s e \<and> (case http_acts s e of None \<Rightarrow> True | Some a \<Rightarrow> hub_ok p (hp_hub s) a)"

definition http_offer :: "nat \<Rightarrow> http_server \<Rightarrow> http_action \<Rightarrow> bytes queue_event option" where
  "http_offer p s e = (case http_acts s e of None \<Rightarrow> None | Some a \<Rightarrow> hub_act p (hp_hub s) a)"

lemma http_stream_eqs: "http.stream_ok = http_stream_ok" "http.stream_act = http_offer"
  by (intro ext; simp add: http.stream_ok_def http_stream_ok_def http.stream_act_def http_offer_def)+

text \<open>Property C32. Broadcasts of an HTTP/1.1 server reach a client that streams from it: however the server's goroutines interleave,
  on a stream that nothing was written to yet, whose handler meets no write error and whose identifier no other stream shares, 256 more turns of the
  handler write everything accepted, in the order offered and each once, all of it when there were at most 256 messages; and a client that sees
  any prefix of the response body hands its handler a prefix of those messages, all of them when it sees the whole body. (Messages are
  not empty and at most a mebibyte long.)\<close>

theorem http1_broadcasts_reach_client:
  assumes "range_order ord" and "hub_live p (hp_hub s)" and "hs_ch (hub_store (hp_hub s) ! p) = []" and "hs_msgs (hub_store (hp_hub s) ! p) = []"
    and "hub_run_ok (http_step http1StreamChanCap ord) (http_stream_ok p) s es"
    and "\<forall>m \<in> set (hub_offered (http_step http1StreamChanCap ord) (http_offer p) s es). fits m" and "hc_handler c"
  shows "\<exists>s' ms. run_opt (http_step http1StreamChanCap ord) s (es @ replicate http1StreamChanCap (Turns (Some None) p)) = Some s' \<and>
     subseq ms (hub_offered (http_step http1StreamChanCap ord) (http_offer p) s es) \<and>
     (length (hub_offered (http_step http1StreamChanCap ord) (http_offer p) s es) \<le> http1StreamChanCap \<longrightarrow>
        ms = hub_offered (http_step http1StreamChanCap ord) (http_offer p) s es) \<and>
     (\<forall>n. \<exists>j. hc_calls (HTTP1Client_readStream clock (Some (200, take n (stream_body (hub_store (hp_hub s') ! p)))) c) =
            hc_calls c @ map (\<lambda>(i, d). CallRecv (hc_connID c) d (clock i)) (enumerate 0 (take j ms)) \<and>
          (length (stream_body (hub_store (hp_hub s') ! p)) \<le> n \<longrightarrow> j = length ms))"
proof -
  let ?step = "http_step http1StreamChanCap ord" and ?off = "hub_offered (http_step http1StreamChanCap ord) (http_offer p) s es"
  let ?w = "Turns (Some None) p"
  have w: "http_exists t ?w \<and> http_acts t ?w = Some (HWrite None p)" if "hub_live p (hp_hub t)" for t
    using that hub_wf_get(3) by (auto simp: http_exists_def http_acts_def hub_live_def)
  obtain s' ms where s': "run_opt ?step s (es @ replicate http1StreamChanCap ?w) = Some s'" "hs_msgs (hub_store (hp_hub s') ! p) = ms" "subseq ms ?off"
      "length ?off \<le> http1StreamChanCap \<longrightarrow> ms = ?off" "hub_live p (hp_hub s')"
    using http.run_delivers [OF assms(1-3), of http1StreamChanCap es ?w] assms(4,5) w unfolding http_stream_eqs by auto
  have "hs_cut (hub_store (hp_hub s') ! p) = None" using s'(5) hub_wf_get(4) by (auto simp: hub_live_def)
  then have body: "stream_body (hub_store (hp_hub s') ! p) = concat (map len_prefixed ms)" by (simp add: stream_body_def s'(2))
  have "set ms \<subseteq> set ?off" using s'(3) by (rule subseq_subset)
  then have fit: "\<forall>m \<in> set ms. fits m" using assms(6) by blast
  have one: "concat (map (\<lambda>(i, d). calls_if (hc_handler c) (CallRecv (hc_connID c) d (clock i))) xs) =
      map (\<lambda>(i, d). CallRecv (hc_connID c) d (clock i)) xs" for xs using assms(7) by (induction xs) (auto simp: calls_if_def)
  have "\<exists>j. hc_calls (HTTP1Client_readStream clock (Some (200, take n (stream_body (hub_store (hp_hub s') ! p)))) c) =
            hc_calls c @ map (\<lambda>(i, d). CallRecv (hc_connID c) d (clock i)) (enumerate 0 (take j ms)) \<and>
          (length (stream_body (hub_store (hp_hub s') ! p)) \<le> n \<longrightarrow> j = length ms)" for n
  proof -
    obtain j where "fst (read_messages (take n (concat (map len_prefixed ms)))) = take j ms" "length (concat (map len_prefixed ms)) \<le> n \<longrightarrow> j = length ms"
      using read_prefix [OF fit] by blast
    then show ?thesis unfolding body by (intro exI [of _ j]) (simp add: HTTP1Client_readStream_def http_readStream_def one)
  qed
  then show ?thesis using s'(1,3,4) by blast
qed

definition http_sample_cfg :: TransportConfig where
  "http_sample_cfg = \<lparr>cfg_ListenAddr = '':1'', cfg_TLSCertDir = [], cfg_MaxConnections = 0, cfg_ReadBufSize = 0, cfg_WriteBufSize = 0,
     cfg_WriteTimeout = 0, cfg_ReadTimeout = 0, cfg_OnRecv = True, cfg_OnConnect = True, cfg_OnDisconnect = True\<rparr>"

definition http_sample :: http_server where
  "http_sample = snd (http_handleStream True ''a'' True (snd (http_Start 1 True (NewHTTP1Server http_sample_cfg))))"

lemma http_sample:
  "hub_streams (hp_hub http_sample) = [(''a'', 0)]" "hub_store (hp_hub http_sample) = [new_stream ''a'']" "IsStarted (hp_base http_sample)"
  "hp_seq http_sample = 0" "hp_connCount http_sample = 1"
  by (simp_all add: http_sample_def http_handleStream_def http_Start_def NewHTTP1Server_def http_New_def hub_open_def empty_hub_def sm_Store_def
      IsStarted_def MarkStarted_def zero_BaseTransport_def SetProtocol_def)

lemma http_sample_live: "hub_live 0 (hp_hub http_sample)"
  by (simp add: hub_live_def hub_wf_def http_sample sm_Load_def new_stream_def)

theorem http1_broadcasts_reach_client_witness:
  "\<exists>s'. run_opt (http_step http1StreamChanCap rev) http_sample
       ([Casts 5 [1], Turns (Some None) 0, SendsTo ''a'' [7]] @ replicate http1StreamChanCap (Turns (Some None) 0)) = Some s' \<and>
     hc_calls (HTTP1Client_readStream (\<lambda>i. 9) (Some (200, take (length (stream_body (hub_store (hp_hub s') ! 0))) (stream_body (hub_store (hp_hub s') ! 0))))
        (NewHTTP1Client ''h'' True)) = [CallRecv [] (frame_bytes 1 5 [1]) 9, CallRecv [] [7] 9]"
proof -
  let ?es = "[Casts 5 [1], Turns (Some None) 0, SendsTo ''a'' [7]]"
  have off: "hub_offered (http_step http1StreamChanCap rev) (http_offer 0) http_sample ?es = [frame_bytes 1 5 [1], [7]]"
    and ok: "hub_run_ok (http_step http1StreamChanCap rev) (http_stream_ok 0) http_sample ?es"
    by (simp_all add: http_offer_def http_stream_ok_def http_acts_def http_exists_def hub_act_def hub_ok_def http_sample http_Broadcast_def http_handler_turn_def
        hub_write_def sm_values_def hub_offer_eq new_stream_def http1StreamChanCap_def try_recv_def hub_put_def Let_def)
  have "\<forall>m \<in> set (hub_offered (http_step http1StreamChanCap rev) (http_offer 0) http_sample ?es). fits m" unfolding off by (simp add: fits_def frame_bytes_def)
  from http1_broadcasts_reach_client [OF range_order_rev http_sample_live _ _ ok this, of "NewHTTP1Client ''h'' True" "\<lambda>i. 9"]
  show ?thesis unfolding off by (fastforce simp: http_sample new_stream_def NewHTTP1Client_def http_NewClient_def http1StreamChanCap_def)
qed

text \<open>Running handlers, one by one.\<close>

lemma running_open: "hub_running (hub_open cid h) = Suc (hub_running h)"
  by (simp add: hub_running_def hub_open_def new_stream_def)

lemma running_leave_put:
  assumes "p < length (hub_store h)" and "\<not> hs_returned (hub_store h ! p)"
  shows "word_of_nat (hub_running h) - 1 = (word_of_nat (hub_running (hub_leave p (hub_put p st h))) :: i64)"
proof -
  let ?xs = "hub_store h" and ?y = "st\<lparr>hs_cancelled := True, hs_returned := True\<rparr>"
  have "?xs = take p ?xs @ ?xs ! p # drop (Suc p) ?xs" using assms(1) by (rule id_take_nth_drop)
  then have "hub_running h = length (filter (\<lambda>st. \<not> hs_returned st) (take p ?xs @ ?xs ! p # drop (Suc p) ?xs))" by (simp add: hub_running_def)
  moreover have "hub_store (hub_leave p (hub_put p st h)) = ?xs[p := ?y]" using assms(1) by (simp add: hub_leave_def hub_put_def Let_def)
  then have "hub_store (hub_leave p (hub_put p st h)) = take p ?xs @ ?y # drop (Suc p) ?xs"
    using upd_conv_take_nth_drop [OF assms(1), of ?y] by simp
  ultimately show ?thesis using assms(2) by (simp add: hub_running_def)
qed

definition http_wf :: "http_server \<Rightarrow> bool" where
  "http_wf s \<longleftrightarrow> hub_wf (hp_hub s) \<and> hp_connCount s = of_nat (hub_running (hp_hub s))"

lemma http_step_wf:
  assumes "http_wf s" and "range_order ord" and "http_exists s e"
  shows "\<exists>s'. http_step cp ord s e = Some s' \<and> http_wf s'"
proof -
  have w: "hub_wf (hp_hub s)" and c: "hp_connCount s = of_nat (hub_running (hp_hub s))" using assms(1) by (simp_all add: http_wf_def)
  obtain s' where s': "http_step cp ord s e = Some s'" using http.step_total [OF w assms(2,3)] by blast
  have h: "hp_hub s' = (case http_acts s e of None \<Rightarrow> hp_hub s | Some a \<Rightarrow> hub_step cp ord (hp_hub s) a)" by (rule http.step_hub [OF w assms(2,3) s'])
  have w': "hub_wf (hp_hub s')" by (rule http.step_keeps [OF w assms(2,3) s'])
  have same: "hub_running (hub_step cp ord (hp_hub s) a) = hub_running (hp_hub s)"
    if "hub_same (hp_hub s) (hub_step cp ord (hp_hub s) a)" for a using that by (rule hub_same_running)
  have "hp_connCount s' = of_nat (hub_running (hp_hub s'))"
  proof (cases e)
    case (Turns pk p)
    have p: "p < length (hub_store (hp_hub s))" using assms(3) Turns by (simp add: http_exists_def)
    consider "hs_returned (hub_store (hp_hub s) ! p)" | "\<not> hs_returned (hub_store (hp_hub s) ! p)" "pk = None"
      | "\<not> hs_returned (hub_store (hp_hub s) ! p)" "pk = Some None" | k where "\<not> hs_returned (hub_store (hp_hub s) ! p)" "pk = Some (Some k)"
      by (cases pk; cases "the pk") auto
    then show ?thesis
    proof cases
      case 1
      then show ?thesis using s' Turns p c by (simp add: http_handler_turn_def)
    next
      case 2
      have "word_of_nat (hub_running (hp_hub s)) - 1 = (word_of_nat (hub_running (hub_leave p (hp_hub s))) :: i64)"
        using running_leave_put [OF p 2(1), of "hub_store (hp_hub s) ! p"] by (simp add: hub_put_def)
      then show ?thesis using 2 s' Turns p c by (auto simp: http_handler_turn_def http_left_def)
    next
      case 3
      then have "hp_hub s' = hub_step cp ord (hp_hub s) (HWrite None p)" using h Turns by (simp add: http_acts_def)
      moreover have "hub_running (hub_step cp ord (hp_hub s) (HWrite None p)) = hub_running (hp_hub s)"
        by (rule same [OF hub_same_steps(5) [OF w assms(2)]])
      moreover have "hp_connCount s' = hp_connCount s"
        using 3 s' Turns p by (auto simp: http_handler_turn_def split: option.splits)
      ultimately show ?thesis using c by simp
    next
      case (4 k)
      show ?thesis
      proof (cases "hs_ch (hub_store (hp_hub s) ! p)")
        case Nil
        then show ?thesis using 4 s' Turns p c by (simp add: http_handler_turn_def hub_write_def try_recv_def)
      next
        case (Cons d ch)
        then show ?thesis using 4 s' Turns p c running_leave_put [OF p 4(1), of "(hub_store (hp_hub s) ! p)\<lparr>hs_ch := ch, hs_cut := Some (d, k)\<rparr>"]
          by (auto simp: http_handler_turn_def http_left_def hub_write_def try_recv_def Let_def)
      qed
    qed
  next
    case (Casts now d)
    have "hp_connCount s' = hp_connCount s" using s' Casts by (auto simp: http_Broadcast_def Let_def split: if_splits)
    moreover have "hub_running (hp_hub s') = hub_running (hp_hub s)"
      using h Casts same [OF hub_same_steps(1) [OF w assms(2), of cp "frame_bytes (hp_seq s + 1) now d"]] by (simp add: http_acts_def)
    ultimately show ?thesis using c by simp
  next
    case (SendsTo cid d)
    have "hp_connCount s' = hp_connCount s" using s' SendsTo by (auto simp: http_Send_def split: option.splits prod.splits)
    then show ?thesis using c h same [OF hub_same_steps(2) [OF w assms(2)]] SendsTo by (simp add: http_acts_def)
  next
    case (Stops ok)
    then show ?thesis using s' c h same [OF hub_same_steps(3) [OF w assms(2)]] by (auto simp: http_Stop_def http_acts_def)
  next
    case (Goes p)
    then show ?thesis using s' c h same [OF hub_same_steps(4) [OF w assms(2)]] by (auto simp: http_gone_def http_acts_def)
  next
    case (Opens get cid flusher)
    then show ?thesis using s' c by (auto simp: http_handleStream_def running_open)
  next
    case (Starts now l)
    then show ?thesis using s' c by (auto simp: http_Start_def)
  next
    case (Posts cid t body)
    then show ?thesis using s' c by (auto simp: http_handleInbound_def Let_def split: option.splits)
  qed
  then show ?thesis using s' w' by (auto simp: http_wf_def)
qed

text \<open>A run in which every handler that takes a turn exists. Nothing is asked of the outcome of the steps.\<close>

fun http_existing :: "nat \<Rightarrow> hub_order \<Rightarrow> http_server \<Rightarrow> http_action list \<Rightarrow> bool" where
  "http_existing cp ord s [] = True"
| "http_existing cp ord s (e # es) = (http_exists s e \<and> (case http_step cp ord s e of None \<Rightarrow> True | Some s' \<Rightarrow> http_existing cp ord s' es))"

text \<open>Property C33. Whatever the requests, handlers and callers of a new server do and in whichever order, no step panics, and between any two steps
  \<open>Connections\<close> is the number of stream handlers that run, as long as there are fewer than \<open>2 ^ 63\<close>.\<close>

theorem http_connections_exact:
  assumes "range_order ord" and "http_existing cp ord (http_New protocol cfg) es"
  shows "\<exists>s. run_opt (http_step cp ord) (http_New protocol cfg) es = Some s \<and> hub_wf (hp_hub s) \<and>
     (hub_running (hp_hub s) < 2 ^ 63 \<longrightarrow> http_Connections s = int (hub_running (hp_hub s)))"
proof -
  have run: "\<exists>s'. run_opt (http_step cp ord) s es = Some s' \<and> http_wf s'" if "http_wf s" "http_existing cp ord s es" for s
    using that
  proof (induction es arbitrary: s)
    case (Cons e es)
    obtain s1 where "http_step cp ord s e = Some s1" "http_wf s1" using http_step_wf [OF Cons.prems(1) assms(1), of e cp] Cons.prems(2) by auto
    then show ?case using Cons.IH [of s1] Cons.prems(2) by simp
  qed simp
  have "http_wf (http_New protocol cfg)" using hub_wf_empty by (simp add: http_wf_def http_New_def hub_running_def empty_hub_def)
  from run [OF this assms(2)] show ?thesis
    by (auto simp: http_wf_def http_Connections_def signed_of_nat signed_take_bit_int_eq_self_iff)
qed

theorem http_connections_exact_witness:
  "\<exists>s. run_opt (http_step http2StreamChanCap rev) (NewHTTP2Server http_sample_cfg) [Starts 1 True, Opens True ''a'' True, Opens True ''a'' True, Goes 0, Turns None 0] = Some s \<and>
     http_Connections s = 1"
proof -
  let ?es = "[Starts 1 True, Opens True ''a'' True, Opens True ''a'' True, Goes 0, Turns None 0]"
  have "http_existing http2StreamChanCap rev (http_New ''http/2'' http_sample_cfg) ?es"
    by (simp add: http_exists_def http_Start_def http_handleStream_def http_gone_def hub_gone_def hub_open_def empty_hub_def http_New_def
        http_handler_turn_def Let_def split: option.splits)
  from http_connections_exact [OF range_order_rev this]
  show ?thesis unfolding NewHTTP2Server_def
    by (auto simp: http_Start_def http_New_def IsStarted_def zero_BaseTransport_def SetProtocol_def http_handleStream_def hub_open_def empty_hub_def http_gone_def
        hub_gone_def hub_put_def new_stream_def http_handler_turn_def http_left_def hub_leave_def hub_running_def Let_def)
qed

text \<open>Property C34. Two streams under one identifier: when the handler of the older one returns, its deferred function deletes the entry of the newer one.
  The newer handler runs on and is counted as a connection, but no broadcast reaches it and \<open>Send\<close> does not find it.\<close>

theorem http_duplicate_id_orphans_stream:
  assumes "hub_wf (hp_hub s)" and "cid \<noteq> []" and "sm_Load (hub_streams (hp_hub s)) cid = Some p" and "hs_cancelled (hub_store (hp_hub s) ! p)"
    and "range_order ord" and "q = length (hub_store (hp_hub s))"
  shows "\<exists>s'. run_opt (http_step cp ord) s [Opens True cid True, Turns None p] = Some s' \<and> \<not> hs_returned (hub_store (hp_hub s') ! q) \<and>
     hp_connCount s' = hp_connCount s \<and> fst (http_Send cp cid d s') = Inl (HttpErr ErrClientNotFound) \<and>
     (\<forall>now d. \<exists>s''. http_step cp ord s' (Casts now d) = Some s'' \<and> hs_ch (hub_store (hp_hub s'') ! q) = [])"
proof -
  have p: "p < q" "hs_id (hub_store (hp_hub s) ! p) = cid" "\<not> hs_returned (hub_store (hp_hub s) ! p)" using hub_wf_get [OF assms(1,3)] assms(6) by auto
  let ?h1 = "hub_open cid (hp_hub s)"
  let ?h = "hub_leave p ?h1"
  have st: "hub_store ?h1 ! p = hub_store (hp_hub s) ! p" using p(1) assms(6) by (simp add: hub_open_def nth_append)
  have wf: "hub_wf ?h" using hub_wf_leave hub_wf_open assms(1) by blast
  have gone: "sm_Load (hub_streams ?h) cid = None" using st p(2) by (simp add: hub_leave_simps sync_map)
  have q: "hub_store ?h ! q = new_stream cid" "q < length (hub_store ?h)" using p(1) assms(6) by (simp_all add: hub_leave_simps hub_open_def nth_append)
  obtain s' where s': "run_opt (http_step cp ord) s [Opens True cid True, Turns None p] = Some s'" "hp_hub s' = ?h" "hp_connCount s' = hp_connCount s"
    using assms(2,4) p st assms(6)
    by (simp add: http_handleStream_def http_handler_turn_def http_left_def hub_open_def Let_def)
  have "q \<notin> set (sm_values ord (hub_streams ?h))" using hub_values(1) [OF wf assms(5)] q gone by (simp add: new_stream_def)
  then have "hs_ch (hub_store (fst (hub_offer_all cp m (sm_values ord (hub_streams ?h)) ?h)) ! q) = []" for m
    using hub_offer_all_eq [OF hub_values(2) [OF wf assms(5)], of cp m ?h] q by (simp add: new_stream_def)
  then have "\<exists>s''. http_step cp ord s' (Casts now e) = Some s'' \<and> hs_ch (hub_store (hp_hub s'') ! q) = []" for now e
    using q by (simp add: http_Broadcast_def s'(2) Let_def new_stream_def)
  then show ?thesis using s' gone q by (auto simp: http_Send_def new_stream_def)
qed

theorem http_duplicate_id_orphans_stream_witness:
  "\<exists>s'. run_opt (http_step http1StreamChanCap rev) (http_gone 0 http_sample) [Opens True ''a'' True, Turns None 0] = Some s' \<and>
     \<not> hs_returned (hub_store (hp_hub s') ! 1) \<and> hp_connCount s' = 1 \<and> fst (http_Send http1StreamChanCap ''a'' [3] s') = Inl (HttpErr ErrClientNotFound)"
proof -
  let ?s = "http_gone 0 http_sample"
  have h: "hp_hub ?s = hub_gone 0 (hp_hub http_sample)" "hp_connCount ?s = 1" by (simp_all add: http_gone_def http_sample)
  have "hub_wf (hp_hub ?s)" "sm_Load (hub_streams (hp_hub ?s)) ''a'' = Some 0" "hs_cancelled (hub_store (hp_hub ?s) ! 0)" "length (hub_store (hp_hub ?s)) = 1"
    by (simp_all add: h hub_wf_def hub_gone_def http_sample sm_Load_def new_stream_def)
  then show ?thesis using http_duplicate_id_orphans_stream [of ?s "''a''" 0 rev 1 http1StreamChanCap "[3]"] h(2) by auto
qed

text \<open>The client ends its stream at a message it does not accept: an empty one, which \<open>Send\<close> queues like any other, or one of more than
  a mebibyte. What the server writes after it is never delivered, and nothing reconnects the client.\<close>

lemma http_bad_message_ends_stream:
  assumes "\<forall>m \<in> set ms. fits m" and "\<not> fits bad" and "length bad < 2 ^ 32"
  shows "hc_calls (HTTP1Client_readStream clock (Some (200, concat (map len_prefixed (ms @ bad # rest)))) c) =
     hc_calls (HTTP1Client_readStream clock (Some (200, concat (map len_prefixed ms))) c)"
proof -
  have bad: "fst (read_messages (len_prefixed bad @ ys)) = []" for ys
    using assms(2,3) by (subst read_messages.simps) (auto simp: len_prefixed_def fits_def Let_def unat_of_nat)
  have "fst (read_messages (concat (map len_prefixed ms) @ len_prefixed bad @ ys)) = ms" for ys
    using assms(1) by (induction ms) (simp_all add: read_message bad)
  moreover have "fst (read_messages (concat (map len_prefixed ms))) = ms"
    using assms(1) by (induction ms) (simp_all add: read_message, simp add: read_messages.simps)
  ultimately show ?thesis by (simp add: HTTP1Client_readStream_def http_readStream_def)
qed

end
