(* ===== verification/Http3.thy ===== *)
theory Http3
  imports Http Reception
begin

text \<open>
  The HTTP/3 transport of \<^verbatim>\<open>internal/http3\<close>: a server with three broadcast modes, whose stream mode is a hub, and the
  client that reconnects with exponential backoff. The QUIC library is the environment: whether certificates can be made,
  datagrams and streams be sent, requests be answered. A goroutine that \<open>Broadcast\<close> spawns is a pending task. The client's
  read loop takes the payload from the stream and leaves out the buffer it is copied through, which grows to the announced length first. \<open>None\<close> is a
  panic or a call that never returns.
\<close>

section \<open>The server\<close>

definition h3WriteChanCap :: nat where "h3WriteChanCap = 256"
definition h3LenBytes :: nat where "h3LenBytes = 4"

definition prependLen :: "bytes \<Rightarrow> bytes option" where
  "prependLen frame = do {
     let out = replicate (h3LenBytes + length frame) 0;
     out \<leftarrow> put_at out 0 (be_bytes 4 (of_nat (length frame) :: u32));
     copy_at out h3LenBytes frame
   }"

record quicConn =
  qc_id :: ConnID
  qc_stream :: bool           \<comment> \<open>whether its unidirectional stream is open\<close>
  qc_out :: "bytes list"      \<comment> \<open>datagrams and stream writes\<close>

record 'h HTTP3Server =
  h3_base :: BaseTransport
  h3_addr :: string
  h3_Mode :: string
  h3_metrics :: "'h Recorder option"
  h3_hub :: hub
  h3_quicConns :: "(ConnID, nat) syncmap"
  h3_quicStore :: "quicConn list"
  h3_seq :: u64
  h3_lost :: u64
  h3_connCounter :: u64
  h3_done :: bool             \<comment> \<open>closed\<close>
  h3_serving :: bool
  h3_onRecv :: bool
  h3_tasks :: "(nat \<times> bytes \<times> u64 \<times> nat) list"   \<comment> \<open>goroutines running \<open>sendUniStream\<close>\<close>

datatype h3_error = H3Err transportError | H3Cert | H3Full ConnID

type_synonym 'h ServerOption = "'h HTTP3Server \<Rightarrow> 'h HTTP3Server"

definition WithRecorder :: "'h Recorder \<Rightarrow> 'h ServerOption" where "WithRecorder r s = s\<lparr>h3_metrics := Some r\<rparr>"
definition WithRecvHandler :: "'h ServerOption" where "WithRecvHandler s = s\<lparr>h3_onRecv := True\<rparr>"
definition WithMode :: "string \<Rightarrow> 'h ServerOption" where "WithMode m s = s\<lparr>h3_Mode := m\<rparr>"

definition default_recorder :: "'h hdr_lib \<Rightarrow> string \<Rightarrow> i64 \<Rightarrow> 'h Recorder option" where
  "default_recorder lib lbl now =
     NewRecorder lib \<lparr>cfg_Label = lbl, cfg_Protocol = ''http3'', cfg_Scenario = ''default'', cfg_SequenceWindowSize = 0, cfg_SampleInterval = 0\<rparr> now"

definition NewHTTP3Server :: "'h hdr_lib \<Rightarrow> i64 \<Rightarrow> string \<Rightarrow> 'h ServerOption list \<Rightarrow> 'h HTTP3Server option" where
  "NewHTTP3Server lib now addr opts = do {
     let s = \<lparr>h3_base = SetProtocol zero_BaseTransport ''http3'', h3_addr = addr, h3_Mode = ''stream'', h3_metrics = None, h3_hub = empty_hub,
              h3_quicConns = [], h3_quicStore = [], h3_seq = 0, h3_lost = 0, h3_connCounter = 0, h3_done = False, h3_serving = False,
              h3_onRecv = False, h3_tasks = []\<rparr>;
     let s = fold (\<lambda>f s. f s) opts s;
     case h3_metrics s of
       Some r \<Rightarrow> Some s
     | None \<Rightarrow> do { r \<leftarrow> default_recorder lib ''http3/server'' now; Some (s\<lparr>h3_metrics := Some r\<rparr>) } }"

definition H3_Start :: "bool \<Rightarrow> bool \<Rightarrow> i64 \<Rightarrow> rat \<Rightarrow> cpuTime \<Rightarrow> 'h HTTP3Server \<Rightarrow> ((h3_error + unit) \<times> 'h HTTP3Server) option" where
  "H3_Start certs listens now wall cpu s =
     (if IsStarted (h3_base s) then Some (Inl (H3Err ErrAlreadyStarted), s)
      else if \<not> certs then Some (Inl H3Cert, s)
      else do {
        m \<leftarrow> h3_metrics s;
        Some (Inr (), s\<lparr>h3_done := False, h3_base := MarkStarted (h3_base s) now, h3_metrics := Some (Recorder_Start m now wall cpu),
                        h3_serving := listens\<rparr>) })"

definition H3_Stop :: "hub_order \<Rightarrow> 'h HTTP3Server \<Rightarrow> ((h3_error + unit) \<times> 'h HTTP3Server) option" where
  "H3_Stop ord s =
     (if \<not> IsStarted (h3_base s) then Some (Inl (H3Err ErrNotStarted), s)
      else if h3_done s then None
      else do {
        m \<leftarrow> h3_metrics s;
        m \<leftarrow> (case Recorder_Stop m of None \<Rightarrow> None | Some m \<Rightarrow> m);
        Some (Inr (), s\<lparr>h3_done := True, h3_serving := False, h3_hub := hub_cancel_all ord (h3_hub s), h3_metrics := Some m,
                        h3_base := MarkStopped (h3_base s)\<rparr>) })"

text \<open>What a broadcast records: one send per message accepted, one loss per message dropped.\<close>

definition record_offers :: "u64 \<Rightarrow> nat \<Rightarrow> bool list \<Rightarrow> 'h HTTP3Server \<Rightarrow> 'h HTTP3Server option" where
  "record_offers seq sz oks s = do {
     m \<leftarrow> h3_metrics s;
     Some (s\<lparr>h3_metrics := Some (fold (\<lambda>ok m. if ok then RecordSend m seq sz else m) oks m),
             h3_lost := h3_lost s + of_nat (length (filter Not oks))\<rparr>) }"

text \<open>A datagram to each connection; \<open>dg\<close> says which connections take it.\<close>

definition send_datagrams :: "(nat \<Rightarrow> bool) \<Rightarrow> bytes \<Rightarrow> nat list \<Rightarrow> quicConn list \<Rightarrow> quicConn list" where
  "send_datagrams dg frame ps cs = fold (\<lambda>p cs. if dg p then cs[p := (cs ! p)\<lparr>qc_out := qc_out (cs ! p) @ [frame]\<rparr>] else cs) ps cs"

definition H3_Broadcast :: "hub_order \<Rightarrow> (nat \<Rightarrow> bool) \<Rightarrow> i64 \<Rightarrow> bytes \<Rightarrow> 'h HTTP3Server \<Rightarrow> 'h HTTP3Server option" where
  \<comment> \<open>the error is always nil\<close>
  "H3_Broadcast ord dg now data s = do {
     let seq = h3_seq s + 1;
     let s = s\<lparr>h3_seq := seq\<rparr>;
     frame \<leftarrow> Encode seq now data;
     let sz = length frame;
     if h3_Mode s = ''stream'' then do {
       framed \<leftarrow> prependLen frame;
       let (h, oks) = hub_offer_all h3WriteChanCap framed (sm_values ord (hub_streams (h3_hub s))) (h3_hub s);
       record_offers seq sz oks (s\<lparr>h3_hub := h\<rparr>) }
     else if h3_Mode s = ''datagram'' then
       let ps = sm_values ord (h3_quicConns s) in
       record_offers seq sz (map dg ps) (s\<lparr>h3_quicStore := send_datagrams dg frame ps (h3_quicStore s)\<rparr>)
     else if h3_Mode s = ''unidirstream'' then
       Some (s\<lparr>h3_tasks := h3_tasks s @ map (\<lambda>p. (p, frame, seq, sz)) (sm_values ord (h3_quicConns s))\<rparr>)
     else Some s }"

text \<open>The first task runs, when there is one.\<close>

definition sendUniStream :: "bool \<Rightarrow> bool \<Rightarrow> 'h HTTP3Server \<Rightarrow> 'h HTTP3Server option" where
  "sendUniStream opens writes s = (case h3_tasks s of
     [] \<Rightarrow> Some s
   | (p, frame, seq, sz) # ts \<Rightarrow>
       let s = s\<lparr>h3_tasks := ts\<rparr>; qc = h3_quicStore s ! p in
       if \<not> qc_stream qc \<and> \<not> opens then Some (s\<lparr>h3_lost := h3_lost s + 1\<rparr>)
       else do {
         framed \<leftarrow> prependLen frame;
         if \<not> writes then Some (s\<lparr>h3_quicStore := (h3_quicStore s)[p := qc\<lparr>qc_stream := False\<rparr>], h3_lost := h3_lost s + 1\<rparr>)
         else record_offers seq sz [True] (s\<lparr>h3_quicStore := (h3_quicStore s)[p := qc\<lparr>qc_stream := True, qc_out := qc_out qc @ [framed]\<rparr>]\<rparr>) })"

definition H3_Send :: "ConnID \<Rightarrow> i64 \<Rightarrow> bytes \<Rightarrow> 'h HTTP3Server \<Rightarrow> ((h3_error + unit) \<times> 'h HTTP3Server) option" where
  "H3_Send cid now data s = do {
     let seq = h3_seq s + 1;
     let s = s\<lparr>h3_seq := seq\<rparr>;
     frame \<leftarrow> Encode seq now data;
     case sm_Load (hub_streams (h3_hub s)) cid of
       None \<Rightarrow> Some (Inl (H3Err ErrClientNotFound), s)
     | Some p \<Rightarrow> do {
         framed \<leftarrow> prependLen frame;
         let (h, ok) = hub_offer h3WriteChanCap framed p (h3_hub s);
         s \<leftarrow> record_offers seq (length framed) [ok] (s\<lparr>h3_hub := h\<rparr>);
         Some (if ok then Inr () else Inl (H3Full cid), s) } }"

definition H3_Connections :: "hub_order \<Rightarrow> 'h HTTP3Server \<Rightarrow> nat" where
  "H3_Connections ord s = length (ord (hub_streams (h3_hub s))) + length (ord (h3_quicConns s))"

definition H3_Stats :: "'h hdr_lib \<Rightarrow> 'h Recorder.conn_order \<Rightarrow> hub_order \<Rightarrow> i64 \<Rightarrow> 'h HTTP3Server \<Rightarrow> Stats option" where
  "H3_Stats lib cord ord now s = do {
     m \<leftarrow> h3_metrics s;
     let snap = Recorder_Snapshot lib cord m now;
     Some ((BaseStats (h3_base s) now)\<lparr>st_Connections := int (H3_Connections ord s), st_Sent := rs_MsgSent snap, st_Received := rs_MsgRecv snap,
        st_Lost := Lost (rs_Seq snap) + h3_lost s, st_Duplicated := Duplicated (rs_Seq snap), st_Reordered := Reordered (rs_Seq snap),
        st_BytesSent := rs_BytesSent snap, st_BytesRecv := rs_BytesRecv snap\<rparr>) }"

text \<open>\<open>handleStream\<close> up to its loop, and a turn of the loop. The message is one write; \<open>Some k\<close>: it fails after \<open>k\<close> bytes.\<close>

definition H3_handleStream :: "bool \<Rightarrow> ConnID \<Rightarrow> 'h HTTP3Server \<Rightarrow> nat \<times> 'h HTTP3Server" where
  "H3_handleStream flusher qid s =
     (if \<not> flusher then (500, s)
      else let (cid, s) = (if qid = [] then let n = h3_connCounter s + 1 in (''h3-'' @ dec (unat n), s\<lparr>h3_connCounter := n\<rparr>) else (qid, s))
           in (200, s\<lparr>h3_hub := hub_open cid (h3_hub s)\<rparr>))"

datatype h3_pick = SeesCtx | SeesDone | Takes "nat option"

definition H3_handler_turn :: "h3_pick \<Rightarrow> nat \<Rightarrow> 'h HTTP3Server \<Rightarrow> 'h HTTP3Server option" where
  "H3_handler_turn pk p s =
     (if p < length (hub_store (h3_hub s)) then
        let st = hub_store (h3_hub s) ! p in
        if hs_returned st then Some s
        else case pk of
          SeesCtx \<Rightarrow> Some (if hs_cancelled st then s\<lparr>h3_hub := hub_leave p (h3_hub s)\<rparr> else s)
        | SeesDone \<Rightarrow> Some (if h3_done s then s\<lparr>h3_hub := hub_leave p (h3_hub s)\<rparr> else s)
        | Takes r \<Rightarrow> (case hub_write r p (h3_hub s) of None \<Rightarrow> Some s | Some (data, h) \<Rightarrow> Some (s\<lparr>h3_hub := h\<rparr>))
      else None)"

text \<open>The body of a stream's response.\<close>

definition h3_body :: "hstream \<Rightarrow> bytes" where
  "h3_body st = concat (hs_msgs st) @ (case hs_cut st of None \<Rightarrow> [] | Some (data, k) \<Rightarrow> take k data)"

datatype h3_action =
    Starts bool bool i64 rat cpuTime
  | Stops
  | Opens bool ConnID
  | Turns h3_pick nat
  | Goes nat
  | Casts "nat \<Rightarrow> bool" i64 bytes
  | SendsTo ConnID i64 bytes
  | Tasks bool bool

fun h3_step :: "hub_order \<Rightarrow> 'h HTTP3Server \<Rightarrow> h3_action \<Rightarrow> 'h HTTP3Server option" where
  "h3_step ord s (Starts certs listens now wall cpu) = map_option snd (H3_Start certs listens now wall cpu s)"
| "h3_step ord s Stops = map_option snd (H3_Stop ord s)"
| "h3_step ord s (Opens flusher qid) = Some (snd (H3_handleStream flusher qid s))"
| "h3_step ord s (Turns pk p) = H3_handler_turn pk p s"
| "h3_step ord s (Goes p) = Some (s\<lparr>h3_hub := hub_gone p (h3_hub s)\<rparr>)"
| "h3_step ord s (Casts dg now d) = H3_Broadcast ord dg now d s"
| "h3_step ord s (SendsTo cid now d) = map_option snd (H3_Send cid now d s)"
| "h3_step ord s (Tasks opens writes) = sendUniStream opens writes s"

section \<open>The client\<close>

definition h3ClientInitialBackoff :: nat where "h3ClientInitialBackoff = 100 * 10 ^ 6"
definition h3ClientMaxBackoff :: nat where "h3ClientMaxBackoff = 30 * 10 ^ 9"
definition h3ClientReadBuf :: nat where "h3ClientReadBuf = 65536"

record 'h HTTP3Client =
  c3_base :: BaseTransport
  c3_serverAddr :: string
  c3_clientID :: string
  c3_Mode :: string
  c3_metrics :: "'h Recorder option"
  c3_onRecv :: bool
  c3_lost :: u64
  c3_cancelled :: bool
  c3_calls :: "handler_call list"

type_synonym 'h ClientOption = "'h HTTP3Client \<Rightarrow> 'h HTTP3Client"

definition WithClientRecorder :: "'h Recorder \<Rightarrow> 'h ClientOption" where "WithClientRecorder r c = c\<lparr>c3_metrics := Some r\<rparr>"
definition WithClientRecvHandler :: "'h ClientOption" where "WithClientRecvHandler c = c\<lparr>c3_onRecv := True\<rparr>"
definition WithClientMode :: "string \<Rightarrow> 'h ClientOption" where "WithClientMode m c = c\<lparr>c3_Mode := m\<rparr>"
definition WithClientID :: "string \<Rightarrow> 'h ClientOption" where "WithClientID cid c = c\<lparr>c3_clientID := cid\<rparr>"

text \<open>A client without an identifier is named after the clock (nanoseconds since 1970, which are not negative here).\<close>

definition NewHTTP3Client :: "'h hdr_lib \<Rightarrow> i64 \<Rightarrow> string \<Rightarrow> 'h ClientOption list \<Rightarrow> 'h HTTP3Client option" where
  "NewHTTP3Client lib now addr opts = do {
     let c = \<lparr>c3_base = SetProtocol zero_BaseTransport ''http3-client'', c3_serverAddr = addr, c3_clientID = [], c3_Mode = ''stream'',
              c3_metrics = None, c3_onRecv = False, c3_lost = 0, c3_cancelled = False, c3_calls = []\<rparr>;
     let c = fold (\<lambda>f c. f c) opts c;
     c \<leftarrow> (case c3_metrics c of
            Some r \<Rightarrow> Some c
          | None \<Rightarrow> do { r \<leftarrow> default_recorder lib ''http3/client'' now; Some (c\<lparr>c3_metrics := Some r\<rparr>) });
     Some (if c3_clientID c = [] then c\<lparr>c3_clientID := ''client-'' @ dec (unat now)\<rparr> else c) }"

definition C3_Start :: "i64 \<Rightarrow> rat \<Rightarrow> cpuTime \<Rightarrow> 'h HTTP3Client \<Rightarrow> ((h3_error + unit) \<times> 'h HTTP3Client) option" where
  "C3_Start now wall cpu c =
     (if IsStarted (c3_base c) then Some (Inl (H3Err ErrAlreadyStarted), c)
      else do {
        m \<leftarrow> c3_metrics c;
        Some (Inr (), c\<lparr>c3_cancelled := False, c3_base := MarkStarted (c3_base c) now, c3_metrics := Some (Recorder_Start m now wall cpu)\<rparr>) })"

definition C3_Stop :: "'h HTTP3Client \<Rightarrow> ((h3_error + unit) \<times> 'h HTTP3Client) option" where
  "C3_Stop c =
     (if \<not> IsStarted (c3_base c) then Some (Inl (H3Err ErrNotStarted), c)
      else do {
        m \<leftarrow> c3_metrics c;
        m \<leftarrow> (case Recorder_Stop m of None \<Rightarrow> None | Some m \<Rightarrow> m);
        Some (Inr (), c\<lparr>c3_cancelled := True, c3_metrics := Some m, c3_base := MarkStopped (c3_base c)\<rparr>) })"

definition C3_Connections :: "'h HTTP3Client \<Rightarrow> nat" where
  "C3_Connections c = (if IsStarted (c3_base c) then 1 else 0)"

definition C3_Stats :: "'h hdr_lib \<Rightarrow> 'h Recorder.conn_order \<Rightarrow> i64 \<Rightarrow> 'h HTTP3Client \<Rightarrow> Stats option" where
  "C3_Stats lib cord now c = do {
     m \<leftarrow> c3_metrics c;
     let snap = Recorder_Snapshot lib cord m now;
     Some ((BaseStats (c3_base c) now)\<lparr>st_Connections := int (C3_Connections c), st_Received := rs_MsgRecv snap,
        st_Lost := Lost (rs_Seq snap) + c3_lost c, st_BytesRecv := rs_BytesRecv snap\<rparr>) }"

text \<open>\<open>readLoop\<close> on the bytes of a body, of which \<open>stop\<close> iterations begin before the context is seen cancelled; the error is the one returned.\<close>

datatype read_error = ReadEOF | BadFrameLength nat

function readLoop :: "'h hdr_lib \<Rightarrow> (nat \<Rightarrow> i64) \<Rightarrow> nat \<Rightarrow> nat \<Rightarrow> bytes \<Rightarrow> 'h HTTP3Client \<Rightarrow> ('h HTTP3Client \<times> read_error option) option" where
  "readLoop lib clock stop i body c =
     (if i \<ge> stop then Some (c, None)
      else if length body < h3LenBytes then Some (c, Some ReadEOF)
      else let frameLen = unat (be_word (take h3LenBytes body) :: u32); rest = drop h3LenBytes body in
        if frameLen = 0 \<or> frameLen > MaxPayload + HeaderLen then Some (c, Some (BadFrameLength frameLen))
        else if length rest < frameLen then Some (c, Some ReadEOF)
        else let data = take frameLen rest in do {
          d \<leftarrow> Decode data;
          case d of
            Inl err \<Rightarrow> readLoop lib clock stop (Suc i) (drop frameLen rest) c
          | Inr (frame, _) \<Rightarrow> do {
              m \<leftarrow> c3_metrics c;
              m \<leftarrow> RecordRecv lib m (SeqNum frame) (SendNs frame) frameLen (clock i);
              readLoop lib clock stop (Suc i) (drop frameLen rest)
                (c\<lparr>c3_metrics := Some m, c3_calls := c3_calls c @ calls_if (c3_onRecv c) (CallRecv (c3_clientID c) data (clock i))\<rparr>) } })"
  by pat_completeness auto
termination by (relation "measure (\<lambda>(lib, clock, stop, i, body, c). stop - i)") auto

declare readLoop.simps [simp del]

text \<open>The result of a request: no response, or a status and a body.\<close>

definition c3_connect :: "'h hdr_lib \<Rightarrow> (nat \<Rightarrow> i64) \<Rightarrow> nat \<Rightarrow> (nat \<times> bytes) option \<Rightarrow> 'h HTTP3Client \<Rightarrow> ('h HTTP3Client \<times> bool) option" where
  \<comment> \<open>the flag: an error was returned\<close>
  "c3_connect lib clock stop resp c = (case resp of
     None \<Rightarrow> Some (c, True)
   | Some (status, body) \<Rightarrow>
       if status \<noteq> 200 then Some (c, True)
       else map_option (\<lambda>(c, err). (c, err \<noteq> None)) (readLoop lib clock stop 0 body c))"

text \<open>\<open>connectLoop\<close> over the connections made until the context is cancelled: the client and the nanoseconds it waits after each.\<close>

fun connectLoop ::
  "'h hdr_lib \<Rightarrow> nat \<Rightarrow> ((nat \<Rightarrow> i64) \<times> nat \<times> (nat \<times> bytes) option) list \<Rightarrow> 'h HTTP3Client \<Rightarrow> ('h HTTP3Client \<times> nat list) option" where
  "connectLoop lib backoff [] c = Some (c, [])"
| "connectLoop lib backoff ((clock, stop, resp) # xs) c = do {
     (c, err) \<leftarrow> c3_connect lib clock stop resp c;
     if \<not> err then connectLoop lib h3ClientInitialBackoff xs c
     else do {
       let next = (if 2 * backoff > h3ClientMaxBackoff then h3ClientMaxBackoff else 2 * backoff);
       (c, ws) \<leftarrow> connectLoop lib next xs c;
       Some (c, backoff # ws) } }"

section \<open>The server's streams are a hub\<close>

lemma prependLen_eq [simp]: "prependLen frame = Some (len_prefixed frame)"
  by (simp add: prependLen_def len_prefixed_def Let_def h3LenBytes_def slice_ops)

definition h3_acts :: "'h HTTP3Server \<Rightarrow> h3_action \<Rightarrow> hub_action option" where
  "h3_acts s e = (case e of
     Stops \<Rightarrow> if IsStarted (h3_base s) then Some HCancelAll else None
   | Opens flusher qid \<Rightarrow> if flusher then Some (HOpen (if qid = [] then ''h3-'' @ dec (unat (h3_connCounter s + 1)) else qid)) else None
   | Turns pk p \<Rightarrow>
       if hs_returned (hub_store (h3_hub s) ! p) then None
       else (case pk of
         SeesCtx \<Rightarrow> if hs_cancelled (hub_store (h3_hub s) ! p) then Some (HLeave p) else None
       | SeesDone \<Rightarrow> if h3_done s then Some (HLeave p) else None
       | Takes r \<Rightarrow> Some (HWrite r p))
   | Goes p \<Rightarrow> Some (HGone p)
   | Casts dg now d \<Rightarrow> if h3_Mode s = ''stream'' then Some (HOffer (len_prefixed (frame_bytes (h3_seq s + 1) now d))) else None
   | SendsTo cid now d \<Rightarrow> Some (HOfferTo cid (len_prefixed (frame_bytes (h3_seq s + 1) now d)))
   | _ \<Rightarrow> None)"

text \<open>Steps of handlers that exist, and a \<open>Stop\<close> that returns.\<close>

definition h3_exists :: "'h HTTP3Server \<Rightarrow> h3_action \<Rightarrow> bool" where
  "h3_exists s e = (case e of
     Turns pk p \<Rightarrow> p < length (hub_store (h3_hub s))
   | Stops \<Rightarrow> H3_Stop (\<lambda>xs. xs) s \<noteq> None
   | Opens flusher qid \<Rightarrow> True
   | Goes p \<Rightarrow> True
   | _ \<Rightarrow> h3_metrics s \<noteq> None)"

lemma H3_Stop_order: "H3_Stop ord s = None \<longleftrightarrow> H3_Stop (\<lambda>xs. xs) s = None"
  by (simp add: H3_Stop_def bind_eq_None_conv split: option.splits)

interpretation h3: hub_server h3WriteChanCap h3_hub h3_step h3_acts h3_exists
proof unfold_locales
  fix s :: "'h HTTP3Server" and ord e assume w: "hub_wf (h3_hub s)" and ex: "h3_exists s e"
  show "\<exists>s'. h3_step ord s e = Some s'"
    using ex H3_Stop_order [of ord s]
    by (cases e) (auto simp: h3_exists_def H3_Start_def H3_handler_turn_def H3_Broadcast_def H3_Send_def sendUniStream_def record_offers_def Let_def
        split: option.splits h3_pick.splits prod.splits list.splits)
  fix s' assume "h3_step ord s e = Some s'"
  then show "h3_hub s' = (case h3_acts s e of None \<Rightarrow> h3_hub s | Some a \<Rightarrow> hub_step h3WriteChanCap ord (h3_hub s) a)"
    using ex by (cases e)
      (auto simp: h3_acts_def h3_exists_def H3_Start_def H3_Stop_def H3_handleStream_def H3_handler_turn_def H3_Broadcast_def H3_Send_def
         sendUniStream_def record_offers_def Let_def bind_eq_Some_conv split: option.splits h3_pick.splits prod.splits if_splits list.splits)
qed

section \<open>Properties\<close>

definition h3_framed :: "u64 \<times> i64 \<times> bytes \<Rightarrow> bytes" where
  "h3_framed = (\<lambda>(q, ns, d). len_prefixed (frame_bytes q ns d))"

text \<open>The messages a stream is offered: sequence number, time and payload.\<close>

definition h3_logged :: "nat \<Rightarrow> 'h HTTP3Server \<Rightarrow> h3_action \<Rightarrow> (u64 \<times> i64 \<times> bytes) list" where
  "h3_logged p s e = (case e of
     Casts dg now d \<Rightarrow> if h3_Mode s = ''stream'' then [(h3_seq s + 1, now, d)] else []
   | SendsTo cid now d \<Rightarrow> if cid = hs_id (hub_store (h3_hub s) ! p) then [(h3_seq s + 1, now, d)] else []
   | _ \<Rightarrow> [])"

fun h3_log :: "hub_order \<Rightarrow> nat \<Rightarrow> 'h HTTP3Server \<Rightarrow> h3_action list \<Rightarrow> (u64 \<times> i64 \<times> bytes) list" where
  "h3_log ord p s [] = []"
| "h3_log ord p s (e # es) = h3_logged p s e @ (case h3_step ord s e of None \<Rightarrow> [] | Some s' \<Rightarrow> h3_log ord p s' es)"

definition h3_stream_ok :: "nat \<Rightarrow> 'h HTTP3Server \<Rightarrow> h3_action \<Rightarrow> bool" where
  "h3_stream_ok p s e \<longleftrightarrow> h3_exists s e \<and> (case h3_acts s e of None \<Rightarrow> True | Some a \<Rightarrow> hub_ok p (h3_hub s) a)"

lemma h3_stream_ok_eq: "h3.stream_ok = h3_stream_ok"
  by (intro ext) (simp add: h3.stream_ok_def h3_stream_ok_def)

lemma h3_offered_log: "hub_offered (h3_step ord) (h3.stream_act p) s es = map h3_framed (h3_log ord p s es)"
proof (induction es arbitrary: s)
  case (Cons e es)
  have "(case h3.stream_act p s e of Some (Offer m) \<Rightarrow> [m] | _ \<Rightarrow> []) = map h3_framed (h3_logged p s e)"
    by (cases e) (auto simp: h3.stream_act_def h3_acts_def hub_act_def h3_logged_def h3_framed_def split: option.splits h3_pick.splits)
  then show ?case using Cons.IH by (simp split: option.splits)
qed simp

lemma h3_prefix_value:
  "length d \<le> MaxPayload \<Longrightarrow> unat (be_word (be_bytes 4 (of_nat (length (frame_bytes q ns d)) :: u32)) :: u32) = 24 + length d"
  by (simp add: MaxPayload_def unat_of_nat del: of_nat_add)

lemma readLoop_frame:
  assumes "length d \<le> MaxPayload" and "i < stop" and "c3_metrics c = Some m"
  shows "readLoop lib clock stop i (h3_framed (q, ns, d) @ rest) c =
     (case RecordRecv lib m q ns (24 + length d) (clock i) of
        None \<Rightarrow> None
      | Some m' \<Rightarrow> readLoop lib clock stop (Suc i) rest
          (c\<lparr>c3_metrics := Some m', c3_calls := c3_calls c @ calls_if (c3_onRecv c) (CallRecv (c3_clientID c) (frame_bytes q ns d) (clock i))\<rparr>))"
proof -
  have "Decode (frame_bytes q ns d) = Some (Inr (\<lparr>SeqNum = q, SendNs = ns, PayloadLen = of_nat (length d), Payload = d\<rparr>, 24 + length d))"
    using Decode_frame_bytes [of d q ns "[]"] assms(1) by simp
  then show ?thesis using assms h3_prefix_value [OF assms(1), of q ns]
    by (subst readLoop.simps) (simp add: h3_framed_def len_prefixed_def h3LenBytes_def HeaderLen_def Let_def split: option.splits)
qed

lemma readLoop_cut:
  assumes "length d \<le> MaxPayload" and "i < stop" and "n < length (h3_framed (q, ns, d))"
  shows "readLoop lib clock stop i (take n (h3_framed (q, ns, d))) c = Some (c, Some ReadEOF)"
proof (cases "n < 4")
  case False
  then have "take 4 (take n (h3_framed (q, ns, d))) = be_bytes 4 (of_nat (length (frame_bytes q ns d)) :: u32)"
    by (simp add: h3_framed_def len_prefixed_def min_def)
  moreover have "n - 4 < 24 + length d" using assms(3) False by (simp add: h3_framed_def)
  ultimately show ?thesis using False assms h3_prefix_value [OF assms(1), of q ns]
    by (subst readLoop.simps) (simp add: h3_framed_def h3LenBytes_def HeaderLen_def Let_def)
next
  case True
  then have "length (take n (h3_framed (q, ns, d))) < 4" by simp
  then show ?thesis using assms(2) by (simp add: readLoop.simps [of lib clock stop i] h3LenBytes_def)
qed

lemma readLoop_prefix:
  assumes "\<forall>(q, ns, d) \<in> set ms. length d \<le> MaxPayload" and "i + length ms < stop" and "c3_metrics c = Some m" and "wf_rec m" and "c3_onRecv c"
  shows "\<exists>c' j e. readLoop lib clock stop i (take n (concat (map h3_framed ms))) c = Some (c', Some e) \<and>
     c3_calls c' = c3_calls c @ map (\<lambda>(k, q, ns, d). CallRecv (c3_clientID c) (frame_bytes q ns d) (clock k)) (enumerate i (take j ms)) \<and>
     (length (concat (map h3_framed ms)) \<le> n \<longrightarrow> j = length ms)"
  using assms
proof (induction ms arbitrary: n i c m)
  case Nil
  then show ?case by (subst readLoop.simps) (simp add: h3LenBytes_def)
next
  case (Cons x ms)
  obtain q ns d where x: "x = (q, ns, d)" by (cases x)
  have d: "length d \<le> MaxPayload" and i: "i < stop" using Cons.prems by (auto simp: x)
  show ?case
  proof (cases "n < length (h3_framed x)")
    case True
    then show ?thesis using readLoop_cut [OF d i, of n q ns lib clock c] by (intro exI [of _ c] exI [of _ 0] exI [of _ ReadEOF]) (simp add: x)
  next
    case False
    let ?n = "n - length (h3_framed x)"
    obtain m' where m': "RecordRecv lib m q ns (24 + length d) (clock i) = Some m'" "wf_rec m'"
      using RecordRecv_total [OF Cons.prems(4)] by blast
    let ?c = "c\<lparr>c3_metrics := Some m', c3_calls := c3_calls c @ [CallRecv (c3_clientID c) (frame_bytes q ns d) (clock i)]\<rparr>"
    obtain c' j e where c': "readLoop lib clock stop (Suc i) (take ?n (concat (map h3_framed ms))) ?c = Some (c', Some e)"
        "c3_calls c' = c3_calls ?c @ map (\<lambda>(k, q, ns, d). CallRecv (c3_clientID ?c) (frame_bytes q ns d) (clock k)) (enumerate (Suc i) (take j ms))"
        "length (concat (map h3_framed ms)) \<le> ?n \<longrightarrow> j = length ms"
      using Cons.IH [of "Suc i" ?c m' ?n] Cons.prems m'(2) by auto
    have "take n (concat (map h3_framed (x # ms))) = h3_framed (q, ns, d) @ take ?n (concat (map h3_framed ms))" using False by (simp add: x)
    then show ?thesis using c' m'(1) readLoop_frame [OF d i Cons.prems(3), of lib clock q ns] Cons.prems(5) False
      by (intro exI [of _ c'] exI [of _ "Suc j"] exI [of _ e]) (auto simp: calls_if_def x)
  qed
qed

text \<open>Property C35. In stream mode the broadcasts of an HTTP/3 server reach the client that streams from it, whatever the server's goroutines do
  meanwhile: on a stream nothing was written to yet, whose handler meets no write error and whose identifier no other stream takes, 256 more turns
  of the handler write the accepted messages, each once and in order, all of them when there were at most 256; and a client that sees any prefix
  of the response hands its handler the frames of a prefix of them, all when it sees the whole response.\<close>

theorem h3_broadcasts_reach_client:
  assumes "range_order ord" and "hub_live p (h3_hub s)" and "hs_ch (hub_store (h3_hub s) ! p) = []" and "hs_msgs (hub_store (h3_hub s) ! p) = []"
    and "hub_run_ok (h3_step ord) (h3_stream_ok p) s es"
    and "\<forall>(q, ns, d) \<in> set (h3_log ord p s es). length d \<le> MaxPayload"
    and "c3_metrics c = Some m" and "wf_rec m" and "c3_onRecv c" and "length (h3_log ord p s es) < stop"
  shows "\<exists>s' ms. run_opt (h3_step ord) s (es @ replicate h3WriteChanCap (Turns (Takes None) p)) = Some s' \<and>
     subseq ms (h3_log ord p s es) \<and> (length (h3_log ord p s es) \<le> h3WriteChanCap \<longrightarrow> ms = h3_log ord p s es) \<and>
     (\<forall>n. \<exists>c' j. c3_connect lib clock stop (Some (200, take n (h3_body (hub_store (h3_hub s') ! p)))) c = Some (c', True) \<and>
        c3_calls c' = c3_calls c @ map (\<lambda>(k, q, ns, d). CallRecv (c3_clientID c) (frame_bytes q ns d) (clock k)) (enumerate 0 (take j ms)) \<and>
        (length (h3_body (hub_store (h3_hub s') ! p)) \<le> n \<longrightarrow> j = length ms))"
proof -
  let ?log = "h3_log ord p s es" and ?w = "Turns (Takes None) p"
  have w: "h3_exists t ?w \<and> h3_acts t ?w = Some (HWrite None p)" if "hub_live p (h3_hub t)" for t :: "'a HTTP3Server"
    using that hub_wf_get(3) by (auto simp: h3_exists_def h3_acts_def hub_live_def)
  have ok: "hub_run_ok (h3_step ord) (h3.stream_ok p) s es" using assms(5) by (simp add: h3_stream_ok_eq)
  obtain s' fs where s': "run_opt (h3_step ord) s (es @ replicate h3WriteChanCap ?w) = Some s'" "hs_msgs (hub_store (h3_hub s') ! p) = fs"
      "subseq fs (map h3_framed ?log)" "length ?log \<le> h3WriteChanCap \<longrightarrow> fs = map h3_framed ?log" "hub_live p (h3_hub s')"
    using h3.run_delivers [OF assms(1-3) ok w] assms(4) unfolding h3_offered_log by auto
  obtain ms where ms: "subseq ms ?log" "fs = map h3_framed ms" "length ?log \<le> h3WriteChanCap \<longrightarrow> ms = ?log"
    using subseq_map_D [OF s'(3)] s'(4) by (metis subseq_order.order_refl)
  have "hs_cut (hub_store (h3_hub s') ! p) = None" using s'(5) hub_wf_get(4) by (auto simp: hub_live_def)
  then have body: "h3_body (hub_store (h3_hub s') ! p) = concat (map h3_framed ms)" by (simp add: h3_body_def s'(2) ms(2))
  have fit: "\<forall>(q, ns, d) \<in> set ms. length d \<le> MaxPayload" using assms(6) subseq_subset [OF ms(1)] by blast
  have "length ms \<le> length ?log" using ms(1) by (rule list_emb_length)
  then have loop: "\<exists>c' j e. readLoop lib clock stop 0 (take n (concat (map h3_framed ms))) c = Some (c', Some e) \<and>
     c3_calls c' = c3_calls c @ map (\<lambda>(k, q, ns, d). CallRecv (c3_clientID c) (frame_bytes q ns d) (clock k)) (enumerate 0 (take j ms)) \<and>
     (length (concat (map h3_framed ms)) \<le> n \<longrightarrow> j = length ms)" for n
    using readLoop_prefix [OF fit _ assms(7-9), of 0 stop lib clock n] assms(10) by simp
  have conn: "\<exists>c' j. c3_connect lib clock stop (Some (200, take n (concat (map h3_framed ms)))) c = Some (c', True) \<and>
        c3_calls c' = c3_calls c @ map (\<lambda>(k, q, ns, d). CallRecv (c3_clientID c) (frame_bytes q ns d) (clock k)) (enumerate 0 (take j ms)) \<and>
        (length (concat (map h3_framed ms)) \<le> n \<longrightarrow> j = length ms)" for n
  proof -
    obtain c' j e where "readLoop lib clock stop 0 (take n (concat (map h3_framed ms))) c = Some (c', Some e)"
     "c3_calls c' = c3_calls c @ map (\<lambda>(k, q, ns, d). CallRecv (c3_clientID c) (frame_bytes q ns d) (clock k)) (enumerate 0 (take j ms))"
     "length (concat (map h3_framed ms)) \<le> n \<longrightarrow> j = length ms" using loop by blast
    then show ?thesis by (intro exI [of _ c'] exI [of _ j]) (simp add: c3_connect_def)
  qed
  show ?thesis
    by (rule exI [of _ s'], rule exI [of _ ms], intro conjI, rule s'(1), rule ms(1), rule ms(3), unfold body, rule allI, rule conn)
qed

definition h3_sample :: "nat HTTP3Server" where
  "h3_sample = snd (H3_handleStream True ''a'' (the (NewHTTP3Server count_lib 1 '':1'' [])))"

lemma h3_sample:
  "hub_streams (h3_hub h3_sample) = [(''a'', 0)]" "hub_store (h3_hub h3_sample) = [new_stream ''a'']" "h3_Mode h3_sample = ''stream''"
  "h3_seq h3_sample = 0" "h3_metrics h3_sample \<noteq> None"
  by (simp_all add: h3_sample_def H3_handleStream_def NewHTTP3Server_def default_recorder_def NewRecorder_def NewSequenceTracker_def Let_def
      hub_open_def empty_hub_def sm_Store_def)

definition sample_client3 :: "nat HTTP3Client" where
  "sample_client3 = \<lparr>c3_base = zero_BaseTransport, c3_serverAddr = ''h'', c3_clientID = ''a'', c3_Mode = ''stream'', c3_metrics = Some sample_recorder,
     c3_onRecv = True, c3_lost = 0, c3_cancelled = False, c3_calls = []\<rparr>"

theorem h3_broadcasts_reach_client_witness:
  "\<exists>s' c'. run_opt (h3_step rev) h3_sample ([Casts (\<lambda>p. True) 5 [1], SendsTo ''a'' 6 [7]] @ replicate h3WriteChanCap (Turns (Takes None) 0)) = Some s' \<and>
     c3_connect count_lib (\<lambda>i. 9) 3 (Some (200, take (length (h3_body (hub_store (h3_hub s') ! 0))) (h3_body (hub_store (h3_hub s') ! 0)))) sample_client3 = Some (c', True) \<and>
     c3_calls c' = [CallRecv ''a'' (frame_bytes 1 5 [1]) 9, CallRecv ''a'' (frame_bytes 2 6 [7]) 9]"
proof -
  let ?es = "[Casts (\<lambda>p. True) 5 [1], SendsTo ''a'' 6 [7]] :: h3_action list"
  have live: "hub_live 0 (h3_hub h3_sample)" by (simp add: hub_live_def hub_wf_def h3_sample sm_Load_def new_stream_def)
  obtain m where m: "h3_metrics h3_sample = Some m" using h3_sample(5) by blast
  have lg: "h3_log rev 0 h3_sample ?es = [(1, 5, [1]), (2, 6, [7])]" and ok: "hub_run_ok (h3_step rev) (h3_stream_ok 0) h3_sample ?es"
    using m by (simp_all add: h3_logged_def h3_stream_ok_def h3_acts_def h3_exists_def hub_ok_def h3_sample H3_Broadcast_def H3_Send_def record_offers_def
        sm_values_def hub_offer_eq new_stream_def h3WriteChanCap_def hub_put_def sm_Load_def Let_def)
  have fit: "\<forall>(q, ns, d) \<in> set (h3_log rev 0 h3_sample ?es). length d \<le> MaxPayload" "length (h3_log rev 0 h3_sample ?es) < 3"
    unfolding lg by (simp_all add: MaxPayload_def)
  from h3_broadcasts_reach_client [OF range_order_rev live _ _ ok fit(1) _ wf_sample_recorder _ fit(2), of sample_client3 count_lib "\<lambda>i. 9"]
  obtain s' ms where s': "run_opt (h3_step rev) h3_sample (?es @ replicate h3WriteChanCap (Turns (Takes None) 0)) = Some s'" "ms = [(1, 5, [1]), (2, 6, [7])]"
    "\<And>n. \<exists>c' j. c3_connect count_lib (\<lambda>i. 9) 3 (Some (200, take n (h3_body (hub_store (h3_hub s') ! 0)))) sample_client3 = Some (c', True) \<and>
        c3_calls c' = c3_calls sample_client3 @ map (\<lambda>(k, q, ns, d). CallRecv (c3_clientID sample_client3) (frame_bytes q ns d) 9) (enumerate 0 (take j ms)) \<and>
        (length (h3_body (hub_store (h3_hub s') ! 0)) \<le> n \<longrightarrow> j = length ms)"
    unfolding lg by (auto simp: h3_sample new_stream_def sample_client3_def h3WriteChanCap_def)
  from s'(3) [of "length (h3_body (hub_store (h3_hub s') ! 0))"] show ?thesis using s'(1) unfolding s'(2)
    by (fastforce simp: sample_client3_def)
qed

definition no_quic :: "'h HTTP3Server \<Rightarrow> bool" where
  "no_quic s \<longleftrightarrow> h3_quicConns s = [] \<and> h3_tasks s = [] \<and> h3_metrics s \<noteq> None"

lemma no_quic_step:
  assumes "no_quic s" and "ord [] = []" and "h3_step ord s e = Some s'"
  shows "no_quic s'"
  using assms
  by (cases e) (auto simp: no_quic_def H3_Start_def H3_Stop_def H3_handleStream_def H3_handler_turn_def H3_Broadcast_def H3_Send_def sendUniStream_def
       record_offers_def sm_values_def Let_def bind_eq_Some_conv split: option.splits h3_pick.splits prod.splits if_splits)

text \<open>Property C36. Only the stream mode delivers: nothing ever stores a QUIC connection, so in the modes \<open>datagram\<close> and
  \<open>unidirstream\<close> (and any other) a broadcast of a server that was made by its constructor, at any moment of its life, returns no error, reaches
  no client and counts nothing, neither as sent nor as lost; it only uses up a sequence number.\<close>

theorem h3_other_modes_broadcast_nothing:
  assumes "range_order ord" and "\<forall>f \<in> set opts. f = WithRecvHandler \<or> f \<in> range WithMode \<or> f \<in> range WithRecorder"
    and "NewHTTP3Server lib t addr opts = Some s0" and "run_opt (h3_step ord) s0 es = Some s" and "h3_Mode s \<noteq> ''stream''"
  shows "H3_Broadcast ord dg now d s = Some (s\<lparr>h3_seq := h3_seq s + 1\<rparr>)"
proof -
  have o: "ord [] = []" using length_range_order [OF assms(1), of "[]"] by simp
  have opts: "h3_quicConns (fold (\<lambda>f s. f s) opts s) = h3_quicConns s \<and> h3_tasks (fold (\<lambda>f s. f s) opts s) = h3_tasks s" for s :: "'a HTTP3Server"
    using assms(2) by (induction opts arbitrary: s) (auto simp: WithRecvHandler_def WithMode_def WithRecorder_def)
  have new: "no_quic s0"
    using assms(3) opts by (auto simp: NewHTTP3Server_def no_quic_def Let_def bind_eq_Some_conv split: option.splits)
  have "no_quic s" using assms(4) new
  proof (induction es arbitrary: s0)
    case (Cons e es)
    then show ?case using no_quic_step [where ord = ord and s = s0 and e = e] o by (auto simp: bind_eq_Some_conv)
  qed simp
  then obtain m where "h3_metrics s = Some m" "h3_quicConns s = []" "h3_tasks s = []" by (auto simp: no_quic_def)
  moreover from this(1) have "s\<lparr>h3_seq := q, h3_metrics := Some m\<rparr> = s\<lparr>h3_seq := q\<rparr>" for q by (cases s) simp
  ultimately show ?thesis using assms(5) o
    by (simp add: H3_Broadcast_def Let_def record_offers_def send_datagrams_def sm_values_def)
qed

theorem h3_other_modes_broadcast_nothing_witness:
  "\<exists>s0 s. NewHTTP3Server count_lib 1 '':1'' [WithMode ''datagram''] = Some s0 \<and> run_opt (h3_step rev) s0 [Opens True ''a''] = Some s \<and>
     H3_Broadcast rev (\<lambda>p. True) 5 [1] s = Some (s\<lparr>h3_seq := h3_seq s + 1\<rparr>)"
proof -
  obtain s0 where s0: "NewHTTP3Server count_lib 1 '':1'' [WithMode ''datagram''] = Some s0" "h3_Mode s0 = ''datagram''"
    by (auto simp: NewHTTP3Server_def WithMode_def default_recorder_def NewRecorder_def NewSequenceTracker_def Let_def)
  obtain s where s: "run_opt (h3_step rev) s0 [Opens True ''a''] = Some s" "h3_Mode s = ''datagram''"
    using s0(2) by (simp add: H3_handleStream_def)
  show ?thesis using h3_other_modes_broadcast_nothing [OF range_order_rev _ s0(1) s(1)] s0(1) s by auto
qed

definition c3_wf :: "'h HTTP3Client \<Rightarrow> bool" where
  "c3_wf c \<longleftrightarrow> (case c3_metrics c of None \<Rightarrow> False | Some m \<Rightarrow> wf_rec m)"

text \<open>Reading never panics, whatever the bytes, and ends with an error unless the context is cancelled.\<close>

lemma readLoop_total:
  "c3_wf c \<Longrightarrow> \<exists>c' e. readLoop lib clock stop i body c = Some (c', e) \<and> c3_wf c' \<and> (i + length body < stop \<longrightarrow> e \<noteq> None)"
proof (induction lib clock stop i body c rule: readLoop.induct)
  case (1 lib clock stop i body c)
  let ?n = "unat (be_word (take h3LenBytes body) :: u32)" and ?rest = "drop h3LenBytes body"
  show ?case
  proof (cases "i \<ge> stop \<or> length body < h3LenBytes \<or> ?n = 0 \<or> ?n > MaxPayload + HeaderLen \<or> length ?rest < ?n")
    case True
    then show ?thesis using 1(3) by (subst readLoop.simps) (auto simp: Let_def)
  next
    case False
    let ?data = "take ?n ?rest"
    obtain d where d: "Decode ?data = Some d" using Decode_total by blast
    have shorter: "Suc i + length (drop ?n ?rest) < stop" if "i + length body < stop" using that False by (auto simp: h3LenBytes_def)
    show ?thesis
    proof (cases d)
      case (Inl err)
      have "\<exists>c' e. readLoop lib clock stop (Suc i) (drop ?n ?rest) c = Some (c', e) \<and> c3_wf c' \<and> (Suc i + length (drop ?n ?rest) < stop \<longrightarrow> e \<noteq> None)"
        using False by (intro 1(1) [OF _ _ refl refl _ _ refl d Inl 1(3)]) auto
      then show ?thesis using False d Inl shorter by (subst readLoop.simps) (auto simp: Let_def)
    next
      case (Inr x)
      obtain f k where x: "x = (f, k)" by (cases x)
      obtain m where m: "c3_metrics c = Some m" "wf_rec m" using 1(3) by (auto simp: c3_wf_def split: option.splits)
      obtain m' where m': "RecordRecv lib m (SeqNum f) (SendNs f) ?n (clock i) = Some m'" "wf_rec m'" using RecordRecv_total [OF m(2)] by blast
      let ?c = "c\<lparr>c3_metrics := Some m', c3_calls := c3_calls c @ calls_if (c3_onRecv c) (CallRecv (c3_clientID c) ?data (clock i))\<rparr>"
      have "\<exists>c' e. readLoop lib clock stop (Suc i) (drop ?n ?rest) ?c = Some (c', e) \<and> c3_wf c' \<and> (Suc i + length (drop ?n ?rest) < stop \<longrightarrow> e \<noteq> None)"
        using False m'(2) by (intro 1(2) [OF _ _ refl refl _ _ refl d Inr x [symmetric] m(1) m'(1)]) (auto simp: c3_wf_def)
      then show ?thesis using False d Inr x m(1) m'(1) shorter by (subst readLoop.simps) (auto simp: Let_def)
    qed
  qed
qed

definition outlives :: "(nat \<Rightarrow> i64) \<times> nat \<times> (nat \<times> bytes) option \<Rightarrow> bool" where
  "outlives = (\<lambda>(clock, stop, resp). case resp of None \<Rightarrow> True | Some (status, body) \<Rightarrow> length body < stop)"

text \<open>The client's backoff is never reset: a connection that ends before the context is cancelled ends with an error, however much it has
  delivered, so whatever the connections bring the wait after the \<open>k\<close>-th (from 0) is \<open>0.1 s * 2 ^ k\<close>, at most 30 s. And no input makes the client panic.\<close>

lemma h3_backoff_never_resets:
  assumes "c3_wf c" and "list_all outlives xs"
  shows "\<exists>c'. connectLoop lib h3ClientInitialBackoff xs c =
     Some (c', map (\<lambda>k. min (h3ClientInitialBackoff * 2 ^ k) h3ClientMaxBackoff) [0..<length xs])"
proof -
  have "\<exists>c'. connectLoop lib (min (h3ClientInitialBackoff * 2 ^ k) h3ClientMaxBackoff) xs c =
     Some (c', map (\<lambda>k. min (h3ClientInitialBackoff * 2 ^ k) h3ClientMaxBackoff) [k..<k + length xs])" for k
    using assms
  proof (induction xs arbitrary: k c)
    case (Cons x xs)
    obtain clock stop resp where x: "x = (clock, stop, resp)" by (cases x)
    obtain c1 where c1: "c3_connect lib clock stop resp c = Some (c1, True)" "c3_wf c1"
    proof (cases resp)
      case (Some r)
      obtain status body where r: "r = (status, body)" by (cases r)
      have "length body < stop" using Cons.prems(2) by (simp add: x Some r outlives_def)
      then obtain c2 y where "readLoop lib clock stop 0 body c = Some (c2, Some y)" "c3_wf c2"
        using readLoop_total [OF Cons.prems(1), of lib clock stop 0 body] by auto
      then show ?thesis using that [of "if status = 200 then c2 else c"] Cons.prems(1) by (simp add: c3_connect_def Some r)
    qed (use that Cons.prems(1) in \<open>simp add: c3_connect_def\<close>)
    have next_step: "(if 2 * min (h3ClientInitialBackoff * 2 ^ k) h3ClientMaxBackoff > h3ClientMaxBackoff then h3ClientMaxBackoff
        else 2 * min (h3ClientInitialBackoff * 2 ^ k) h3ClientMaxBackoff) = min (h3ClientInitialBackoff * 2 ^ Suc k) h3ClientMaxBackoff"
      by (auto simp: min_def)
    obtain c' where "connectLoop lib (min (h3ClientInitialBackoff * 2 ^ Suc k) h3ClientMaxBackoff) xs c1 =
       Some (c', map (\<lambda>k. min (h3ClientInitialBackoff * 2 ^ k) h3ClientMaxBackoff) [Suc k..<Suc k + length xs])"
      using Cons.IH [OF c1(2), of "Suc k"] Cons.prems(2) by (simp del: upt_Suc power_Suc) blast
    then show ?case using c1(1) unfolding x by (simp add: next_step Let_def upt_rec [of k] del: power_Suc upt_Suc)
  qed simp
  from this [of 0] show ?thesis by (simp add: h3ClientInitialBackoff_def h3ClientMaxBackoff_def)
qed

lemma sample_client3: "c3_wf sample_client3"
  using wf_sample_recorder by (simp add: sample_client3_def c3_wf_def)

end
