(* ===== verification/Epoll.thy ===== *)
theory Epoll
  imports Go_Std Channels
begin

text \<open>
  The epoll fan-out of \<^verbatim>\<open>internal/broadcast/epoll.go\<close>: connections registered by file descriptor, each with a queue of pending payloads,
  and worker goroutines that flush a queue when the kernel reports its socket writable. A worker takes the queue under the connection's lock
  and writes its payloads after releasing it, so the model has a step for each.

  The kernel is the environment: whether its calls succeed, which events it reports and whether a write to a socket succeeds. Connections
  live in a store, the concurrent map holds indices of it. A broadcast, which takes the lock of one connection after the other, is one step.
\<close>

section \<open>State and operations\<close>

record net_conn =
  nc_raw :: bool       \<comment> \<open>implements \<open>rawConn\<close>, whose \<open>SyscallConn\<close> returns the package's own \<open>syscallRawConn\<close>\<close>
  nc_fd :: int

record epollConn =
  ec_conn :: net_conn
  ec_fd :: int
  ec_pending :: "bytes list"
  ec_closed :: bool
  ec_out :: "bytes list"      \<comment> \<open>the payloads written to the connection\<close>

datatype worker = Idle | Flushing nat "bytes list" | Gone   \<comment> \<open>the connection and what is left of the queue taken\<close>

record EpollBroadcaster =
  ep_fds :: "(int, nat) syncmap"
  ep_store :: "epollConn list"
  ep_workers :: "worker list"
  ep_stop :: bool             \<comment> \<open>closed\<close>
  ep_open :: bool             \<comment> \<open>whether the epoll descriptor is open\<close>

datatype epoll_error = NotRaw | SyscallConnErr | ControlErr | CreateErr | CtlAdd int | CtlDel int | CtlMod int | CloseErr

definition NewEpollBroadcaster :: "bool \<Rightarrow> nat \<Rightarrow> epoll_error + EpollBroadcaster" where
  "NewEpollBroadcaster creates numCPU =
     (if \<not> creates then Inl CreateErr
      else Inr \<lparr>ep_fds = [], ep_store = [], ep_workers = replicate (if numCPU < 1 then 1 else numCPU) Idle, ep_stop = False, ep_open = True\<rparr>)"

text \<open>\<open>sc\<close> and \<open>ctl\<close>: whether \<open>SyscallConn\<close> and \<open>Control\<close> succeed.\<close>

definition connFd :: "bool \<Rightarrow> bool \<Rightarrow> net_conn \<Rightarrow> epoll_error + int" where
  "connFd sc ctl c = (if \<not> nc_raw c then Inl NotRaw else if \<not> sc then Inl SyscallConnErr else if \<not> ctl then Inl ControlErr else Inr (nc_fd c))"

definition Epoll_Add :: "bool \<Rightarrow> bool \<Rightarrow> bool \<Rightarrow> net_conn \<Rightarrow> EpollBroadcaster \<Rightarrow> epoll_error option \<times> EpollBroadcaster" where
  "Epoll_Add sc ctl adds c b = (case connFd sc ctl c of
     Inl e \<Rightarrow> (Some e, b)
   | Inr fd \<Rightarrow>
       let ec = \<lparr>ec_conn = c, ec_fd = fd, ec_pending = [], ec_closed = False, ec_out = []\<rparr> in
       if \<not> adds then (Some (CtlAdd fd), b)
       else (None, b\<lparr>ep_fds := sm_Store (ep_fds b) fd (length (ep_store b)), ep_store := ep_store b @ [ec]\<rparr>))"

definition ec_put :: "nat \<Rightarrow> epollConn \<Rightarrow> EpollBroadcaster \<Rightarrow> EpollBroadcaster" where
  "ec_put p ec b = b\<lparr>ep_store := (ep_store b)[p := ec]\<rparr>"

definition Epoll_Remove :: "bool \<Rightarrow> int \<Rightarrow> EpollBroadcaster \<Rightarrow> epoll_error option \<times> EpollBroadcaster" where
  "Epoll_Remove dels fd b = (case sm_Load (ep_fds b) fd of
     None \<Rightarrow> (None, b)
   | Some p \<Rightarrow>
       let b = ec_put p ((ep_store b ! p)\<lparr>ec_closed := True\<rparr>) (b\<lparr>ep_fds := sm_Delete (ep_fds b) fd\<rparr>) in
       (if dels then None else Some (CtlDel fd), b))"

text \<open>The range of \<open>Broadcast\<close>; \<open>mods\<close> says for which descriptors the event can be re-armed.\<close>

fun epoll_offer_all :: "(int \<Rightarrow> bool) \<Rightarrow> bytes \<Rightarrow> nat list \<Rightarrow> epoll_error option \<Rightarrow> EpollBroadcaster \<Rightarrow> epoll_error option \<times> EpollBroadcaster" where
  "epoll_offer_all mods payload [] firstErr b = (firstErr, b)"
| "epoll_offer_all mods payload (p # ps) firstErr b =
     (let ec = ep_store b ! p in
      if ec_closed ec then epoll_offer_all mods payload ps firstErr b
      else epoll_offer_all mods payload ps (if \<not> mods (ec_fd ec) \<and> firstErr = None then Some (CtlMod (ec_fd ec)) else firstErr)
             (ec_put p (ec\<lparr>ec_pending := ec_pending ec @ [payload]\<rparr>) b))"

type_synonym epoll_order = "(int \<times> nat) list \<Rightarrow> (int \<times> nat) list"

definition Epoll_Broadcast :: "epoll_order \<Rightarrow> (int \<Rightarrow> bool) \<Rightarrow> bytes \<Rightarrow> EpollBroadcaster \<Rightarrow> epoll_error option \<times> EpollBroadcaster" where
  "Epoll_Broadcast ord mods data b = epoll_offer_all mods data (sm_values ord (ep_fds b)) None b"

definition Epoll_Len :: "epoll_order \<Rightarrow> EpollBroadcaster \<Rightarrow> nat" where
  "Epoll_Len ord b = length (ord (ep_fds b))"

text \<open>\<open>Close\<close> in two halves: closing the channel panics when it is closed already; the wait for the workers ends when all have returned (\<open>None\<close> before
  that), and only then is the descriptor closed.\<close>

definition Epoll_Close_stop :: "EpollBroadcaster \<Rightarrow> EpollBroadcaster option" where
  "Epoll_Close_stop b = (if ep_stop b then None else Some (b\<lparr>ep_stop := True\<rparr>))"

definition Epoll_Close_wait :: "bool \<Rightarrow> EpollBroadcaster \<Rightarrow> (epoll_error option \<times> EpollBroadcaster) option" where
  "Epoll_Close_wait ok b =
     (if list_all (\<lambda>w. w = Gone) (ep_workers b) then Some (if ok then None else Some CloseErr, b\<lparr>ep_open := False\<rparr>) else None)"

text \<open>A worker's turn: it sees the stop signal, gets an event for a descriptor (writable or not), fails in \<open>epoll_wait\<close>, or writes the next payload of the
  queue it has taken. The first half of \<open>flushConn\<close> is part of the turn that gets the event. The events of one call of \<open>epoll_wait\<close> are separate turns.\<close>

datatype worker_turn = SeesStop | WaitFails bool | Event int bool | WritesNext bool   \<comment> \<open>the flags: \<open>EINTR\<close>, writable, success\<close>

definition set_worker :: "nat \<Rightarrow> worker \<Rightarrow> EpollBroadcaster \<Rightarrow> EpollBroadcaster" where
  "set_worker w x b = b\<lparr>ep_workers := (ep_workers b)[w := x]\<rparr>"

definition flush_begin :: "nat \<Rightarrow> nat \<Rightarrow> EpollBroadcaster \<Rightarrow> EpollBroadcaster" where
  "flush_begin w p b =
     (let ec = ep_store b ! p in
      if ec_closed ec \<or> ec_pending ec = [] then b
      else set_worker w (Flushing p (ec_pending ec)) (ec_put p (ec\<lparr>ec_pending := []\<rparr>) b))"

definition flush_write :: "nat \<Rightarrow> bool \<Rightarrow> nat \<Rightarrow> bytes list \<Rightarrow> EpollBroadcaster \<Rightarrow> EpollBroadcaster" where
  "flush_write w ok p queue b = (case queue of
     [] \<Rightarrow> set_worker w Idle b
   | payload # rest \<Rightarrow>
       let ec = ep_store b ! p in
       if ok then set_worker w (if rest = [] then Idle else Flushing p rest) (ec_put p (ec\<lparr>ec_out := ec_out ec @ [payload]\<rparr>) b)
       else set_worker w Idle (snd (Epoll_Remove True (ec_fd ec) (ec_put p (ec\<lparr>ec_closed := True\<rparr>) b))))"

definition runWorker_turn :: "worker_turn \<Rightarrow> nat \<Rightarrow> EpollBroadcaster \<Rightarrow> EpollBroadcaster" where
  "runWorker_turn t w b = (if length (ep_workers b) \<le> w then b else case ep_workers b ! w of
     Gone \<Rightarrow> b
   | Idle \<Rightarrow> (case t of
       SeesStop \<Rightarrow> if ep_stop b then set_worker w Gone b else b
     | WaitFails eintr \<Rightarrow> if eintr then b else set_worker w Gone b
     | Event fd writable \<Rightarrow>
         if \<not> writable then b else (case sm_Load (ep_fds b) fd of None \<Rightarrow> b | Some p \<Rightarrow> flush_begin w p b)
     | WritesNext ok \<Rightarrow> b)
   | Flushing p queue \<Rightarrow> (case t of WritesNext ok \<Rightarrow> flush_write w ok p queue b | _ \<Rightarrow> b))"

datatype epoll_action =
    Adds bool bool bool net_conn
  | Removes bool int
  | Casts "int \<Rightarrow> bool" bytes
  | Works worker_turn nat
  | Stops

fun epoll_step :: "epoll_order \<Rightarrow> EpollBroadcaster \<Rightarrow> epoll_action \<Rightarrow> EpollBroadcaster" where
  "epoll_step ord b (Adds sc ctl adds c) = snd (Epoll_Add sc ctl adds c b)"
| "epoll_step ord b (Removes dels fd) = snd (Epoll_Remove dels fd b)"
| "epoll_step ord b (Casts mods d) = snd (Epoll_Broadcast ord mods d b)"
| "epoll_step ord b (Works t w) = runWorker_turn t w b"
| "epoll_step ord b Stops = (case Epoll_Close_stop b of None \<Rightarrow> b | Some b' \<Rightarrow> b')"

abbreviation epoll_run :: "epoll_order \<Rightarrow> EpollBroadcaster \<Rightarrow> epoll_action list \<Rightarrow> EpollBroadcaster" where
  "epoll_run ord \<equiv> foldl (epoll_step ord)"

section \<open>Every payload is written once\<close>

definition epoll_wf :: "EpollBroadcaster \<Rightarrow> bool" where
  "epoll_wf b \<longleftrightarrow> wf_sm (ep_fds b) \<and>
     (\<forall>fd p. sm_Load (ep_fds b) fd = Some p \<longrightarrow> p < length (ep_store b) \<and> ec_fd (ep_store b ! p) = fd \<and> \<not> ec_closed (ep_store b ! p)) \<and>
     (\<forall>p q. Flushing p q \<in> set (ep_workers b) \<longrightarrow> p < length (ep_store b) \<and> q \<noteq> [])"

definition registered :: "nat \<Rightarrow> EpollBroadcaster \<Rightarrow> bool" where
  "registered p b \<longleftrightarrow> p < length (ep_store b) \<and> sm_Load (ep_fds b) (ec_fd (ep_store b ! p)) = Some p"

fun taken :: "nat \<Rightarrow> worker \<Rightarrow> bytes list" where
  "taken p (Flushing p' q) = (if p' = p then q else [])"
| "taken p _ = []"

text \<open>The payloads of a connection: written, taken by workers, pending.\<close>

definition accounted :: "nat \<Rightarrow> EpollBroadcaster \<Rightarrow> bytes list" where
  "accounted p b = ec_out (ep_store b ! p) @ concat (map (taken p) (ep_workers b)) @ ec_pending (ep_store b ! p)"

fun casts_of :: "epoll_action list \<Rightarrow> bytes list" where
  "casts_of [] = []"
| "casts_of (Casts mods d # as) = d # casts_of as"
| "casts_of (_ # as) = casts_of as"

lemma offer_all_untouched:
  "ep_fds (snd (epoll_offer_all mods d ps e b)) = ep_fds b \<and> ep_workers (snd (epoll_offer_all mods d ps e b)) = ep_workers b \<and>
   length (ep_store (snd (epoll_offer_all mods d ps e b))) = length (ep_store b)"
  by (induction ps arbitrary: e b) (simp_all add: Let_def ec_put_def)

lemma offer_all_nth:
  assumes "distinct ps" and "\<forall>p\<in>set ps. p < length (ep_store b) \<and> \<not> ec_closed (ep_store b ! p)" and "k < length (ep_store b)"
  shows "ep_store (snd (epoll_offer_all mods d ps e b)) ! k =
    (if k \<in> set ps then (ep_store b ! k)\<lparr>ec_pending := ec_pending (ep_store b ! k) @ [d]\<rparr> else ep_store b ! k)"
  using assms
proof (induction ps arbitrary: e b)
  case (Cons p ps)
  let ?b = "ec_put p ((ep_store b ! p)\<lparr>ec_pending := ec_pending (ep_store b ! p) @ [d]\<rparr>) b"
  have "\<forall>q\<in>set ps. q < length (ep_store ?b) \<and> \<not> ec_closed (ep_store ?b ! q)" and "k < length (ep_store ?b)"
    using Cons.prems by (auto simp: ec_put_def nth_update_if)
  from Cons.IH [OF _ this] Cons.prems show ?case
    by (auto simp: Let_def ec_put_def nth_update_if)
qed simp

lemma wf_values:
  assumes "epoll_wf b" and "range_order ord"
  shows "distinct (sm_values ord (ep_fds b)) \<and> (\<forall>p\<in>set (sm_values ord (ep_fds b)). p < length (ep_store b) \<and> \<not> ec_closed (ep_store b ! p))"
proof
  show "distinct (sm_values ord (ep_fds b))"
    using assms unfolding epoll_wf_def by (intro distinct_sm_values) metis+
  show "\<forall>p\<in>set (sm_values ord (ep_fds b)). p < length (ep_store b) \<and> \<not> ec_closed (ep_store b ! p)"
    using assms by (auto simp: epoll_wf_def set_sm_values ran_def)
qed

lemma broadcast_nth:
  assumes "epoll_wf b" and "range_order ord" and "p < length (ep_store b)"
  shows "ep_store (snd (Epoll_Broadcast ord mods d b)) ! p =
    (if registered p b then (ep_store b ! p)\<lparr>ec_pending := ec_pending (ep_store b ! p) @ [d]\<rparr> else ep_store b ! p)"
proof -
  have "p \<in> set (sm_values ord (ep_fds b)) \<longleftrightarrow> registered p b"
    using assms by (auto simp: epoll_wf_def set_sm_values ran_def registered_def)
  then show ?thesis
    using offer_all_nth [of "sm_values ord (ep_fds b)" b p mods d None] wf_values [OF assms(1,2)] assms(3) by (simp add: Epoll_Broadcast_def)
qed

lemmas epoll_ops = Epoll_Add_def connFd_def Epoll_Remove_def ec_put_def set_worker_def flush_begin_def flush_write_def Let_def

text \<open>An update of one worker, and what each operation leaves of a connection.\<close>

lemma mset_taken_update:
  "w < length ws \<Longrightarrow> mset (concat (map (taken p) (ws[w := x]))) + mset (taken p (ws ! w)) = mset (concat (map (taken p) ws)) + mset (taken p x)"
  by (induction ws arbitrary: w) (auto simp: nth_Cons' split: nat.splits)

lemma wf_add: "epoll_wf b \<Longrightarrow> epoll_wf (snd (Epoll_Add sc ctl adds c b))"
  unfolding epoll_wf_def by (auto simp: epoll_ops sm_laws nth_append less_Suc_eq split: if_splits)

lemma wf_closing:
  assumes "epoll_wf b" and "wf_sm (ep_fds b')" and "sm_Load (ep_fds b') = (sm_Load (ep_fds b))(fd := None)" and "ep_workers b' = ep_workers b"
    and "length (ep_store b') = length (ep_store b)"
    and "\<And>k. k < length (ep_store b) \<Longrightarrow> ec_fd (ep_store b' ! k) = ec_fd (ep_store b ! k) \<and>
      (ec_closed (ep_store b' ! k) \<longrightarrow> ec_closed (ep_store b ! k) \<or> ec_fd (ep_store b ! k) = fd)"
  shows "epoll_wf b'"
proof -
  have "p < length (ep_store b') \<and> ec_fd (ep_store b' ! p) = k \<and> \<not> ec_closed (ep_store b' ! p)" if "sm_Load (ep_fds b') k = Some p" for k p
  proof -
    from that assms(3) have "k \<noteq> fd" and "sm_Load (ep_fds b) k = Some p" by (auto split: if_splits)
    with assms(1) have "p < length (ep_store b)" and "ec_fd (ep_store b ! p) = k" and "\<not> ec_closed (ep_store b ! p)" by (auto simp: epoll_wf_def)
    with assms(6) [of p] assms(5) \<open>k \<noteq> fd\<close> show ?thesis by auto
  qed
  moreover have "\<forall>p q. Flushing p q \<in> set (ep_workers b') \<longrightarrow> p < length (ep_store b') \<and> q \<noteq> []"
    using assms(1,4,5) by (auto simp: epoll_wf_def)
  ultimately show ?thesis using assms(2) by (auto simp: epoll_wf_def)
qed

lemma load_fd: "epoll_wf b \<Longrightarrow> sm_Load (ep_fds b) fd = Some p \<Longrightarrow> p < length (ep_store b) \<and> ec_fd (ep_store b ! p) = fd \<and> \<not> ec_closed (ep_store b ! p)"
  by (simp add: epoll_wf_def)

lemma wf_map: "epoll_wf b \<Longrightarrow> wf_sm (ep_fds b)"
  by (simp add: epoll_wf_def)

lemma wf_remove:
  assumes "epoll_wf b" shows "epoll_wf (snd (Epoll_Remove dels fd b))"
proof (cases "sm_Load (ep_fds b) fd")
  case (Some p)
  show ?thesis
    by (rule wf_closing [OF assms, where fd = fd])
       (use Some load_fd [OF assms Some] wf_map [OF assms] in \<open>auto simp: Epoll_Remove_def ec_put_def Let_def sm_laws nth_update_if\<close>)
qed (use assms in \<open>simp add: Epoll_Remove_def\<close>)

lemma wf_broadcast:
  assumes "epoll_wf b" and "range_order ord"
  shows "epoll_wf (snd (Epoll_Broadcast ord mods d b))"
proof -
  note u = offer_all_untouched [of mods d "sm_values ord (ep_fds b)" None b, folded Epoll_Broadcast_def]
  have "ec_fd (ep_store (snd (Epoll_Broadcast ord mods d b)) ! p) = ec_fd (ep_store b ! p) \<and>
      ec_closed (ep_store (snd (Epoll_Broadcast ord mods d b)) ! p) = ec_closed (ep_store b ! p)" if "p < length (ep_store b)" for p
    using broadcast_nth [OF assms that] by simp
  with assms(1) u show ?thesis unfolding epoll_wf_def by simp
qed

lemma wf_flush_begin:
  "epoll_wf b \<Longrightarrow> p < length (ep_store b) \<Longrightarrow> epoll_wf (flush_begin w p b)"
  unfolding epoll_wf_def by (auto simp: epoll_ops nth_update_if dest!: set_update_subset_insert [THEN subsetD])

lemma wf_set_worker_idle: "epoll_wf b \<Longrightarrow> epoll_wf (set_worker w Idle b)"
  unfolding epoll_wf_def by (auto simp: set_worker_def dest!: set_update_subset_insert [THEN subsetD])

lemma wf_fail:
  assumes "epoll_wf b" and "p < length (ep_store b)"
  shows "epoll_wf (snd (Epoll_Remove True (ec_fd (ep_store b ! p)) (ec_put p ((ep_store b ! p)\<lparr>ec_closed := True\<rparr>) b)))"
proof (cases "sm_Load (ep_fds b) (ec_fd (ep_store b ! p))")
  case None
  show ?thesis
    by (rule wf_closing [OF assms(1), where fd = "ec_fd (ep_store b ! p)"])
       (use None assms(2) wf_map [OF assms(1)] in \<open>auto simp: Epoll_Remove_def ec_put_def nth_update_if\<close>)
next
  case (Some p')
  show ?thesis
    by (rule wf_closing [OF assms(1), where fd = "ec_fd (ep_store b ! p)"])
       (use Some assms(2) load_fd [OF assms(1) Some] wf_map [OF assms(1)] in
         \<open>auto simp: Epoll_Remove_def ec_put_def Let_def sm_laws nth_update_if\<close>)
qed

lemma wf_flush_write:
  assumes "epoll_wf b" and "p < length (ep_store b)"
  shows "epoll_wf (flush_write w ok p q b)"
proof (cases q)
  case Nil
  then show ?thesis using assms by (simp add: flush_write_def wf_set_worker_idle)
next
  case (Cons d rest)
  show ?thesis
  proof (cases ok)
    case True
    with assms Cons show ?thesis unfolding epoll_wf_def
      by (auto simp: epoll_ops nth_update_if dest!: set_update_subset_insert [THEN subsetD] split: if_splits)
  qed (use Cons wf_fail [OF assms] in \<open>simp add: flush_write_def Let_def wf_set_worker_idle\<close>)
qed

lemma wf_flushing: "epoll_wf b \<Longrightarrow> w < length (ep_workers b) \<Longrightarrow> ep_workers b ! w = Flushing p q \<Longrightarrow> p < length (ep_store b) \<and> q \<noteq> []"
  unfolding epoll_wf_def by (metis nth_mem)

lemma wf_turn: "epoll_wf b \<Longrightarrow> epoll_wf (runWorker_turn t w b)"
proof (cases "w < length (ep_workers b)")
  assume wf: "epoll_wf b" and w: "w < length (ep_workers b)"
  have gone: "epoll_wf (set_worker w Gone b)"
    using wf unfolding epoll_wf_def by (auto simp: set_worker_def dest!: set_update_subset_insert [THEN subsetD])
  have starts: "sm_Load (ep_fds b) fd = Some p \<Longrightarrow> epoll_wf (flush_begin w p b)" for fd p
    using wf load_fd [OF wf] by (simp add: wf_flush_begin)
  show ?thesis
    using wf w gone starts wf_flushing [OF wf w] wf_flush_write [OF wf]
    by (auto simp: runWorker_turn_def split: worker.splits worker_turn.splits option.splits)
qed (simp add: runWorker_turn_def)

lemma wf_step: "range_order ord \<Longrightarrow> epoll_wf b \<Longrightarrow> epoll_wf (epoll_step ord b a)"
  by (cases a) (simp_all add: wf_add wf_remove wf_broadcast wf_turn Epoll_Close_stop_def epoll_wf_def [of "_\<lparr>ep_stop := True\<rparr>"] epoll_wf_def [symmetric] split: option.splits)

text \<open>What a step does to a connection still registered after it: a broadcast appends, everything else keeps the payloads.\<close>

definition keeps :: "nat \<Rightarrow> EpollBroadcaster \<Rightarrow> EpollBroadcaster \<Rightarrow> bool" where
  "keeps p b b' \<longleftrightarrow> registered p b \<and> mset (accounted p b') = mset (accounted p b) \<and> (length (ep_workers b) = 1 \<longrightarrow> accounted p b' = accounted p b)"

lemma keeps_same:
  assumes "p < length (ep_store b)" and "registered p b'" and "ep_workers b' = ep_workers b"
    and "sm_Load (ep_fds b') (ec_fd (ep_store b ! p)) = Some p \<Longrightarrow> sm_Load (ep_fds b) (ec_fd (ep_store b ! p)) = Some p"
    and "ec_fd (ep_store b' ! p) = ec_fd (ep_store b ! p)" and "ec_out (ep_store b' ! p) = ec_out (ep_store b ! p)"
    and "ec_pending (ep_store b' ! p) = ec_pending (ep_store b ! p)"
  shows "keeps p b b'"
  using assms by (simp add: keeps_def registered_def accounted_def)

lemma keeps_add:
  "p < length (ep_store b) \<Longrightarrow> registered p (snd (Epoll_Add sc ctl adds c b)) \<Longrightarrow> keeps p b (snd (Epoll_Add sc ctl adds c b))"
  by (rule keeps_same) (auto simp: epoll_ops sm_laws nth_append split: if_splits)

lemma keeps_remove:
  "p < length (ep_store b) \<Longrightarrow> registered p (snd (Epoll_Remove dels fd b)) \<Longrightarrow> keeps p b (snd (Epoll_Remove dels fd b))"
  by (rule keeps_same) (auto simp: epoll_ops sm_laws nth_update_if split: option.splits if_splits)

lemma taken_one: "length ws = 1 \<Longrightarrow> w < length ws \<Longrightarrow> concat (map (taken p) (ws[w := x])) = taken p x \<and> concat (map (taken p) ws) = taken p (ws ! w)"
  by (cases ws) auto

lemma exchange_middle:
  fixes u :: "'a multiset"
  assumes "u' + (x + v') = u + (y + v)" and "m' + y = m + x"
  shows "u' + (m' + v') = u + (m + v)"
proof (rule multiset_eqI)
  fix a
  show "count (u' + (m' + v')) a = count (u + (m + v)) a"
    using arg_cong [OF assms(1), of "\<lambda>s. count s a"] arg_cong [OF assms(2), of "\<lambda>s. count s a"] by simp
qed

lemma keeps_worker:
  assumes "w < length (ep_workers b)" and "registered p b" and "ep_workers b' = (ep_workers b)[w := x]"
    and "ec_out (ep_store b' ! p) @ taken p x @ ec_pending (ep_store b' ! p) =
      ec_out (ep_store b ! p) @ taken p (ep_workers b ! w) @ ec_pending (ep_store b ! p)"
  shows "keeps p b b'"
proof -
  have "mset (ec_out (ep_store b' ! p) @ taken p x @ ec_pending (ep_store b' ! p)) =
      mset (ec_out (ep_store b ! p) @ taken p (ep_workers b ! w) @ ec_pending (ep_store b ! p))"
    by (simp only: assms(4))
  then have "mset (accounted p b') = mset (accounted p b)"
    unfolding accounted_def assms(3) mset_append by (rule exchange_middle [OF _ mset_taken_update [OF assms(1)]])
  moreover have "accounted p b' = accounted p b" if "length (ep_workers b) = 1"
    using taken_one [OF that assms(1), of p x] assms(4) unfolding accounted_def assms(3) by simp
  ultimately show ?thesis using assms(2) by (simp add: keeps_def)
qed

lemma keeps_flush_begin:
  assumes "p < length (ep_store b)" and "registered p (flush_begin w k b)" and "w < length (ep_workers b)" and "ep_workers b ! w = Idle"
    and "k < length (ep_store b)"
  shows "keeps p b (flush_begin w k b)"
proof (cases "ec_closed (ep_store b ! k) \<or> ec_pending (ep_store b ! k) = []")
  case True
  then show ?thesis using assms by (simp add: keeps_def flush_begin_def)
next
  case False
  have "registered p b"
    using assms(2,5) by (auto simp: registered_def flush_begin_def set_worker_def ec_put_def Let_def nth_update_if split: if_splits)
  then show ?thesis
    by (rule keeps_worker [OF assms(3), where x = "Flushing k (ec_pending (ep_store b ! k))"])
       (use assms False in \<open>auto simp: flush_begin_def set_worker_def ec_put_def Let_def nth_update_if\<close>)
qed

lemma remove_failed:
  assumes "epoll_wf b" and "p < length (ep_store b)" and "k < length (ep_store b)"
  defines "b' \<equiv> snd (Epoll_Remove True (ec_fd (ep_store b ! k)) (ec_put k ((ep_store b ! k)\<lparr>ec_closed := True\<rparr>) b))"
  shows "ep_workers b' = ep_workers b \<and> ec_fd (ep_store b' ! p) = ec_fd (ep_store b ! p) \<and> ec_out (ep_store b' ! p) = ec_out (ep_store b ! p) \<and>
    ec_pending (ep_store b' ! p) = ec_pending (ep_store b ! p) \<and> sm_Load (ep_fds b') = (sm_Load (ep_fds b))(ec_fd (ep_store b ! k) := None)"
  unfolding b'_def using assms
  by (cases "sm_Load (ep_fds b) (ec_fd (ep_store b ! k))") (auto simp: Epoll_Remove_def ec_put_def Let_def sm_laws nth_update_if)

lemma keeps_flush_write:
  assumes "epoll_wf b" and "p < length (ep_store b)" and "registered p (flush_write w ok k q b)" and "w < length (ep_workers b)"
    and "ep_workers b ! w = Flushing k q"
  shows "keeps p b (flush_write w ok k q b)"
proof -
  from wf_flushing [OF assms(1,4,5)] obtain d rest where q: "q = d # rest" and k: "k < length (ep_store b)" by (cases q) auto
  show ?thesis
  proof (cases ok)
    case True
    have "registered p b"
      using assms(3) k True by (auto simp: registered_def flush_write_def q set_worker_def ec_put_def Let_def nth_update_if split: if_splits)
    then show ?thesis
      by (rule keeps_worker [OF assms(4), where x = "if rest = [] then Idle else Flushing k rest"])
         (use assms k q True in \<open>auto simp: flush_write_def set_worker_def ec_put_def Let_def nth_update_if\<close>)
  next
    case False
    note r = remove_failed [OF assms(1,2) k]
    have "k \<noteq> p" and "registered p b"
      using assms(2,3) False r by (auto simp: registered_def flush_write_def q set_worker_def Let_def split: if_splits)
    from this(2) show ?thesis
      by (rule keeps_worker [OF assms(4), where x = Idle])
         (use r \<open>k \<noteq> p\<close> assms(5) q False in \<open>simp_all add: flush_write_def set_worker_def Let_def\<close>)
  qed
qed

lemma keeps_refl: "registered p b \<Longrightarrow> keeps p b b"
  by (simp add: keeps_def)

lemma keeps_turn:
  assumes "epoll_wf b" and "p < length (ep_store b)" and "registered p (runWorker_turn t w b)"
  shows "keeps p b (runWorker_turn t w b)"
proof (cases "w < length (ep_workers b)")
  case False
  then show ?thesis using assms(3) by (simp add: runWorker_turn_def keeps_refl)
next
  case w: True
  have leaves: "keeps p b (set_worker w Gone b)" if "ep_workers b ! w = Idle" and "registered p (set_worker w Gone b)"
    by (rule keeps_worker [OF w, where x = Gone]) (use that in \<open>simp_all add: set_worker_def registered_def\<close>)
  have starts: "keeps p b (flush_begin w k b)"
    if "ep_workers b ! w = Idle" and "sm_Load (ep_fds b) fd = Some k" and "registered p (flush_begin w k b)" for fd k
    using keeps_flush_begin [OF assms(2) that(3) w that(1)] load_fd [OF assms(1) that(2)] by simp
  have writes: "keeps p b (flush_write w ok k q b)" if "ep_workers b ! w = Flushing k q" and "registered p (flush_write w ok k q b)" for ok k q
    using keeps_flush_write [OF assms(1,2) that(2) w that(1)] .
  show ?thesis
    using assms(3) w leaves starts writes unfolding runWorker_turn_def
    by (auto split: worker.splits worker_turn.splits option.splits if_splits intro: keeps_refl)
qed

lemma step_accounts:
  assumes "range_order ord" and "epoll_wf b" and "p < length (ep_store b)" and "registered p (epoll_step ord b a)"
  shows "registered p b \<and> mset (accounted p (epoll_step ord b a)) = mset (accounted p b @ casts_of [a]) \<and>
    (length (ep_workers b) = 1 \<longrightarrow> accounted p (epoll_step ord b a) = accounted p b @ casts_of [a])"
proof (cases a)
  case (Casts mods d)
  note n = broadcast_nth [OF assms(2,1,3), of mods d]
  note u = offer_all_untouched [of mods d "sm_values ord (ep_fds b)" None b, folded Epoll_Broadcast_def]
  have "registered p b" using assms(3,4) n u Casts by (auto simp: registered_def split: if_splits)
  with n u show ?thesis by (simp add: Casts accounted_def)
qed (use assms keeps_add [of p b] keeps_remove [of p b] keeps_turn [of b p] in
  \<open>auto simp: keeps_def Epoll_Close_stop_def registered_def accounted_def split: if_splits\<close>)

lemma step_sizes: "length (ep_store b) \<le> length (ep_store (epoll_step ord b a)) \<and> length (ep_workers (epoll_step ord b a)) = length (ep_workers b)"
proof (cases a)
  case (Works t w)
  then show ?thesis
    by (auto simp: runWorker_turn_def epoll_ops Epoll_Remove_def split: worker.splits worker_turn.splits option.splits list.splits)
qed (auto simp: epoll_ops Epoll_Broadcast_def offer_all_untouched Epoll_Close_stop_def split: option.splits)

lemma casts_of_append: "casts_of (as @ cs) = casts_of as @ casts_of cs"
  by (induction as rule: casts_of.induct) auto

lemma run_wf: "range_order ord \<Longrightarrow> epoll_wf b \<Longrightarrow> epoll_wf (epoll_run ord b acts) \<and> length (ep_store b) \<le> length (ep_store (epoll_run ord b acts)) \<and>
   length (ep_workers (epoll_run ord b acts)) = length (ep_workers b)"
proof (induction acts rule: rev_induct)
  case (snoc a acts)
  then show ?case using step_sizes [of "epoll_run ord b acts" ord a] wf_step [of ord "epoll_run ord b acts" a] by simp
qed simp

lemma run_accounts:
  assumes "range_order ord" and "epoll_wf b" and "p < length (ep_store b)" and "registered p (epoll_run ord b acts)"
  shows "registered p b \<and> mset (accounted p (epoll_run ord b acts)) = mset (accounted p b @ casts_of acts) \<and>
    (length (ep_workers b) = 1 \<longrightarrow> accounted p (epoll_run ord b acts) = accounted p b @ casts_of acts)"
  using assms(4)
proof (induction acts rule: rev_induct)
  case (snoc a acts)
  note w = run_wf [OF assms(1,2), of acts]
  have s: "registered p (epoll_run ord b acts)" and *: "mset (accounted p (epoll_run ord b (acts @ [a]))) = mset (accounted p (epoll_run ord b acts) @ casts_of [a])"
    and o: "length (ep_workers b) = 1 \<longrightarrow> accounted p (epoll_run ord b (acts @ [a])) = accounted p (epoll_run ord b acts) @ casts_of [a]"
    using step_accounts [OF assms(1), of "epoll_run ord b acts" p a] w assms(3) snoc.prems by auto
  from snoc.IH [OF s] * o show ?case by (simp add: casts_of_append)
qed simp

lemma new_wf: "NewEpollBroadcaster creates n = Inr b \<Longrightarrow> epoll_wf b \<and> length (ep_workers b) = max 1 n"
  by (auto simp: NewEpollBroadcaster_def epoll_wf_def sm_laws split: if_splits)

lemma added_accounts:
  fixes before after :: "epoll_action list"
  assumes "range_order ord" and "NewEpollBroadcaster creates n = Inr b0" and "nc_raw c"
  defines "b1 \<equiv> epoll_run ord b0 before"
  defines "p \<equiv> length (ep_store b1)"
  defines "b2 \<equiv> epoll_run ord (snd (Epoll_Add True True True c b1)) after"
  assumes "registered p b2"
  shows "mset (accounted p b2) = mset (casts_of after) \<and> (n \<le> 1 \<longrightarrow> accounted p b2 = casts_of after)"
proof -
  note w = run_wf [OF assms(1), of b0 before, folded b1_def] new_wf [OF assms(2)]
  let ?b = "snd (Epoll_Add True True True c b1)"
  have wf: "epoll_wf ?b" using w wf_add by blast
  have add: "p < length (ep_store ?b)" "length (ep_workers ?b) = max 1 n"
    using assms(3) w by (auto simp: epoll_ops p_def)
  have "ep_workers ?b = ep_workers b1" using assms(3) by (simp add: epoll_ops)
  moreover have "taken p x = []" if "x \<in> set (ep_workers b1)" for x
    using w that by (cases x) (auto simp: epoll_wf_def p_def)
  ultimately have "concat (map (taken p) (ep_workers ?b)) = []" by simp
  then have "accounted p ?b = []" using assms(3) by (simp add: accounted_def epoll_ops p_def)
  with run_accounts [OF assms(1) wf add(1) assms(7) [unfolded b2_def]] add(2) show ?thesis by (simp add: b2_def)
qed

lemma none_taken: "\<forall>q. Flushing p q \<notin> set ws \<Longrightarrow> concat (map (taken p) ws) = []"
proof (induction ws)
  case (Cons x ws)
  then show ?case by (cases x) auto
qed simp

lemma writes_all:
  fixes ord :: epoll_order
  assumes "w < length (ep_workers b)" and "ep_workers b ! w = Flushing p q" and "q \<noteq> []" and "p < length (ep_store b)"
  defines "b' \<equiv> epoll_run ord b (replicate (length q) (Works (WritesNext True) w))"
  shows "ep_workers b' ! w = Idle \<and> ep_store b' ! p = (ep_store b ! p)\<lparr>ec_out := ec_out (ep_store b ! p) @ q\<rparr>"
  using assms(1-4) unfolding b'_def
proof (induction q arbitrary: b)
  case (Cons d rest)
  let ?b = "runWorker_turn (WritesNext True) w b"
  have b: "?b = set_worker w (if rest = [] then Idle else Flushing p rest) (ec_put p ((ep_store b ! p)\<lparr>ec_out := ec_out (ep_store b ! p) @ [d]\<rparr>) b)"
    using Cons.prems by (simp add: runWorker_turn_def flush_write_def Let_def)
  show ?case
  proof (cases "rest = []")
    case True
    with b Cons.prems show ?thesis by (simp add: set_worker_def ec_put_def)
  next
    case False
    with Cons.IH [of ?b] b Cons.prems show ?thesis by (simp add: set_worker_def ec_put_def)
  qed
qed simp

text \<open>Examples: a connection of descriptor 7, two broadcasts, one worker taking each.\<close>

definition conn7 :: net_conn where "conn7 = \<lparr>nc_raw = True, nc_fd = 7\<rparr>"

definition overtaking :: "epoll_action list" where
  "overtaking = [Casts (\<lambda>_. True) [1], Works (Event 7 True) 0, Casts (\<lambda>_. True) [2], Works (Event 7 True) 1, Works (WritesNext True) 1, Works (WritesNext True) 0]"

definition in_turn :: "epoll_action list" where
  "in_turn = [Casts (\<lambda>_. True) [1], Works (Event 7 True) 0, Casts (\<lambda>_. True) [2], Works (WritesNext True) 0, Works (Event 7 True) 0, Works (WritesNext True) 0]"

text \<open>Property C37. Whatever the workers and the callers do and in whatever order, a connection that is still registered has had every payload broadcast since its
  \<open>Add\<close> counted exactly once: it has been written to the socket, or a worker has taken it and is about to write it, or it is pending. When no worker is
  writing to it and nothing is pending, the socket has got each of them once.\<close>

theorem epoll_exactly_once:
  fixes before after :: "epoll_action list"
  assumes "range_order ord" and "NewEpollBroadcaster creates n = Inr b0" and "nc_raw c"
  defines "b1 \<equiv> epoll_run ord b0 before"
  defines "p \<equiv> length (ep_store b1)"
  defines "b2 \<equiv> epoll_run ord (snd (Epoll_Add True True True c b1)) after"
  assumes "registered p b2"
  shows "mset (ec_out (ep_store b2 ! p) @ concat (map (taken p) (ep_workers b2)) @ ec_pending (ep_store b2 ! p)) = mset (casts_of after) \<and>
    (ec_pending (ep_store b2 ! p) = [] \<and> (\<forall>q. Flushing p q \<notin> set (ep_workers b2)) \<longrightarrow> mset (ec_out (ep_store b2 ! p)) = mset (casts_of after))"
proof -
  have m: "mset (accounted p b2) = mset (casts_of after)"
    using added_accounts [OF assms(1-3), of before after] assms(7) by (simp add: b1_def b2_def p_def)
  then show ?thesis by (auto simp: accounted_def dest!: none_taken)
qed

theorem epoll_exactly_once_witness:
  "mset (ec_out (ep_store (epoll_run (\<lambda>xs. xs) (snd (Epoll_Add True True True conn7
      \<lparr>ep_fds = [], ep_store = [], ep_workers = [Idle, Idle], ep_stop = False, ep_open = True\<rparr>)) overtaking) ! 0)) = {#[1], [2]#}"
proof -
  let ?b0 = "\<lparr>ep_fds = [], ep_store = [], ep_workers = [Idle, Idle], ep_stop = False, ep_open = True\<rparr>"
  have n: "NewEpollBroadcaster True 2 = Inr ?b0" by (simp add: NewEpollBroadcaster_def numeral_2_eq_2)
  note defs = epoll_ops conn7_def overtaking_def registered_def runWorker_turn_def Epoll_Broadcast_def sm_values_def sm_Load_def sm_Store_def
  show ?thesis
    using epoll_exactly_once [OF range_order_id n, of conn7 "[]" overtaking] by (simp add: defs)
qed

text \<open>An event for a writable socket makes an idle worker write everything pending for it, in order, when the writes succeed: the worker ends idle
  and nothing of it stays pending.\<close>

lemma epoll_event_flushes:
  fixes ord :: epoll_order
  assumes "epoll_wf b" and "w < length (ep_workers b)" and "ep_workers b ! w = Idle" and "sm_Load (ep_fds b) fd = Some p"
  defines "b' \<equiv> epoll_run ord b (Works (Event fd True) w # replicate (length (ec_pending (ep_store b ! p))) (Works (WritesNext True) w))"
  shows "ep_store b' ! p = (ep_store b ! p)\<lparr>ec_pending := [], ec_out := ec_out (ep_store b ! p) @ ec_pending (ep_store b ! p)\<rparr> \<and> ep_workers b' ! w = Idle"
proof (cases "ec_pending (ep_store b ! p) = []")
  case True
  with assms load_fd [OF assms(1,4)] show ?thesis by (simp add: b'_def runWorker_turn_def flush_begin_def Let_def)
next
  case False
  let ?b = "flush_begin w p b"
  have b: "?b = set_worker w (Flushing p (ec_pending (ep_store b ! p))) (ec_put p ((ep_store b ! p)\<lparr>ec_pending := []\<rparr>) b)"
    using False load_fd [OF assms(1,4)] by (simp add: flush_begin_def Let_def)
  have "runWorker_turn (Event fd True) w b = ?b" using assms by (simp add: runWorker_turn_def)
  with writes_all [of w ?b p "ec_pending (ep_store b ! p)" ord] b False assms load_fd [OF assms(1,4)] show ?thesis
    by (simp add: b'_def set_worker_def ec_put_def)
qed

text \<open>Property C38. With one worker a connection gets the payloads in the order they were broadcast; with two it may not: the second worker takes and writes a
  later payload while the first still holds an earlier one.\<close>

theorem epoll_order_needs_one_worker:
  "(\<forall>ord creates b0 c before after. range_order ord \<and> NewEpollBroadcaster creates 1 = Inr b0 \<and> nc_raw c \<longrightarrow>
      (let b1 = epoll_run ord b0 before; p = length (ep_store b1); b2 = epoll_run ord (snd (Epoll_Add True True True c b1)) after in
       registered p b2 \<longrightarrow> ec_out (ep_store b2 ! p) @ concat (map (taken p) (ep_workers b2)) @ ec_pending (ep_store b2 ! p) = casts_of after)) \<and>
   (\<exists>b0. NewEpollBroadcaster True 2 = Inr b0 \<and> casts_of overtaking = [[1], [2]] \<and>
      ec_out (ep_store (epoll_run (\<lambda>xs. xs) (snd (Epoll_Add True True True conn7 b0)) overtaking) ! 0) = [[2], [1]])"
proof (intro conjI allI impI)
  fix ord :: epoll_order and creates b0 and c :: net_conn and before after
  assume a: "range_order ord \<and> NewEpollBroadcaster creates 1 = Inr b0 \<and> nc_raw c"
  show "let b1 = epoll_run ord b0 before; p = length (ep_store b1); b2 = epoll_run ord (snd (Epoll_Add True True True c b1)) after in
       registered p b2 \<longrightarrow> ec_out (ep_store b2 ! p) @ concat (map (taken p) (ep_workers b2)) @ ec_pending (ep_store b2 ! p) = casts_of after"
    unfolding Let_def
  proof
    assume "registered (length (ep_store (epoll_run ord b0 before))) (epoll_run ord (snd (Epoll_Add True True True c (epoll_run ord b0 before))) after)"
    from added_accounts [OF conjunct1 [OF a] conjunct1 [OF conjunct2 [OF a]] conjunct2 [OF conjunct2 [OF a]] this]
    show "ec_out (ep_store (epoll_run ord (snd (Epoll_Add True True True c (epoll_run ord b0 before))) after) ! length (ep_store (epoll_run ord b0 before))) @
      concat (map (taken (length (ep_store (epoll_run ord b0 before)))) (ep_workers (epoll_run ord (snd (Epoll_Add True True True c (epoll_run ord b0 before))) after))) @
      ec_pending (ep_store (epoll_run ord (snd (Epoll_Add True True True c (epoll_run ord b0 before))) after) ! length (ep_store (epoll_run ord b0 before))) = casts_of after"
      unfolding accounted_def by simp
  qed
next
  let ?b0 = "\<lparr>ep_fds = [], ep_store = [], ep_workers = [Idle, Idle], ep_stop = False, ep_open = True\<rparr>"
  note defs = epoll_ops conn7_def overtaking_def runWorker_turn_def Epoll_Broadcast_def sm_values_def sm_Load_def sm_Store_def
  have "NewEpollBroadcaster True 2 = Inr ?b0" by (simp add: NewEpollBroadcaster_def numeral_2_eq_2)
  moreover have "casts_of overtaking = [[1], [2]]" by (simp add: overtaking_def)
  moreover have "ec_out (ep_store (epoll_run (\<lambda>xs. xs) (snd (Epoll_Add True True True conn7 ?b0)) overtaking) ! 0) = [[2], [1]]"
    by (simp add: defs)
  ultimately show "\<exists>b0. NewEpollBroadcaster True 2 = Inr b0 \<and> casts_of overtaking = [[1], [2]] \<and>
      ec_out (ep_store (epoll_run (\<lambda>xs. xs) (snd (Epoll_Add True True True conn7 b0)) overtaking) ! 0) = [[2], [1]]"
    by (intro exI conjI)
qed

theorem epoll_order_needs_one_worker_witness:
  "ec_out (ep_store (epoll_run (\<lambda>xs. xs) (snd (Epoll_Add True True True conn7
      \<lparr>ep_fds = [], ep_store = [], ep_workers = [Idle], ep_stop = False, ep_open = True\<rparr>)) in_turn) ! 0) = casts_of in_turn"
proof -
  let ?b0 = "\<lparr>ep_fds = [], ep_store = [], ep_workers = [Idle], ep_stop = False, ep_open = True\<rparr>"
  let ?b2 = "epoll_run (\<lambda>xs. xs) (snd (Epoll_Add True True True conn7 ?b0)) in_turn"
  have n: "NewEpollBroadcaster True 1 = Inr ?b0" by (simp add: NewEpollBroadcaster_def)
  note defs = epoll_ops conn7_def in_turn_def registered_def runWorker_turn_def Epoll_Broadcast_def sm_values_def sm_Load_def sm_Store_def
  have r: "registered 0 ?b2" and t: "concat (map (taken 0) (ep_workers ?b2)) = []" and e: "ec_pending (ep_store ?b2 ! 0) = []" by (simp_all add: defs)
  have "nc_raw conn7" by (simp add: conn7_def)
  with n have "range_order (\<lambda>xs :: (int \<times> nat) list. xs) \<and> NewEpollBroadcaster True 1 = Inr ?b0 \<and> nc_raw conn7" by simp
  from conjunct1 [OF epoll_order_needs_one_worker, THEN spec, THEN spec, THEN spec, THEN spec, THEN spec, THEN spec, THEN mp, OF this, of "[]" in_turn] r
  have "ec_out (ep_store ?b2 ! 0) @ concat (map (taken 0) (ep_workers ?b2)) @ ec_pending (ep_store ?b2 ! 0) = casts_of in_turn"
    unfolding Let_def foldl.simps(1) EpollBroadcaster.select_convs list.size(3) by (rule mp)
  then show ?thesis unfolding t e by simp
qed

text \<open>A connection that does not implement the package's own \<open>rawConn\<close> is refused, and closing twice panics.\<close>

lemma epoll_add_needs_rawConn: "\<not> nc_raw c \<Longrightarrow> Epoll_Add sc ctl adds c b = (Some NotRaw, b)"
  by (simp add: Epoll_Add_def connFd_def)

lemma epoll_close_twice_panics: "Epoll_Close_stop b = Some b' \<Longrightarrow> Epoll_Close_stop b' = None"
  by (auto simp: Epoll_Close_stop_def split: if_splits)

lemma epoll_close_waits: "Epoll_Close_wait ok b \<noteq> None \<longleftrightarrow> (\<forall>w\<in>set (ep_workers b). w = Gone)"
  by (simp add: Epoll_Close_wait_def list_all_iff)

lemma epoll_len: "wf_sm (ep_fds b) \<Longrightarrow> range_order ord \<Longrightarrow> Epoll_Len ord b = card (dom (sm_Load (ep_fds b)))"
  using length_sm_values [of "ep_fds b" ord] by (simp add: Epoll_Len_def sm_values_def)

end
