(* ===== verification/Iou.thy ===== *)
theory Iou
  imports Epoll
begin

text \<open>
  The io_uring fan-out of \<^verbatim>\<open>internal/broadcast/iou.go\<close>: a submission ring and a completion ring shared with the kernel, filled in batches of
  at most 256 writes, with the epoll fan-out as the fallback when the rings cannot be set up.

  The memory shared with the kernel is the ring record; indices into it are 32-bit and wrap around. The kernel is a parameter: \<open>enter\<close> stands for the
  system call \<open>io_uring_enter\<close>, which may change the kernel's state and the shared memory, and returns the
  number of entries it has taken, which may be smaller than the number asked for, and an error number, 0 for success.
\<close>

section \<open>The rings\<close>

definition iouRingSize :: nat where "iouRingSize = 256"
definition iouOpWrite :: u8 where "iouOpWrite = 23"
definition iouEnterGetEvents :: u32 where "iouEnterGetEvents = 4"

record iouSQE =
  opcode :: u8
  sqe_flags :: u8
  ioprio :: u16
  sqe_fd :: u32        \<comment> \<open>\<open>int32\<close>\<close>
  off :: u64
  addr :: u64
  sqe_len :: u32
  opFlags :: u32
  userData :: u64

record iouCQE =
  cqe_userData :: u64
  res :: u32           \<comment> \<open>\<open>int32\<close>\<close>
  cqe_flags :: u32

record iouRing =
  ring_fd :: int
  sqHead :: u32
  sqTail :: u32
  sqMask :: u32
  sqArray :: "u32 list"
  sqEntries :: "iouSQE list"
  cqHead :: u32
  cqTail :: u32
  cqMask :: u32
  cqEntries :: "iouCQE list"
  sqMmapBase :: u64
  sqMmapSize :: u64
  cqMmapBase :: u64
  cqMmapSize :: u64
  ring_sqeMmap :: u64
  sqeMmapSz :: u64

datatype iou_error = SetupErr u32 | MmapSQ u32 | MmapSQE u32 | MmapCQ u32 | EnterErr u32 | WriteErr u64 u32 | Fallback epoll_error | ExtractFd epoll_error | EpollErr epoll_error | CloseRing

text \<open>A slice of payload bytes lies at an address; \<open>&payload[0]\<close> of an empty slice panics.\<close>

record payload = at_addr :: u64   p_data :: bytes

definition write_sqe :: "payload \<Rightarrow> int \<Rightarrow> iouSQE" where
  "write_sqe p fd = \<lparr>opcode = iouOpWrite, sqe_flags = 0, ioprio = 0, sqe_fd = of_int fd, off = 0, addr = at_addr p, sqe_len = of_nat (length (p_data p)),
     opFlags = 0, userData = of_int fd\<rparr>"

text \<open>The loop that fills the slots, from its \<open>i\<close>-th turn.\<close>

fun fill_slots :: "payload \<Rightarrow> u32 \<Rightarrow> u32 \<Rightarrow> nat \<Rightarrow> int list \<Rightarrow> iouRing \<Rightarrow> iouRing option" where
  "fill_slots p sqTl msk i [] r = Some r"
| "fill_slots p sqTl msk i (fd # fds) r =
     (let idx = (sqTl + of_nat i) AND msk in
      if length (sqArray r) \<le> unat idx \<or> length (sqEntries r) \<le> unat idx \<or> p_data p = [] then None
      else fill_slots p sqTl msk (Suc i) fds
             (r\<lparr>sqArray := (sqArray r)[unat idx := idx], sqEntries := (sqEntries r)[unat idx := write_sqe p fd]\<rparr>))"

lemma distance_decreases: "h \<noteq> t \<Longrightarrow> unat (t - (h + 1)) < unat (t - h)" for h t :: u32
  using measure_unat [of "t - h"] by (simp add: diff_diff_eq)

text \<open>The drain of the completion ring.\<close>

function drain :: "iouCQE list \<Rightarrow> u32 \<Rightarrow> u32 \<Rightarrow> u32 \<Rightarrow> iou_error option \<Rightarrow> iou_error option option" where
  "drain es msk h t firstErr =
     (if h = t then Some firstErr
      else if length es \<le> unat (h AND msk) then None
      else let cqe = es ! unat (h AND msk) in
        drain es msk (h + 1) t (if sint (res cqe) < 0 \<and> firstErr = None then Some (WriteErr (cqe_userData cqe) (- res cqe)) else firstErr))"
  by pat_completeness auto

termination
  by (relation "measure (\<lambda>(es, msk, h, t, e). unat (t - h))") (simp_all add: distance_decreases)

declare drain.simps [simp del]

type_synonym 'k enter = "'k \<Rightarrow> iouRing \<Rightarrow> nat \<Rightarrow> nat \<Rightarrow> u32 \<Rightarrow> nat \<times> u32 \<times> 'k \<times> iouRing"

text \<open>The number of entries taken is not looked at.\<close>

definition submitBatch :: "'k enter \<Rightarrow> payload \<Rightarrow> int list \<Rightarrow> 'k \<Rightarrow> iouRing \<Rightarrow> (iou_error option \<times> 'k \<times> iouRing) option" where
  "submitBatch enter p fds k r = do {
     r' \<leftarrow> fill_slots p (sqTail r) (sqMask r) 0 fds r;
     let n = length fds;
     let (_, errno, k', r'') = enter k (r'\<lparr>sqTail := sqTail r + of_nat n\<rparr>) n n iouEnterGetEvents;
     if errno \<noteq> 0 then Some (Some (EnterErr errno), k', r'')
     else do {
       err \<leftarrow> drain (cqEntries r'') (cqMask r'') (cqHead r'') (cqTail r'') None;
       Some (err, k', r''\<lparr>cqHead := cqTail r''\<rparr>) } }"

section \<open>The broadcaster\<close>

record IOUringBroadcaster =
  io_ring :: "iouRing option"
  io_epoll :: "EpollBroadcaster option"
  io_useRing :: bool
  io_fds :: "(int, net_conn) syncmap"
  io_connFDs :: "int list"

definition NewIOUringBroadcaster :: "(iou_error + iouRing) \<Rightarrow> bool \<Rightarrow> nat \<Rightarrow> iou_error + IOUringBroadcaster" where
  "NewIOUringBroadcaster setup creates numCPU = (case setup of
     Inl err \<Rightarrow> (case NewEpollBroadcaster creates numCPU of
         Inl epErr \<Rightarrow> Inl (Fallback epErr)
       | Inr ep \<Rightarrow> Inr \<lparr>io_ring = None, io_epoll = Some ep, io_useRing = False, io_fds = [], io_connFDs = []\<rparr>)
   | Inr ring \<Rightarrow> Inr \<lparr>io_ring = Some ring, io_epoll = None, io_useRing = True, io_fds = [], io_connFDs = []\<rparr>)"

text \<open>A call through a nil \<open>ring\<close> or \<open>epoll\<close> panics.\<close>

definition via_epoll :: "(EpollBroadcaster \<Rightarrow> epoll_error option \<times> EpollBroadcaster) \<Rightarrow> IOUringBroadcaster \<Rightarrow> (iou_error option \<times> IOUringBroadcaster) option" where
  "via_epoll f b = do { ep \<leftarrow> io_epoll b; let (err, ep') = f ep; Some (map_option EpollErr err, b\<lparr>io_epoll := Some ep'\<rparr>) }"

definition Iou_Add :: "bool \<Rightarrow> bool \<Rightarrow> bool \<Rightarrow> net_conn \<Rightarrow> IOUringBroadcaster \<Rightarrow> (iou_error option \<times> IOUringBroadcaster) option" where
  "Iou_Add sc ctl adds c b =
     (if \<not> io_useRing b then via_epoll (Epoll_Add sc ctl adds c) b
      else case connFd sc ctl c of
        Inl err \<Rightarrow> Some (Some (ExtractFd err), b)
      | Inr fd \<Rightarrow> Some (None, b\<lparr>io_fds := sm_Store (io_fds b) fd c, io_connFDs := io_connFDs b @ [fd]\<rparr>))"

text \<open>The removal loop: the first occurrence is overwritten by the last element, which is cut off.\<close>

function swap_remove :: "int \<Rightarrow> nat \<Rightarrow> int list \<Rightarrow> int list" where
  "swap_remove fd i fds =
     (if length fds \<le> i then fds
      else if fds ! i = fd then butlast (fds[i := last fds])
      else swap_remove fd (Suc i) fds)"
  by pat_completeness auto

termination
  by (relation "measure (\<lambda>(fd, i, fds). length fds - i)") auto

declare swap_remove.simps [simp del]

definition Iou_Remove :: "bool \<Rightarrow> int \<Rightarrow> IOUringBroadcaster \<Rightarrow> (iou_error option \<times> IOUringBroadcaster) option" where
  "Iou_Remove dels fd b =
     (if \<not> io_useRing b then via_epoll (Epoll_Remove dels fd) b
      else Some (None, b\<lparr>io_fds := sm_Delete (io_fds b) fd, io_connFDs := swap_remove fd 0 (io_connFDs b)\<rparr>))"

text \<open>The loop over the batches, from \<open>start\<close>.\<close>

function submit_from :: "'k enter \<Rightarrow> payload \<Rightarrow> int list \<Rightarrow> nat \<Rightarrow> iou_error option \<Rightarrow> 'k \<Rightarrow> iouRing \<Rightarrow> (iou_error option \<times> 'k \<times> iouRing) option" where
  "submit_from enter p fds start firstErr k r =
     (if length fds \<le> start then Some (firstErr, k, r)
      else do {
        let stop = (if length fds < start + iouRingSize then length fds else start + iouRingSize);
        batch \<leftarrow> subslice fds start stop;
        (err, k', r') \<leftarrow> submitBatch enter p batch k r;
        submit_from enter p fds (start + iouRingSize) (if err \<noteq> None \<and> firstErr = None then err else firstErr) k' r' })"
  by pat_completeness auto

termination
  by (relation "measure (\<lambda>(enter, p, fds, start, e, k, r). length fds - start)") (auto simp: iouRingSize_def)

declare submit_from.simps [simp del]

definition Iou_Broadcast :: "'k enter \<Rightarrow> epoll_order \<Rightarrow> (int \<Rightarrow> bool) \<Rightarrow> payload \<Rightarrow> 'k \<Rightarrow> IOUringBroadcaster \<Rightarrow> (iou_error option \<times> 'k \<times> IOUringBroadcaster) option" where
  "Iou_Broadcast enter ord mods p k b =
     (if \<not> io_useRing b then do { (err, b') \<leftarrow> via_epoll (Epoll_Broadcast ord mods (p_data p)) b; Some (err, k, b') }
      else if io_connFDs b = [] then Some (None, k, b)
      else do {
        ring \<leftarrow> io_ring b;
        (err, k', ring') \<leftarrow> submit_from enter p (io_connFDs b) 0 None k ring;
        Some (err, k', b\<lparr>io_ring := Some ring'\<rparr>) })"

definition Iou_Len :: "((int \<times> net_conn) list \<Rightarrow> (int \<times> net_conn) list) \<Rightarrow> epoll_order \<Rightarrow> IOUringBroadcaster \<Rightarrow> nat option" where
  "Iou_Len ord eord b = (if \<not> io_useRing b then map_option (Epoll_Len eord) (io_epoll b) else Some (length (ord (io_fds b))))"

section \<open>Set-up and tear-down\<close>

text \<open>The sizes the kernel reports, and the calls that give resources back. A mapping is given back as a slice of an array of \<open>2^30\<close> bytes at its address:
  a nil address or a larger size panics.\<close>

record iouParams =
  p_sqEntries :: u32
  p_cqEntries :: u32
  sqOff_array :: u32
  cqOff_cqes :: u32

datatype release = Munmap u64 u64 | CloseFd int

definition unmap :: "u64 \<Rightarrow> u64 \<Rightarrow> release option" where
  "unmap base sz = (if base = 0 \<or> 2 ^ 30 < unat sz then None else Some (Munmap base sz))"

definition sqeMmap :: u64 where "sqeMmap = 0"   \<comment> \<open>the package variable, never assigned\<close>

text \<open>The four system calls give an error number or, the first, a descriptor with the parameters and the shared memory as the kernel initialises it,
  the others an address. The result: a panic, or the outcome of the call with the resources given back on the way.\<close>

definition setupIOURing :: "u32 + int \<times> iouParams \<times> iouRing \<Rightarrow> u32 + u64 \<Rightarrow> u32 + u64 \<Rightarrow> u32 + u64 \<Rightarrow> ((iou_error + iouRing) \<times> release list) option" where
  "setupIOURing setup mSQ mSQE mCQ = (case setup of
     Inl errno \<Rightarrow> Some (Inl (SetupErr errno), [])
   | Inr (fd, ps, shared) \<Rightarrow>
       let sqSize = ucast (sqOff_array ps) + ucast (p_sqEntries ps) * 4 in
       case mSQ of
         Inl errno \<Rightarrow> Some (Inl (MmapSQ errno), [CloseFd fd])
       | Inr sqBase \<Rightarrow>
           let sqeSize = ucast (p_sqEntries ps) * 64 in
           case mSQE of
             Inl errno \<Rightarrow> do { u \<leftarrow> unmap sqBase sqSize; Some (Inl (MmapSQE errno), [u, CloseFd fd]) }
           | Inr sqeBase \<Rightarrow>
               let cqSize = ucast (cqOff_cqes ps) + ucast (p_cqEntries ps) * 16 in
               case mCQ of
                 Inl errno \<Rightarrow> do { u \<leftarrow> unmap sqeMmap sqeSize; v \<leftarrow> unmap sqBase sqSize; Some (Inl (MmapCQ errno), [u, v, CloseFd fd]) }
               | Inr cqBase \<Rightarrow>
                   Some (Inr (shared\<lparr>ring_fd := fd, sqMmapBase := sqBase, sqMmapSize := sqSize, cqMmapBase := cqBase, cqMmapSize := cqSize,
                     ring_sqeMmap := sqeBase, sqeMmapSz := sqeSize\<rparr>), []))"

definition teardownIOURing :: "iouRing option \<Rightarrow> release list option" where
  "teardownIOURing ring = (case ring of
     None \<Rightarrow> Some []
   | Some r \<Rightarrow> do {
       cq \<leftarrow> (if cqMmapBase r \<noteq> 0 then do { u \<leftarrow> unmap (cqMmapBase r) (cqMmapSize r); Some [u] } else Some []);
       sqe \<leftarrow> (if ring_sqeMmap r \<noteq> 0 then do { u \<leftarrow> unmap (ring_sqeMmap r) (sqeMmapSz r); Some [u] } else Some []);
       sq \<leftarrow> (if sqMmapBase r \<noteq> 0 then do { u \<leftarrow> unmap (sqMmapBase r) (sqMmapSize r); Some [u] } else Some []);
       Some (cq @ sqe @ sq @ [CloseFd (ring_fd r)]) })"

text \<open>\<open>Close\<close>: the resources given back, or the fallback told to stop (its \<open>Close\<close> then waits for the workers).\<close>

definition Iou_Close :: "IOUringBroadcaster \<Rightarrow> (release list + EpollBroadcaster) option" where
  "Iou_Close b =
     (if \<not> io_useRing b then do { ep \<leftarrow> io_epoll b; ep' \<leftarrow> Epoll_Close_stop ep; Some (Inr ep') }
      else map_option Inl (teardownIOURing (io_ring b)))"

section \<open>Slots under wrap-around\<close>

definition ring_ok :: "iouRing \<Rightarrow> bool" where
  "ring_ok r \<longleftrightarrow> sqMask r = 255 \<and> length (sqArray r) = iouRingSize \<and> length (sqEntries r) = iouRingSize \<and> unat (cqMask r) < length (cqEntries r)"

abbreviation slot :: "u32 \<Rightarrow> nat \<Rightarrow> nat" where
  "slot t i \<equiv> (unat t + i) mod 256"

lemma unat_and_255: "unat ((t + of_nat i) AND 255) = slot t i" for t :: u32
proof -
  have "(t + of_nat i) AND 255 = take_bit 8 (t + of_nat i)" by (simp add: take_bit_eq_mask mask_eq_exp_minus_1)
  then have "unat ((t + of_nat i) AND 255) = unat (t + of_nat i) mod 256" by (simp add: take_bit_eq_mod unat_mod)
  also have "unat (t + of_nat i) = (unat t + i) mod 2 ^ 32" by (simp add: unat_word_ariths unat_of_nat mod_simps)
  finally show ?thesis by (simp add: mod_mod_cancel)
qed

lemma slot_inj: "i < 256 \<Longrightarrow> j < 256 \<Longrightarrow> slot t i = slot t j \<Longrightarrow> i = j"
  using mod_eq_close [of "unat t + i" 256 "unat t + j"] by simp

text \<open>The write the kernel finds \<open>i\<close> places behind a position.\<close>

definition published :: "iouRing \<Rightarrow> u32 \<Rightarrow> nat \<Rightarrow> iouSQE" where
  "published r t i = sqEntries r ! unat (sqArray r ! unat ((t + of_nat i) AND sqMask r))"

lemma fill_slots_ok:
  assumes "ring_ok r" and "p_data p \<noteq> []" and "i + length fds \<le> 256"
  shows "\<exists>r'. fill_slots p t 255 i fds r = Some r' \<and> r' = r\<lparr>sqArray := sqArray r', sqEntries := sqEntries r'\<rparr> \<and> ring_ok r' \<and>
    (\<forall>k<length fds. sqArray r' ! slot t (i + k) = of_nat (slot t (i + k)) \<and> sqEntries r' ! slot t (i + k) = write_sqe p (fds ! k)) \<and>
    (\<forall>s<256. (\<forall>k<length fds. s \<noteq> slot t (i + k)) \<longrightarrow> sqArray r' ! s = sqArray r ! s \<and> sqEntries r' ! s = sqEntries r ! s)"
  using assms
proof (induction fds arbitrary: i r)
  case (Cons fd fds)
  let ?s = "slot t i" and ?w = "(t + of_nat i) AND 255"
  let ?r = "r\<lparr>sqArray := (sqArray r)[?s := ?w], sqEntries := (sqEntries r)[?s := write_sqe p fd]\<rparr>"
  have ok: "ring_ok ?r" using Cons.prems(1) by (simp add: ring_ok_def)
  have w: "?w = of_nat ?s" by (simp flip: unat_and_255)
  have lt: "\<not> 256 \<le> ?s" by (simp add: not_le)
  have step: "fill_slots p t 255 i (fd # fds) r = fill_slots p t 255 (Suc i) fds ?r"
    using Cons.prems lt by (simp add: ring_ok_def iouRingSize_def unat_and_255 Let_def del: not_le)
  from Cons.IH [OF ok Cons.prems(2), of "Suc i"] Cons.prems(3) obtain r' where
    r': "fill_slots p t 255 (Suc i) fds ?r = Some r'" "r' = ?r\<lparr>sqArray := sqArray r', sqEntries := sqEntries r'\<rparr>" "ring_ok r'"
    and new: "\<forall>k<length fds. sqArray r' ! slot t (Suc i + k) = of_nat (slot t (Suc i + k)) \<and> sqEntries r' ! slot t (Suc i + k) = write_sqe p (fds ! k)"
    and old: "\<forall>s<256. (\<forall>k<length fds. s \<noteq> slot t (Suc i + k)) \<longrightarrow> sqArray r' ! s = sqArray ?r ! s \<and> sqEntries r' ! s = sqEntries ?r ! s"
    by auto
  have len: "length (sqArray r) = 256" "length (sqEntries r) = 256" using Cons.prems(1) by (simp_all add: ring_ok_def iouRingSize_def)
  have fresh: "?s \<noteq> slot t (Suc i + k)" if "k < length fds" for k
    using slot_inj [of i "Suc i + k" t] Cons.prems(3) that by auto
  have first: "sqArray r' ! ?s = of_nat ?s \<and> sqEntries r' ! ?s = write_sqe p fd"
    using old [rule_format, of ?s] fresh len w by simp
  have "sqArray r' ! slot t (i + k) = of_nat (slot t (i + k)) \<and> sqEntries r' ! slot t (i + k) = write_sqe p ((fd # fds) ! k)"
    if "k < length (fd # fds)" for k
    using first new [rule_format, of "k - 1"] that by (cases k) auto
  moreover have "sqArray r' ! s = sqArray r ! s \<and> sqEntries r' ! s = sqEntries r ! s"
    if s: "s < 256" and a: "\<forall>k<length (fd # fds). s \<noteq> slot t (i + k)" for s
  proof -
    have "s \<noteq> ?s" using a [rule_format, of 0] by simp
    moreover have "\<forall>k<length fds. s \<noteq> slot t (Suc i + k)" using a [rule_format, of "Suc _"] by simp
    ultimately show ?thesis using old [rule_format, OF s] by simp
  qed
  moreover have "r' = r\<lparr>sqArray := sqArray r', sqEntries := sqEntries r'\<rparr>" using r'(2) by simp
  ultimately show ?case using step r'(1,3) by auto
qed simp

section \<open>The submission ring as a queue\<close>

text \<open>The ring between head and tail represents a queue of writes; filling the slots behind the tail appends to it.\<close>

definition holds :: "iouRing \<Rightarrow> iouSQE list \<Rightarrow> bool" where
  "holds r q \<longleftrightarrow> length q \<le> 256 \<and> sqTail r = sqHead r + of_nat (length q) \<and>
     (\<forall>i<length q. sqArray r ! slot (sqHead r) i = of_nat (slot (sqHead r) i) \<and> sqEntries r ! slot (sqHead r) i = q ! i)"

lemma slot_add: "slot (h + of_nat m) k = slot h (m + k)"
proof -
  have "unat (h + of_nat m) mod 256 = (unat h + m) mod 256"
    by (simp add: unat_word_ariths unat_of_nat mod_simps mod_mod_cancel)
  then show ?thesis by (metis add.assoc mod_add_left_eq)
qed

lemma holds_fill:
  assumes "ring_ok r" and "holds r q" and "p_data p \<noteq> []" and "length q + length fds \<le> 256"
  shows "\<exists>r'. fill_slots p (sqTail r) (sqMask r) 0 fds r = Some r' \<and> r' = r\<lparr>sqArray := sqArray r', sqEntries := sqEntries r'\<rparr> \<and> ring_ok r' \<and>
    holds (r'\<lparr>sqTail := sqTail r + of_nat (length fds)\<rparr>) (q @ map (write_sqe p) fds)"
proof -
  let ?h = "sqHead r"
  have t: "sqTail r = ?h + of_nat (length q)" using assms(2) by (simp add: holds_def)
  from fill_slots_ok [OF assms(1,3), of 0 fds "sqTail r"] assms(4) obtain r' where
    r': "fill_slots p (sqTail r) 255 0 fds r = Some r'" "r' = r\<lparr>sqArray := sqArray r', sqEntries := sqEntries r'\<rparr>" "ring_ok r'"
    and new: "\<forall>k<length fds. sqArray r' ! slot (sqTail r) k = of_nat (slot (sqTail r) k) \<and> sqEntries r' ! slot (sqTail r) k = write_sqe p (fds ! k)"
    and old: "\<forall>s<256. (\<forall>k<length fds. s \<noteq> slot (sqTail r) k) \<longrightarrow> sqArray r' ! s = sqArray r ! s \<and> sqEntries r' ! s = sqEntries r ! s"
    by auto
  have h: "sqHead r' = ?h" by (subst r'(2)) simp
  have "sqArray r' ! slot ?h i = of_nat (slot ?h i) \<and> sqEntries r' ! slot ?h i = (q @ map (write_sqe p) fds) ! i" if i: "i < length q + length fds" for i
  proof (cases "i < length q")
    case True
    have "slot ?h i \<noteq> slot (sqTail r) k" if "k < length fds" for k
      using slot_inj [of i "length q + k" ?h] True that assms(4) unfolding t slot_add by auto
    then show ?thesis using old [rule_format, of "slot ?h i"] True assms(2) by (simp add: holds_def nth_append)
  next
    case False
    then have "slot ?h i = slot (sqTail r) (i - length q)" unfolding t slot_add by simp
    then show ?thesis using new [rule_format, of "i - length q"] False i by (simp add: nth_append)
  qed
  then have "holds (r'\<lparr>sqTail := sqTail r + of_nat (length fds)\<rparr>) (q @ map (write_sqe p) fds)"
    using assms(4) by (simp add: holds_def h t add.assoc)
  moreover have "sqMask r = 255" using assms(1) by (simp add: ring_ok_def)
  ultimately show ?thesis using r' by auto
qed

text \<open>What is relied on of the kernel, as \<^verbatim>\<open>io_uring_enter(2)\<close> documents it: a call that asks for no more writes than are published takes some of them, at most
  as many as it is asked for, executes these in ring order and advances the head past them; a failed call takes none. The kernel changes nothing else of the
  submission side, and keeps the size of the completion ring.\<close>

definition kernel_executes :: "'k enter \<Rightarrow> ('k \<Rightarrow> iouSQE list) \<Rightarrow> bool" where
  "kernel_executes enter executed \<longleftrightarrow> (\<forall>k r n m fl c errno k' r'. n \<le> unat (sqTail r - sqHead r) \<and> enter k r n m fl = (c, errno, k', r') \<longrightarrow>
     c \<le> n \<and> (errno \<noteq> 0 \<longrightarrow> c = 0) \<and>
     executed k' = executed k @ map (published r (sqHead r)) [0..<c] \<and> sqHead r' = sqHead r + of_nat c \<and>
     sqTail r' = sqTail r \<and> sqMask r' = sqMask r \<and> sqArray r' = sqArray r \<and> sqEntries r' = sqEntries r \<and>
     cqMask r' = cqMask r \<and> length (cqEntries r') = length (cqEntries r))"

text \<open>A successful call may moreover take everything it is asked for, and calls may never fail.\<close>

definition takes_all :: "'k enter \<Rightarrow> bool" where
  "takes_all enter \<longleftrightarrow> (\<forall>k r n m fl. case enter k r n m fl of (c, errno, _) \<Rightarrow> errno = 0 \<longrightarrow> c = n)"

definition never_fails :: "'k enter \<Rightarrow> bool" where
  "never_fails enter \<longleftrightarrow> (\<forall>k r n m fl. fst (snd (enter k r n m fl)) = 0)"

lemma holds_published:
  assumes "holds r q" and "ring_ok r" and "i < length q"
  shows "published r (sqHead r) i = q ! i"
proof -
  have "unat (of_nat (slot (sqHead r) i) :: u32) = slot (sqHead r) i"
    by (simp add: unat_of_nat)
  with assms show ?thesis by (simp add: published_def holds_def ring_ok_def unat_and_255)
qed

lemma enter_queue:
  assumes k: "kernel_executes enter executed" and e: "enter k r n m fl = (c, errno, k', r')" and q: "holds r q" and ok: "ring_ok r" and n: "n \<le> length q"
  shows "ring_ok r' \<and> c \<le> n \<and> (errno \<noteq> 0 \<longrightarrow> c = 0) \<and> executed k' = executed k @ take c q \<and> holds r' (drop c q)"
proof -
  have "sqTail r - sqHead r = of_nat (length q)" and "length q < 2 ^ 32" using q by (auto simp: holds_def)
  then have a: "n \<le> unat (sqTail r - sqHead r)" using n by (simp add: unat_of_nat)
  from k a e have c: "c \<le> n" "errno \<noteq> 0 \<longrightarrow> c = 0"
    and x: "executed k' = executed k @ map (published r (sqHead r)) [0..<c]" and h: "sqHead r' = sqHead r + of_nat c"
    and s: "sqTail r' = sqTail r" "sqMask r' = sqMask r" "sqArray r' = sqArray r" "sqEntries r' = sqEntries r" "cqMask r' = cqMask r" "length (cqEntries r') = length (cqEntries r)"
    unfolding kernel_executes_def by blast+
  have "map (published r (sqHead r)) [0..<c] = take c q"
    by (rule nth_equalityI) (use holds_published [OF q ok] n c(1) in auto)
  moreover have "holds r' (drop c q)"
    using q n c(1) unfolding holds_def h s slot_add by (auto simp: of_nat_diff)
  ultimately show ?thesis using c x ok s by (simp add: ring_ok_def)
qed

section \<open>Draining the completions\<close>

lemma unat_and_le: "unat (h AND m) \<le> unat m" for h m :: "'a::len word"
  using word_and_le1 [of h m] by (simp add: word_le_nat_alt and.commute)

definition completions :: "iouCQE list \<Rightarrow> u32 \<Rightarrow> u32 \<Rightarrow> u32 \<Rightarrow> iouCQE list" where
  "completions es msk h t = map (\<lambda>i. es ! unat ((h + of_nat i) AND msk)) [0..<unat (t - h)]"

definition first_failure :: "iouCQE list \<Rightarrow> iou_error option" where
  "first_failure cs = map_option (\<lambda>c. WriteErr (cqe_userData c) (- res c)) (List.find (\<lambda>c. sint (res c) < 0) cs)"

lemma completions_Cons:
  assumes "h \<noteq> t"
  shows "completions es msk h t = es ! unat (h AND msk) # completions es msk (h + 1) t"
proof -
  have "unat (t - h) = Suc (unat (t - (h + 1)))"
    using assms unat_minus_one [of "t - h"] unat_gt_0 [of "t - h"] by (simp add: diff_diff_eq)
  then show ?thesis
    by (simp add: completions_def upt_conv_Cons map_Suc_upt [symmetric] del: upt_Suc) (simp add: add.assoc)
qed

lemma drain_result:
  assumes "unat msk < length es"
  shows "drain es msk h t e = Some (if e = None then first_failure (completions es msk h t) else e)"
  using assms
proof (induction es msk h t e rule: drain.induct)
  case (1 es msk h t e)
  show ?case
  proof (cases "h = t")
    case True
    then show ?thesis by (simp add: drain.simps completions_def first_failure_def)
  next
    case False
    have "\<not> length es \<le> unat (h AND msk)" using unat_and_le [of h msk] "1.prems" by simp
    from "1.IH" [OF False this refl "1.prems"] False this show ?thesis
      by (auto simp: drain.simps [of es msk h t] completions_Cons first_failure_def Let_def)
  qed
qed

section \<open>Broadcasting\<close>

lemma submitBatch_queue:
  assumes k: "kernel_executes enter executed" and ok: "ring_ok r" and q: "holds r q" and p: "p_data p \<noteq> []" and n: "length q + length fds \<le> 256"
  shows "\<exists>err k' r' c. submitBatch enter p fds k r = Some (err, k', r') \<and> ring_ok r' \<and> c \<le> length fds \<and>
    executed k' = executed k @ take c (q @ map (write_sqe p) fds) \<and> holds r' (drop c (q @ map (write_sqe p) fds)) \<and>
    ((\<exists>e. err = Some (EnterErr e)) \<longrightarrow> c = 0) \<and> (takes_all enter \<and> (\<forall>e. err \<noteq> Some (EnterErr e)) \<longrightarrow> c = length fds) \<and>
    ((\<forall>r. fst (snd (enter k r (length fds) (length fds) iouEnterGetEvents)) = 0) \<longrightarrow> (\<forall>e. err \<noteq> Some (EnterErr e)))"
proof -
  from holds_fill [OF ok q p n] obtain r1 where f: "fill_slots p (sqTail r) (sqMask r) 0 fds r = Some r1" and "ring_ok r1"
    and h: "holds (r1\<lparr>sqTail := sqTail r + of_nat (length fds)\<rparr>) (q @ map (write_sqe p) fds)" by blast
  then have ok1: "ring_ok (r1\<lparr>sqTail := sqTail r + of_nat (length fds)\<rparr>)" by (simp add: ring_ok_def)
  obtain c errno k' r2 where e: "enter k (r1\<lparr>sqTail := sqTail r + of_nat (length fds)\<rparr>) (length fds) (length fds) iouEnterGetEvents = (c, errno, k', r2)"
    by (metis prod_cases4)
  have "length fds \<le> length (q @ map (write_sqe p) fds)" by simp
  from enter_queue [OF k e h ok1 this] have r2: "ring_ok r2" and c: "c \<le> length fds" "errno \<noteq> 0 \<longrightarrow> c = 0"
    and q2: "executed k' = executed k @ take c (q @ map (write_sqe p) fds)" "holds r2 (drop c (q @ map (write_sqe p) fds))" by blast+
  have full: "errno = 0 \<longrightarrow> c = length fds" if "takes_all enter"
  proof -
    have "case enter k (r1\<lparr>sqTail := sqTail r + of_nat (length fds)\<rparr>) (length fds) (length fds) iouEnterGetEvents of (c, errno, _) \<Rightarrow> errno = 0 \<longrightarrow> c = length fds"
      by (rule that [unfolded takes_all_def, THEN spec, THEN spec, THEN spec, THEN spec, THEN spec])
    then show ?thesis unfolding e by simp
  qed
  have none: "errno = 0" if "\<forall>r. fst (snd (enter k r (length fds) (length fds) iouEnterGetEvents)) = 0"
    using that [rule_format, of "r1\<lparr>sqTail := sqTail r + of_nat (length fds)\<rparr>"] unfolding e by simp
  have d: "drain (cqEntries r2) (cqMask r2) (cqHead r2) (cqTail r2) None = Some (first_failure (completions (cqEntries r2) (cqMask r2) (cqHead r2) (cqTail r2)))"
    using r2 by (simp add: drain_result ring_ok_def)
  have nf: "first_failure cs \<noteq> Some (EnterErr x)" for cs x by (auto simp: first_failure_def)
  show ?thesis
  proof (cases "errno = 0")
    case True
    with f e d have b: "submitBatch enter p fds k r = Some (first_failure (completions (cqEntries r2) (cqMask r2) (cqHead r2) (cqTail r2)), k', r2\<lparr>cqHead := cqTail r2\<rparr>)"
      by (simp add: submitBatch_def)
    have "ring_ok (r2\<lparr>cqHead := cqTail r2\<rparr>)" "holds (r2\<lparr>cqHead := cqTail r2\<rparr>) (drop c (q @ map (write_sqe p) fds))"
      using r2 q2(2) by (simp_all add: ring_ok_def holds_def)
    moreover have "takes_all enter \<longrightarrow> c = length fds" using full True by blast
    ultimately show ?thesis using b c(1) q2(1) nf by (intro exI conjI) (assumption, assumption, assumption, assumption, assumption, simp_all)
  next
    case False
    with f e have b: "submitBatch enter p fds k r = Some (Some (EnterErr errno), k', r2)" by (simp add: submitBatch_def)
    have "c = 0" "\<not> (\<forall>r. fst (snd (enter k r (length fds) (length fds) iouEnterGetEvents)) = 0)" using False c(2) none by blast+
    then show ?thesis using b c(1) q2 r2 by (intro exI conjI) (assumption, assumption, assumption, assumption, assumption, simp_all)
  qed
qed

lemma submit_from_all:
  assumes k: "kernel_executes enter executed" and all: "takes_all enter" "never_fails enter" and p: "p_data p \<noteq> []"
  shows "ring_ok r \<Longrightarrow> holds r [] \<Longrightarrow>
    \<exists>err k' r'. submit_from enter p fds start e k r = Some (err, k', r') \<and> executed k' = executed k @ map (write_sqe p) (drop start fds) \<and> ring_ok r' \<and> holds r' []"
proof (induction "length fds - start" arbitrary: start e k r rule: less_induct)
  case less
  show ?case
  proof (cases "length fds \<le> start")
    case True
    with less.prems show ?thesis by (simp add: submit_from.simps)
  next
    case False
    let ?stop = "if length fds < start + iouRingSize then length fds else start + iouRingSize"
    let ?batch = "take (?stop - start) (drop start fds)"
    have s: "subslice fds start ?stop = Some ?batch" using False by (auto simp: subslice_def)
    have len: "length ([] :: iouSQE list) + length ?batch \<le> 256" by (auto simp: iouRingSize_def)
    have rest: "?batch @ drop (start + iouRingSize) fds = drop start fds"
      by (cases "length fds < start + iouRingSize") (simp_all add: take_drop_chunk)
    from submitBatch_queue [OF k less.prems p len, of k] obtain err k' r' c where
      b: "submitBatch enter p ?batch k r = Some (err, k', r')" and ok: "ring_ok r'" and c: "c = length ?batch"
      and x0: "executed k' = executed k @ take c ([] @ map (write_sqe p) ?batch)" and h0: "holds r' (drop c ([] @ map (write_sqe p) ?batch))"
      using all unfolding never_fails_def by blast
    have x: "executed k' = executed k @ map (write_sqe p) ?batch" and h: "holds r' []" using x0 h0 unfolding c by simp_all
    have "length fds - (start + iouRingSize) < length fds - start" using False by (simp add: iouRingSize_def)
    from less.hyps [OF this ok h, of "if err \<noteq> None \<and> e = None then err else e" k'] obtain err2 k2 r2 where
      c: "submit_from enter p fds (start + iouRingSize) (if err \<noteq> None \<and> e = None then err else e) k' r' = Some (err2, k2, r2)"
      and x2: "executed k2 = executed k' @ map (write_sqe p) (drop (start + iouRingSize) fds)" and r2: "ring_ok r2 \<and> holds r2 []" by blast
    have "submit_from enter p fds start e k r = Some (err2, k2, r2)"
      using False s b c by (subst submit_from.simps) (simp add: Let_def)
    moreover have "executed k2 = executed k @ map (write_sqe p) (drop start fds)"
      using x x2 rest by (metis append.assoc map_append)
    ultimately show ?thesis using r2 by blast
  qed
qed

lemma single_batch:
  assumes "fds \<noteq> []" and "length fds \<le> 256"
  shows "submit_from enter p fds 0 None k r = submitBatch enter p fds k r"
proof -
  have s: "subslice fds 0 (if length fds < 0 + iouRingSize then length fds else 0 + iouRingSize) = Some fds"
    using assms(2) by (auto simp: subslice_def iouRingSize_def)
  have l: "\<not> length fds \<le> 0" using assms(1) by simp
  have last_turn: "submit_from enter p fds (0 + iouRingSize) e k' r' = Some (e, k', r')" for e k' r'
    using assms(2) by (simp add: submit_from.simps iouRingSize_def)
  show ?thesis
    unfolding submit_from.simps [of enter p fds 0] if_not_P [OF l] Let_def s last_turn
    by (cases "submitBatch enter p fds k r") (auto split: prod.splits)
qed

lemma mset_swap_remove_at: "fd \<notin> set (take i fds) \<Longrightarrow> mset (swap_remove fd i fds) = mset fds - {#fd#}"
proof (induction fd i fds rule: swap_remove.induct)
  case (1 fd i fds)
  show ?case
  proof (cases "length fds \<le> i \<or> fds ! i = fd")
    case False
    then have "fd \<notin> set (take (Suc i) fds)" using "1.prems" by (simp add: take_Suc_conv_app_nth not_le)
    with "1.IH" False show ?thesis by (simp add: swap_remove.simps [of fd i])
  next
    case True
    show ?thesis
    proof (cases "length fds \<le> i")
      case True
      with "1.prems" show ?thesis by (simp add: swap_remove.simps diff_single_trivial)
    next
      case False
      have "fds \<noteq> []" using False by auto
      then have l: "fds[i := last fds] \<noteq> []" "last (fds[i := last fds]) = last fds" by (simp_all add: last_conv_nth nth_update_if)
      have "mset (butlast (fds[i := last fds]) @ [last fds]) = mset (fds[i := last fds])"
        using append_butlast_last_id [OF l(1)] l(2) by simp
      then have "mset (fds[i := last fds]) = add_mset (last fds) (mset (butlast (fds[i := last fds])))" by simp
      then have "mset (butlast (fds[i := last fds])) = mset (fds[i := last fds]) - {#last fds#}" by simp
      with False True \<open>length fds \<le> i \<or> fds ! i = fd\<close> show ?thesis by (simp add: swap_remove.simps [of fd i] mset_update)
    qed
  qed
qed

lemma mset_swap_remove: "mset (swap_remove fd 0 fds) = mset fds - {#fd#}"
  by (simp add: mset_swap_remove_at)

text \<open>As long as no descriptor is added twice, the list and the map of the connections agree; a removal keeps that.\<close>

definition iou_agree :: "IOUringBroadcaster \<Rightarrow> bool" where
  "iou_agree b \<longleftrightarrow> wf_sm (io_fds b) \<and> distinct (io_connFDs b) \<and> set (io_connFDs b) = dom (sm_Load (io_fds b))"

lemma iou_add_agrees:
  assumes "iou_agree b" and "io_useRing b" and "sm_Load (io_fds b) (nc_fd c) = None" and "Iou_Add sc ctl adds c b = Some (err, b')"
  shows "iou_agree b'"
  using assms by (auto simp: iou_agree_def Iou_Add_def connFd_def sm_laws split: if_splits)

lemma iou_remove_agrees:
  assumes "iou_agree b" and "io_useRing b" and "Iou_Remove dels fd b = Some (err, b')"
  shows "iou_agree b'"
proof -
  have b': "io_fds b' = sm_Delete (io_fds b) fd" "io_connFDs b' = swap_remove fd 0 (io_connFDs b)"
    using assms(2,3) by (auto simp: Iou_Remove_def)
  have m: "mset (io_connFDs b') = mset (io_connFDs b) - {#fd#}" by (simp add: b' mset_swap_remove)
  have d: "distinct (io_connFDs b)" and wf: "wf_sm (io_fds b)" and s: "set (io_connFDs b) = dom (sm_Load (io_fds b))"
    using assms(1) by (simp_all add: iou_agree_def)
  have eq: "mset (io_connFDs b') = mset (remove1 fd (io_connFDs b))" using m by simp
  then have "distinct (io_connFDs b')" and "set (io_connFDs b') = set (io_connFDs b) - {fd}"
    using d mset_eq_imp_distinct_iff [OF eq] mset_eq_setD [OF eq] by (simp_all add: distinct_remove1)
  with wf s show ?thesis by (auto simp: iou_agree_def b' sm_laws wf_sm_Delete)
qed

text \<open>The kernels of the witnesses: one that takes what it is asked for, one that takes a single entry at a time, and one whose first call is interrupted.\<close>

definition plain_kernel :: "iouSQE list enter" where
  "plain_kernel k r n m fl = (n, 0, k @ map (published r (sqHead r)) [0..<n], r\<lparr>sqHead := sqHead r + of_nat n\<rparr>)"

definition short_kernel :: "iouSQE list enter" where
  "short_kernel k r n m fl = (let c = min 1 n in (c, 0, k @ map (published r (sqHead r)) [0..<c], r\<lparr>sqHead := sqHead r + of_nat c\<rparr>))"


lemma plain_kernel_executes: "kernel_executes plain_kernel (\<lambda>k. k)"
  by (simp add: kernel_executes_def plain_kernel_def)

lemma plain_kernel_takes_all: "takes_all plain_kernel" "never_fails plain_kernel"
  by (simp_all add: takes_all_def never_fails_def plain_kernel_def)

lemma short_kernel_executes: "kernel_executes short_kernel (\<lambda>k. k)"
  by (auto simp: kernel_executes_def short_kernel_def Let_def)



text \<open>A ring of the size the program asks for, whose indices are about to wrap around.\<close>

definition fresh_ring :: iouRing where
  "fresh_ring = \<lparr>ring_fd = 5, sqHead = - 1, sqTail = - 1, sqMask = 255, sqArray = replicate 256 0, sqEntries = replicate 256 (write_sqe \<lparr>at_addr = 0, p_data = []\<rparr> 0),
     cqHead = 0, cqTail = 0, cqMask = 511, cqEntries = replicate 512 \<lparr>cqe_userData = 0, res = 0, cqe_flags = 0\<rparr>,
     sqMmapBase = 4096, sqMmapSize = 1024, cqMmapBase = 8192, cqMmapSize = 8192, ring_sqeMmap = 65536, sqeMmapSz = 16384\<rparr>"

lemma fresh_ring_ok: "ring_ok fresh_ring" and fresh_ring_holds: "holds fresh_ring []"
  by (simp_all add: ring_ok_def fresh_ring_def iouRingSize_def holds_def)

lemma broadcast_one_batch:
  assumes "io_useRing b" and "io_ring b = Some r" and "io_connFDs b \<noteq> []" and "length (io_connFDs b) \<le> 256"
  shows "Iou_Broadcast enter ord mods p k b = map_option (\<lambda>(err, k', r'). (err, k', b\<lparr>io_ring := Some r'\<rparr>)) (submitBatch enter p (io_connFDs b) k r)"
  using assms by (cases "submitBatch enter p (io_connFDs b) k r") (auto simp: Iou_Broadcast_def single_batch)

text \<open>Property C39. What a broadcast of a non-empty payload over an active ring has the kernel do, wherever the 32-bit indices of the ring stand. Whatever the
  kernel does within its documentation (it may take fewer entries than it is asked for, or fail), as long as the writes \<open>q\<close> left in the ring and one per registered
  descriptor fit the 256 slots: the broadcast returns, and the writes executed, followed by those now left in the ring, are exactly the ones executed before, the
  left-overs and one write of the payload per registered descriptor, in order: none is lost, repeated or changed. With no left-overs and a kernel that
  takes everything it is asked for, every descriptor, however many there are, gets exactly one write during the broadcast, and nothing is left.\<close>

theorem iou_broadcast_each_once:
  assumes k: "kernel_executes enter executed"
    and b: "io_useRing b" "io_ring b = Some r" and ok: "ring_ok r" and h: "holds r q" and p: "p_data p \<noteq> []"
  shows "(length q + length (io_connFDs b) \<le> 256 \<longrightarrow>
      (\<exists>err k' r' left. Iou_Broadcast enter ord mods p k b = Some (err, k', b\<lparr>io_ring := Some r'\<rparr>) \<and> ring_ok r' \<and> holds r' left \<and>
         executed k' @ left = executed k @ q @ map (write_sqe p) (io_connFDs b))) \<and>
    (q = [] \<and> takes_all enter \<and> never_fails enter \<longrightarrow>
      (\<exists>err k' r'. Iou_Broadcast enter ord mods p k b = Some (err, k', b\<lparr>io_ring := Some r'\<rparr>) \<and> ring_ok r' \<and> holds r' [] \<and>
         executed k' = executed k @ map (write_sqe p) (io_connFDs b)))"
proof (cases "io_connFDs b = []")
  case True
  have "Iou_Broadcast enter ord mods p k b = Some (None, k, b\<lparr>io_ring := Some r\<rparr>)" using True b by (simp add: Iou_Broadcast_def)
  then show ?thesis using ok h True by auto
next
  case False
  have "\<exists>err k' r' left. Iou_Broadcast enter ord mods p k b = Some (err, k', b\<lparr>io_ring := Some r'\<rparr>) \<and> ring_ok r' \<and> holds r' left \<and>
         executed k' @ left = executed k @ q @ map (write_sqe p) (io_connFDs b)" if n: "length q + length (io_connFDs b) \<le> 256"
  proof -
    from submitBatch_queue [OF k ok h p n, of k] obtain err k' r' c where
      s: "submitBatch enter p (io_connFDs b) k r = Some (err, k', r')" "ring_ok r'" "executed k' = executed k @ take c (q @ map (write_sqe p) (io_connFDs b))"
        "holds r' (drop c (q @ map (write_sqe p) (io_connFDs b)))" by blast
    have "Iou_Broadcast enter ord mods p k b = Some (err, k', b\<lparr>io_ring := Some r'\<rparr>)"
      using broadcast_one_batch [OF b False, of enter ord mods p k] n s(1) by simp
    moreover have "executed k' @ drop c (q @ map (write_sqe p) (io_connFDs b)) = executed k @ q @ map (write_sqe p) (io_connFDs b)"
      unfolding s(3) append.assoc append_take_drop_id ..
    ultimately show ?thesis using s(2,4) by blast
  qed
  moreover have "\<exists>err k' r'. Iou_Broadcast enter ord mods p k b = Some (err, k', b\<lparr>io_ring := Some r'\<rparr>) \<and> ring_ok r' \<and> holds r' [] \<and>
         executed k' = executed k @ map (write_sqe p) (io_connFDs b)" if n: "q = []" "takes_all enter" "never_fails enter"
  proof -
    from submit_from_all [OF k n(2,3) p ok h [unfolded n(1)], of "io_connFDs b" 0 None k] obtain err k' r' where
      s: "submit_from enter p (io_connFDs b) 0 None k r = Some (err, k', r')" "executed k' = executed k @ map (write_sqe p) (io_connFDs b)"
      and r': "ring_ok r'" "holds r' []" by auto
    from s(1) False b have "Iou_Broadcast enter ord mods p k b = Some (err, k', b\<lparr>io_ring := Some r'\<rparr>)" by (simp add: Iou_Broadcast_def)
    with s(2) r' show ?thesis by blast
  qed
  ultimately show ?thesis by blast
qed

definition two_conns :: IOUringBroadcaster where
  "two_conns = \<lparr>io_ring = Some fresh_ring, io_epoll = None, io_useRing = True, io_fds = [], io_connFDs = [3, 4]\<rparr>"

theorem iou_broadcast_each_once_witness:
  "(\<exists>err k' r' left. Iou_Broadcast short_kernel (\<lambda>xs. xs) (\<lambda>_. True) \<lparr>at_addr = 64, p_data = [7]\<rparr> [] two_conns = Some (err, k', two_conns\<lparr>io_ring := Some r'\<rparr>) \<and>
      holds r' left \<and> map sqe_fd (k' @ left) = [3, 4]) \<and>
   (\<exists>err k' r'. Iou_Broadcast plain_kernel (\<lambda>xs. xs) (\<lambda>_. True) \<lparr>at_addr = 64, p_data = [7]\<rparr> [] two_conns = Some (err, k', two_conns\<lparr>io_ring := Some r'\<rparr>) \<and>
      map sqe_fd k' = [3, 4])"
proof -
  let ?p = "\<lparr>at_addr = 64, p_data = [7 :: u8]\<rparr>"
  have c: "io_useRing two_conns" "io_ring two_conns = Some fresh_ring" "io_connFDs two_conns = [3, 4]" "p_data ?p \<noteq> []" by (simp_all add: two_conns_def)
  have w: "map sqe_fd (map (write_sqe ?p) [3, 4]) = [3, 4]" by (simp add: write_sqe_def)
  note short = iou_broadcast_each_once [OF short_kernel_executes c(1,2) fresh_ring_ok fresh_ring_holds c(4), of "\<lambda>xs. xs" "\<lambda>_. True" "[]", THEN conjunct1]
  note plain = iou_broadcast_each_once [OF plain_kernel_executes c(1,2) fresh_ring_ok fresh_ring_holds c(4), of "\<lambda>xs. xs" "\<lambda>_. True" "[]", THEN conjunct2]
  have 1: "\<exists>err k' r' left. Iou_Broadcast short_kernel (\<lambda>xs. xs) (\<lambda>_. True) ?p [] two_conns = Some (err, k', two_conns\<lparr>io_ring := Some r'\<rparr>) \<and>
      holds r' left \<and> k' @ left = map (write_sqe ?p) [3, 4]"
    using short unfolding c(3) by auto
  have 2: "\<exists>err k' r'. Iou_Broadcast plain_kernel (\<lambda>xs. xs) (\<lambda>_. True) ?p [] two_conns = Some (err, k', two_conns\<lparr>io_ring := Some r'\<rparr>) \<and>
      k' = map (write_sqe ?p) [3, 4]"
    using plain plain_kernel_takes_all unfolding c(3) by auto
  show ?thesis using 1 2 w by metis
qed

text \<open>The number of entries taken being ignored, a broadcast can report success although some of its writes were not submitted: they stay in the ring,
  and the next broadcast submits them instead of its own.\<close>

lemma iou_short_count_unreported:
  "\<exists>k' b'. Iou_Broadcast short_kernel (\<lambda>xs. xs) (\<lambda>_. True) \<lparr>at_addr = 64, p_data = [7]\<rparr> [] two_conns = Some (None, k', b') \<and> map sqe_fd k' = [3]"
proof -
  have "case Iou_Broadcast short_kernel (\<lambda>xs. xs) (\<lambda>_. True) \<lparr>at_addr = 64, p_data = [7]\<rparr> [] two_conns of
      None \<Rightarrow> False | Some (err, k', b') \<Rightarrow> err = None \<and> map sqe_fd k' = [3]" by code_simp
  then show ?thesis by (auto split: option.splits)
qed




text \<open>Other behaviour of the ring path: an empty payload panics as soon as there is a connection; a descriptor added twice is counted once by \<open>Len\<close> but
  written twice, and one removal does not stop the writes; tearing down gives back what a successful set-up acquired, once each; a failed
  mapping of the completion ring panics instead of giving anything back.\<close>

lemma iou_empty_payload_panics: "io_useRing b \<Longrightarrow> io_ring b = Some r \<Longrightarrow> io_connFDs b \<noteq> [] \<Longrightarrow> p_data p = [] \<Longrightarrow> Iou_Broadcast enter ord mods p k b = None"
proof -
  assume b: "io_useRing b" "io_ring b = Some r" "io_connFDs b \<noteq> []" and p: "p_data p = []"
  have "submitBatch enter p fds k r = None" if "fds \<noteq> []" for fds
    using that p by (cases fds) (simp_all add: submitBatch_def Let_def)
  moreover have "\<exists>batch. batch \<noteq> [] \<and> subslice (io_connFDs b) 0 (if length (io_connFDs b) < 0 + iouRingSize then length (io_connFDs b) else 0 + iouRingSize) = Some batch"
    using b(3) by (auto simp: subslice_def iouRingSize_def)
  ultimately have "submit_from enter p (io_connFDs b) 0 None k r = None"
    using b(3) by (subst submit_from.simps) (auto simp: Let_def)
  with b show "Iou_Broadcast enter ord mods p k b = None" by (simp add: Iou_Broadcast_def)
qed

lemma iou_double_add_survives_remove:
  assumes "io_useRing b" and "nc_raw c" and "io_connFDs b = []" and "io_fds b = []"
    and "Iou_Add True True True c b = Some (None, b1)" and "Iou_Add True True True c b1 = Some (None, b2)" and "Iou_Remove True (nc_fd c) b2 = Some (None, b3)"
  shows "Iou_Len (\<lambda>xs. xs) eord b2 = Some 1 \<and> io_connFDs b2 = [nc_fd c, nc_fd c] \<and> Iou_Len (\<lambda>xs. xs) eord b3 = Some 0 \<and> io_connFDs b3 = [nc_fd c]"
proof -
  have b1: "b1 = b\<lparr>io_fds := sm_Store (io_fds b) (nc_fd c) c, io_connFDs := io_connFDs b @ [nc_fd c]\<rparr>"
    using assms by (simp add: Iou_Add_def connFd_def)
  then have b2: "b2 = b1\<lparr>io_fds := sm_Store (io_fds b1) (nc_fd c) c, io_connFDs := io_connFDs b1 @ [nc_fd c]\<rparr>"
    using assms by (simp add: Iou_Add_def connFd_def)
  then have "b3 = b2\<lparr>io_fds := sm_Delete (io_fds b2) (nc_fd c), io_connFDs := swap_remove (nc_fd c) 0 (io_connFDs b2)\<rparr>"
    using assms b1 by (simp add: Iou_Remove_def)
  with assms b1 b2 show ?thesis by (simp add: Iou_Len_def sm_Store_def sm_Delete_def swap_remove.simps)
qed

lemma iou_setup_teardown:
  assumes "setupIOURing (Inr (fd, ps, shared)) (Inr sq) (Inr sqe) (Inr cq) = Some (Inr r, rel)" and "sq \<noteq> 0" and "sqe \<noteq> 0" and "cq \<noteq> 0"
    and "unat (sqMmapSize r) \<le> 2 ^ 30" and "unat (cqMmapSize r) \<le> 2 ^ 30" and "unat (sqeMmapSz r) \<le> 2 ^ 30"
  shows "rel = [] \<and> teardownIOURing (Some r) = Some [Munmap cq (cqMmapSize r), Munmap sqe (sqeMmapSz r), Munmap sq (sqMmapSize r), CloseFd fd]"
  using assms by (auto simp: setupIOURing_def teardownIOURing_def unmap_def Let_def)

lemma iou_cq_mmap_failure_panics: "setupIOURing (Inr (fd, ps, shared)) (Inr sq) (Inr sqe) (Inl errno) = None"
  by (simp add: setupIOURing_def sqeMmap_def unmap_def Let_def)

end
