(* ===== verification/Webtransport.thy ===== *)
theory Webtransport
  imports Go_Std Reception Transport_Base Channels
begin

text \<open>
  The WebTransport server and client of \<^verbatim>\<open>internal/webtransport\<close>. A broadcast is a datagram per session, or a stream of its own per session and
  message: a unidirectional one that is closed after the message, or a bidirectional one that is not. The QUIC library is the environment: whether the
  upgrade, the opening of a stream and a write succeed, and which handler of a session notices its end. Sessions live in a store,
  the concurrent map holds indices of it.
\<close>

section \<open>The server\<close>

definition ModeUniStream :: string where "ModeUniStream = ''unidirstream''"
definition ModeBidiStream :: string where "ModeBidiStream = ''bidistream''"
definition ModeDatagrams :: string where "ModeDatagrams = ''datagram''"

record wt_stream =
  sm_bytes :: bytes
  sm_closed :: bool     \<comment> \<open>closed by its writer\<close>

record wtSession =
  wt_id :: ConnID
  wt_datagrams :: "bytes list"
  wt_uni :: "wt_stream list"
  wt_bidi :: "wt_stream list"
  wt_left :: bool       \<comment> \<open>its handler has returned\<close>

record WebTransportServer =
  wts_addr :: string
  wts_mode :: string
  wts_sessions :: "(ConnID, nat) syncmap"
  wts_store :: "wtSession list"
  wts_seqCounter :: u64
  wts_sent :: u64
  wts_recv :: u64
  wts_lost :: u64
  wts_sentBytes :: u64
  wts_started :: bool
  wts_serving :: bool

datatype wt_error = WtCert | WtStarted | WtClose | WtUnknown ConnID | WtOpen | WtWrite | WtDial | WtStatus nat

definition NewWebTransportServer :: "bool \<Rightarrow> string \<Rightarrow> string \<Rightarrow> wt_error + WebTransportServer" where
  "NewWebTransportServer certs addr mode =
     (let mode = (if mode = [] then ModeUniStream else mode) in
      if \<not> certs then Inl WtCert
      else Inr \<lparr>wts_addr = addr, wts_mode = mode, wts_sessions = [], wts_store = [], wts_seqCounter = 0, wts_sent = 0, wts_recv = 0, wts_lost = 0,
                wts_sentBytes = 0, wts_started = False, wts_serving = False\<rparr>)"

definition WT_Start :: "WebTransportServer \<Rightarrow> wt_error option \<times> WebTransportServer" where
  "WT_Start s = (if wts_started s then (Some WtStarted, s) else (None, s\<lparr>wts_started := True, wts_serving := True\<rparr>))"

definition WT_Stop :: "bool \<Rightarrow> WebTransportServer \<Rightarrow> wt_error option \<times> WebTransportServer" where
  "WT_Stop ok s = (if ok then None else Some WtClose, s\<lparr>wts_serving := False\<rparr>)"

text \<open>\<open>handleSession\<close> up to its wait, and what its goroutines notice afterwards: the end of the session, a datagram, data on a bidirectional stream.\<close>

definition handleSession :: "bool \<Rightarrow> WebTransportServer \<Rightarrow> WebTransportServer" where
  "handleSession upgrades s =
     (if \<not> upgrades then s
      else let n = wts_seqCounter s + 1; cid = ''wt-'' @ dec (unat n) in
        s\<lparr>wts_seqCounter := n, wts_sessions := sm_Store (wts_sessions s) cid (length (wts_store s)),
          wts_store := wts_store s @ [\<lparr>wt_id = cid, wt_datagrams = [], wt_uni = [], wt_bidi = [], wt_left = False\<rparr>]\<rparr>)"

datatype session_event = SessionEnds | DatagramArrives | StreamAccepted | StreamRead nat

definition session_turn :: "session_event \<Rightarrow> nat \<Rightarrow> WebTransportServer \<Rightarrow> WebTransportServer" where
  "session_turn e p s =
     (if length (wts_store s) \<le> p \<or> wt_left (wts_store s ! p) then s
      else case e of
        SessionEnds \<Rightarrow> s\<lparr>wts_sessions := sm_Delete (wts_sessions s) (wt_id (wts_store s ! p)), wts_store := (wts_store s)[p := (wts_store s ! p)\<lparr>wt_left := True\<rparr>]\<rparr>
      | DatagramArrives \<Rightarrow> if wts_mode s = ModeDatagrams then s\<lparr>wts_recv := wts_recv s + 1\<rparr> else s
      | StreamAccepted \<Rightarrow> s
      | StreamRead n \<Rightarrow> if wts_mode s = ModeBidiStream \<and> n > 0 then s\<lparr>wts_recv := wts_recv s + 1\<rparr> else s)"

text \<open>How the library treats one message of a session: no stream or datagram, a write that fails after some bytes, success.\<close>

datatype io_outcome = NotOpened | FailsAfter nat | Written

fun stream_of :: "bool \<Rightarrow> bytes \<Rightarrow> io_outcome \<Rightarrow> wt_stream list" where
  "stream_of cl d NotOpened = []"
| "stream_of cl d (FailsAfter k) = [\<lparr>sm_bytes = take k d, sm_closed = cl\<rparr>]"
| "stream_of cl d Written = [\<lparr>sm_bytes = d, sm_closed = cl\<rparr>]"

definition wt_deliver :: "string \<Rightarrow> bytes \<Rightarrow> io_outcome \<Rightarrow> wtSession \<Rightarrow> wtSession" where
  "wt_deliver mode frame oc w =
     (if mode = ModeDatagrams then w\<lparr>wt_datagrams := wt_datagrams w @ (if oc = Written then [frame] else [])\<rparr>
      else if mode = ModeUniStream then w\<lparr>wt_uni := wt_uni w @ stream_of True frame oc\<rparr>
      else if mode = ModeBidiStream then w\<lparr>wt_bidi := wt_bidi w @ stream_of False frame oc\<rparr>
      else w)"

definition known_mode :: "string \<Rightarrow> bool" where
  "known_mode mode \<longleftrightarrow> mode = ModeDatagrams \<or> mode = ModeUniStream \<or> mode = ModeBidiStream"

fun wt_deliver_all :: "(nat \<Rightarrow> io_outcome) \<Rightarrow> bytes \<Rightarrow> nat list \<Rightarrow> WebTransportServer \<Rightarrow> WebTransportServer" where
  "wt_deliver_all oc frame [] s = s"
| "wt_deliver_all oc frame (p # ps) s =
     wt_deliver_all oc frame ps
       (s\<lparr>wts_store := (wts_store s)[p := wt_deliver (wts_mode s) frame (oc p) (wts_store s ! p)],
          wts_lost := wts_lost s + (if known_mode (wts_mode s) \<and> oc p \<noteq> Written then 1 else 0)\<rparr>)"

type_synonym wt_order = "(ConnID \<times> nat) list \<Rightarrow> (ConnID \<times> nat) list"

definition WT_Broadcast :: "wt_order \<Rightarrow> (nat \<Rightarrow> io_outcome) \<Rightarrow> i64 \<Rightarrow> bytes \<Rightarrow> WebTransportServer \<Rightarrow> WebTransportServer option" where
  \<comment> \<open>the error is always nil\<close>
  "WT_Broadcast ord oc now data s = do {
     let seq = wts_seqCounter s + 1;
     frame \<leftarrow> Encode seq now data;
     Some (wt_deliver_all oc frame (sm_values ord (wts_sessions s))
       (s\<lparr>wts_seqCounter := seq, wts_sent := wts_sent s + 1, wts_sentBytes := wts_sentBytes s + of_nat (length frame)\<rparr>)) }"

definition WT_Send :: "io_outcome \<Rightarrow> ConnID \<Rightarrow> bytes \<Rightarrow> WebTransportServer \<Rightarrow> wt_error option \<times> WebTransportServer" where
  "WT_Send oc cid data s = (case sm_Load (wts_sessions s) cid of
     None \<Rightarrow> (Some (WtUnknown cid), s)
   | Some p \<Rightarrow>
       (case oc of Written \<Rightarrow> None | NotOpened \<Rightarrow> Some WtOpen | FailsAfter k \<Rightarrow> Some WtWrite,
        s\<lparr>wts_store := (wts_store s)[p := wt_deliver (if wts_mode s = ModeDatagrams then ModeDatagrams else ModeUniStream) data oc (wts_store s ! p)]\<rparr>))"

definition WT_Connections :: "wt_order \<Rightarrow> WebTransportServer \<Rightarrow> nat" where
  "WT_Connections ord s = length (ord (wts_sessions s))"

definition WT_Stats :: "wt_order \<Rightarrow> i64 \<Rightarrow> WebTransportServer \<Rightarrow> Stats" where
  "WT_Stats ord now s =
     \<lparr>st_Protocol = ''webtransport'', st_Connections = int (WT_Connections ord s), st_Sent = wts_sent s, st_Received = wts_recv s, st_Lost = wts_lost s,
      st_Duplicated = 0, st_Reordered = 0, st_BytesSent = wts_sentBytes s, st_BytesRecv = 0, st_Uptime = 0, st_SnapshotAt = now\<rparr>"

section \<open>The client\<close>

record 'h WebTransportClient =
  wtc_id :: ConnID
  wtc_mode :: string
  wtc_handler :: bool
  wtc_recorder :: "'h Recorder option"
  wtc_session :: bool           \<comment> \<open>whether there is one\<close>
  wtc_receiving :: bool         \<comment> \<open>whether \<open>receiveLoop\<close> runs\<close>
  wtc_calls :: "handler_call list"

definition NewWebTransportClient :: "ConnID \<Rightarrow> string \<Rightarrow> bool \<Rightarrow> 'h Recorder option \<Rightarrow> 'h WebTransportClient" where
  "NewWebTransportClient uuid mode h rec =
     \<lparr>wtc_id = uuid, wtc_mode = (if mode = [] then ModeUniStream else mode), wtc_handler = h, wtc_recorder = rec, wtc_session = False,
      wtc_receiving = False, wtc_calls = []\<rparr>"

definition WTClient_Connect :: "nat option \<Rightarrow> 'h WebTransportClient \<Rightarrow> wt_error option \<times> 'h WebTransportClient" where
  "WTClient_Connect dial c = (case dial of
     None \<Rightarrow> (Some WtDial, c)
   | Some status \<Rightarrow> if status \<noteq> 200 then (Some (WtStatus status), c) else (None, c\<lparr>wtc_session := True, wtc_receiving := True\<rparr>))"

definition process :: "'h hdr_lib \<Rightarrow> i64 \<Rightarrow> bytes \<Rightarrow> 'h WebTransportClient \<Rightarrow> 'h WebTransportClient option" where
  "process lib recvAt data c = do {
     d \<leftarrow> Decode data;
     c \<leftarrow> (case (d, wtc_recorder c) of
        (Inr (frame, _), Some m) \<Rightarrow> do { m \<leftarrow> RecordRecv lib m (SeqNum frame) (SendNs frame) (length data) recvAt; Some (c\<lparr>wtc_recorder := Some m\<rparr>) }
      | _ \<Rightarrow> Some c);
     Some (c\<lparr>wtc_calls := wtc_calls c @ calls_if (wtc_handler c) (CallRecv (wtc_id c) data recvAt)\<rparr>) }"

text \<open>\<open>readUniStream\<close> and \<open>readBidiStream\<close>, whose texts agree: the chunks the reads return and whether a read then returned an error (the end of the
  stream is one); without an error the goroutine still reads.\<close>

fun read_stream :: "'h hdr_lib \<Rightarrow> i64 \<Rightarrow> bool \<Rightarrow> bytes \<Rightarrow> bytes list \<Rightarrow> 'h WebTransportClient \<Rightarrow> 'h WebTransportClient option" where
  "read_stream lib recvAt ends accumulated [] c = (if ends \<and> accumulated \<noteq> [] then process lib recvAt accumulated c else Some c)"
| "read_stream lib recvAt ends accumulated (chunk # chunks) c = read_stream lib recvAt ends (accumulated @ chunk) chunks c"

definition readUniStream :: "'h hdr_lib \<Rightarrow> i64 \<Rightarrow> bool \<Rightarrow> bytes list \<Rightarrow> 'h WebTransportClient \<Rightarrow> 'h WebTransportClient option" where
  "readUniStream lib recvAt ends chunks c = read_stream lib recvAt ends [] chunks c"

definition readBidiStream :: "'h hdr_lib \<Rightarrow> i64 \<Rightarrow> bool \<Rightarrow> bytes list \<Rightarrow> 'h WebTransportClient \<Rightarrow> 'h WebTransportClient option" where
  "readBidiStream lib recvAt ends chunks c = read_stream lib recvAt ends [] chunks c"

text \<open>What \<open>receiveLoop\<close> meets: a datagram, a unidirectional or a bidirectional stream of which the given chunks are read, or an error of the call.\<close>

datatype wt_arrival = ADatagram bytes i64 | AUni "bytes list" bool i64 | ABidi "bytes list" bool i64 | AError

definition receive_turn :: "'h hdr_lib \<Rightarrow> wt_arrival \<Rightarrow> 'h WebTransportClient \<Rightarrow> 'h WebTransportClient option" where
  "receive_turn lib a c =
     (if \<not> wtc_receiving c then Some c
      else case a of
        AError \<Rightarrow> Some (c\<lparr>wtc_receiving := False\<rparr>)
      | ADatagram d t \<Rightarrow> if wtc_mode c = ModeDatagrams then process lib t d c else Some c
      | AUni chunks ends t \<Rightarrow> if wtc_mode c = ModeUniStream then readUniStream lib t ends chunks c else Some c
      | ABidi chunks ends t \<Rightarrow> if wtc_mode c = ModeBidiStream then readBidiStream lib t ends chunks c else Some c)"

definition WTClient_Close :: "'h WebTransportClient \<Rightarrow> 'h WebTransportClient" where
  "WTClient_Close c = c\<lparr>wtc_receiving := False\<rparr>"

section \<open>Runs of the server\<close>

datatype wt_action =
    Joins bool
  | Session session_event nat
  | Casts "nat \<Rightarrow> io_outcome" i64 bytes
  | SendsTo io_outcome ConnID bytes
  | Starts
  | Stops bool

fun wt_step :: "wt_order \<Rightarrow> WebTransportServer \<Rightarrow> wt_action \<Rightarrow> WebTransportServer option" where
  "wt_step ord s (Joins upgrades) = Some (handleSession upgrades s)"
| "wt_step ord s (Session e p) = Some (session_turn e p s)"
| "wt_step ord s (Casts oc now d) = WT_Broadcast ord oc now d s"
| "wt_step ord s (SendsTo oc cid d) = Some (snd (WT_Send oc cid d s))"
| "wt_step ord s Starts = Some (snd (WT_Start s))"
| "wt_step ord s (Stops ok) = Some (snd (WT_Stop ok s))"

definition wt_wf :: "WebTransportServer \<Rightarrow> bool" where
  "wt_wf s \<longleftrightarrow> wf_sm (wts_sessions s) \<and>
     (\<forall>cid p. sm_Load (wts_sessions s) cid = Some p \<longrightarrow> p < length (wts_store s) \<and> wt_id (wts_store s ! p) = cid)"

definition wt_registered :: "nat \<Rightarrow> WebTransportServer \<Rightarrow> bool" where
  "wt_registered p s \<longleftrightarrow> p < length (wts_store s) \<and> sm_Load (wts_sessions s) (wt_id (wts_store s ! p)) = Some p"

text \<open>The unidirectional streams an action gives a session, and those of a run.\<close>

fun uni_of :: "nat \<Rightarrow> WebTransportServer \<Rightarrow> wt_action \<Rightarrow> wt_stream list" where
  "uni_of p s (Casts oc now d) = (if wts_mode s = ModeUniStream then stream_of True (frame_bytes (wts_seqCounter s + 1) now d) (oc p) else [])"
| "uni_of p s (SendsTo oc cid d) = (if wts_mode s \<noteq> ModeDatagrams \<and> cid = wt_id (wts_store s ! p) then stream_of True d oc else [])"
| "uni_of p s _ = []"

fun uni_log :: "wt_order \<Rightarrow> nat \<Rightarrow> WebTransportServer \<Rightarrow> wt_action list \<Rightarrow> wt_stream list" where
  "uni_log ord p s [] = []"
| "uni_log ord p s (a # as) = uni_of p s a @ (case wt_step ord s a of None \<Rightarrow> [] | Some s' \<Rightarrow> uni_log ord p s' as)"

lemma modes_differ [simp]:
  "ModeUniStream \<noteq> ModeDatagrams" "ModeDatagrams \<noteq> ModeUniStream" "ModeUniStream \<noteq> ModeBidiStream" "ModeBidiStream \<noteq> ModeUniStream"
  "ModeBidiStream \<noteq> ModeDatagrams" "ModeDatagrams \<noteq> ModeBidiStream"
  by (simp_all add: ModeUniStream_def ModeBidiStream_def ModeDatagrams_def)

lemma wt_deliver_id [simp]: "wt_id (wt_deliver m f oc w) = wt_id w"
  by (simp add: wt_deliver_def)

lemma deliver_all_untouched:
  "wts_sessions (wt_deliver_all oc f ps s) = wts_sessions s \<and> wts_mode (wt_deliver_all oc f ps s) = wts_mode s \<and>
   wts_seqCounter (wt_deliver_all oc f ps s) = wts_seqCounter s \<and> length (wts_store (wt_deliver_all oc f ps s)) = length (wts_store s)"
  by (induction ps arbitrary: s) simp_all

lemma deliver_all_nth:
  assumes "distinct ps" and "k < length (wts_store s)"
  shows "wts_store (wt_deliver_all oc f ps s) ! k = (if k \<in> set ps then wt_deliver (wts_mode s) f (oc k) (wts_store s ! k) else wts_store s ! k)"
  using assms by (induction ps arbitrary: s) (auto simp: nth_update_if)

lemma wt_sessions_values:
  assumes "wt_wf s" and "range_order ord"
  shows "distinct (sm_values ord (wts_sessions s)) \<and> (p \<in> set (sm_values ord (wts_sessions s)) \<longleftrightarrow> wt_registered p s)"
proof -
  have "wt_wf s \<Longrightarrow> sm_Load (wts_sessions s) k = Some v \<Longrightarrow> v < length (wts_store s) \<and> wt_id (wts_store s ! v) = k" for k v by (simp add: wt_wf_def)
  note l = this [OF assms(1)]
  have "distinct (sm_values ord (wts_sessions s))"
    using assms l by (intro distinct_sm_values) (auto simp: wt_wf_def)
  moreover have "p \<in> set (sm_values ord (wts_sessions s)) \<longleftrightarrow> wt_registered p s"
    using assms l by (auto simp: wt_wf_def set_sm_values ran_def wt_registered_def)
  ultimately show ?thesis ..
qed

lemma broadcast_session:
  assumes "wt_wf s" and "range_order ord" and "WT_Broadcast ord oc now d s = Some s'" and "p < length (wts_store s)"
  shows "wts_store s' ! p = (if wt_registered p s then wt_deliver (wts_mode s) (frame_bytes (wts_seqCounter s + 1) now d) (oc p) (wts_store s ! p) else wts_store s ! p)"
  using assms(3,4) deliver_all_nth wt_sessions_values [OF assms(1,2)] by (auto simp: WT_Broadcast_def Let_def)

lemma broadcast_keeps:
  assumes "WT_Broadcast ord oc now d s = Some s'"
  shows "wts_sessions s' = wts_sessions s \<and> wts_mode s' = wts_mode s \<and> wts_seqCounter s' = wts_seqCounter s + 1 \<and> length (wts_store s') = length (wts_store s)"
  using assms by (auto simp: WT_Broadcast_def Let_def deliver_all_untouched)

lemma wt_step_total: "\<exists>s'. wt_step ord s a = Some s'"
  by (cases a) (simp_all add: WT_Broadcast_def Let_def)

lemma wt_wf_step:
  assumes "range_order ord" and "wt_wf s" and "wt_step ord s a = Some s'"
  shows "wt_wf s'"
proof (cases a)
  case (Casts oc now d)
  then have b: "WT_Broadcast ord oc now d s = Some s'" using assms(3) by simp
  have "wt_id (wts_store s' ! p) = wt_id (wts_store s ! p)" if "p < length (wts_store s)" for p
    using broadcast_session [OF assms(2,1) b that] by simp
  with broadcast_keeps [OF b] assms(2) show ?thesis by (simp add: wt_wf_def)
qed (use assms in \<open>auto simp: wt_wf_def handleSession_def session_turn_def WT_Send_def WT_Start_def WT_Stop_def Let_def sm_laws nth_append nth_update_if
      less_Suc_eq split: if_splits option.splits session_event.splits\<close>)

lemma wt_step_session:
  assumes "range_order ord" and "wt_wf s" and "wt_step ord s a = Some s'" and "p < length (wts_store s)" and "wt_registered p s'"
  shows "wt_registered p s \<and> wts_mode s' = wts_mode s \<and> p < length (wts_store s') \<and> wt_uni (wts_store s' ! p) = wt_uni (wts_store s ! p) @ uni_of p s a"
proof (cases a)
  case (Casts oc now d)
  then have b: "WT_Broadcast ord oc now d s = Some s'" using assms(3) by simp
  note n = broadcast_session [OF assms(2,1) b assms(4)] and k = broadcast_keeps [OF b]
  have "wt_registered p s" using n k assms(4,5) by (auto simp: wt_registered_def split: if_splits)
  with n k assms(4) show ?thesis by (simp add: Casts wt_deliver_def)
next
  case (SendsTo oc cid d)
  show ?thesis
  proof (cases "sm_Load (wts_sessions s) cid")
    case None
    then have "s' = s" using assms(3) by (simp add: SendsTo WT_Send_def)
    with None assms(4,5) show ?thesis by (auto simp: SendsTo wt_registered_def)
  next
    case (Some q)
    with assms(2) have q: "q < length (wts_store s)" "wt_id (wts_store s ! q) = cid" by (auto simp: wt_wf_def)
    have s': "s' = s\<lparr>wts_store := (wts_store s)[q := wt_deliver (if wts_mode s = ModeDatagrams then ModeDatagrams else ModeUniStream) d oc (wts_store s ! q)]\<rparr>"
      using assms(3) Some by (simp add: SendsTo WT_Send_def)
    have r: "wt_registered p s" using assms(4,5) by (auto simp: s' wt_registered_def nth_update_if split: if_splits)
    show ?thesis
    proof (cases "p = q")
      case True
      have "wt_uni (wts_store s' ! p) = wt_uni (wts_store s ! p) @ (if wts_mode s \<noteq> ModeDatagrams then stream_of True d oc else [])"
        unfolding s' using q(1) True by (simp add: wt_deliver_def)
      then show ?thesis using r assms(4) q(2) True by (simp add: SendsTo s')
    next
      case False
      then have "cid \<noteq> wt_id (wts_store s ! p)" using r Some by (auto simp: wt_registered_def)
      then show ?thesis using r assms(4) False by (simp add: SendsTo s')
    qed
  qed
next
  case (Joins upgrades)
  show ?thesis using assms(3-5) by (cases upgrades) (auto simp: Joins wt_registered_def handleSession_def Let_def sm_laws nth_append split: if_splits)
next
  case (Session e q)
  have s': "s' = session_turn e q s" using assms(3) by (simp add: Session)
  show ?thesis
  proof (cases "length (wts_store s) \<le> q \<or> wt_left (wts_store s ! q)")
    case True
    then show ?thesis using assms(4,5) by (simp add: s' Session session_turn_def)
  next
    case False
    then show ?thesis using assms(4,5)
      by (cases e) (auto simp: s' Session session_turn_def wt_registered_def sm_laws nth_update_if split: if_splits)
  qed
qed (use assms(3-5) in \<open>auto simp: wt_registered_def WT_Start_def WT_Stop_def split: if_splits\<close>)

lemma wt_run_session:
  assumes "range_order ord"
  shows "wt_wf s \<Longrightarrow> p < length (wts_store s) \<Longrightarrow> run_opt (wt_step ord) s as = Some s' \<Longrightarrow> wt_registered p s' \<Longrightarrow>
    wt_registered p s \<and> wt_uni (wts_store s' ! p) = wt_uni (wts_store s ! p) @ uni_log ord p s as"
proof (induction as arbitrary: s)
  case (Cons a as)
  obtain s1 where s1: "wt_step ord s a = Some s1" using wt_step_total by blast
  have len: "length (wts_store s) \<le> length (wts_store s1)"
    using s1 by (cases a) (auto simp: handleSession_def session_turn_def WT_Send_def WT_Start_def WT_Stop_def Let_def dest: broadcast_keeps split: if_splits option.splits session_event.splits)
  from Cons.IH [OF wt_wf_step [OF assms Cons.prems(1) s1]] Cons.prems s1 len
  have "wt_registered p s1" and u: "wt_uni (wts_store s' ! p) = wt_uni (wts_store s1 ! p) @ uni_log ord p s1 as" by auto
  with wt_step_session [OF assms Cons.prems(1) s1 Cons.prems(2)] s1 show ?case by simp
qed simp

section \<open>Runs of the client\<close>

lemma read_stream_eq: "read_stream lib t ends acc chunks c =
   (if ends \<and> acc @ concat chunks \<noteq> [] then process lib t (acc @ concat chunks) c else Some c)"
  by (induction chunks arbitrary: acc) auto

lemma process_no_recorder:
  assumes "wtc_recorder c = None"
  shows "process lib t data c = Some (c\<lparr>wtc_calls := wtc_calls c @ calls_if (wtc_handler c) (CallRecv (wtc_id c) data t)\<rparr>)"
proof -
  obtain d where "Decode data = Some d" using Decode_total by blast
  then show ?thesis using assms by (cases d) (simp_all add: process_def split: sum.splits)
qed

fun payload_of :: "handler_call \<Rightarrow> bytes list" where
  "payload_of (CallRecv cid d t) = [d]"
| "payload_of _ = []"

text \<open>Whole streams, read in any chunks: their contents are handed over one by one.\<close>

lemma receive_streams:
  assumes "wtc_mode c = ModeUniStream" and "wtc_receiving c" and "wtc_recorder c = None" and "wtc_handler c"
    and "\<forall>(chunks, t)\<in>set reads. concat chunks \<noteq> []"
  shows "\<exists>c'. run_opt (\<lambda>c a. receive_turn lib a c) c (map (\<lambda>(chunks, t). AUni chunks True t) reads) = Some c' \<and>
    wtc_calls c' = wtc_calls c @ map (\<lambda>(chunks, t). CallRecv (wtc_id c) (concat chunks) t) reads"
  using assms
proof (induction reads arbitrary: c)
  case (Cons r reads)
  obtain chunks t where r: "r = (chunks, t)" by fastforce
  let ?c = "c\<lparr>wtc_calls := wtc_calls c @ [CallRecv (wtc_id c) (concat chunks) t]\<rparr>"
  have "receive_turn lib (AUni chunks True t) c = Some ?c"
    using Cons.prems r by (simp add: receive_turn_def readUniStream_def read_stream_eq process_no_recorder calls_if_def)
  with Cons.IH [of ?c] Cons.prems r show ?case by simp
qed simp

text \<open>Every message of the log went out whole and is not empty.\<close>

definition all_written :: "nat \<Rightarrow> wt_action \<Rightarrow> bool" where
  "all_written p a = (case a of Casts oc now d \<Rightarrow> oc p = Written | SendsTo oc cid d \<Rightarrow> oc = Written \<and> d \<noteq> [] | _ \<Rightarrow> True)"

fun message_of :: "nat \<Rightarrow> WebTransportServer \<Rightarrow> wt_action \<Rightarrow> bytes list" where
  "message_of p s (Casts oc now d) = [frame_bytes (wts_seqCounter s + 1) now d]"
| "message_of p s (SendsTo oc cid d) = (if cid = wt_id (wts_store s ! p) then [d] else [])"
| "message_of p s _ = []"

fun message_log :: "wt_order \<Rightarrow> nat \<Rightarrow> WebTransportServer \<Rightarrow> wt_action list \<Rightarrow> bytes list" where
  "message_log ord p s [] = []"
| "message_log ord p s (a # as) = message_of p s a @ (case wt_step ord s a of None \<Rightarrow> [] | Some s' \<Rightarrow> message_log ord p s' as)"

lemma wt_step_mode: "wt_step ord s a = Some s' \<Longrightarrow> wts_mode s' = wts_mode s"
  by (cases a) (auto simp: handleSession_def session_turn_def WT_Send_def WT_Start_def WT_Stop_def Let_def dest: broadcast_keeps
      split: if_splits option.splits session_event.splits)

lemma frame_not_empty: "frame_bytes q ns d \<noteq> []" "[] \<noteq> frame_bytes q ns d"
  using length_frame_bytes [of q ns d] by (metis add_is_0 list.size(3) zero_neq_numeral)+

lemma uni_log_written:
  assumes "wts_mode s = ModeUniStream" and "list_all (all_written p) as"
  shows "uni_log ord p s as = map (\<lambda>d. \<lparr>sm_bytes = d, sm_closed = True\<rparr>) (message_log ord p s as) \<and> [] \<notin> set (message_log ord p s as)"
  using assms
proof (induction as arbitrary: s)
  case (Cons a as)
  obtain s' where s': "wt_step ord s a = Some s'" using wt_step_total by blast
  have "uni_of p s a = map (\<lambda>d. \<lparr>sm_bytes = d, sm_closed = True\<rparr>) (message_of p s a) \<and> [] \<notin> set (message_of p s a)"
    using Cons.prems by (cases a) (auto simp: all_written_def frame_not_empty)
  with Cons.IH [of s'] Cons.prems wt_step_mode [OF s'] s' show ?case by simp
qed simp

lemma wt_new_wf: "NewWebTransportServer certs addr mode = Inr s \<Longrightarrow> wt_wf s"
  by (auto simp: NewWebTransportServer_def wt_wf_def sm_laws Let_def split: if_splits)

text \<open>Bidirectional streams stay open: no operation closes one.\<close>

definition bidi_open :: "WebTransportServer \<Rightarrow> bool" where
  "bidi_open s \<longleftrightarrow> (\<forall>w\<in>set (wts_store s). \<forall>st\<in>set (wt_bidi w). \<not> sm_closed st)"

lemma deliver_bidi: "\<forall>st\<in>set (wt_bidi w). \<not> sm_closed st \<Longrightarrow> \<forall>st\<in>set (wt_bidi (wt_deliver m f oc w)). \<not> sm_closed st"
  by (cases oc) (auto simp: wt_deliver_def)

lemma bidi_open_update: "bidi_open s \<Longrightarrow> p < length (wts_store s) \<Longrightarrow> \<forall>st\<in>set (wt_bidi w). \<not> sm_closed st \<Longrightarrow> bidi_open (s\<lparr>wts_store := (wts_store s)[p := w]\<rparr>)"
  by (auto simp: bidi_open_def dest!: set_update_subset_insert [THEN subsetD])

lemma bidi_open_session: "bidi_open s \<Longrightarrow> p < length (wts_store s) \<Longrightarrow> \<forall>st\<in>set (wt_bidi (wts_store s ! p)). \<not> sm_closed st"
  unfolding bidi_open_def using nth_mem by blast

lemma bidi_open_deliver_all: "bidi_open s \<Longrightarrow> \<forall>p\<in>set ps. p < length (wts_store s) \<Longrightarrow> bidi_open (wt_deliver_all oc f ps s)"
proof (induction ps arbitrary: s)
  case (Cons p ps)
  let ?s = "s\<lparr>wts_store := (wts_store s)[p := wt_deliver (wts_mode s) f (oc p) (wts_store s ! p)]\<rparr>"
  have "bidi_open ?s"
    using Cons.prems by (intro bidi_open_update deliver_bidi bidi_open_session) auto
  then have "bidi_open (s\<lparr>wts_store := (wts_store s)[p := wt_deliver (wts_mode s) f (oc p) (wts_store s ! p)],
      wts_lost := wts_lost s + (if known_mode (wts_mode s) \<and> oc p \<noteq> Written then 1 else 0)\<rparr>)" by (simp add: bidi_open_def)
  from Cons.IH [OF this] Cons.prems show ?case by simp
qed simp

lemma bidi_open_step:
  assumes "range_order ord" and "wt_wf s" and "bidi_open s" and "wt_step ord s a = Some s'"
  shows "bidi_open s'"
proof (cases a)
  case (Casts oc now d)
  have "\<forall>p\<in>set (sm_values ord (wts_sessions s)). p < length (wts_store s)"
    using wt_sessions_values [OF assms(2,1)] by (auto simp: wt_registered_def)
  with assms(3,4) show ?thesis
    by (auto simp: Casts WT_Broadcast_def Let_def bidi_open_def [of "_\<lparr>wts_seqCounter := _, wts_sent := _, wts_sentBytes := _\<rparr>"] bidi_open_def [of s] intro!: bidi_open_deliver_all)
next
  case (SendsTo oc cid d)
  show ?thesis
  proof (cases "sm_Load (wts_sessions s) cid")
    case (Some p)
    then have "p < length (wts_store s)" using assms(2) by (simp add: wt_wf_def)
    with Some assms(4) bidi_open_update [OF assms(3) this deliver_bidi [OF bidi_open_session [OF assms(3) this]]] show ?thesis
      by (auto simp: SendsTo WT_Send_def)
  qed (use assms(3,4) in \<open>simp add: SendsTo WT_Send_def\<close>)
next
  case (Session e p)
  show ?thesis
  proof (cases "length (wts_store s) \<le> p \<or> wt_left (wts_store s ! p)")
    case False
    then have "\<forall>st\<in>set (wt_bidi ((wts_store s ! p)\<lparr>wt_left := True\<rparr>)). \<not> sm_closed st" using bidi_open_session [OF assms(3), of p] by simp
    with False assms(3,4) bidi_open_update [OF assms(3), of p "(wts_store s ! p)\<lparr>wt_left := True\<rparr>"] show ?thesis
      by (cases e) (auto simp: Session session_turn_def bidi_open_def split: if_splits)
  qed (use assms(3,4) in \<open>simp add: Session session_turn_def\<close>)
qed (use assms(3,4) in \<open>auto simp: bidi_open_def handleSession_def WT_Start_def WT_Stop_def Let_def split: if_splits\<close>)

lemma bidi_open_run:
  assumes "range_order ord"
  shows "wt_wf s \<Longrightarrow> bidi_open s \<Longrightarrow> run_opt (wt_step ord) s as = Some s' \<Longrightarrow> bidi_open s'"
proof (induction as arbitrary: s)
  case (Cons a as)
  obtain s1 where s1: "wt_step ord s a = Some s1" using wt_step_total by blast
  with Cons.IH [OF wt_wf_step [OF assms Cons.prems(1) s1] bidi_open_step [OF assms Cons.prems(1,2) s1]] Cons.prems(3) show ?case by simp
qed simp

text \<open>A session, two broadcasts and a client joining between them, on a fresh server.\<close>

definition wt_fresh :: "string \<Rightarrow> WebTransportServer" where
  "wt_fresh mode = \<lparr>wts_addr = [], wts_mode = mode, wts_sessions = [], wts_store = [], wts_seqCounter = 0, wts_sent = 0, wts_recv = 0, wts_lost = 0,
     wts_sentBytes = 0, wts_started = False, wts_serving = False\<rparr>"

definition wt_example :: "wt_action list" where
  "wt_example = [Casts (\<lambda>_. Written) 5 [1], Joins True, Casts (\<lambda>_. Written) 6 [2]]"

text \<open>In the default mode every broadcast to a session that stays registered is a stream of its own, whole and closed, in the order of the
  broadcasts, and a client that reads these streams to their ends, in any order and in any chunks, hands each message to its handler exactly once, in
  the order in which the streams end.\<close>

lemma wt_broadcasts_reach_client:
  assumes ord: "range_order ord" and wf: "wt_wf s" and mode: "wts_mode s = ModeUniStream" and p: "p < length (wts_store s)" "wt_uni (wts_store s ! p) = []"
    and run: "run_opt (wt_step ord) s as = Some s'" and reg: "wt_registered p s'" and written: "list_all (all_written p) as"
    and c: "wtc_mode c = ModeUniStream" "wtc_receiving c" "wtc_recorder c = None" "wtc_handler c" "wtc_calls c = []"
    and reads: "mset (map (concat \<circ> fst) reads) = mset (map sm_bytes (wt_uni (wts_store s' ! p)))"
  shows "wt_uni (wts_store s' ! p) = map (\<lambda>d. \<lparr>sm_bytes = d, sm_closed = True\<rparr>) (message_log ord p s as) \<and>
    (\<exists>c'. run_opt (\<lambda>c a. receive_turn lib a c) c (map (\<lambda>(chunks, t). AUni chunks True t) reads) = Some c' \<and>
      concat (map payload_of (wtc_calls c')) = map (concat \<circ> fst) reads \<and>
      mset (concat (map payload_of (wtc_calls c'))) = mset (message_log ord p s as))"
proof -
  have u: "wt_uni (wts_store s' ! p) = map (\<lambda>d. \<lparr>sm_bytes = d, sm_closed = True\<rparr>) (message_log ord p s as)" and ne: "[] \<notin> set (message_log ord p s as)"
    using wt_run_session [OF ord wf p(1) run reg] uni_log_written [OF mode written, of ord] p(2) by simp_all
  have m: "mset (map (concat \<circ> fst) reads) = mset (message_log ord p s as)" using reads by (simp add: u comp_def)
  then have "set (map (concat \<circ> fst) reads) = set (message_log ord p s as)" by (rule mset_eq_setD)
  with ne have "[] \<notin> set (map (concat \<circ> fst) reads)" by metis
  then have "\<forall>(chunks, t)\<in>set reads. concat chunks \<noteq> []" by (metis (mono_tags, lifting) case_prodI2 comp_apply fst_conv in_set_conv_nth length_map nth_map)
  from receive_streams [OF c(1-4) this, of lib] obtain c' where
    r: "run_opt (\<lambda>c a. receive_turn lib a c) c (map (\<lambda>(chunks, t). AUni chunks True t) reads) = Some c'"
    and calls: "wtc_calls c' = map (\<lambda>(chunks, t). CallRecv (wtc_id c) (concat chunks) t) reads" using c(5) by auto
  have e: "concat (map payload_of (wtc_calls c')) = map (concat \<circ> fst) reads"
    unfolding calls by (induction reads) (auto split: prod.splits)
  show ?thesis
    by (intro conjI exI [of _ c'], fact u, fact r, fact e) (simp only: e m)
qed

text \<open>In bidirectional mode nothing is delivered: the server never closes a stream it has written a message to, and a client hands over
  the bytes of a stream only when it ends, so reading what the open stream holds changes nothing.\<close>

lemma wt_bidi_delivers_nothing:
  assumes "range_order ord" and "NewWebTransportServer certs addr ModeBidiStream = Inr s" and "run_opt (wt_step ord) s as = Some s'" and "p < length (wts_store s')"
  shows "(\<forall>st\<in>set (wt_bidi (wts_store s' ! p)). \<not> sm_closed st) \<and> receive_turn lib (ABidi chunks False t) c = Some c"
proof -
  have "bidi_open s" using assms(2) by (auto simp: NewWebTransportServer_def bidi_open_def Let_def split: if_splits)
  from bidi_open_run [OF assms(1) wt_new_wf [OF assms(2)] this assms(3)] have "bidi_open s'" .
  from bidi_open_session [OF this assms(4)] show ?thesis
    by (simp add: receive_turn_def readBidiStream_def read_stream_eq)
qed

text \<open>Identifiers and sequence numbers come from one counter: every session that joins between two broadcasts leaves a gap in the numbers.\<close>

fun takes_number :: "wt_action \<Rightarrow> bool" where
  "takes_number (Joins upgrades) = upgrades"
| "takes_number (Casts oc now d) = True"
| "takes_number _ = False"

lemma wt_joins_burn_numbers:
  "run_opt (wt_step ord) s as = Some s' \<Longrightarrow> wts_seqCounter s' = wts_seqCounter s + of_nat (length (filter takes_number as))"
proof (induction as arbitrary: s)
  case (Cons a as)
  obtain s1 where s1: "wt_step ord s a = Some s1" using wt_step_total by blast
  have "wts_seqCounter s1 = wts_seqCounter s + of_nat (if takes_number a then 1 else 0)"
    using s1 by (cases a) (auto simp: handleSession_def session_turn_def WT_Send_def WT_Start_def WT_Stop_def Let_def dest: broadcast_keeps
      split: if_splits option.splits session_event.splits)
  with Cons.IH [of s1] Cons.prems s1 show ?case by simp
qed simp

lemma wt_restart_fails: "WT_Start s = (None, s1) \<Longrightarrow> WT_Stop ok s1 = (e, s2) \<Longrightarrow> fst (WT_Start s2) = Some WtStarted"
  by (auto simp: WT_Start_def WT_Stop_def split: if_splits)

end
