(* ===== verification/Webrtc.thy ===== *)
theory Webrtc
  imports Go_Std Reception Transport_Base
begin

text \<open>
  The WebRTC transport of \<^verbatim>\<open>internal/webrtc\<close>: the signaling server that answers offers and collects ICE candidates, the server that broadcasts on
  one data channel per peer, and the client. The WebRTC library is the environment: which of its calls succeed, which state changes it reports and
  which channels are open. \<open>handleOffer\<close> runs beside the other handlers, so it is modelled as its stages; an offer's peer connection and its
  pending entry are one record of a store, the concurrent maps hold indices.
\<close>

section \<open>Signaling\<close>

type_synonym candidate = "string \<times> string \<times> u16"

datatype state_handler = NoHandler | SignalHandler | PeerHandler

record PeerConnection =
  pc_remote :: bool                \<comment> \<open>whether the remote description is set\<close>
  pc_added :: "candidate list"
  pc_closed :: bool
  pc_onState :: state_handler      \<comment> \<open>the one handler of connection state changes\<close>

datatype offer_stage = Begun | RemoteSet | Drained | Answered | OfferFailed

record pendingConn =
  pd_id :: string
  pd_pc :: PeerConnection
  pd_candidates :: "candidate list"
  pd_connected :: bool             \<comment> \<open>closed\<close>
  pd_stage :: offer_stage          \<comment> \<open>where \<open>handleOffer\<close> stands\<close>

record SignalingServer =
  sg_pending :: "(string, nat) syncmap"
  sg_store :: "pendingConn list"
  sg_idGen :: u64
  sg_serving :: bool

definition NewSignalingServer :: SignalingServer where
  "NewSignalingServer = \<lparr>sg_pending = [], sg_store = [], sg_idGen = 0, sg_serving = False\<rparr>"

datatype rtc_error = SignalListen | SignalShutdown | UnknownPeer string | NotOpen string | DcSend | ClNewPC | ClOffer | ClLocal | ClPost | ClAnswer | ClRemote | ClCtx | ClTimeout | ClNotConnected | ClClose

definition Signaling_Start :: "bool \<Rightarrow> SignalingServer \<Rightarrow> rtc_error option \<times> SignalingServer" where
  "Signaling_Start listens s = (if listens then (None, s\<lparr>sg_serving := True\<rparr>) else (Some SignalListen, s))"

definition Signaling_Stop :: "bool \<Rightarrow> SignalingServer \<Rightarrow> rtc_error option \<times> SignalingServer" where
  "Signaling_Stop ok s = (if ok then None else Some SignalShutdown, s\<lparr>sg_serving := False\<rparr>)"

text \<open>\<open>handleOffer\<close>: up to the entry in \<open>pending\<close>; the remote description; the drain of early candidates; the answer. A status is the response of a
  handler that has returned.\<close>

definition offer_begin :: "bool \<Rightarrow> bool \<Rightarrow> bool \<Rightarrow> SignalingServer \<Rightarrow> nat option \<times> SignalingServer" where
  "offer_begin post decodes newpc s =
     (if \<not> post then (Some 405, s)
      else if \<not> decodes then (Some 400, s)
      else if \<not> newpc then (Some 500, s)
      else let n = sg_idGen s + 1; cid = ''webrtc-'' @ dec (unat n) in
        (None, s\<lparr>sg_idGen := n, sg_pending := sm_Store (sg_pending s) cid (length (sg_store s)),
          sg_store := sg_store s @ [\<lparr>pd_id = cid, pd_pc = \<lparr>pc_remote = False, pc_added = [], pc_closed = False, pc_onState = NoHandler\<rparr>,
             pd_candidates = [], pd_connected = False, pd_stage = Begun\<rparr>]\<rparr>))"

definition pd_put :: "nat \<Rightarrow> pendingConn \<Rightarrow> SignalingServer \<Rightarrow> SignalingServer" where
  "pd_put p pd s = s\<lparr>sg_store := (sg_store s)[p := pd]\<rparr>"

definition offer_remote :: "bool \<Rightarrow> nat \<Rightarrow> SignalingServer \<Rightarrow> nat option \<times> SignalingServer" where
  "offer_remote ok p s =
     (let pd = sg_store s ! p in
      if \<not> ok then (Some 500, pd_put p (pd\<lparr>pd_stage := OfferFailed\<rparr>) s)
      else (None, pd_put p (pd\<lparr>pd_pc := (pd_pc pd)\<lparr>pc_remote := True\<rparr>, pd_stage := RemoteSet\<rparr>) s))"

definition offer_drain :: "nat \<Rightarrow> SignalingServer \<Rightarrow> SignalingServer" where
  "offer_drain p s =
     (let pd = sg_store s ! p in
      pd_put p (pd\<lparr>pd_pc := (pd_pc pd)\<lparr>pc_added := pc_added (pd_pc pd) @ pd_candidates pd\<rparr>, pd_candidates := [], pd_stage := Drained\<rparr>) s)"

definition offer_answer :: "bool \<Rightarrow> bool \<Rightarrow> nat \<Rightarrow> SignalingServer \<Rightarrow> nat \<times> SignalingServer" where
  "offer_answer creates sets p s =
     (let pd = sg_store s ! p in
      if \<not> creates \<or> \<not> sets then (500, pd_put p (pd\<lparr>pd_stage := OfferFailed\<rparr>) s)
      else (200, pd_put p (pd\<lparr>pd_pc := (pd_pc pd)\<lparr>pc_onState := SignalHandler\<rparr>, pd_stage := Answered\<rparr>) s))"

definition handleICE :: "bool \<Rightarrow> (string \<times> candidate) option \<Rightarrow> SignalingServer \<Rightarrow> nat \<times> SignalingServer" where
  "handleICE post req s =
     (if \<not> post then (405, s)
      else case req of
        None \<Rightarrow> (400, s)
      | Some (cid, cand) \<Rightarrow> (case sm_Load (sg_pending s) cid of
          None \<Rightarrow> (200, s)
        | Some p \<Rightarrow>
            let pd = sg_store s ! p in
            (200, if pc_remote (pd_pc pd) then pd_put p (pd\<lparr>pd_pc := (pd_pc pd)\<lparr>pc_added := pc_added (pd_pc pd) @ [cand]\<rparr>\<rparr>) s
                  else pd_put p (pd\<lparr>pd_candidates := pd_candidates pd @ [cand]\<rparr>) s)))"

section \<open>The server\<close>

definition ModeReliable :: string where "ModeReliable = ''reliable''"
definition ModeUnreliable :: string where "ModeUnreliable = ''unreliable''"
definition ModePartialReliable :: string where "ModePartialReliable = ''partial-reliable''"

record rtcPeer =
  pr_id :: string
  pr_pc :: nat                     \<comment> \<open>the offer it belongs to\<close>
  pr_ordered :: "bool option"
  pr_maxRet :: "u16 option"
  pr_open :: bool                  \<comment> \<open>whether the ready state of its channel is open\<close>
  pr_out :: "bytes list"

record WebRTCServer =
  rtc_mode :: string
  rtc_signaling :: SignalingServer
  rtc_peers :: "(string, nat) syncmap"
  rtc_store :: "rtcPeer list"
  rtc_seqCounter :: u64
  rtc_sent :: u64
  rtc_recv :: u64
  rtc_lost :: u64
  rtc_sentBytes :: u64
  rtc_recvBytes :: u64

definition NewWebRTCServer :: "string \<Rightarrow> WebRTCServer" where
  "NewWebRTCServer mode = \<lparr>rtc_mode = (if mode = [] then ModeReliable else mode), rtc_signaling = NewSignalingServer, rtc_peers = [], rtc_store = [],
     rtc_seqCounter = 0, rtc_sent = 0, rtc_recv = 0, rtc_lost = 0, rtc_sentBytes = 0, rtc_recvBytes = 0\<rparr>"

definition RTC_Start :: "bool \<Rightarrow> WebRTCServer \<Rightarrow> rtc_error option \<times> WebRTCServer" where
  "RTC_Start listens s = (let (e, sg) = Signaling_Start listens (rtc_signaling s) in (e, s\<lparr>rtc_signaling := sg\<rparr>))"

type_synonym rtc_order = "(string \<times> nat) list \<Rightarrow> (string \<times> nat) list"

definition close_pc :: "nat \<Rightarrow> SignalingServer \<Rightarrow> SignalingServer" where
  "close_pc p s = pd_put p ((sg_store s ! p)\<lparr>pd_pc := (pd_pc (sg_store s ! p))\<lparr>pc_closed := True\<rparr>\<rparr>) s"

definition RTC_Stop :: "rtc_order \<Rightarrow> bool \<Rightarrow> WebRTCServer \<Rightarrow> rtc_error option \<times> WebRTCServer" where
  "RTC_Stop ord ok s =
     (let sg = fold (\<lambda>k. close_pc (pr_pc (rtc_store s ! k))) (sm_values ord (rtc_peers s)) (rtc_signaling s);
          (e, sg) = Signaling_Stop ok sg
      in (e, s\<lparr>rtc_signaling := sg\<rparr>))"

definition channel_init :: "string \<Rightarrow> bool option \<times> u16 option" where
  "channel_init mode =
     (if mode = ModeUnreliable then (Some False, Some 0)
      else if mode = ModePartialReliable then (Some False, Some 2)
      else (None, None))"

definition onPeerConnected :: "bool \<Rightarrow> nat \<Rightarrow> WebRTCServer \<Rightarrow> WebRTCServer" where
  "onPeerConnected creates p s =
     (let pd = sg_store (rtc_signaling s) ! p in
      if \<not> creates then s\<lparr>rtc_signaling := close_pc p (rtc_signaling s)\<rparr>
      else s\<lparr>rtc_peers := sm_Store (rtc_peers s) (pd_id pd) (length (rtc_store s)),
             rtc_store := rtc_store s @ [\<lparr>pr_id = pd_id pd, pr_pc = p, pr_ordered = fst (channel_init (rtc_mode s)), pr_maxRet = snd (channel_init (rtc_mode s)),
               pr_open = False, pr_out = []\<rparr>],
             rtc_signaling := pd_put p (pd\<lparr>pd_pc := (pd_pc pd)\<lparr>pc_onState := PeerHandler\<rparr>\<rparr>) (rtc_signaling s)\<rparr>)"

text \<open>A connection state change goes to the handler installed last; closing a closed channel panics.\<close>

datatype pc_change = PcConnected bool | PcFailed | PcClosed | PcOther   \<comment> \<open>the flag: whether a data channel can be created\<close>

definition state_change :: "pc_change \<Rightarrow> nat \<Rightarrow> WebRTCServer \<Rightarrow> WebRTCServer option" where
  "state_change ch p s =
     (let sg = rtc_signaling s; pd = sg_store sg ! p in
      case pc_onState (pd_pc pd) of
        NoHandler \<Rightarrow> Some s
      | SignalHandler \<Rightarrow> (case ch of
          PcConnected creates \<Rightarrow>
            let s = onPeerConnected creates p (s\<lparr>rtc_signaling := sg\<lparr>sg_pending := sm_Delete (sg_pending sg) (pd_id pd)\<rparr>\<rparr>) in
            if pd_connected pd then None
            else Some (s\<lparr>rtc_signaling := pd_put p ((sg_store (rtc_signaling s) ! p)\<lparr>pd_connected := True\<rparr>) (rtc_signaling s)\<rparr>)
        | PcOther \<Rightarrow> Some s
        | _ \<Rightarrow> Some (s\<lparr>rtc_signaling := sg\<lparr>sg_pending := sm_Delete (sg_pending sg) (pd_id pd)\<rparr>\<rparr>))
      | PeerHandler \<Rightarrow> Some (case ch of
          PcFailed \<Rightarrow> s\<lparr>rtc_peers := sm_Delete (rtc_peers s) (pd_id pd)\<rparr>
        | PcClosed \<Rightarrow> s\<lparr>rtc_peers := sm_Delete (rtc_peers s) (pd_id pd)\<rparr>
        | _ \<Rightarrow> s))"

text \<open>What a peer's data channel reports: that it opens, a message, that it closes.\<close>

datatype dc_event = DcOpen | DcMessage bytes | DcClose

definition channel_event :: "dc_event \<Rightarrow> nat \<Rightarrow> WebRTCServer \<Rightarrow> WebRTCServer" where
  "channel_event e k s =
     (let pr = rtc_store s ! k in case e of
        DcOpen \<Rightarrow> s\<lparr>rtc_store := (rtc_store s)[k := pr\<lparr>pr_open := True\<rparr>]\<rparr>
      | DcMessage d \<Rightarrow> s\<lparr>rtc_recv := rtc_recv s + 1, rtc_recvBytes := rtc_recvBytes s + of_nat (length d)\<rparr>
      | DcClose \<Rightarrow> s\<lparr>rtc_store := (rtc_store s)[k := pr\<lparr>pr_open := False\<rparr>], rtc_peers := sm_Delete (rtc_peers s) (pr_id pr)\<rparr>)"

text \<open>The range of \<open>Broadcast\<close>; \<open>ok\<close> says to which peers the library can send.\<close>

fun rtc_send_all :: "(nat \<Rightarrow> bool) \<Rightarrow> bytes \<Rightarrow> nat list \<Rightarrow> WebRTCServer \<Rightarrow> WebRTCServer" where
  "rtc_send_all ok frame [] s = s"
| "rtc_send_all ok frame (k # ks) s =
     (let pr = rtc_store s ! k in
      if pr_open pr \<and> ok k then rtc_send_all ok frame ks (s\<lparr>rtc_store := (rtc_store s)[k := pr\<lparr>pr_out := pr_out pr @ [frame]\<rparr>]\<rparr>)
      else rtc_send_all ok frame ks (s\<lparr>rtc_lost := rtc_lost s + 1\<rparr>))"

definition RTC_Broadcast :: "rtc_order \<Rightarrow> (nat \<Rightarrow> bool) \<Rightarrow> i64 \<Rightarrow> bytes \<Rightarrow> WebRTCServer \<Rightarrow> WebRTCServer option" where
  \<comment> \<open>the error is always nil\<close>
  "RTC_Broadcast ord ok now data s = do {
     let seq = rtc_seqCounter s + 1;
     frame \<leftarrow> Encode seq now data;
     Some (rtc_send_all ok frame (sm_values ord (rtc_peers s))
       (s\<lparr>rtc_seqCounter := seq, rtc_sent := rtc_sent s + 1, rtc_sentBytes := rtc_sentBytes s + of_nat (length frame)\<rparr>)) }"

definition RTC_Send :: "bool \<Rightarrow> ConnID \<Rightarrow> bytes \<Rightarrow> WebRTCServer \<Rightarrow> rtc_error option \<times> WebRTCServer" where
  "RTC_Send ok cid data s = (case sm_Load (rtc_peers s) cid of
     None \<Rightarrow> (Some (UnknownPeer cid), s)
   | Some k \<Rightarrow>
       let pr = rtc_store s ! k in
       if \<not> pr_open pr then (Some (NotOpen cid), s)
       else if \<not> ok then (Some DcSend, s)
       else (None, s\<lparr>rtc_store := (rtc_store s)[k := pr\<lparr>pr_out := pr_out pr @ [data]\<rparr>]\<rparr>))"

definition RTC_Connections :: "rtc_order \<Rightarrow> WebRTCServer \<Rightarrow> nat" where
  "RTC_Connections ord s = length (ord (rtc_peers s))"

definition RTC_Stats :: "rtc_order \<Rightarrow> i64 \<Rightarrow> WebRTCServer \<Rightarrow> Stats" where
  "RTC_Stats ord now s =
     \<lparr>st_Protocol = ''webrtc'', st_Connections = int (RTC_Connections ord s), st_Sent = rtc_sent s, st_Received = rtc_recv s, st_Lost = rtc_lost s,
      st_Duplicated = 0, st_Reordered = 0, st_BytesSent = rtc_sentBytes s, st_BytesRecv = rtc_recvBytes s, st_Uptime = 0, st_SnapshotAt = now\<rparr>"

section \<open>The client\<close>

record 'h WebRTCClient =
  rc_handler :: bool
  rc_recorder :: "'h Recorder option"
  rc_pc :: bool                    \<comment> \<open>whether it has a peer connection\<close>
  rc_dc :: bool                    \<comment> \<open>whether it has a data channel\<close>
  rc_connID :: string
  rc_ready :: bool                 \<comment> \<open>closed\<close>
  rc_calls :: "handler_call list"

definition NewWebRTCClient :: "bool \<Rightarrow> 'h Recorder option \<Rightarrow> 'h WebRTCClient" where
  "NewWebRTCClient h rec = \<lparr>rc_handler = h, rc_recorder = rec, rc_pc = False, rc_dc = False, rc_connID = [], rc_ready = False, rc_calls = []\<rparr>"

text \<open>How the exchange goes: which call fails, or the identifier in the answer and what the wait for the channel ends with.\<close>

datatype wait_end = WaitReady | WaitCtx | WaitTimeout

datatype exchange = NoPC | NoOffer | NoLocal | NoPost | NoAnswer | NoRemote string | Exchanged string wait_end

definition RTCClient_Connect :: "exchange \<Rightarrow> 'h WebRTCClient \<Rightarrow> rtc_error option \<times> 'h WebRTCClient" where
  "RTCClient_Connect x c = (case x of
     NoPC \<Rightarrow> (Some ClNewPC, c)
   | NoOffer \<Rightarrow> (Some ClOffer, c\<lparr>rc_pc := True\<rparr>)
   | NoLocal \<Rightarrow> (Some ClLocal, c\<lparr>rc_pc := True\<rparr>)
   | NoPost \<Rightarrow> (Some ClPost, c\<lparr>rc_pc := True\<rparr>)
   | NoAnswer \<Rightarrow> (Some ClAnswer, c\<lparr>rc_pc := True\<rparr>)
   | NoRemote cid \<Rightarrow> (Some ClRemote, c\<lparr>rc_pc := True, rc_connID := cid\<rparr>)
   | Exchanged cid w \<Rightarrow> (case w of
       WaitReady \<Rightarrow> (None, c\<lparr>rc_pc := True, rc_connID := cid, rc_dc := True, rc_ready := True\<rparr>)
     | WaitCtx \<Rightarrow> (Some ClCtx, c\<lparr>rc_pc := True, rc_connID := cid\<rparr>)
     | WaitTimeout \<Rightarrow> (Some ClTimeout, c\<lparr>rc_pc := True, rc_connID := cid\<rparr>)))"

text \<open>The callbacks of the data channel.\<close>

definition rc_onOpen :: "'h WebRTCClient \<Rightarrow> 'h WebRTCClient" where
  "rc_onOpen c = (if rc_ready c then c else c\<lparr>rc_ready := True\<rparr>)"

definition rc_onMessage :: "'h hdr_lib \<Rightarrow> i64 \<Rightarrow> bytes \<Rightarrow> 'h WebRTCClient \<Rightarrow> 'h WebRTCClient option" where
  "rc_onMessage lib recvAt data c = do {
     d \<leftarrow> Decode data;
     c \<leftarrow> (case (d, rc_recorder c) of
        (Inr (frame, _), Some m) \<Rightarrow> do { m \<leftarrow> RecordRecv lib m (SeqNum frame) (SendNs frame) (length data) recvAt; Some (c\<lparr>rc_recorder := Some m\<rparr>) }
      | _ \<Rightarrow> Some c);
     Some (c\<lparr>rc_calls := rc_calls c @ calls_if (rc_handler c) (CallRecv (rc_connID c) data recvAt)\<rparr>) }"

definition RTCClient_Send :: "bool \<Rightarrow> 'h WebRTCClient \<Rightarrow> rtc_error option" where
  "RTCClient_Send ok c = (if \<not> rc_dc c then Some ClNotConnected else if ok then None else Some DcSend)"

definition RTCClient_Close :: "bool \<Rightarrow> 'h WebRTCClient \<Rightarrow> rtc_error option" where
  "RTCClient_Close ok c = (if rc_pc c then if ok then None else Some ClClose else None)"

definition RTCClient_ConnID :: "'h WebRTCClient \<Rightarrow> string" where "RTCClient_ConnID c = rc_connID c"

section \<open>Runs of the server\<close>

datatype rtc_action =
    OfferBegins bool bool bool
  | OfferRemote bool nat
  | OfferDrains nat
  | OfferAnswers bool bool nat
  | Ice bool "(string \<times> candidate) option"
  | StateChange pc_change nat
  | ChannelEvent dc_event nat
  | Casts "nat \<Rightarrow> bool" i64 bytes
  | SendsTo bool ConnID bytes
  | Starts bool
  | Stops bool

definition at_stage :: "offer_stage \<Rightarrow> nat \<Rightarrow> WebRTCServer \<Rightarrow> bool" where
  "at_stage st p s \<longleftrightarrow> p < length (sg_store (rtc_signaling s)) \<and> pd_stage (sg_store (rtc_signaling s) ! p) = st"

abbreviation signal :: "(SignalingServer \<Rightarrow> SignalingServer) \<Rightarrow> WebRTCServer \<Rightarrow> WebRTCServer" where
  "signal f s \<equiv> s\<lparr>rtc_signaling := f (rtc_signaling s)\<rparr>"

text \<open>A stage of \<open>handleOffer\<close> runs when the one before it has; events of connections and peers that do not exist do nothing.\<close>

fun rtc_step :: "rtc_order \<Rightarrow> WebRTCServer \<Rightarrow> rtc_action \<Rightarrow> WebRTCServer option" where
  "rtc_step ord s (OfferBegins post decodes newpc) = Some (signal (\<lambda>sg. snd (offer_begin post decodes newpc sg)) s)"
| "rtc_step ord s (OfferRemote ok p) = Some (if at_stage Begun p s then signal (\<lambda>sg. snd (offer_remote ok p sg)) s else s)"
| "rtc_step ord s (OfferDrains p) = Some (if at_stage RemoteSet p s then signal (offer_drain p) s else s)"
| "rtc_step ord s (OfferAnswers creates sets p) = Some (if at_stage Drained p s then signal (\<lambda>sg. snd (offer_answer creates sets p sg)) s else s)"
| "rtc_step ord s (Ice post req) = Some (signal (\<lambda>sg. snd (handleICE post req sg)) s)"
| "rtc_step ord s (StateChange ch p) = (if p < length (sg_store (rtc_signaling s)) then state_change ch p s else Some s)"
| "rtc_step ord s (ChannelEvent e k) = Some (if k < length (rtc_store s) then channel_event e k s else s)"
| "rtc_step ord s (Casts ok now d) = RTC_Broadcast ord ok now d s"
| "rtc_step ord s (SendsTo ok cid d) = Some (snd (RTC_Send ok cid d s))"
| "rtc_step ord s (Starts listens) = Some (snd (RTC_Start listens s))"
| "rtc_step ord s (Stops ok) = Some (snd (RTC_Stop ord ok s))"

section \<open>Invariant\<close>

definition entry_ok :: "pendingConn \<Rightarrow> bool" where
  "entry_ok pd \<longleftrightarrow> (pd_stage pd = Begun \<longrightarrow> \<not> pc_remote (pd_pc pd)) \<and> (pd_stage pd \<in> {RemoteSet, Drained, Answered} \<longrightarrow> pc_remote (pd_pc pd)) \<and>
     (pd_stage pd \<in> {Drained, Answered} \<longrightarrow> pd_candidates pd = []) \<and> (pc_onState (pd_pc pd) \<noteq> NoHandler \<longrightarrow> pd_stage pd = Answered) \<and>
     (pc_closed (pd_pc pd) \<longrightarrow> pd_stage pd = Answered)"

definition offer_name :: "nat \<Rightarrow> string" where
  "offer_name p = ''webrtc-'' @ dec (unat (of_nat (Suc p) :: u64))"

definition sg_inv :: "SignalingServer \<Rightarrow> bool" where
  "sg_inv sg \<longleftrightarrow> wf_sm (sg_pending sg) \<and> sg_idGen sg = of_nat (length (sg_store sg)) \<and>
     (\<forall>p<length (sg_store sg). pd_id (sg_store sg ! p) = offer_name p \<and> entry_ok (sg_store sg ! p)) \<and>
     (\<forall>cid p. sm_Load (sg_pending sg) cid = Some p \<longrightarrow> p < length (sg_store sg) \<and> offer_name p = cid) \<and>
     (length (sg_store sg) < 2 ^ 64 \<longrightarrow> (\<forall>p<length (sg_store sg). pd_stage (sg_store sg ! p) \<noteq> Answered \<longrightarrow> sm_Load (sg_pending sg) (offer_name p) = Some p))"

definition rtc_inv :: "WebRTCServer \<Rightarrow> bool" where
  "rtc_inv s \<longleftrightarrow> sg_inv (rtc_signaling s) \<and> wf_sm (rtc_peers s) \<and>
     (\<forall>cid k. sm_Load (rtc_peers s) cid = Some k \<longrightarrow> k < length (rtc_store s) \<and> pr_id (rtc_store s ! k) = cid) \<and>
     (\<forall>k<length (rtc_store s). at_stage Answered (pr_pc (rtc_store s ! k)) s)"

lemma offer_name_inj: "p < 2 ^ 64 - 1 \<Longrightarrow> q < 2 ^ 64 - 1 \<Longrightarrow> offer_name p = offer_name q \<longleftrightarrow> p = q"
  by (auto simp: offer_name_def unat_of_nat dec_inj simp del: of_nat_Suc)

lemma sg_put:
  assumes "sg_inv sg" and "p < length (sg_store sg)" and "pd_id pd = pd_id (sg_store sg ! p)" and "entry_ok pd"
    and "pd_stage (sg_store sg ! p) = Answered \<Longrightarrow> pd_stage pd = Answered"
  shows "sg_inv (pd_put p pd sg)"
  using assms unfolding sg_inv_def pd_put_def by (auto simp: nth_update_if)

lemma sg_entry: "sg_inv sg \<Longrightarrow> p < length (sg_store sg) \<Longrightarrow> entry_ok (sg_store sg ! p) \<and> pd_id (sg_store sg ! p) = offer_name p"
  by (simp add: sg_inv_def)

lemma sg_delete:
  assumes i: "sg_inv sg" and p: "p < length (sg_store sg)" "pd_stage (sg_store sg ! p) = Answered"
  shows "sg_inv (sg\<lparr>sg_pending := sm_Delete (sg_pending sg) (pd_id (sg_store sg ! p))\<rparr>)"
proof -
  have "sm_Load (sm_Delete (sg_pending sg) (pd_id (sg_store sg ! p))) (offer_name q) = Some q"
    if "length (sg_store sg) < 2 ^ 64" and q: "q < length (sg_store sg)" "pd_stage (sg_store sg ! q) \<noteq> Answered" for q
  proof -
    have "q \<noteq> p" using q p by auto
    then have "offer_name q \<noteq> pd_id (sg_store sg ! p)" using that p(1) sg_entry [OF i p(1)] offer_name_inj [of q p] by simp
    moreover have "sm_Load (sg_pending sg) (offer_name q) = Some q" using i that by (simp add: sg_inv_def)
    ultimately show ?thesis by (simp add: sm_laws)
  qed
  with i show ?thesis unfolding sg_inv_def by (auto simp: sm_laws)
qed

lemma sg_begin:
  assumes i: "sg_inv sg" shows "sg_inv (snd (offer_begin post decodes newpc sg))"
proof (cases "post \<and> decodes \<and> newpc")
  case True
  let ?n = "length (sg_store sg)"
  have g: "sg_idGen sg + 1 = of_nat (Suc ?n)" using i by (simp add: sg_inv_def)
  define pd where "pd = \<lparr>pd_id = offer_name ?n, pd_pc = \<lparr>pc_remote = False, pc_added = [], pc_closed = False, pc_onState = NoHandler\<rparr>,
     pd_candidates = [], pd_connected = False, pd_stage = Begun\<rparr>"
  have nm: "''webrtc-'' @ dec (unat (sg_idGen sg + 1)) = offer_name ?n" unfolding g offer_name_def ..
  have b: "snd (offer_begin post decodes newpc sg) = sg\<lparr>sg_idGen := of_nat (Suc ?n), sg_pending := sm_Store (sg_pending sg) (offer_name ?n) ?n, sg_store := sg_store sg @ [pd]\<rparr>"
    using True unfolding offer_begin_def Let_def nm by (simp add: pd_def g)
  have pd: "entry_ok pd" "pd_id pd = offer_name ?n" by (simp_all add: pd_def entry_ok_def)
  have fresh: "offer_name q \<noteq> offer_name ?n" if "q < ?n" "Suc ?n < 2 ^ 64" for q
    using offer_name_inj [of q ?n] that by simp
  have old: "pd_id (sg_store sg ! p) = offer_name p \<and> entry_ok (sg_store sg ! p)" if "p < ?n" for p using i that by (simp add: sg_inv_def)
  have look: "p < ?n \<and> offer_name p = cid" if "sm_Load (sg_pending sg) cid = Some p" for cid p using i that by (simp add: sg_inv_def)
  have pend: "sm_Load (sg_pending sg) (offer_name p) = Some p" if "p < ?n" "Suc ?n < 2 ^ 64" "pd_stage (sg_store sg ! p) \<noteq> Answered" for p
    using i that by (simp add: sg_inv_def)
  have "wf_sm (sg_pending sg)" using i by (simp add: sg_inv_def)
  then show ?thesis
    unfolding sg_inv_def b using pd old look pend fresh
    by (auto simp: sm_laws nth_append less_Suc_eq split: if_splits)
qed (use i in \<open>auto simp: offer_begin_def\<close>)

lemmas entry_cases = offer_remote_def offer_drain_def offer_answer_def entry_ok_def Let_def

lemma sg_remote: "sg_inv sg \<Longrightarrow> p < length (sg_store sg) \<Longrightarrow> pd_stage (sg_store sg ! p) = Begun \<Longrightarrow> sg_inv (snd (offer_remote ok p sg))"
  using sg_entry [of sg p] by (cases ok) (auto simp: entry_cases intro!: sg_put)

lemma sg_drain: "sg_inv sg \<Longrightarrow> p < length (sg_store sg) \<Longrightarrow> pd_stage (sg_store sg ! p) = RemoteSet \<Longrightarrow> sg_inv (offer_drain p sg)"
  using sg_entry [of sg p] by (auto simp: entry_cases intro!: sg_put)

lemma sg_answer: "sg_inv sg \<Longrightarrow> p < length (sg_store sg) \<Longrightarrow> pd_stage (sg_store sg ! p) = Drained \<Longrightarrow> sg_inv (snd (offer_answer creates sets p sg))"
  using sg_entry [of sg p] by (auto simp: entry_cases intro!: sg_put)

lemma sg_ice:
  assumes "sg_inv sg" shows "sg_inv (snd (handleICE post req sg))"
proof (cases req)
  case (Some r)
  obtain cid cand where r: "r = (cid, cand)" by (cases r)
  show ?thesis
  proof (cases "sm_Load (sg_pending sg) cid")
    case p: (Some p)
    then have "p < length (sg_store sg)" using assms by (simp add: sg_inv_def)
    with sg_entry [OF assms this] assms Some r p show ?thesis
      by (auto simp: handleICE_def Let_def entry_ok_def intro!: sg_put)
  qed (use assms Some r in \<open>simp add: handleICE_def\<close>)
qed (use assms in \<open>simp add: handleICE_def\<close>)

text \<open>Answered offers stay answered, whatever the signaling server does.\<close>

definition keeps_answered :: "SignalingServer \<Rightarrow> SignalingServer \<Rightarrow> bool" where
  "keeps_answered sg sg' \<longleftrightarrow> length (sg_store sg) \<le> length (sg_store sg') \<and>
     (\<forall>p<length (sg_store sg). pd_stage (sg_store sg ! p) = Answered \<longrightarrow> pd_stage (sg_store sg' ! p) = Answered)"

lemma keeps_put: "(pd_stage (sg_store sg ! p) = Answered \<Longrightarrow> pd_stage pd = Answered) \<Longrightarrow> keeps_answered sg (pd_put p pd sg)"
  by (auto simp: keeps_answered_def pd_put_def nth_update_if)

lemma rtc_signal_inv:
  assumes "rtc_inv s" and "sg_inv sg'" and "keeps_answered (rtc_signaling s) sg'"
  shows "rtc_inv (s\<lparr>rtc_signaling := sg'\<rparr>)"
  using assms by (auto simp: rtc_inv_def at_stage_def keeps_answered_def)

lemma keeps_begin: "keeps_answered sg (snd (offer_begin post decodes newpc sg))"
  by (auto simp: keeps_answered_def offer_begin_def Let_def nth_append)

lemma keeps_stages:
  "pd_stage (sg_store sg ! p) \<noteq> Answered \<Longrightarrow> keeps_answered sg (snd (offer_remote ok p sg))"
  "pd_stage (sg_store sg ! p) \<noteq> Answered \<Longrightarrow> keeps_answered sg (offer_drain p sg)"
  "pd_stage (sg_store sg ! p) \<noteq> Answered \<Longrightarrow> keeps_answered sg (snd (offer_answer creates sets p sg))"
  by (auto simp: offer_remote_def offer_drain_def offer_answer_def Let_def intro!: keeps_put)

lemma keeps_ice: "keeps_answered sg (snd (handleICE post req sg))"
proof -
  have "keeps_answered sg sg" by (simp add: keeps_answered_def)
  then show ?thesis by (auto simp: handleICE_def Let_def intro!: keeps_put split: option.splits prod.splits)
qed

lemma sg_close: "sg_inv sg \<Longrightarrow> p < length (sg_store sg) \<Longrightarrow> pd_stage (sg_store sg ! p) = Answered \<Longrightarrow> sg_inv (close_pc p sg) \<and> keeps_answered sg (close_pc p sg)"
  using sg_entry [of sg p] by (auto simp: close_pc_def entry_ok_def intro!: sg_put keeps_put)

lemma close_all_inv:
  assumes "sg_inv sg" and "\<forall>p\<in>set ps. p < length (sg_store sg) \<and> pd_stage (sg_store sg ! p) = Answered"
  shows "sg_inv (fold close_pc ps sg) \<and> keeps_answered sg (fold close_pc ps sg)"
  using assms
proof (induction ps arbitrary: sg)
  case (Cons p ps)
  from sg_close [OF Cons.prems(1), of p] Cons.prems(2) have c: "sg_inv (close_pc p sg)" "keeps_answered sg (close_pc p sg)" by auto
  have "\<forall>q\<in>set ps. q < length (sg_store (close_pc p sg)) \<and> pd_stage (sg_store (close_pc p sg) ! q) = Answered"
    using Cons.prems(2) c(2) by (auto simp: keeps_answered_def)
  from Cons.IH [OF c(1) this] c(2) show ?case by (auto simp: keeps_answered_def)
qed (simp add: keeps_answered_def)

lemma rtc_stop_inv:
  assumes i: "rtc_inv s" and ord: "range_order ord" shows "rtc_inv (snd (RTC_Stop ord ok s))"
proof -
  let ?ps = "map (\<lambda>k. pr_pc (rtc_store s ! k)) (sm_values ord (rtc_peers s))"
  have "\<forall>k\<in>set (sm_values ord (rtc_peers s)). k < length (rtc_store s)"
    using i ord by (auto simp: rtc_inv_def set_sm_values ran_def)
  then have "\<forall>p\<in>set ?ps. p < length (sg_store (rtc_signaling s)) \<and> pd_stage (sg_store (rtc_signaling s) ! p) = Answered"
    using i by (auto simp: rtc_inv_def at_stage_def)
  moreover have "sg_inv (rtc_signaling s)" using i by (simp add: rtc_inv_def)
  ultimately have c: "sg_inv (fold close_pc ?ps (rtc_signaling s))" "keeps_answered (rtc_signaling s) (fold close_pc ?ps (rtc_signaling s))"
    using close_all_inv by blast+
  have f: "fold (\<lambda>k. close_pc (pr_pc (rtc_store s ! k))) ks sg = fold close_pc (map (\<lambda>k. pr_pc (rtc_store s ! k)) ks) sg" for ks sg
    by (simp add: fold_map comp_def)
  have "snd (RTC_Stop ord ok s) = s\<lparr>rtc_signaling := (fold close_pc ?ps (rtc_signaling s))\<lparr>sg_serving := False\<rparr>\<rparr>"
    by (simp add: RTC_Stop_def Signaling_Stop_def f)
  moreover have "sg_inv ((fold close_pc ?ps (rtc_signaling s))\<lparr>sg_serving := False\<rparr>)" using c(1) by (simp add: sg_inv_def)
  ultimately show ?thesis using rtc_signal_inv [OF i] c(2) by (simp add: keeps_answered_def)
qed

lemma put_answered:
  assumes "rtc_inv s" and "at_stage Answered p s" and "pd_id pd = pd_id (sg_store (rtc_signaling s) ! p)" and "entry_ok pd" and "pd_stage pd = Answered"
  shows "rtc_inv (signal (pd_put p pd) s) \<and> at_stage Answered p (signal (pd_put p pd) s)"
proof
  have "sg_inv (rtc_signaling s)" using assms(1) by (simp add: rtc_inv_def)
  then have "sg_inv (pd_put p pd (rtc_signaling s))" using assms by (intro sg_put) (auto simp: at_stage_def)
  then show "rtc_inv (signal (pd_put p pd) s)" using assms(5) by (intro rtc_signal_inv [OF assms(1)] keeps_put)
  show "at_stage Answered p (signal (pd_put p pd) s)" using assms(2,5) by (simp add: at_stage_def pd_put_def)
qed

lemma answered_entry: "rtc_inv s \<Longrightarrow> at_stage Answered p s \<Longrightarrow> entry_ok (sg_store (rtc_signaling s) ! p) \<and> pd_stage (sg_store (rtc_signaling s) ! p) = Answered"
  using sg_entry [of "rtc_signaling s" p] by (simp add: rtc_inv_def at_stage_def)

lemma onPeer_inv:
  assumes i: "rtc_inv s" and a: "at_stage Answered p s"
  shows "rtc_inv (onPeerConnected creates p s) \<and> at_stage Answered p (onPeerConnected creates p s)"
proof (cases creates)
  case False
  let ?pd = "(sg_store (rtc_signaling s) ! p)\<lparr>pd_pc := (pd_pc (sg_store (rtc_signaling s) ! p))\<lparr>pc_closed := True\<rparr>\<rparr>"
  have "entry_ok ?pd" "pd_stage ?pd = Answered" using answered_entry [OF i a] by (auto simp: entry_ok_def)
  from put_answered [OF i a _ this] False show ?thesis by (simp add: onPeerConnected_def Let_def close_pc_def)
next
  case True
  let ?pd0 = "sg_store (rtc_signaling s) ! p"
  let ?pd = "?pd0\<lparr>pd_pc := (pd_pc ?pd0)\<lparr>pc_onState := PeerHandler\<rparr>\<rparr>"
  have "entry_ok ?pd" "pd_stage ?pd = Answered" using answered_entry [OF i a] by (auto simp: entry_ok_def)
  from put_answered [OF i a _ this] have r: "rtc_inv (signal (pd_put p ?pd) s)" "at_stage Answered p (signal (pd_put p ?pd) s)" by simp_all
  then show ?thesis
    using True by (auto simp: onPeerConnected_def Let_def rtc_inv_def at_stage_def sm_laws nth_append less_Suc_eq split: if_splits)
qed

lemma unpend_inv:
  assumes i: "rtc_inv s" and a: "at_stage Answered p s"
  defines "sg \<equiv> rtc_signaling s"
  defines "s' \<equiv> s\<lparr>rtc_signaling := sg\<lparr>sg_pending := sm_Delete (sg_pending sg) (pd_id (sg_store sg ! p))\<rparr>\<rparr>"
  shows "rtc_inv s' \<and> at_stage Answered p s'"
proof -
  have "sg_inv (sg\<lparr>sg_pending := sm_Delete (sg_pending sg) (pd_id (sg_store sg ! p))\<rparr>)"
    using i a by (intro sg_delete) (auto simp: rtc_inv_def at_stage_def sg_def)
  moreover have "keeps_answered (rtc_signaling s) (sg\<lparr>sg_pending := sm_Delete (sg_pending sg) (pd_id (sg_store sg ! p))\<rparr>)"
    by (simp add: keeps_answered_def sg_def)
  ultimately have "rtc_inv s'" unfolding s'_def by (rule rtc_signal_inv [OF i])
  then show ?thesis using a by (simp add: s'_def at_stage_def sg_def)
qed

lemma peers_delete_inv: "rtc_inv s \<Longrightarrow> rtc_inv (s\<lparr>rtc_peers := sm_Delete (rtc_peers s) cid\<rparr>)"
  by (auto simp: rtc_inv_def at_stage_def sm_laws)

lemma handler_answered:
  assumes "rtc_inv s" and "p < length (sg_store (rtc_signaling s))" and "pc_onState (pd_pc (sg_store (rtc_signaling s) ! p)) \<noteq> NoHandler"
  shows "at_stage Answered p s"
  using sg_entry [of "rtc_signaling s" p] assms by (auto simp: rtc_inv_def at_stage_def entry_ok_def)

lemma connected_inv:
  fixes creates :: bool
  assumes "rtc_inv s" and "at_stage Answered p s"
  defines "s1 \<equiv> signal (\<lambda>sg. sg\<lparr>sg_pending := sm_Delete (sg_pending sg) (pd_id (sg_store sg ! p))\<rparr>) s"
  defines "s2 \<equiv> onPeerConnected creates p s1"
  shows "rtc_inv (signal (\<lambda>sg. pd_put p ((sg_store sg ! p)\<lparr>pd_connected := True\<rparr>) sg) s2)"
proof -
  have s1: "rtc_inv s1" "at_stage Answered p s1" using unpend_inv [OF assms(1,2)] by (simp_all add: s1_def)
  have s2: "rtc_inv s2" "at_stage Answered p s2" using onPeer_inv [OF s1] by (simp_all add: s2_def)
  let ?pd = "(sg_store (rtc_signaling s2) ! p)\<lparr>pd_connected := True\<rparr>"
  have "entry_ok ?pd" "pd_stage ?pd = Answered" using answered_entry [OF s2] by (auto simp: entry_ok_def)
  from put_answered [OF s2 _ this] show ?thesis by simp
qed

lemma state_change_inv:
  assumes i: "rtc_inv s" and p: "p < length (sg_store (rtc_signaling s))" and s': "state_change ch p s = Some s'"
  shows "rtc_inv s'"
proof (cases "pc_onState (pd_pc (sg_store (rtc_signaling s) ! p))")
  case NoHandler
  then show ?thesis using s' i by (simp add: state_change_def Let_def)
next
  case SignalHandler
  then have a: "at_stage Answered p s" using handler_answered [OF i p] by simp
  show ?thesis
  proof (cases ch)
    case (PcConnected creates)
    then show ?thesis using s' SignalHandler connected_inv [OF i a, of creates]
      by (auto simp: state_change_def Let_def split: if_splits)
  qed (use s' SignalHandler i unpend_inv [OF i a] in \<open>auto simp: state_change_def Let_def\<close>)
next
  case PeerHandler
  then show ?thesis using s' i peers_delete_inv [OF i] by (auto simp: state_change_def Let_def split: pc_change.splits)
qed

lemma send_all_keeps:
  "rtc_signaling (rtc_send_all ok f ks s) = rtc_signaling s \<and> rtc_peers (rtc_send_all ok f ks s) = rtc_peers s \<and> length (rtc_store (rtc_send_all ok f ks s)) = length (rtc_store s) \<and>
   (\<forall>k<length (rtc_store s). pr_id (rtc_store (rtc_send_all ok f ks s) ! k) = pr_id (rtc_store s ! k) \<and> pr_pc (rtc_store (rtc_send_all ok f ks s) ! k) = pr_pc (rtc_store s ! k))"
  by (induction ks arbitrary: s) (auto simp: Let_def nth_update_if)

lemma rtc_store_inv:
  assumes "rtc_inv s" and "rtc_signaling s' = rtc_signaling s" and "rtc_peers s' = rtc_peers s" and "length (rtc_store s') = length (rtc_store s)"
    and "\<And>k. k < length (rtc_store s) \<Longrightarrow> pr_id (rtc_store s' ! k) = pr_id (rtc_store s ! k) \<and> pr_pc (rtc_store s' ! k) = pr_pc (rtc_store s ! k)"
  shows "rtc_inv s'"
  using assms by (simp add: rtc_inv_def at_stage_def)

lemma rtc_inv_step:
  assumes ord: "range_order ord" and i: "rtc_inv s" and s': "rtc_step ord s a = Some s'"
  shows "rtc_inv s'"
proof -
  have sg: "sg_inv (rtc_signaling s)" using i by (simp add: rtc_inv_def)
  show ?thesis
  proof (cases a)
    case (OfferBegins post decodes newpc)
    then show ?thesis using s' rtc_signal_inv [OF i sg_begin [OF sg] keeps_begin] by auto
  next
    case (OfferRemote ok p)
    then show ?thesis using s' i rtc_signal_inv [OF i sg_remote [OF sg] keeps_stages(1)] by (auto simp: at_stage_def split: if_splits)
  next
    case (OfferDrains p)
    then show ?thesis using s' i rtc_signal_inv [OF i sg_drain [OF sg] keeps_stages(2)] by (auto simp: at_stage_def split: if_splits)
  next
    case (OfferAnswers creates sets p)
    then show ?thesis using s' i rtc_signal_inv [OF i sg_answer [OF sg] keeps_stages(3)] by (auto simp: at_stage_def split: if_splits)
  next
    case (Ice post req)
    then show ?thesis using s' rtc_signal_inv [OF i sg_ice [OF sg] keeps_ice] by auto
  next
    case (StateChange ch p)
    then show ?thesis using s' i state_change_inv [OF i] by (auto split: if_splits)
  next
    case (ChannelEvent e k)
    show ?thesis
    proof (cases e)
      case DcClose
      let ?s = "s\<lparr>rtc_store := (rtc_store s)[k := (rtc_store s ! k)\<lparr>pr_open := False\<rparr>]\<rparr>"
      have "rtc_inv ?s" by (rule rtc_store_inv [OF i]) (simp_all add: nth_update_if)
      from peers_delete_inv [OF this] s' i ChannelEvent DcClose show ?thesis by (auto simp: channel_event_def Let_def split: if_splits)
    qed (use s' i ChannelEvent in \<open>auto simp: channel_event_def Let_def nth_update_if split: if_splits intro!: rtc_store_inv [OF i]\<close>)
  next
    case (Casts ok now d)
    then show ?thesis using s' send_all_keeps
      by (intro rtc_store_inv [OF i]) (auto simp: RTC_Broadcast_def Let_def)
  next
    case (SendsTo ok cid d)
    then show ?thesis using s' by (intro rtc_store_inv [OF i]) (auto simp: RTC_Send_def Let_def nth_update_if split: option.splits if_splits)
  next
    case (Starts listens)
    have "sg_inv ((rtc_signaling s)\<lparr>sg_serving := True\<rparr>)" using sg by (simp add: sg_inv_def)
    from rtc_signal_inv [OF i this] s' i Starts show ?thesis by (auto simp: RTC_Start_def Signaling_Start_def keeps_answered_def split: if_splits)
  next
    case (Stops ok)
    then show ?thesis using s' rtc_stop_inv [OF i ord] by auto
  qed
qed

lemma rtc_new_inv: "rtc_inv (NewWebRTCServer mode)"
  by (simp add: rtc_inv_def NewWebRTCServer_def NewSignalingServer_def sg_inv_def sm_laws)

lemma rtc_run_inv: "range_order ord \<Longrightarrow> rtc_inv s \<Longrightarrow> run_opt (rtc_step ord) s as = Some s' \<Longrightarrow> rtc_inv s'"
proof (induction as arbitrary: s)
  case (Cons a as)
  then obtain s1 where s1: "rtc_step ord s a = Some s1" and "run_opt (rtc_step ord) s1 as = Some s'" by (auto simp: bind_eq_Some_conv)
  with Cons.IH [OF Cons.prems(1) rtc_inv_step [OF Cons.prems(1,2) s1]] show ?case by simp
qed simp

section \<open>Candidates\<close>

definition cands :: "nat \<Rightarrow> SignalingServer \<Rightarrow> candidate multiset" where
  "cands p sg = (if p < length (sg_store sg) then mset (pc_added (pd_pc (sg_store sg ! p)) @ pd_candidates (sg_store sg ! p)) else {#})"

text \<open>The candidates posted for an offer: those whose identifier leads to it.\<close>

fun posted_of :: "nat \<Rightarrow> WebRTCServer \<Rightarrow> rtc_action \<Rightarrow> candidate list" where
  "posted_of p s (Ice post req) = (case req of
     None \<Rightarrow> []
   | Some (cid, cand) \<Rightarrow> if post \<and> sm_Load (sg_pending (rtc_signaling s)) cid = Some p then [cand] else [])"
| "posted_of p s _ = []"

fun posted :: "rtc_order \<Rightarrow> nat \<Rightarrow> WebRTCServer \<Rightarrow> rtc_action list \<Rightarrow> candidate list" where
  "posted ord p s [] = []"
| "posted ord p s (a # as) = posted_of p s a @ (case rtc_step ord s a of None \<Rightarrow> [] | Some s' \<Rightarrow> posted ord p s' as)"

lemma cands_put:
  "q < length (sg_store sg) \<Longrightarrow>
   cands p (pd_put q pd sg) = (if p = q then mset (pc_added (pd_pc pd) @ pd_candidates pd) else cands p sg)"
  by (auto simp: cands_def pd_put_def nth_update_if)

lemma cands_fields [simp]: "cands p (sg\<lparr>sg_pending := x\<rparr>) = cands p sg" "cands p (sg\<lparr>sg_serving := y\<rparr>) = cands p sg"
  by (simp_all add: cands_def)

lemma cands_close: "cands p (close_pc q sg) = cands p sg"
proof (cases "q < length (sg_store sg)")
  case True
  then show ?thesis by (simp add: close_pc_def cands_put) (simp add: cands_def)
qed (simp add: close_pc_def pd_put_def list_update_beyond cands_def)

lemma cands_close_all: "cands p (fold (\<lambda>k. close_pc (f k)) ks sg) = cands p sg"
  by (induction ks arbitrary: sg) (simp_all add: cands_close)

lemma cands_begin: "cands p (snd (offer_begin post decodes newpc sg)) = cands p sg"
  by (auto simp: cands_def offer_begin_def Let_def nth_append less_Suc_eq)

lemma cands_stages:
  assumes "q < length (sg_store sg)"
  shows "cands p (snd (offer_remote ok q sg)) = cands p sg" "cands p (offer_drain q sg) = cands p sg" "cands p (snd (offer_answer creates sets q sg)) = cands p sg"
  using assms by (auto simp: offer_remote_def offer_drain_def offer_answer_def Let_def cands_put) (auto simp: cands_def)

lemma cands_ice:
  assumes "sg_inv sg"
  shows "cands p (snd (handleICE post req sg)) = cands p sg + mset (case req of None \<Rightarrow> [] | Some (cid, cand) \<Rightarrow> if post \<and> sm_Load (sg_pending sg) cid = Some p then [cand] else [])"
proof (cases req)
  case (Some r)
  obtain cid cand where r: "r = (cid, cand)" by (cases r)
  show ?thesis
  proof (cases "post \<and> sm_Load (sg_pending sg) cid \<noteq> None")
    case True
    then obtain q where q: "sm_Load (sg_pending sg) cid = Some q" by auto
    then have l: "q < length (sg_store sg)" using assms by (simp add: sg_inv_def)
    have "cands p (snd (handleICE post req sg)) = (if p = q then cands p sg + {#cand#} else cands p sg)"
      using Some r q True l by (simp add: handleICE_def Let_def cands_put) (simp add: cands_def)
    with Some r q True show ?thesis by simp
  qed (use Some r in \<open>auto simp: handleICE_def\<close>)
qed (simp add: handleICE_def)

lemma cands_state_change:
  assumes "q < length (sg_store (rtc_signaling s))" and "state_change ch q s = Some s'"
  shows "cands p (rtc_signaling s') = cands p (rtc_signaling s)"
proof -
  have on: "cands p (rtc_signaling (onPeerConnected creates q s)) = cands p (rtc_signaling s) \<and> length (sg_store (rtc_signaling (onPeerConnected creates q s))) = length (sg_store (rtc_signaling s))"
    if "q < length (sg_store (rtc_signaling s))" for creates and s
    using that by (auto simp: onPeerConnected_def Let_def cands_close cands_put close_pc_def pd_put_def) (auto simp: cands_def nth_update_if)
  have put: "cands p (pd_put q ((sg_store sg ! q)\<lparr>pd_connected := True\<rparr>) sg) = cands p sg" if "q < length (sg_store sg)" for sg
    using that by (simp add: cands_put) (simp add: cands_def)
  let ?s = "s\<lparr>rtc_signaling := (rtc_signaling s)\<lparr>sg_pending := sm_Delete (sg_pending (rtc_signaling s)) (pd_id (sg_store (rtc_signaling s) ! q))\<rparr>\<rparr>"
  have o: "cands p (rtc_signaling (onPeerConnected creates q ?s)) = cands p (rtc_signaling s)" "q < length (sg_store (rtc_signaling (onPeerConnected creates q ?s)))" for creates
    using on [of ?s creates] assms(1) by simp_all
  show ?thesis
    using assms(2) o put by (auto simp: state_change_def Let_def split: state_handler.splits pc_change.splits if_splits)
qed

lemma cands_step:
  assumes "rtc_inv s" and "rtc_step ord s a = Some s'"
  shows "cands p (rtc_signaling s') = cands p (rtc_signaling s) + mset (posted_of p s a)"
proof (cases a)
  case (StateChange ch q)
  then show ?thesis using assms(2) cands_state_change by (auto split: if_splits)
next
  case (Ice post req)
  then show ?thesis using assms cands_ice [of "rtc_signaling s" p post req] by (auto simp: rtc_inv_def)
next
  case (Casts ok now d)
  then show ?thesis using assms(2) by (auto simp: RTC_Broadcast_def Let_def send_all_keeps)
next
  case (Stops ok)
  then show ?thesis using assms(2) by (auto simp: RTC_Stop_def Signaling_Stop_def Let_def cands_close_all)
qed (use assms(2) in \<open>auto simp: at_stage_def cands_begin cands_stages channel_event_def RTC_Send_def RTC_Start_def Signaling_Start_def Let_def
      split: if_splits dc_event.splits option.splits\<close>)

lemma cands_run:
  assumes "range_order ord"
  shows "rtc_inv s \<Longrightarrow> run_opt (rtc_step ord) s as = Some s' \<Longrightarrow> cands p (rtc_signaling s') = cands p (rtc_signaling s) + mset (posted ord p s as)"
proof (induction as arbitrary: s)
  case (Cons a as)
  then obtain s1 where s1: "rtc_step ord s a = Some s1" and r: "run_opt (rtc_step ord) s1 as = Some s'" by (auto simp: bind_eq_Some_conv)
  from Cons.IH [OF rtc_inv_step [OF assms Cons.prems(1) s1] r] cands_step [OF Cons.prems(1) s1, of p] s1 show ?case by simp
qed simp

section \<open>Properties\<close>

text \<open>An offer with a candidate before and one after its remote description is set, a failed offer, and a connected peer.\<close>

definition rtc_example :: "rtc_action list" where
  "rtc_example = [OfferBegins True True True, Ice True (Some (''webrtc-1'', (''a'', [], 0))), OfferRemote True 0, Ice True (Some (''webrtc-1'', (''b'', [], 0))),
     OfferDrains 0, OfferAnswers True True 0, OfferBegins True True True, OfferRemote False 1, StateChange (PcConnected True) 0, ChannelEvent DcOpen 0]"

text \<open>Every ICE candidate posted for an offer while it is pending is added to its peer connection exactly once, before or after the
  remote description is set and however the handlers interleave: once the offer is drained or answered, the candidates added are those
  posted.\<close>

lemma rtc_candidates_added_once:
  assumes "range_order ord" and "run_opt (rtc_step ord) (NewWebRTCServer mode) as = Some s" and "at_stage st p s" and "st = Drained \<or> st = Answered"
  shows "mset (pc_added (pd_pc (sg_store (rtc_signaling s) ! p))) = mset (posted ord p (NewWebRTCServer mode) as) \<and> pd_candidates (sg_store (rtc_signaling s) ! p) = []"
proof -
  have i: "rtc_inv s" by (rule rtc_run_inv [OF assms(1) rtc_new_inv assms(2)])
  have "pd_candidates (sg_store (rtc_signaling s) ! p) = []"
    using sg_entry [of "rtc_signaling s" p] i assms(3,4) by (auto simp: rtc_inv_def at_stage_def entry_ok_def)
  moreover have "cands p (rtc_signaling (NewWebRTCServer mode)) = {#}" by (simp add: cands_def NewWebRTCServer_def NewSignalingServer_def)
  ultimately show ?thesis
    using cands_run [OF assms(1) rtc_new_inv assms(2), of p] assms(3) by (simp add: cands_def at_stage_def)
qed

lemma rtc_example_run:
  "\<exists>s. run_opt (rtc_step (\<lambda>xs. xs)) (NewWebRTCServer []) rtc_example = Some s \<and> at_stage Answered 0 s \<and> at_stage OfferFailed 1 s \<and>
     posted (\<lambda>xs. xs) 0 (NewWebRTCServer []) rtc_example = [(''a'', [], 0), (''b'', [], 0)] \<and> map pr_open (rtc_store s) = [True] \<and> rtc_peers s = [(''webrtc-1'', 0)] \<and>
     length (sg_store (rtc_signaling s)) = 2"
proof -
  let ?s = "run_opt (rtc_step (\<lambda>xs. xs)) (NewWebRTCServer []) rtc_example"
  have "?s \<noteq> None" by code_simp
  moreover have "at_stage Answered 0 (the ?s)" by code_simp
  moreover have "at_stage OfferFailed 1 (the ?s)" by code_simp
  moreover have "posted (\<lambda>xs. xs) 0 (NewWebRTCServer []) rtc_example = [(''a'', [], 0), (''b'', [], 0)]" by code_simp
  moreover have "map pr_open (rtc_store (the ?s)) = [True]" by code_simp
  moreover have "rtc_peers (the ?s) = [(''webrtc-1'', 0)]" by code_simp
  moreover have "length (sg_store (rtc_signaling (the ?s))) = 2" by code_simp
  ultimately show ?thesis by (intro exI [of _ "the ?s"] conjI) auto
qed

text \<open>An offer whose handling fails after its entry was stored is never cleaned up: in every later state it is still pending and its peer
  connection is not closed.\<close>

lemma rtc_failed_offer_leaks:
  assumes "range_order ord" and "run_opt (rtc_step ord) (NewWebRTCServer mode) as = Some s" and "at_stage OfferFailed p s"
    and "length (sg_store (rtc_signaling s)) < 2 ^ 64"
  shows "sm_Load (sg_pending (rtc_signaling s)) (pd_id (sg_store (rtc_signaling s) ! p)) = Some p \<and> \<not> pc_closed (pd_pc (sg_store (rtc_signaling s) ! p))"
proof -
  have "sg_inv (rtc_signaling s)" using rtc_run_inv [OF assms(1) rtc_new_inv assms(2)] by (simp add: rtc_inv_def)
  then show ?thesis using assms(3,4) by (auto simp: sg_inv_def at_stage_def entry_ok_def)
qed

text \<open>A broadcast reaches exactly the registered peers with an open channel to which the library can send, and counts each of the others as lost.\<close>

lemma send_all_result:
  assumes "distinct ks" and "\<forall>k\<in>set ks. k < length (rtc_store s)"
  shows "(\<forall>k<length (rtc_store s). rtc_store (rtc_send_all ok f ks s) ! k =
      (if k \<in> set ks \<and> pr_open (rtc_store s ! k) \<and> ok k then (rtc_store s ! k)\<lparr>pr_out := pr_out (rtc_store s ! k) @ [f]\<rparr> else rtc_store s ! k)) \<and>
    rtc_lost (rtc_send_all ok f ks s) = rtc_lost s + of_nat (length (filter (\<lambda>k. \<not> (pr_open (rtc_store s ! k) \<and> ok k)) ks))"
  using assms
proof (induction ks arbitrary: s)
  case (Cons k ks)
  show ?case
  proof (cases "pr_open (rtc_store s ! k) \<and> ok k")
    case True
    let ?s = "s\<lparr>rtc_store := (rtc_store s)[k := (rtc_store s ! k)\<lparr>pr_out := pr_out (rtc_store s ! k) @ [f]\<rparr>]\<rparr>"
    have other: "rtc_store ?s ! j = rtc_store s ! j" if "j \<in> set ks" for j using that Cons.prems(1) by (auto simp: nth_update_if)
    have fl: "filter (\<lambda>j. \<not> (pr_open (rtc_store ?s ! j) \<and> ok j)) ks = filter (\<lambda>j. \<not> (pr_open (rtc_store s ! j) \<and> ok j)) ks"
      by (rule filter_cong) (auto simp: nth_update_if split: if_splits)
    have "distinct ks" "\<forall>j\<in>set ks. j < length (rtc_store ?s)" using Cons.prems by auto
    note ih = Cons.IH [OF this, unfolded fl]
    have st: "rtc_send_all ok f (k # ks) s = rtc_send_all ok f ks ?s" using True by (simp add: Let_def)
    have len: "length (rtc_store ?s) = length (rtc_store s)" by simp
    show ?thesis unfolding st using conjunct1 [OF ih] conjunct2 [OF ih] True Cons.prems unfolding len
      by (auto simp: nth_update_if)
  next
    case False
    let ?s = "s\<lparr>rtc_lost := rtc_lost s + 1\<rparr>"
    have st: "rtc_send_all ok f (k # ks) s = rtc_send_all ok f ks ?s" using False by (auto simp: Let_def)
    from Cons.IH [of ?s] Cons.prems False show ?thesis unfolding st by auto
  qed
qed simp

lemma rtc_broadcast_accounts:
  assumes i: "rtc_inv s" and ord: "range_order ord" and b: "RTC_Broadcast ord ok now d s = Some s'"
  shows "(\<forall>cid k. sm_Load (rtc_peers s) cid = Some k \<longrightarrow> pr_out (rtc_store s' ! k) = pr_out (rtc_store s ! k) @
      (if pr_open (rtc_store s ! k) \<and> ok k then [frame_bytes (rtc_seqCounter s + 1) now d] else [])) \<and>
    rtc_lost s' = rtc_lost s + of_nat (length (filter (\<lambda>k. \<not> (pr_open (rtc_store s ! k) \<and> ok k)) (sm_values ord (rtc_peers s))))"
proof -
  have wf: "wf_sm (rtc_peers s)" and l: "\<And>cid k. sm_Load (rtc_peers s) cid = Some k \<Longrightarrow> k < length (rtc_store s) \<and> pr_id (rtc_store s ! k) = cid"
    using i by (auto simp: rtc_inv_def)
  have d: "distinct (sm_values ord (rtc_peers s))" using wf ord l by (intro distinct_sm_values) metis+
  have m: "set (sm_values ord (rtc_peers s)) = ran (sm_Load (rtc_peers s))" by (rule set_sm_values [OF wf ord])
  have k: "\<forall>k\<in>set (sm_values ord (rtc_peers s)). k < length (rtc_store s)" using l unfolding m by (auto simp: ran_def)
  let ?s = "s\<lparr>rtc_seqCounter := rtc_seqCounter s + 1, rtc_sent := rtc_sent s + 1, rtc_sentBytes := rtc_sentBytes s + of_nat (length (frame_bytes (rtc_seqCounter s + 1) now d))\<rparr>"
  have s': "s' = rtc_send_all ok (frame_bytes (rtc_seqCounter s + 1) now d) (sm_values ord (rtc_peers s)) ?s"
    using b by (simp add: RTC_Broadcast_def Let_def)
  note r = send_all_result [OF d, of ?s ok "frame_bytes (rtc_seqCounter s + 1) now d", folded s']
  show ?thesis
  proof (intro conjI allI impI)
    fix cid j assume j: "sm_Load (rtc_peers s) cid = Some j"
    then have "j \<in> set (sm_values ord (rtc_peers s))" unfolding m by (auto simp: ran_def)
    with r k l [OF j] show "pr_out (rtc_store s' ! j) = pr_out (rtc_store s ! j) @ (if pr_open (rtc_store s ! j) \<and> ok j then [frame_bytes (rtc_seqCounter s + 1) now d] else [])"
      by simp
  next
    show "rtc_lost s' = rtc_lost s + of_nat (length (filter (\<lambda>k. \<not> (pr_open (rtc_store s ! k) \<and> ok k)) (sm_values ord (rtc_peers s))))"
      using r k by simp
  qed
qed

end
