(* ===== verification/Bench.thy ===== *)
theory Bench
  imports Scenario Tcp Udp Sse Ws_Clients Ws_Servers Http Http3 Webtransport Webrtc
begin

text \<open>
  The bench transports of \<^verbatim>\<open>internal/*/register.go\<close>: what the scenario runner drives. Each wraps the server of its package and, on \<open>Start\<close>,
  connects \<open>ReceiverCount\<close> clients to it and waits until the server reports that many connections. The eleven files have the same text but for the
  operations they call, whether there is a context to cancel and how long they wait, so \<open>Start\<close> and \<open>Stop\<close> are defined once over a record of these, the
  package, and each file is a package and a factory.

  While clients connect and while \<open>Start\<close> waits, the server's goroutines run: \<open>env i\<close> is what they do to the server while client \<open>i\<close> connects,
  \<open>later k\<close> until poll \<open>k\<close> of the wait.
\<close>

section \<open>Start and Stop\<close>

record ('s, 'c, 'e, 'f) package =
  pk_ctx :: bool                                      \<comment> \<open>whether there is a context\<close>
  pk_wait :: int                                      \<comment> \<open>how long \<open>waitForConns\<close> waits, in nanoseconds\<close>
  pk_start :: "'s \<Rightarrow> ('e option \<times> 's) option"
  pk_connect :: "nat \<Rightarrow> ('f option \<times> 'c) option"      \<comment> \<open>a new client and its connection attempt\<close>
  pk_close :: "'c \<Rightarrow> 'c option"
  pk_stop :: "'s \<Rightarrow> ('e option \<times> 's) option"
  pk_conns :: "'s \<Rightarrow> int"

record ('s, 'c) benchTransport =
  bn_server :: 's
  bn_clients :: "'c list"
  bn_count :: int
  bn_ctx :: "bool option"                             \<comment> \<open>the context, once made: whether it is cancelled\<close>

datatype ('e, 'f) bench_error = StartErr 'e | ConnectErr nat 'f | ConnTimeout int int

definition new_bench :: "'s \<Rightarrow> ScenarioConfig \<Rightarrow> ('s, 'c) benchTransport" where
  "new_bench srv cfg = \<lparr>bn_server = srv, bn_clients = [], bn_count = sc_ReceiverCount cfg, bn_ctx = None\<rparr>"

definition bench_addr :: "ScenarioConfig \<Rightarrow> string" where
  "bench_addr cfg = sc_ServerAddr cfg @ '':'' @ dec_int (sc_ServerPort cfg)"

text \<open>\<open>waitForConns\<close> from its poll \<open>k\<close>: \<open>clock k\<close> is the time and \<open>seen k\<close> what \<open>Connections\<close> returns at that poll. \<open>None\<close> is a wait that does not
  end; otherwise the error (the connections seen last) and the last poll.\<close>

partial_function (option) wait_from :: "(nat \<Rightarrow> int) \<Rightarrow> (nat \<Rightarrow> int) \<Rightarrow> int \<Rightarrow> int \<Rightarrow> nat \<Rightarrow> (int option \<times> nat) option" where
  "wait_from clock seen deadline want k =
     (if clock k < deadline then
        if want \<le> seen k then Some (None, k) else wait_from clock seen deadline want (Suc k)
      else Some (Some (seen k), k))"

definition waitForConns :: "(nat \<Rightarrow> int) \<Rightarrow> (nat \<Rightarrow> int) \<Rightarrow> int \<Rightarrow> int \<Rightarrow> int \<Rightarrow> (int option \<times> nat) option" where
  "waitForConns clock seen now limit want = wait_from clock seen (now + limit) want 0"

fun connect_clients ::
  "('s, 'c, 'e, 'f) package \<Rightarrow> (nat \<Rightarrow> 's \<Rightarrow> 's) \<Rightarrow> nat \<Rightarrow> nat \<Rightarrow> ('s, 'c) benchTransport \<Rightarrow> (('e, 'f) bench_error option \<times> ('s, 'c) benchTransport) option" where
  "connect_clients pk env i 0 b = Some (None, b)"
| "connect_clients pk env i (Suc n) b = do {
     (err, c) \<leftarrow> pk_connect pk i;
     let b = b\<lparr>bn_server := env i (bn_server b)\<rparr>;
     case err of
       Some f \<Rightarrow> Some (Some (ConnectErr i f), b)
     | None \<Rightarrow> connect_clients pk env (Suc i) n (b\<lparr>bn_clients := bn_clients b @ [c]\<rparr>) }"

definition bench_count :: "('s, 'c) benchTransport \<Rightarrow> int" where
  "bench_count b = (if bn_count b \<le> 0 then 1 else bn_count b)"

definition bench_Start ::
  "('s, 'c, 'e, 'f) package \<Rightarrow> (nat \<Rightarrow> 's \<Rightarrow> 's) \<Rightarrow> (nat \<Rightarrow> 's \<Rightarrow> 's) \<Rightarrow> int \<Rightarrow> (nat \<Rightarrow> int) \<Rightarrow> ('s, 'c) benchTransport \<Rightarrow>
   (('e, 'f) bench_error option \<times> ('s, 'c) benchTransport) option" where
  "bench_Start pk env later now clock b = do {
     let b = (if pk_ctx pk then b\<lparr>bn_ctx := Some False\<rparr> else b);
     (err, s) \<leftarrow> pk_start pk (bn_server b);
     let b = b\<lparr>bn_server := s\<rparr>;
     case err of
       Some e \<Rightarrow> Some (Some (StartErr e), b)
     | None \<Rightarrow> do {
         (err, b) \<leftarrow> connect_clients pk env 0 (nat (bench_count b)) b;
         case err of
           Some e \<Rightarrow> Some (Some e, b)
         | None \<Rightarrow> do {
             (w, k) \<leftarrow> waitForConns clock (\<lambda>k. pk_conns pk (later k (bn_server b))) now (pk_wait pk) (bench_count b);
             Some (map_option (ConnTimeout (bench_count b)) w, b\<lparr>bn_server := later k (bn_server b)\<rparr>) } } }"

text \<open>The error of the server's \<open>Stop\<close>, the clients as they were closed, the transport.\<close>

definition bench_Stop :: "('s, 'c, 'e, 'f) package \<Rightarrow> ('s, 'c) benchTransport \<Rightarrow> ('e option \<times> 'c list \<times> ('s, 'c) benchTransport) option" where
  "bench_Stop pk b = do {
     let clients = bn_clients b;
     let b = b\<lparr>bn_clients := [], bn_ctx := map_option (\<lambda>_. True) (bn_ctx b)\<rparr>;
     closed \<leftarrow> those (map (pk_close pk) clients);
     (err, s) \<leftarrow> pk_stop pk (bn_server b);
     Some (err, closed, b\<lparr>bn_server := s\<rparr>) }"

definition bench_Connections :: "('s, 'c, 'e, 'f) package \<Rightarrow> ('s, 'c) benchTransport \<Rightarrow> int" where
  "bench_Connections pk b = pk_conns pk (bn_server b)"

definition bench_Broadcast :: "(bytes \<Rightarrow> 's \<Rightarrow> 's option) \<Rightarrow> bytes \<Rightarrow> ('s, 'c) benchTransport \<Rightarrow> ('s, 'c) benchTransport option" where
  "bench_Broadcast f data b = map_option (\<lambda>s. b\<lparr>bn_server := s\<rparr>) (f data (bn_server b))"

section \<open>The packages\<close>

definition err_of :: "'e + unit \<Rightarrow> 'e option" where
  "err_of r = (case r of Inl e \<Rightarrow> Some e | Inr _ \<Rightarrow> None)"

abbreviation "plain_err \<equiv> map_prod err_of id"

definition tcp_pkg where
  "tcp_pkg listen numCPU linux now wall cpu ord rec dial =
     \<lparr>pk_ctx = False, pk_wait = 10 * Second, pk_start = (\<lambda>s. Some (plain_err (TCP_Start listen numCPU linux now wall cpu s))),
      pk_connect = (\<lambda>i. Some (plain_err (Client_Dial (fst (dial i)) (snd (dial i)) now wall cpu (NewTCPClient rec)))), pk_close = Client_Close,
      pk_stop = (\<lambda>s. map_option plain_err (TCP_Stop ord s)), pk_conns = (\<lambda>s. int (TCP_Connections s))\<rparr>"

definition tcp_factory where "tcp_factory rec cfg = Some (new_bench (NewTCPServer rec (bench_addr cfg)) cfg)"

definition udp_pkg where
  "udp_pkg resolves listens now wall cpu rec dial =
     \<lparr>pk_ctx = False, pk_wait = 10 * Second, pk_start = (\<lambda>s. Some (plain_err (UDP_Start resolves listens now wall cpu s))),
      pk_connect = (\<lambda>i. case dial i of (resolved, dials, hello) \<Rightarrow> Some (plain_err (UDPClient_Dial resolved dials hello now wall cpu (NewUDPClient rec)))),
      pk_close = UDPClient_Close, pk_stop = (\<lambda>s. map_option plain_err (UDP_Stop s)), pk_conns = (\<lambda>s. int (UDP_Connections s))\<rparr>"

definition udp_factory where "udp_factory rec cfg = Some (new_bench (NewUDPServer rec (bench_addr cfg)) cfg)"

text \<open>The configuration the factories make: only the address is set.\<close>

definition listen_cfg :: "ScenarioConfig \<Rightarrow> TransportConfig" where
  "listen_cfg cfg = \<lparr>cfg_ListenAddr = bench_addr cfg, cfg_TLSCertDir = [], cfg_MaxConnections = 0, cfg_ReadBufSize = 0, cfg_WriteBufSize = 0,
     cfg_WriteTimeout = 0, cfg_ReadTimeout = 0, cfg_OnRecv = False, cfg_OnConnect = False, cfg_OnDisconnect = False\<rparr>"

definition gorilla_pkg where
  "gorilla_pkg now listens ok addr uuid attempts closes =
     \<lparr>pk_ctx = True, pk_wait = 10 * Second, pk_start = (\<lambda>s. Some (plain_err (Gorilla_Start now listens s))),
      pk_connect = (\<lambda>i. Some (GorillaClient_Connect (attempts i) (NewGorillaClient addr (uuid i) True))), pk_close = (\<lambda>c. Some (GorillaClient_Close closes c)),
      pk_stop = (\<lambda>s. Some (plain_err (Gorilla_Stop ok s))), pk_conns = (\<lambda>s. int (Gorilla_Connections s))\<rparr>"

definition gorilla_factory where "gorilla_factory cfg = Some (new_bench (NewGorillaServer (listen_cfg cfg)) cfg)"

definition coder_pkg where
  "coder_pkg now listens ok addr uuid attempts closes =
     \<lparr>pk_ctx = True, pk_wait = 10 * Second, pk_start = (\<lambda>s. Some (plain_err (Coder_Start now listens s))),
      pk_connect = (\<lambda>i. Some (CoderClient_Connect (attempts i) (NewCoderClient addr (uuid i) True))), pk_close = (\<lambda>c. Some (CoderClient_Close closes c)),
      pk_stop = (\<lambda>s. Some (plain_err (Coder_Stop ok s))), pk_conns = (\<lambda>s. int (Coder_Connections s))\<rparr>"

definition coder_factory where "coder_factory cfg = Some (new_bench (NewCoderServer (listen_cfg cfg)) cfg)"

definition gobwas_pkg where
  "gobwas_pkg now listens ok addr uuid attempts closes =
     \<lparr>pk_ctx = True, pk_wait = 10 * Second, pk_start = (\<lambda>s. Some (plain_err (Gobwas_Start now listens s))),
      pk_connect = (\<lambda>i. Some (GobwasClient_Connect (attempts i) (NewGobwasClient addr (uuid i) True))), pk_close = (\<lambda>c. Some (GobwasClient_Close closes c)),
      pk_stop = (\<lambda>s. Some (plain_err (Gobwas_Stop ok s))), pk_conns = (\<lambda>s. int (Gobwas_Connections s))\<rparr>"

definition gobwas_factory where "gobwas_factory cfg = Some (new_bench (NewGobwasServer (listen_cfg cfg)) cfg)"

definition http1_pkg where
  "http1_pkg now listens ord ok addr results =
     \<lparr>pk_ctx = True, pk_wait = 10 * Second, pk_start = (\<lambda>s. Some (plain_err (HTTP1_Start now listens s))),
      pk_connect = (\<lambda>i. Some (HTTP1Client_Connect (results i) (NewHTTP1Client addr True))), pk_close = (\<lambda>c. Some (HTTP1Client_Close c)),
      pk_stop = (\<lambda>s. Some (plain_err (HTTP1_Stop ord ok s))), pk_conns = HTTP1_Connections\<rparr>"

definition http1_factory where "http1_factory cfg = Some (new_bench (NewHTTP1Server (listen_cfg cfg)) cfg)"

definition http2_pkg where
  "http2_pkg now listens ord ok addr results =
     \<lparr>pk_ctx = True, pk_wait = 10 * Second, pk_start = (\<lambda>s. Some (plain_err (HTTP2_Start now listens s))),
      pk_connect = (\<lambda>i. Some (HTTP2Client_Connect (results i) (NewHTTP2Client addr True))), pk_close = (\<lambda>c. Some (HTTP2Client_Close c)),
      pk_stop = (\<lambda>s. Some (plain_err (HTTP2_Stop ord ok s))), pk_conns = HTTP2_Connections\<rparr>"

definition http2_factory where "http2_factory cfg = Some (new_bench (NewHTTP2Server (listen_cfg cfg)) cfg)"

definition http3_pkg where
  "http3_pkg lib certs listens now wall cpu ord addr =
     \<lparr>pk_ctx = False, pk_wait = 15 * Second, pk_start = (\<lambda>s. map_option plain_err (H3_Start certs listens now wall cpu s)),
      pk_connect = (\<lambda>i. do { c \<leftarrow> NewHTTP3Client lib now addr [WithClientRecvHandler]; map_option plain_err (C3_Start now wall cpu c) }),
      pk_close = (\<lambda>c. map_option snd (C3_Stop c)), pk_stop = (\<lambda>s. map_option plain_err (H3_Stop ord s)), pk_conns = (\<lambda>s. int (H3_Connections ord s))\<rparr>"

definition http3_factory where
  "http3_factory lib now cfg = map_option (\<lambda>srv. new_bench srv cfg) (NewHTTP3Server lib now (bench_addr cfg) [])"

text \<open>A client of the event stream is closed by its context, which the model of the client leaves to the environment.\<close>

definition sse_pkg where
  "sse_pkg listens ord replies =
     \<lparr>pk_ctx = True, pk_wait = 10 * Second, pk_start = (\<lambda>s. Some (plain_err (SSE_Start listens s))),
      pk_connect = (\<lambda>i. Some (let c = NewSSEClient True None in case SSE_Connect (replies i) c of None \<Rightarrow> (Some (), c) | Some c \<Rightarrow> (None, c))), pk_close = Some,
      pk_stop = (\<lambda>s. map_option (Pair None) (SSE_Stop s)), pk_conns = (\<lambda>s. int (SSE_Connections ord s))\<rparr>"

definition sse_factory where "sse_factory cfg = Some (new_bench (NewSSEServer (bench_addr cfg)) cfg)"

definition wt_pkg where
  "wt_pkg ord ok uuid dials =
     \<lparr>pk_ctx = True, pk_wait = 15 * Second, pk_start = (\<lambda>s. Some (WT_Start s)),
      pk_connect = (\<lambda>i. Some (WTClient_Connect (dials i) (NewWebTransportClient (uuid i) ModeUniStream True None))), pk_close = (\<lambda>c. Some (WTClient_Close c)),
      pk_stop = (\<lambda>s. Some (WT_Stop ok s)), pk_conns = (\<lambda>s. int (WT_Connections ord s))\<rparr>"

definition wt_factory where
  "wt_factory certs cfg = (case NewWebTransportServer certs (bench_addr cfg) ModeUniStream of Inl e \<Rightarrow> None | Inr srv \<Rightarrow> Some (new_bench srv cfg))"

definition webrtc_pkg where
  "webrtc_pkg listens ord ok exchanges closes =
     \<lparr>pk_ctx = True, pk_wait = 15 * Second, pk_start = (\<lambda>s. Some (RTC_Start listens s)),
      pk_connect = (\<lambda>i. Some (RTCClient_Connect (exchanges i) (NewWebRTCClient True None))), pk_close = (\<lambda>c. let _ = RTCClient_Close closes c in Some c),
      pk_stop = (\<lambda>s. Some (RTC_Stop ord ok s)), pk_conns = (\<lambda>s. int (RTC_Connections ord s))\<rparr>"

definition webrtc_factory where "webrtc_factory cfg = Some (new_bench (NewWebRTCServer ModeReliable) cfg)"

section \<open>Waiting ends\<close>

lemma wait_from_ends:
  assumes "mono clock" and "deadline \<le> clock K"
  shows "\<exists>w k. wait_from clock seen deadline want j = Some (w, k) \<and> (w = None \<longleftrightarrow> (\<exists>k\<ge>j. clock k < deadline \<and> want \<le> seen k))"
  using assms(2)
proof (induction "K - j" arbitrary: j rule: less_induct)
  case less
  show ?case
  proof (cases "clock j < deadline")
    case False
    then have "deadline \<le> clock k" if "j \<le> k" for k using monoD [OF assms(1) that] by simp
    then have n: "\<not> (\<exists>k\<ge>j. clock k < deadline \<and> want \<le> seen k)" by force
    show ?thesis using False n by (subst wait_from.simps) simp
  next
    case True
    show ?thesis
    proof (cases "want \<le> seen j")
      case w: True
      have "wait_from clock seen deadline want j = Some (None, j)" using True w by (simp add: wait_from.simps)
      with True w show ?thesis by blast
    next
      case w: False
      have "j < K" using True less.prems monoD [OF assms(1), of K j] by (meson leI le_less_trans less_le_not_le)
      then have "K - Suc j < K - j" by simp
      from less.hyps [OF this less.prems] obtain w' k where
        r: "wait_from clock seen deadline want (Suc j) = Some (w', k)" and iff: "w' = None \<longleftrightarrow> (\<exists>k\<ge>Suc j. clock k < deadline \<and> want \<le> seen k)" by blast
      have "wait_from clock seen deadline want j = Some (w', k)" using True w r by (subst wait_from.simps) simp
      moreover have "(\<exists>k\<ge>j. clock k < deadline \<and> want \<le> seen k) \<longleftrightarrow> (\<exists>k\<ge>Suc j. clock k < deadline \<and> want \<le> seen k)"
        using w by (metis Suc_leD le_neq_implies_less Suc_leI)
      ultimately show ?thesis using iff by blast
    qed
  qed
qed

text \<open>Each poll but the first comes at least ten milliseconds after the one before.\<close>

definition polls_advance :: "int \<Rightarrow> (nat \<Rightarrow> int) \<Rightarrow> bool" where
  "polls_advance now clock \<longleftrightarrow> mono clock \<and> (\<forall>k. now + int k * 10 ^ 7 \<le> clock k)"

lemma waitForConns_ends:
  assumes "polls_advance now clock"
  shows "\<exists>w k. waitForConns clock seen now limit want = Some (w, k) \<and> (w = None \<longleftrightarrow> (\<exists>k. clock k < now + limit \<and> want \<le> seen k))"
proof -
  have "limit \<le> int (nat limit) * 10 ^ 7" by (cases "0 \<le> limit") simp_all
  then have "now + limit \<le> clock (nat limit)" using assms unfolding polls_advance_def by (meson add_left_mono order_trans)
  with wait_from_ends [of clock "now + limit" "nat limit" seen want 0] assms show ?thesis by (auto simp: waitForConns_def polls_advance_def)
qed

section \<open>Connecting the clients\<close>

lemma connect_all:
  assumes "\<And>j. i \<le> j \<Longrightarrow> j < i + n \<Longrightarrow> pk_connect pk j = Some (None, c j)"
  shows "connect_clients pk env i n b = Some (None, b\<lparr>bn_clients := bn_clients b @ map c [i..<i + n], bn_server := fold env [i..<i + n] (bn_server b)\<rparr>)"
  using assms
proof (induction n arbitrary: i b)
  case (Suc n)
  let ?b = "b\<lparr>bn_server := env i (bn_server b), bn_clients := bn_clients b @ [c i]\<rparr>"
  have "pk_connect pk i = Some (None, c i)" using Suc.prems by simp
  moreover have "connect_clients pk env (Suc i) n ?b = Some (None, ?b\<lparr>bn_clients := bn_clients ?b @ map c [Suc i..<Suc i + n], bn_server := fold env [Suc i..<Suc i + n] (bn_server ?b)\<rparr>)"
    using Suc.prems by (intro Suc.IH) simp
  ultimately show ?case by (simp add: upt_conv_Cons Let_def del: upt_Suc)
qed simp

lemma connect_until_error:
  assumes "m < n" and "\<And>j. i \<le> j \<Longrightarrow> j < i + m \<Longrightarrow> pk_connect pk j = Some (None, c j)" and "pk_connect pk (i + m) = Some (Some e, c')"
  shows "connect_clients pk env i n b =
    Some (Some (ConnectErr (i + m) e), b\<lparr>bn_clients := bn_clients b @ map c [i..<i + m], bn_server := fold env [i..<Suc (i + m)] (bn_server b)\<rparr>)"
  using assms
proof (induction m arbitrary: i n b)
  case 0
  then obtain n' where "n = Suc n'" by (cases n) auto
  with 0 show ?case by (simp add: Let_def)
next
  case (Suc m)
  then obtain n' where n: "n = Suc n'" "m < n'" by (cases n) auto
  let ?b = "b\<lparr>bn_server := env i (bn_server b), bn_clients := bn_clients b @ [c i]\<rparr>"
  have "pk_connect pk i = Some (None, c i)" using Suc.prems(2) by simp
  moreover have "connect_clients pk env (Suc i) n' ?b =
    Some (Some (ConnectErr (Suc i + m) e), ?b\<lparr>bn_clients := bn_clients ?b @ map c [Suc i..<Suc i + m], bn_server := fold env [Suc i..<Suc (Suc i + m)] (bn_server ?b)\<rparr>)"
    using Suc.prems n(2) by (intro Suc.IH) simp_all
  ultimately show ?case using n(1) by (simp add: upt_conv_Cons Let_def del: upt_Suc)
qed

lemma bench_count_pos: "0 < nat (bench_count b)"
  by (auto simp: bench_count_def)

lemma bench_count_server: "bench_count (b\<lparr>bn_server := s\<rparr>) = bench_count b"
  and bench_count_ctx: "bench_count (b\<lparr>bn_ctx := x\<rparr>) = bench_count b" and bench_count_clients: "bench_count (b\<lparr>bn_clients := cs\<rparr>) = bench_count b"
  by (simp_all add: bench_count_def)

lemmas bench_counts = bench_count_server bench_count_ctx bench_count_clients

section \<open>Properties\<close>

text \<open>When the server starts and the clients connect, \<open>Start\<close> returns, with one client per receiver (at least one), and reports success
  exactly when at some poll within the waiting time the server has reported that many connections; the wait always ends, because every poll but the first
  comes ten milliseconds after the one before.\<close>

lemma bench_start_ready:
  assumes start: "pk_start pk (bn_server b) = Some (None, s0)" and connect: "\<And>i. i < nat (bench_count b) \<Longrightarrow> pk_connect pk i = Some (None, c i)"
    and clock: "polls_advance now clock" and fresh: "bn_clients b = []"
  shows "\<exists>err b'. bench_Start pk env later now clock b = Some (err, b') \<and> bn_clients b' = map c [0..<nat (bench_count b)] \<and>
    (err = None \<longleftrightarrow> (\<exists>k. clock k < now + pk_wait pk \<and> bench_count b \<le> pk_conns pk (later k (fold env [0..<nat (bench_count b)] s0))))"
proof -
  let ?n = "nat (bench_count b)"
  let ?b0 = "(if pk_ctx pk then b\<lparr>bn_ctx := Some False\<rparr> else b)\<lparr>bn_server := s0\<rparr>"
  let ?b1 = "?b0\<lparr>bn_clients := bn_clients ?b0 @ map c [0..<?n], bn_server := fold env [0..<?n] s0\<rparr>"
  have s0: "pk_start pk (bn_server (if pk_ctx pk then b\<lparr>bn_ctx := Some False\<rparr> else b)) = Some (None, s0)" using start by simp
  have n0: "bench_count ?b0 = bench_count b" by (simp add: bench_counts)
  have cn: "connect_clients pk env 0 ?n ?b0 = Some (None, ?b1)" using connect_all [of 0 ?n pk c env ?b0] connect by simp
  have n1: "bench_count ?b1 = bench_count b" by (simp add: bench_counts)
  obtain w k where w: "waitForConns clock (\<lambda>k. pk_conns pk (later k (bn_server ?b1))) now (pk_wait pk) (bench_count b) = Some (w, k)"
    and iff: "w = None \<longleftrightarrow> (\<exists>k. clock k < now + pk_wait pk \<and> bench_count b \<le> pk_conns pk (later k (bn_server ?b1)))"
    using waitForConns_ends [OF clock] by blast
  have "bench_Start pk env later now clock b = Some (map_option (ConnTimeout (bench_count b)) w, ?b1\<lparr>bn_server := later k (bn_server ?b1)\<rparr>)"
    unfolding bench_Start_def Let_def s0 bind.bind_lunit prod.case option.case n0 cn n1 w ..
  moreover have "bn_clients (?b1\<lparr>bn_server := later k (bn_server ?b1)\<rparr>) = map c [0..<?n]" using fresh by simp
  moreover have "map_option (ConnTimeout (bench_count b)) w = None \<longleftrightarrow>
      (\<exists>k. clock k < now + pk_wait pk \<and> bench_count b \<le> pk_conns pk (later k (fold env [0..<?n] s0)))" using iff by simp
  ultimately show ?thesis by (intro exI conjI)
qed

text \<open>A connection that fails makes \<open>Start\<close> fail with the server running and the earlier clients connected, and the runner, which stops only a transport
  whose \<open>Start\<close> succeeded, leaves them so.\<close>

lemma bench_failed_start_leaks:
  assumes start: "pk_start pk (bn_server b) = Some (None, s0)" and m: "m < nat (bench_count b)" and ok: "\<And>i. i < m \<Longrightarrow> pk_connect pk i = Some (None, c i)"
    and fails: "pk_connect pk m = Some (Some e, c')" and fresh: "bn_clients b = []"
    and run: "gomap_get facs (sc_Protocol cfg) = Some f" "f cfg = Some b"
      "env_Start env = (\<lambda>b. case bench_Start pk turns later now clock b of Some (err, b') \<Rightarrow> (err \<noteq> None, b') | None \<Rightarrow> (True, b))"
  shows "\<exists>b'. Run env facs cfg rec seed gs tm warm meas = Some (Inl StartTransport, Some b', []) \<and>
     bn_clients b' = map c [0..<m] \<and> bn_server b' = fold turns [0..<Suc m] s0"
proof -
  let ?b0 = "(if pk_ctx pk then b\<lparr>bn_ctx := Some False\<rparr> else b)\<lparr>bn_server := s0\<rparr>"
  let ?b1 = "?b0\<lparr>bn_clients := bn_clients ?b0 @ map c [0..<m], bn_server := fold turns [0..<Suc m] s0\<rparr>"
  have s0: "pk_start pk (bn_server (if pk_ctx pk then b\<lparr>bn_ctx := Some False\<rparr> else b)) = Some (None, s0)" using start by simp
  have n0: "bench_count ?b0 = bench_count b" by (simp add: bench_counts)
  have cn: "connect_clients pk turns 0 (nat (bench_count b)) ?b0 = Some (Some (ConnectErr m e), ?b1)"
    using connect_until_error [of m "nat (bench_count b)" 0 pk c e c' turns ?b0] m ok fails by simp
  have "bench_Start pk turns later now clock b = Some (Some (ConnectErr m e), ?b1)"
    unfolding bench_Start_def Let_def s0 bind.bind_lunit prod.case option.case n0 cn ..
  then have "env_Start env b = (True, ?b1)" by (simp add: run(3))
  then have "Run env facs cfg rec seed gs tm warm meas = Some (Inl StartTransport, Some ?b1, [])" by (rule run_errors(3) [OF run(1,2)])
  moreover have "bn_clients ?b1 = map c [0..<m]" "bn_server ?b1 = fold turns [0..<Suc m] s0" using fresh by simp_all
  ultimately show ?thesis by blast
qed

text \<open>\<open>Stop\<close> closes every client once: a second \<open>Stop\<close> has none left and only asks the server again.\<close>

lemma bench_stop_once:
  assumes "bench_Stop pk b = Some (err, shut_clients, b')"
  shows "those (map (pk_close pk) (bn_clients b)) = Some shut_clients \<and> length shut_clients = length (bn_clients b) \<and> bn_clients b' = [] \<and>
     bench_Stop pk b' = map_option (\<lambda>(err, s). (err, [], b'\<lparr>bn_ctx := map_option (\<lambda>_. True) (bn_ctx b'), bn_server := s\<rparr>)) (pk_stop pk (bn_server b'))"
proof -
  have c: "those (map (pk_close pk) (bn_clients b)) = Some shut_clients" "bn_clients b' = []"
    using assms by (auto simp: bench_Stop_def Let_def bind_eq_Some_conv)
  have "length shut_clients = length xs" if "those (map g xs) = Some shut_clients" for g :: "'b \<Rightarrow> 'b option" and xs
    using that by (induction xs arbitrary: shut_clients) (auto split: option.splits)
  moreover have "bench_Stop pk b' = map_option (\<lambda>(err, s). (err, [], b'\<lparr>bn_ctx := map_option (\<lambda>_. True) (bn_ctx b'), bn_server := s\<rparr>)) (pk_stop pk (bn_server b'))"
    using c(2) by (cases b', cases "pk_stop pk (bn_server b')") (auto simp: bench_Stop_def Let_def)
  ultimately show ?thesis using c by blast
qed

end
