(* ===== verification/Spec2Isabelle.thy ===== *)
theory Spec2Isabelle
  imports Wire Sequence Registry Market Router Broadcast Resources Recorder Generators Transport_Base Collector Scenario Tcp Udp Netem Sse Ws_Servers Ws_Clients Http Http3 Epoll Iou Webtransport Webrtc Bench
begin

text \<open>
  Verification of the benchmark laboratory under \<^verbatim>\<open>src/benchmark-lab\<close>, a Go program that measures how well different
  protocols broadcast market data. All paths below are relative to that directory.

  \<^bold>\<open>The program.\<close> The scenario runner (\<^verbatim>\<open>internal/scenarios\<close>) makes a transport for a protocol, starts it, broadcasts generated
  messages through it for a warm-up and a measurement phase, and builds a result from what the recorder counted. A bench
  transport (\<^verbatim>\<open>internal/*/register.go\<close>) is a server of the protocol with as many clients as the scenario asks for. A server keeps a registry or a
  concurrent map of connections, each with a bounded channel; \<open>Broadcast\<close> encodes a wire frame (\<^verbatim>\<open>pkg/wire\<close>) and offers it to every channel,
  a goroutine per connection writes it to the network. A client decodes what arrives and reports it to the recorder (\<^verbatim>\<open>pkg/metrics\<close>), which
  keeps a sequence tracker per connection. Beside this stand the market data domain with its topic router (\<^verbatim>\<open>pkg/market\<close>), the
  fan-out strategies (\<^verbatim>\<open>internal/broadcast\<close>), the result collectors (\<^verbatim>\<open>pkg/collector\<close>) and network impairment (\<^verbatim>\<open>pkg/network\<close>).

  \<^bold>\<open>How the code is modelled.\<close> Structs are records, and an operation is a function on the record with the guards and early returns of the
  code. Fixed-width integers are words and wrap around; lengths and indices are natural numbers. A panic is \<open>None\<close> of an option, an error
  is a value of a sum or option. An object that is reached through pointers lives in a store (a list) of its server, and maps hold its
  index. Map iteration is in any order: a parameter \<open>ord\<close> that permutes the entries (\<open>range_order\<close>). A goroutine is a function for one
  turn of its loop, which takes what its \<open>select\<close> picked or what its call returned as an argument; a concurrent execution is a list of such
  turns and calls, run by \<open>run_opt\<close> over the component's step function. The clock, the operating system, the network and the
  third-party libraries are arguments; what is relied on of them is a named hypothesis (\<open>hdr_ok\<close> for the histogram library, \<open>tc_ok\<close> for the
  \<^verbatim>\<open>tc\<close> program, \<open>kernel_executes\<close> for \<^verbatim>\<open>io_uring_enter\<close>), which the witness of a property that uses it discharges for a concrete function.

  \<^bold>\<open>The theories.\<close>

  \<^item> \<open>Prelude\<close>: words and bytes, slices, \<open>encoding/binary\<close>, runs, and the locale \<open>refinement\<close> (an operation on a concrete state follows one on an
    abstract state; so do runs). \<open>Containers\<close>: Go maps, FNV-1a, the locales \<open>keyed_pool\<close> (what registers something under an identifier is a map) and
    \<open>sharded_pool\<close> (an array of such pools is one). \<open>Go_Std\<close>: \<open>sync.Map\<close>, Base64, \<open>Sscanf\<close>, \<open>bufio.Scanner\<close>. \<open>Channels\<close>: the locale
    \<open>send_queue\<close> (offers to a bounded channel and a draining goroutine). \<open>Fanout\<close>: the locale \<open>fanout\<close> (what one connection of a
    broadcasting server sees of a run). \<open>Reception\<close>: decoding and recording of a received payload.
  \<^item> \<open>Wire\<close>: \<^verbatim>\<open>pkg/wire/frame.go\<close>. Round trips, the exact set of accepted buffers, errors, burst detection of the CRC.
  \<^item> \<open>Sequence\<close>, \<open>Resources\<close>, \<open>Recorder\<close>: \<^verbatim>\<open>pkg/metrics\<close>. The tracker at word level refines a set of received numbers over whole runs, the largest
    number included, where the frontier wraps; the counts are exact within the window; what \<open>Flush\<close> does, and when it does not
    end. The sampler's life cycle and sort, the recorder's counters and snapshots.
  \<^item> \<open>Market\<close>, \<open>Router\<close>: \<^verbatim>\<open>pkg/market\<close>. The tick codec in both directions, price arithmetic at \<open>int64\<close>, the instruments as data; the router refines the
    function from instruments to subscribers, sequentially and for interleaved critical sections.
  \<^item> \<open>Generators\<close>: \<^verbatim>\<open>pkg/generator\<close>, with the locale \<open>frame_generator\<close>. \<open>Collector\<close>: \<^verbatim>\<open>pkg/collector\<close>. \<open>Netem\<close>: \<^verbatim>\<open>pkg/network\<close>, argument construction and the
    state of the interface after any calls, with \<^verbatim>\<open>tc\<close> failing at will.
  \<^item> \<open>Registry\<close>, \<open>Transport_Base\<close>: \<^verbatim>\<open>pkg/transport\<close>. The sharded registry is one map; a snapshot during concurrent updates.
  \<^item> \<open>Broadcast\<close>, \<open>Epoll\<close>, \<open>Iou\<close>: \<^verbatim>\<open>internal/broadcast\<close>. Registrations agree; the worker pool as a step relation over all schedules; order and
    completeness of the sharded deliveries and their race with \<open>Remove\<close>, on the backing arrays of the slices; the epoll workers
    account for every payload exactly once; the io_uring rings with wrapping indices, short counts and failed calls.
  \<^item> \<open>Scenario\<close>, \<open>Bench\<close>: \<^verbatim>\<open>internal/scenarios\<close> and the eleven \<^verbatim>\<open>register.go\<close>. What a run measures, the loss report; starting and stopping a
    bench transport, what a failed start leaves behind.
  \<^item> \<open>Tcp\<close>, \<open>Udp\<close>, \<open>Sse\<close>, \<open>Ws_Base\<close>, \<open>Ws_Servers\<close>, \<open>Ws_Clients\<close>, \<open>Hub\<close>, \<open>Http\<close>, \<open>Http3\<close>, \<open>Webtransport\<close>, \<open>Webrtc\<close>: the packages of \<^verbatim>\<open>internal\<close> of the same
    names, servers and clients. The three WebSocket servers are instances of \<open>Ws_Base\<close>, their read pumps interpretations of
    \<open>ws_reader\<close>; the HTTP servers keep a \<open>Hub\<close> of streams, the locale \<open>hub_server\<close>. For each transport: its invariant over runs, and
    that what is broadcast reaches a client's handler once, in order and unchanged; where it does not, the run that shows it.

  \<^bold>\<open>Interfaces.\<close> Interpretations on the program's own definitions: \<open>keyed_pool\<close> by the registry and the naive broadcaster, \<open>sharded_pool\<close> by the
  worker-pool and the sharded broadcaster; \<open>refinement\<close> by the tracker (\<open>Observe\<close> alone, and with \<open>Reset\<close>), the router and the replay ring; \<open>send_queue\<close> by TCP connections
  and by the lanes of \<open>Fanout\<close>; \<open>fanout\<close> by the event streams directly and by the WebSocket and HTTP servers through sublocales of \<open>ws_reader\<close> and
  \<open>hub_server\<close>; \<open>frame_generator\<close> by three generators.

  \<^bold>\<open>Bounds.\<close> Channels hold 256 messages in the code (\<open>tcpWriteChanCap\<close> and the like), so 256 turns of a writer empty one, and everything arrives when
  at most 256 messages are offered; beyond that a subsequence arrives. TCP frames are limited to 8 MiB (\<open>tcpMaxFrameSize\<close>), the messages the HTTP/1.1, HTTP/2 and gorilla clients
  accept to \<open>2 ^ 20\<close> bytes, and the client of the event stream to 49122 bytes by the 64 KiB lines of its scanner (\<open>sse_max_payload\<close>). Dialling makes ten attempts
  and waits at most 42.6 s. The only loops that may not end, \<open>flush_loop\<close> and \<open>wait_from\<close>, are partial functions, and when they end is
  proved. There is no fuel: loops over what the environment delivers are recursions over the list or number of deliveries, which is an
  argument. (\<open>connectStream\<close> and \<open>c3_connect\<close> take the number of lines or frames after which the context is cancelled.)

  \<^bold>\<open>What a step is.\<close> A critical section, an atomic operation or a turn of a goroutine. Coarser than the code: \<open>Broadcast\<close> of the
  TCP, SSE, WebSocket, HTTP and epoll components, which in the code may overlap with another \<open>Broadcast\<close> (for SSE the halves
  \<open>Broadcast_record\<close>, \<open>Broadcast_range\<close>, \<open>handleEvents_replay\<close> and \<open>handleEvents_store\<close> are separate too, and what comes between them is
  stated); a network write with the counters updated after it; and a reception with respect to the recorder's reset and snapshots.
  Statements about statistics therefore hold between turns. Data races as such are not modelled, except where the model keeps the shared memory (the slices
  of the sharded broadcaster and the submission ring).

  \<^bold>\<open>Not modelled.\<close> Logging, deadlines and TLS; the exporter to Prometheus, the readings of the operating system, socket options, certificates,
  reporters and command-line programs, which only format, wire up or call the system; the database behind the PostgreSQL
  collector. Floating point is rational arithmetic, with rounding where a claim depends on it (dial backoff, the arguments of \<^verbatim>\<open>tc\<close>).
\<close>

end
